(* ===== verification/Signals_Prelude.thy ===== *)
theory Signals_Prelude
  imports Main "HOL-Library.Word" "HOL-Library.Monad_Syntax"
begin

text \<open>
  What every component of the development shares: C pointers and heap cells, faults,
  assertions, and the generic lemmas that carry the component proofs.

  A C execution that is undefined, fails an assertion or never comes back (a spin lock
  taken twice by one thread, a loop with no exit) has the value \<^term>\<open>None\<close>; the
  value \<^term>\<open>Some r\<close> is an execution that ends normally with \<^term>\<open>r\<close>. A pointer is an
  \<^typ>\<open>nat option\<close>: \<^term>\<open>None\<close> is the null pointer. A heap is a partial map from addresses to
  objects: an address outside its domain was never allocated or has been freed, so
  dereferencing it is a fault.
\<close>

section \<open>Pointers and heaps\<close>

type_synonym addr = nat
type_synonym ptr = "addr option"
type_synonym 'a heap = "addr \<Rightarrow> 'a option"

named_theorems fault_simps \<open>unfolding of faulting operations\<close>
named_theorems heap_frame \<open>what a heap operation leaves unchanged\<close>

definition deref :: "'a heap \<Rightarrow> ptr \<Rightarrow> 'a option" where
  "deref h p = (case p of None \<Rightarrow> None | Some a \<Rightarrow> h a)"

definition store :: "'a heap \<Rightarrow> ptr \<Rightarrow> ('a \<Rightarrow> 'a) \<Rightarrow> 'a heap option" where
  "store h p f =
     (case p of None \<Rightarrow> None
      | Some a \<Rightarrow> (case h a of None \<Rightarrow> None | Some x \<Rightarrow> Some (h(a \<mapsto> f x))))"

definition free_cell :: "'a heap \<Rightarrow> addr \<Rightarrow> 'a heap option" where
  "free_cell h a = (if h a = None then None else Some (h(a := None)))"

definition assert_that :: "bool \<Rightarrow> unit option" where
  "assert_that b = (if b then Some () else None)"

lemma deref_simps [simp, fault_simps]:
  "deref h None = None"
  "deref h (Some a) = h a"
  by (simp_all add: deref_def)

lemma store_simps [simp, fault_simps]:
  "store h None f = None"
  "h a = None \<Longrightarrow> store h (Some a) f = None"
  "h a = Some x \<Longrightarrow> store h (Some a) f = Some (h(a \<mapsto> f x))"
  by (simp_all add: store_def)

lemma free_cell_simps [simp, fault_simps]:
  "h a = None \<Longrightarrow> free_cell h a = None"
  "h a = Some x \<Longrightarrow> free_cell h a = Some (h(a := None))"
  by (simp_all add: free_cell_def)

lemma assert_that_simps [simp, fault_simps]:
  "assert_that True = Some ()"
  "assert_that False = None"
  by (simp_all add: assert_that_def)

lemma assert_that_eq_Some [simp]: "assert_that b = Some u \<longleftrightarrow> b"
  by (cases b) simp_all

lemma store_eq_Some:
  "store h p f = Some h' \<longleftrightarrow> (\<exists>a x. p = Some a \<and> h a = Some x \<and> h' = h(a \<mapsto> f x))"
  by (auto simp: store_def split: option.splits)

lemma free_cell_eq_Some:
  "free_cell h a = Some h' \<longleftrightarrow> h a \<noteq> None \<and> h' = h(a := None)"
  by (auto simp: free_cell_def)

lemmas bind_Some_conv = Option.bind_eq_Some_conv

section \<open>Error codes\<close>

text \<open>The \<^verbatim>\<open>errno\<close> values the library sets, with the numbers of Linux.\<close>

definition EINVAL :: int where "EINVAL = 22"
definition ENOMEM :: int where "ENOMEM = 12"

section \<open>Generic lemmas on lists\<close>

lemma hd_option_Cons: "xs \<noteq> [] \<Longrightarrow> \<exists>y ys. xs = y # ys"
  by (cases xs) auto

lemma distinct_split_unique:
  "distinct (us @ x # vs) \<Longrightarrow> remove1 x (us @ x # vs) = us @ vs"
  by (auto simp: remove1_append)

end
