(* ===== verification/Sigset.thy ===== *)
theory Sigset
  imports Signals_Prelude
begin

unbundle bit_operations_syntax

text \<open>
  Signal numbers and signal sets. On Windows \<^verbatim>\<open>thrd_signal_handle.h\<close> supplies its own
  \<^verbatim>\<open>sigset_t\<close>, a 32-bit set, modelled here bit for bit; on POSIX the host's is used,
  modelled by its documented contract as a set of signal numbers. The locale
  \<open>sigset_ops\<close> states the contract the rest of the library relies on; both
  representations are interpretations of it. The three \<^verbatim>\<open>sigfillset_*\<close> functions of
  both backends are built on it.
\<close>

section \<open>Signal numbers\<close>

text \<open>The numbering of Linux, and the upper bound of its standard and realtime signals.\<close>

definition NSIG :: int where "NSIG = 65"

definition SIGHUP :: int where "SIGHUP = 1"
definition SIGINT :: int where "SIGINT = 2"
definition SIGQUIT :: int where "SIGQUIT = 3"
definition SIGILL :: int where "SIGILL = 4"
definition SIGTRAP :: int where "SIGTRAP = 5"
definition SIGABRT :: int where "SIGABRT = 6"
definition SIGBUS :: int where "SIGBUS = 7"
definition SIGFPE :: int where "SIGFPE = 8"
definition SIGKILL :: int where "SIGKILL = 9"
definition SIGUSR1 :: int where "SIGUSR1 = 10"
definition SIGSEGV :: int where "SIGSEGV = 11"
definition SIGUSR2 :: int where "SIGUSR2 = 12"
definition SIGPIPE :: int where "SIGPIPE = 13"
definition SIGALRM :: int where "SIGALRM = 14"
definition SIGTERM :: int where "SIGTERM = 15"
definition SIGCHLD :: int where "SIGCHLD = 17"
definition SIGCONT :: int where "SIGCONT = 18"
definition SIGSTOP :: int where "SIGSTOP = 19"
definition SIGTSTP :: int where "SIGTSTP = 20"
definition SIGTTIN :: int where "SIGTTIN = 21"
definition SIGTTOU :: int where "SIGTTOU = 22"
definition SIGURG :: int where "SIGURG = 23"
definition SIGXCPU :: int where "SIGXCPU = 24"
definition SIGXFSZ :: int where "SIGXFSZ = 25"
definition SIGVTALRM :: int where "SIGVTALRM = 26"
definition SIGPROF :: int where "SIGPROF = 27"
definition SIGWINCH :: int where "SIGWINCH = 28"
definition SIGPOLL :: int where "SIGPOLL = 29"
definition SIGSYS :: int where "SIGSYS = 31"
definition SIGRTMIN :: int where "SIGRTMIN = 34"
definition SIGRTMAX :: int where "SIGRTMAX = 64"

lemmas signo_defs =
  SIGHUP_def SIGINT_def SIGQUIT_def SIGILL_def SIGTRAP_def SIGABRT_def SIGBUS_def SIGFPE_def
  SIGKILL_def SIGUSR1_def SIGSEGV_def SIGUSR2_def SIGPIPE_def SIGALRM_def SIGTERM_def
  SIGCHLD_def SIGCONT_def SIGSTOP_def SIGTSTP_def SIGTTIN_def SIGTTOU_def SIGURG_def
  SIGXCPU_def SIGXFSZ_def SIGVTALRM_def SIGPROF_def SIGWINCH_def SIGPOLL_def SIGSYS_def
  SIGRTMIN_def SIGRTMAX_def NSIG_def

text \<open>The numbers of the Microsoft C runtime, with the three the header adds to it.\<close>

definition W_SIGINT :: int where "W_SIGINT = 2"
definition W_SIGILL :: int where "W_SIGILL = 4"
definition W_SIGBUS :: int where "W_SIGBUS = 7"
definition W_SIGFPE :: int where "W_SIGFPE = 8"
definition W_SIGKILL :: int where "W_SIGKILL = 9"
definition W_SIGSEGV :: int where "W_SIGSEGV = 11"
definition W_SIGTERM :: int where "W_SIGTERM = 15"
definition W_SIGSTOP :: int where "W_SIGSTOP = 19"
definition W_SIGABRT :: int where "W_SIGABRT = 22"

lemmas w_signo_defs =
  W_SIGINT_def W_SIGILL_def W_SIGBUS_def W_SIGFPE_def W_SIGKILL_def W_SIGSEGV_def
  W_SIGTERM_def W_SIGSTOP_def W_SIGABRT_def

section \<open>The Windows bit set\<close>

text \<open>
  Each operation returns its C return value, the value it assigns to \<^verbatim>\<open>errno\<close> if it
  assigns one, and the new set.
\<close>

type_synonym win_sigset = "32 word"

definition win_sigemptyset :: "win_sigset \<Rightarrow> int \<times> int option \<times> win_sigset" where
  "win_sigemptyset ss = (0, None, 0)"

definition win_sigfillset :: "win_sigset \<Rightarrow> int \<times> int option \<times> win_sigset" where
  "win_sigfillset ss = (0, None, 0xFFFFFFFF)"

definition win_sigaddset :: "win_sigset \<Rightarrow> int \<Rightarrow> int \<times> int option \<times> win_sigset" where
  "win_sigaddset ss signo =
     (if signo < 1 \<or> signo > 32 then (-1, Some EINVAL, ss)
      else (0, None, ss OR push_bit (nat (signo - 1)) 1))"

definition win_sigdelset :: "win_sigset \<Rightarrow> int \<Rightarrow> int \<times> int option \<times> win_sigset" where
  "win_sigdelset ss signo =
     (if signo < 1 \<or> signo > 32 then (-1, Some EINVAL, ss)
      else (0, None, ss AND NOT (push_bit (nat (signo - 1)) 1)))"

definition win_sigismember :: "win_sigset \<Rightarrow> int \<Rightarrow> int \<times> int option" where
  "win_sigismember ss signo =
     (if signo < 1 \<or> signo > 32 then (-1, Some EINVAL)
      else (if ss AND push_bit (nat (signo - 1)) 1 \<noteq> 0 then 1 else 0, None))"

lemma win_sigismember_bit:
  "1 \<le> n \<Longrightarrow> n \<le> 32 \<Longrightarrow>
    win_sigismember ss n = (if bit ss (nat (n - 1)) then 1 else 0, None)"
  by (simp add: win_sigismember_def and_exp_eq_0_iff_not_bit)

lemma bit_all_ones: "bit (0xFFFFFFFF :: 32 word) k \<longleftrightarrow> k < 32"
proof -
  have "(0xFFFFFFFF :: 32 word) = - 1" by simp
  then show ?thesis by (simp only: bit_minus_1_iff possible_bit_word) simp
qed

section \<open>The POSIX set, by its contract\<close>

type_synonym sigset = "int set"

definition sigemptyset :: "sigset" where
  "sigemptyset = {}"

definition sigfillset :: "sigset" where
  "sigfillset = {1..<NSIG}"

definition sigaddset :: "sigset \<Rightarrow> int \<Rightarrow> sigset" where
  "sigaddset ss signo = (if 1 \<le> signo \<and> signo < NSIG then insert signo ss else ss)"

definition sigdelset :: "sigset \<Rightarrow> int \<Rightarrow> sigset" where
  "sigdelset ss signo = (if 1 \<le> signo \<and> signo < NSIG then ss - {signo} else ss)"

definition sigismember :: "sigset \<Rightarrow> int \<Rightarrow> bool" where
  "sigismember ss signo \<longleftrightarrow> 1 \<le> signo \<and> signo < NSIG \<and> signo \<in> ss"

section \<open>The contract of a signal set\<close>

locale sigset_ops =
  fixes valid :: "int \<Rightarrow> bool"
    and empty_set :: "'s"
    and fill_set :: "'s"
    and add :: "'s \<Rightarrow> int \<Rightarrow> 's"
    and del :: "'s \<Rightarrow> int \<Rightarrow> 's"
    and mem :: "'s \<Rightarrow> int \<Rightarrow> bool"
  assumes mem_empty: "\<not> mem empty_set n"
    and mem_fill: "valid n \<Longrightarrow> mem fill_set n"
    and mem_add: "valid m \<Longrightarrow> mem (add s m) n \<longleftrightarrow> n = m \<or> mem s n"
    and mem_del: "valid m \<Longrightarrow> mem (del s m) n \<longleftrightarrow> n \<noteq> m \<and> mem s n"
    and mem_valid: "mem s n \<Longrightarrow> valid n"
begin

lemma mem_fold_add:
  "\<forall>m \<in> set ms. valid m \<Longrightarrow> mem (fold (\<lambda>m s. add s m) ms s) n \<longleftrightarrow> n \<in> set ms \<or> mem s n"
  by (induction ms arbitrary: s) (auto simp: mem_add)

lemma mem_of_list:
  "\<forall>m \<in> set ms. valid m \<Longrightarrow> mem (fold (\<lambda>m s. add s m) ms empty_set) n \<longleftrightarrow> n \<in> set ms"
  by (simp add: mem_fold_add mem_empty)

lemma mem_fold_del:
  "\<forall>m \<in> set ms. valid m \<Longrightarrow> mem (fold (\<lambda>m s. del s m) ms s) n \<longleftrightarrow> n \<notin> set ms \<and> mem s n"
  by (induction ms arbitrary: s) (auto simp: mem_del)

lemma add_del_mem: "valid m \<Longrightarrow> mem (del (add s m) m) n \<longleftrightarrow> n \<noteq> m \<and> mem s n"
  by (auto simp: mem_add mem_del)

end

abbreviation win_valid :: "int \<Rightarrow> bool" where
  "win_valid n \<equiv> 1 \<le> n \<and> n \<le> 32"

abbreviation win_mem :: "win_sigset \<Rightarrow> int \<Rightarrow> bool" where
  "win_mem ss n \<equiv> fst (win_sigismember ss n) = 1"

lemma win_mem_bit: "win_mem ss n \<longleftrightarrow> win_valid n \<and> bit ss (nat (n - 1))"
  by (cases "win_valid n") (auto simp: win_sigismember_bit, auto simp: win_sigismember_def)

interpretation win: sigset_ops win_valid
  "snd (snd (win_sigemptyset ss0))" "snd (snd (win_sigfillset ss0))"
  "\<lambda>ss n. snd (snd (win_sigaddset ss n))" "\<lambda>ss n. snd (snd (win_sigdelset ss n))" win_mem
  for ss0
proof unfold_locales
  show "win_valid n \<Longrightarrow> win_mem (snd (snd (win_sigfillset ss0))) n" for n
    unfolding win_mem_bit win_sigfillset_def snd_conv bit_all_ones by auto
qed (auto simp: win_mem_bit win_sigemptyset_def win_sigaddset_def win_sigdelset_def bit_simps
    nat_eq_iff2)

interpretation posix: sigset_ops "\<lambda>n. 1 \<le> n \<and> n < NSIG" sigemptyset sigfillset
  sigaddset sigdelset sigismember
  by unfold_locales
    (auto simp: sigemptyset_def sigfillset_def sigaddset_def sigdelset_def sigismember_def)

section \<open>The platform sets\<close>

text \<open>
  \<^verbatim>\<open>synchronous_sigset()\<close> and its siblings keep the computed set in a static variable: the
  first call fills it from a table of signal numbers, later calls recognise it by the first
  number of the table. The argument \<open>v\<close> is the static variable, the result its new value,
  which is also the value returned.
\<close>

definition sync_signos :: "int list" where
  "sync_signos = [SIGABRT, SIGBUS, SIGFPE, SIGILL, SIGPIPE, SIGSEGV, SIGSYS]"

definition async_nondebug_signos :: "int list" where
  "async_nondebug_signos =
     [SIGALRM, SIGCHLD, SIGCONT, SIGHUP, SIGINT, SIGKILL, SIGSTOP, SIGTERM, SIGTSTP, SIGTTIN,
      SIGTTOU, SIGUSR1, SIGUSR2, SIGPOLL, SIGPROF, SIGURG, SIGVTALRM]"

definition async_debug_signos :: "int list" where
  "async_debug_signos = [SIGQUIT, SIGTRAP, SIGXCPU, SIGXFSZ]"

definition synchronous_sigset :: "sigset \<Rightarrow> sigset" where
  "synchronous_sigset v =
     (if sigismember v (sync_signos ! 0) then v
      else fold (\<lambda>n x. sigaddset x n) sync_signos sigemptyset)"

definition asynchronous_nondebug_sigset :: "sigset \<Rightarrow> sigset" where
  "asynchronous_nondebug_sigset v =
     (if sigismember v (async_nondebug_signos ! 0) then v
      else fold (\<lambda>n x. sigaddset x n) async_nondebug_signos sigemptyset)"

definition asynchronous_debug_sigset :: "sigset \<Rightarrow> sigset" where
  "asynchronous_debug_sigset v =
     (if sigismember v (async_debug_signos ! 0) then v
      else fold (\<lambda>n x. sigaddset x n) async_debug_signos sigemptyset)"

text \<open>The public functions: return value, new static variable, filled set.\<close>

definition sigfillset_synchronous :: "sigset \<Rightarrow> int \<times> sigset \<times> sigset" where
  "sigfillset_synchronous v = (let v = synchronous_sigset v in (0, v, v))"

definition sigfillset_asynchronous_nondebug :: "sigset \<Rightarrow> int \<times> sigset \<times> sigset" where
  "sigfillset_asynchronous_nondebug v = (let v = asynchronous_nondebug_sigset v in (0, v, v))"

definition sigfillset_asynchronous_debug :: "sigset \<Rightarrow> int \<times> sigset \<times> sigset" where
  "sigfillset_asynchronous_debug v = (let v = asynchronous_debug_sigset v in (0, v, v))"

text \<open>The Windows backend has its own tables; its debug set is always empty.\<close>

definition w_sync_signos :: "int list" where
  "w_sync_signos = [W_SIGABRT, W_SIGBUS, W_SIGFPE, W_SIGILL, W_SIGSEGV]"

definition w_async_nondebug_signos :: "int list" where
  "w_async_nondebug_signos = [W_SIGINT, W_SIGKILL, W_SIGSTOP, W_SIGTERM]"

definition win_synchronous_sigset :: "win_sigset \<Rightarrow> win_sigset" where
  "win_synchronous_sigset v =
     (if fst (win_sigismember v (w_sync_signos ! 0)) \<noteq> 0 then v
      else fold (\<lambda>n x. snd (snd (win_sigaddset x n))) w_sync_signos (snd (snd (win_sigemptyset v))))"

definition win_asynchronous_nondebug_sigset :: "win_sigset \<Rightarrow> win_sigset" where
  "win_asynchronous_nondebug_sigset v =
     (if fst (win_sigismember v (w_async_nondebug_signos ! 0)) \<noteq> 0 then v
      else fold (\<lambda>n x. snd (snd (win_sigaddset x n))) w_async_nondebug_signos
        (snd (snd (win_sigemptyset v))))"

definition win_asynchronous_debug_sigset :: "win_sigset \<Rightarrow> win_sigset" where
  "win_asynchronous_debug_sigset v = snd (snd (win_sigemptyset v))"

definition win_sigfillset_synchronous :: "win_sigset \<Rightarrow> int \<times> win_sigset \<times> win_sigset" where
  "win_sigfillset_synchronous v = (let v = win_synchronous_sigset v in (0, v, v))"

definition win_sigfillset_asynchronous_nondebug :: "win_sigset \<Rightarrow> int \<times> win_sigset \<times> win_sigset" where
  "win_sigfillset_asynchronous_nondebug v = (let v = win_asynchronous_nondebug_sigset v in (0, v, v))"

definition win_sigfillset_asynchronous_debug :: "win_sigset \<Rightarrow> int \<times> win_sigset \<times> win_sigset" where
  "win_sigfillset_asynchronous_debug v = (let v = win_asynchronous_debug_sigset v in (0, v, v))"

lemmas signo_tables = sync_signos_def async_nondebug_signos_def async_debug_signos_def
  w_sync_signos_def w_async_nondebug_signos_def

text \<open>
  The static variables start out zero, the empty set. Whether a call is the first one or a
  later one, the set handed out holds exactly the signals of the table.
\<close>

lemma fold_sigaddset:
  "\<forall>m \<in> set ms. 1 \<le> m \<and> m < NSIG \<Longrightarrow> fold (\<lambda>n x. sigaddset x n) ms s = set ms \<union> s"
  by (induction ms arbitrary: s) (auto simp: sigaddset_def)

lemma signo_tables_valid:
  "\<forall>m \<in> set sync_signos. 1 \<le> m \<and> m < NSIG"
  "\<forall>m \<in> set async_nondebug_signos. 1 \<le> m \<and> m < NSIG"
  "\<forall>m \<in> set async_debug_signos. 1 \<le> m \<and> m < NSIG"
  "\<forall>m \<in> set w_sync_signos. win_valid m"
  "\<forall>m \<in> set w_async_nondebug_signos. win_valid m"
  by (simp_all add: signo_tables signo_defs w_signo_defs)

lemma lazy_set:
  assumes "v = sigemptyset \<or> v = set ms" "\<forall>m \<in> set ms. 1 \<le> m \<and> m < NSIG" "ms \<noteq> []"
  shows "(if sigismember v (ms ! 0) then v else fold (\<lambda>n x. sigaddset x n) ms sigemptyset) = set ms"
  using assms by (auto simp: fold_sigaddset sigemptyset_def sigismember_def)

lemma lazy_sets:
  "v = sigemptyset \<or> v = set sync_signos \<Longrightarrow> synchronous_sigset v = set sync_signos"
  "v = sigemptyset \<or> v = set async_nondebug_signos \<Longrightarrow>
    asynchronous_nondebug_sigset v = set async_nondebug_signos"
  "v = sigemptyset \<or> v = set async_debug_signos \<Longrightarrow>
    asynchronous_debug_sigset v = set async_debug_signos"
  unfolding synchronous_sigset_def asynchronous_nondebug_sigset_def asynchronous_debug_sigset_def
  by (rule lazy_set; (assumption | rule signo_tables_valid | simp add: signo_tables))+

text \<open>
  Functional. On POSIX the three \<^verbatim>\<open>sigfillset_*\<close> functions return zero and hand
  out the same set on the first call (static variable still zero) and on every later one;
  the three sets are pairwise disjoint and together classify every signal below the
  realtime range except three (16, 28 and 30 on Linux).
\<close>

theorem posix_platform_sets:
  "(\<forall>v \<in> {sigemptyset, set sync_signos}.
      sigfillset_synchronous v = (0, set sync_signos, set sync_signos))
   \<and> (\<forall>v \<in> {sigemptyset, set async_nondebug_signos}.
      sigfillset_asynchronous_nondebug v = (0, set async_nondebug_signos, set async_nondebug_signos))
   \<and> (\<forall>v \<in> {sigemptyset, set async_debug_signos}.
      sigfillset_asynchronous_debug v = (0, set async_debug_signos, set async_debug_signos))
   \<and> set sync_signos \<inter> set async_nondebug_signos = {}
   \<and> set sync_signos \<inter> set async_debug_signos = {}
   \<and> set async_nondebug_signos \<inter> set async_debug_signos = {}
   \<and> set sync_signos \<union> set async_nondebug_signos \<union> set async_debug_signos
       = {1..31} - {16, SIGWINCH, 30}"
proof (intro conjI)
  show "set sync_signos \<union> set async_nondebug_signos \<union> set async_debug_signos
       = {1..31} - {16, SIGWINCH, 30}"
    by (auto simp: signo_tables signo_defs) presburger
qed (auto simp: sigfillset_synchronous_def sigfillset_asynchronous_nondebug_def
  sigfillset_asynchronous_debug_def lazy_sets Let_def, auto simp: signo_tables signo_defs)

theorem posix_platform_sets_witness:
  "sigfillset_synchronous sigemptyset = (0, set sync_signos, set sync_signos)
   \<and> sigfillset_synchronous (set sync_signos) = (0, set sync_signos, set sync_signos)"
  using posix_platform_sets by simp

text \<open>
  Functional. The Windows 32-bit set meets the POSIX contract: a number outside 1 to
  32 is rejected with \<^verbatim>\<open>-1\<close> and \<^verbatim>\<open>EINVAL\<close> by all three operations and leaves the
  set alone; adding and deleting a valid number succeed and change membership of that
  number and of no other; membership of a valid number is reported as exactly 0 or 1.
\<close>

theorem win_sigset_contract:
  "(\<not> win_valid m \<longrightarrow>
      win_sigaddset ss m = (-1, Some EINVAL, ss) \<and> win_sigdelset ss m = (-1, Some EINVAL, ss)
      \<and> win_sigismember ss m = (-1, Some EINVAL))
   \<and> (win_valid m \<longrightarrow>
      (\<exists>a d. win_sigaddset ss m = (0, None, a) \<and> win_sigdelset ss m = (0, None, d)
        \<and> (\<forall>n. win_mem a n \<longleftrightarrow> n = m \<or> win_mem ss n)
        \<and> (\<forall>n. win_mem d n \<longleftrightarrow> n \<noteq> m \<and> win_mem ss n))
      \<and> win_sigismember ss m = (if win_mem ss m then 1 else 0, None))"
proof (intro conjI impI)
  assume m: "win_valid m"
  have "win_sigaddset ss m = (0, None, snd (snd (win_sigaddset ss m)))"
    and "win_sigdelset ss m = (0, None, snd (snd (win_sigdelset ss m)))"
    using m by (simp_all add: win_sigaddset_def win_sigdelset_def)
  then show "\<exists>a d. win_sigaddset ss m = (0, None, a) \<and> win_sigdelset ss m = (0, None, d)
        \<and> (\<forall>n. win_mem a n \<longleftrightarrow> n = m \<or> win_mem ss n)
        \<and> (\<forall>n. win_mem d n \<longleftrightarrow> n \<noteq> m \<and> win_mem ss n)"
    using win.mem_add[OF m] win.mem_del[OF m] by metis
qed (auto simp: win_sigaddset_def win_sigdelset_def win_sigismember_def)

theorem win_sigset_contract_witness:
  "win_sigaddset 0 33 = (-1, Some EINVAL, 0)
   \<and> (\<exists>a. win_sigaddset 0 32 = (0, None, a) \<and> win_mem a 32 \<and> \<not> win_mem a 1)"
  using win_sigset_contract[where m = 33 and ss = 0] win_sigset_contract[where m = 32 and ss = 0]
    win.mem_empty[of 0 1] by (auto simp: win_sigemptyset_def)

text \<open>
  Functional. The Windows platform sets, computed through the bit set: from the zero
  static variable the synchronous and the asynchronous set hold exactly the signals of
  their tables, a later call returns the stored set unchanged, and the debug set is empty; the
  public functions return zero and hand these sets out.
\<close>

theorem win_platform_sets:
  "(\<forall>n. win_mem (win_synchronous_sigset 0) n \<longleftrightarrow> n \<in> set w_sync_signos)
   \<and> (\<forall>n. win_mem (win_asynchronous_nondebug_sigset 0) n \<longleftrightarrow> n \<in> set w_async_nondebug_signos)
   \<and> (\<forall>n. \<not> win_mem (win_asynchronous_debug_sigset v) n)
   \<and> win_synchronous_sigset (win_synchronous_sigset 0) = win_synchronous_sigset 0
   \<and> win_asynchronous_nondebug_sigset (win_asynchronous_nondebug_sigset 0)
       = win_asynchronous_nondebug_sigset 0
   \<and> (\<exists>x y. win_sigfillset_synchronous 0 = (0, x, x) \<and> win_sigfillset_synchronous x = (0, x, x)
        \<and> (\<forall>n. win_mem x n \<longleftrightarrow> n \<in> set w_sync_signos)
        \<and> win_sigfillset_asynchronous_nondebug 0 = (0, y, y) \<and> win_sigfillset_asynchronous_nondebug y = (0, y, y)
        \<and> (\<forall>n. win_mem y n \<longleftrightarrow> n \<in> set w_async_nondebug_signos))
   \<and> win_sigfillset_asynchronous_debug v = (0, 0, 0)"
proof -
  have z: "fst (win_sigismember 0 (w_sync_signos ! 0)) = 0"
    "fst (win_sigismember 0 (w_async_nondebug_signos ! 0)) = 0"
    by (simp_all add: win_sigismember_def signo_tables w_signo_defs)
  have s: "win_mem (win_synchronous_sigset 0) n \<longleftrightarrow> n \<in> set w_sync_signos" for n
    using win.mem_of_list[OF signo_tables_valid(4), of 0 n]
    by (simp add: win_synchronous_sigset_def z)
  have a: "win_mem (win_asynchronous_nondebug_sigset 0) n \<longleftrightarrow> n \<in> set w_async_nondebug_signos" for n
    using win.mem_of_list[OF signo_tables_valid(5), of 0 n]
    by (simp add: win_asynchronous_nondebug_sigset_def z)
  have "fst (win_sigismember (win_synchronous_sigset 0) (w_sync_signos ! 0)) = 1"
    unfolding s by (simp add: signo_tables)
  then have i1: "win_synchronous_sigset (win_synchronous_sigset 0) = win_synchronous_sigset 0"
    by (simp add: win_synchronous_sigset_def[of "win_synchronous_sigset 0"])
  have "fst (win_sigismember (win_asynchronous_nondebug_sigset 0)
      (w_async_nondebug_signos ! 0)) = 1"
    unfolding a by (simp add: signo_tables)
  then have i2: "win_asynchronous_nondebug_sigset (win_asynchronous_nondebug_sigset 0)
      = win_asynchronous_nondebug_sigset 0"
    by (simp add: win_asynchronous_nondebug_sigset_def[of "win_asynchronous_nondebug_sigset 0"])
  show ?thesis
    using s a i1 i2 win.mem_empty[of v]
    by (simp add: win_asynchronous_debug_sigset_def win_sigfillset_synchronous_def
        win_sigfillset_asynchronous_nondebug_def win_sigfillset_asynchronous_debug_def win_sigemptyset_def Let_def)
qed

end
