(* ===== verification/Signo_Map.thy ===== *)
theory Signo_Map
  imports Sigset
begin

text \<open>
  The map from signal numbers to handler containers in its array form, the one selected
  when \<^verbatim>\<open>NSIG < 1024\<close> (\<^verbatim>\<open>thrd_signal_handle_common.ipp.ipp\<close>), and the interface
  \<open>keyed_map\<close> that the registry uses it through.
\<close>

section \<open>The interface of a map with partial updates\<close>

locale keyed_map =
  fixes wf :: "'m \<Rightarrow> bool"
    and valid :: "'k \<Rightarrow> bool"
    and get :: "'m \<Rightarrow> 'k \<Rightarrow> 'v option"
    and ins :: "'m \<Rightarrow> 'k \<Rightarrow> 'v \<Rightarrow> 'm option"
    and del :: "'m \<Rightarrow> 'k \<Rightarrow> 'm option"
  assumes get_valid: "wf m \<Longrightarrow> get m k = Some v \<Longrightarrow> valid k"
    and ins_fresh: "wf m \<Longrightarrow> valid k \<Longrightarrow> get m k = None \<Longrightarrow>
      \<exists>m'. ins m k v = Some m' \<and> wf m' \<and> get m' = (get m)(k \<mapsto> v)"
    and del_present: "wf m \<Longrightarrow> get m k = Some v \<Longrightarrow>
      \<exists>m'. del m k = Some m' \<and> wf m' \<and> get m' = (get m)(k := None)"
begin

lemma ins_del_roundtrip:
  assumes "wf m" "valid k" "get m k = None"
  shows "\<exists>m1 m2. ins m k v = Some m1 \<and> del m1 k = Some m2 \<and> wf m2 \<and> get m2 = get m"
proof -
  from ins_fresh[OF assms] obtain m1 where m1: "ins m k v = Some m1" "wf m1"
    "get m1 = (get m)(k \<mapsto> v)" by blast
  then have "get m1 k = Some v" by simp
  from del_present[OF m1(2) this] obtain m2 where m2: "del m1 k = Some m2" "wf m2"
    "get m2 = (get m1)(k := None)" by blast
  moreover have "get m2 = get m" using m1(3) m2(3) assms(3) by auto
  ultimately show ?thesis using m1(1) by blast
qed

lemma dom_ins: "wf m \<Longrightarrow> valid k \<Longrightarrow> get m k = None \<Longrightarrow> ins m k v = Some m' \<Longrightarrow>
    dom (get m') = insert k (dom (get m))"
  using ins_fresh[of m k v] by auto

lemma dom_del: "wf m \<Longrightarrow> get m k = Some v \<Longrightarrow> del m k = Some m' \<Longrightarrow>
    dom (get m') = dom (get m) - {k}"
  using del_present[of m k v] by auto

end

section \<open>The array map\<close>

text \<open>An iterator's index is a \<^verbatim>\<open>size_t\<close>; the end iterator carries \<^verbatim>\<open>(size_t) -1\<close>.\<close>

record signo_map =
  arr :: "ptr list"

record signo_map_itr =
  itr_val :: ptr
  itr_idx :: "64 word"

definition signo_map_end_itr :: signo_map_itr where
  "signo_map_end_itr = \<lparr>itr_val = None, itr_idx = - 1\<rparr>"

definition signo_map_get :: "signo_map \<Rightarrow> int \<Rightarrow> signo_map_itr" where
  "signo_map_get m idx =
     (if idx < 0 \<or> idx \<ge> NSIG \<or> arr m ! nat idx = None then signo_map_end_itr
      else \<lparr>itr_val = arr m ! nat idx, itr_idx = word_of_int idx\<rparr>)"

definition signo_map_is_end :: "signo_map_itr \<Rightarrow> bool" where
  "signo_map_is_end it \<longleftrightarrow> itr_val it = None"

definition signo_map_insert ::
  "signo_map \<Rightarrow> int \<Rightarrow> ptr \<Rightarrow> (signo_map_itr \<times> signo_map) option" where
  "signo_map_insert m idx v =
     (if idx < 0 \<or> idx \<ge> NSIG then Some (signo_map_end_itr, m)
      else do {
        assert_that (arr m ! nat idx = None);
        let m = m\<lparr>arr := (arr m)[nat idx := v]\<rparr>;
        Some (\<lparr>itr_val = arr m ! nat idx, itr_idx = word_of_int idx\<rparr>, m)
      })"

definition signo_map_erase_itr :: "signo_map \<Rightarrow> signo_map_itr \<Rightarrow> signo_map option" where
  "signo_map_erase_itr m it = do {
     assert_that (uint (itr_idx it) < NSIG);
     Some (m\<lparr>arr := (arr m)[unat (itr_idx it) := None]\<rparr>)
   }"

text \<open>The static object is zero-initialised: every slot is null.\<close>

definition signo_map_empty :: signo_map where
  "signo_map_empty = \<lparr>arr = replicate (nat NSIG) None\<rparr>"

definition signo_map_wf :: "signo_map \<Rightarrow> bool" where
  "signo_map_wf m \<longleftrightarrow> length (arr m) = nat NSIG"

abbreviation signo_valid :: "int \<Rightarrow> bool" where
  "signo_valid n \<equiv> 0 \<le> n \<and> n < NSIG"

text \<open>Lookup as the registry uses it: the container pointer, or nothing at the end.\<close>

definition signo_lookup :: "signo_map \<Rightarrow> int \<Rightarrow> addr option" where
  "signo_lookup m k = itr_val (signo_map_get m k)"

lemma itr_idx_signo:
  assumes "signo_valid k"
  shows "uint (word_of_int k :: 64 word) = k" "unat (word_of_int k :: 64 word) = nat k"
proof -
  have k: "0 \<le> k" "k < 2 ^ 64" using assms by (simp_all add: NSIG_def)
  then show u: "uint (word_of_int k :: 64 word) = k"
    by (simp add: unsigned_of_int take_bit_int_eq_self)
  show "unat (word_of_int k :: 64 word) = nat k" by (metis u nat_uint_eq)
qed

lemma signo_lookup_arr:
  "signo_lookup m k = (if signo_valid k then arr m ! nat k else None)"
  by (auto simp: signo_lookup_def signo_map_get_def signo_map_end_itr_def)

lemma signo_map_get_is_end: "signo_map_is_end (signo_map_get m k) \<longleftrightarrow> signo_lookup m k = None"
  by (simp add: signo_map_is_end_def signo_lookup_def)

lemma signo_map_get_Some:
  "signo_lookup m k = Some a \<Longrightarrow> signo_map_get m k = \<lparr>itr_val = Some a, itr_idx = word_of_int k\<rparr>"
  by (auto simp: signo_lookup_def signo_map_get_def signo_map_end_itr_def split: if_splits)

lemma signo_lookup_valid: "signo_lookup m k = Some a \<Longrightarrow> signo_valid k"
  by (simp add: signo_lookup_arr split: if_splits)

lemma signo_map_insert_ok:
  assumes "signo_map_wf m" "signo_valid k" "signo_lookup m k = None"
  shows "\<exists>m'. signo_map_insert m k (Some a) = Some (\<lparr>itr_val = Some a, itr_idx = word_of_int k\<rparr>, m')
    \<and> signo_map_wf m' \<and> signo_lookup m' = (signo_lookup m)(k \<mapsto> a)"
  using assms by (auto simp: signo_map_insert_def signo_map_wf_def signo_lookup_arr fun_eq_iff
      nth_list_update)

lemma signo_map_erase_ok:
  assumes "signo_map_wf m" "signo_lookup m k = Some a" "itr_idx it = word_of_int k"
  shows "\<exists>m'. signo_map_erase_itr m it = Some m' \<and> signo_map_wf m'
    \<and> signo_lookup m' = (signo_lookup m)(k := None)"
  using assms by (auto simp: signo_map_erase_itr_def signo_map_wf_def signo_lookup_arr fun_eq_iff
      nth_list_update itr_idx_signo split: if_splits)

lemma signo_lookup_empty: "signo_lookup signo_map_empty k = None"
  by (auto simp: signo_lookup_arr signo_map_empty_def NSIG_def)

lemma signo_map_empty_wf: "signo_map_wf signo_map_empty"
  by (simp add: signo_map_wf_def signo_map_empty_def)

interpretation arr_map: keyed_map signo_map_wf signo_valid signo_lookup
  "\<lambda>m k a. map_option snd (signo_map_insert m k (Some a))"
  "\<lambda>m k. signo_map_erase_itr m (signo_map_get m k)"
proof unfold_locales
  show "signo_map_wf m \<Longrightarrow> signo_lookup m k = Some a \<Longrightarrow> signo_valid k" for m k a
    by (rule signo_lookup_valid)
  show "\<exists>m'. map_option snd (signo_map_insert m k (Some a)) = Some m' \<and> signo_map_wf m'
      \<and> signo_lookup m' = (signo_lookup m)(k \<mapsto> a)"
    if "signo_map_wf m" "signo_valid k" "signo_lookup m k = None" for m k a
    using signo_map_insert_ok[OF that, of a] by auto
  show "\<exists>m'. signo_map_erase_itr m (signo_map_get m k) = Some m' \<and> signo_map_wf m'
      \<and> signo_lookup m' = (signo_lookup m)(k := None)"
    if "signo_map_wf m" "signo_lookup m k = Some a" for m k a
    using signo_map_erase_ok[OF that, of "signo_map_get m k"] signo_map_get_Some[OF that(2)] by simp
qed

text \<open>
  Roundtrip. On a well-formed array map, inserting a container for a valid signal with
  an empty slot succeeds, is found again, disturbs no other signal, and erasing it gives
  back a map with the old contents; a lookup outside \<^verbatim>\<open>0 .. NSIG-1\<close> finds nothing.
\<close>

theorem signo_map_insert_erase:
  assumes "signo_map_wf m" "signo_valid k" "signo_lookup m k = None"
  shows "\<exists>it m1 m2. signo_map_insert m k (Some a) = Some (it, m1)
     \<and> signo_lookup m1 = (signo_lookup m)(k \<mapsto> a)
     \<and> signo_map_erase_itr m1 (signo_map_get m1 k) = Some m2
     \<and> signo_map_wf m2 \<and> signo_lookup m2 = signo_lookup m
     \<and> (\<forall>n. \<not> signo_valid n \<longrightarrow> signo_map_is_end (signo_map_get m1 n))"
proof -
  obtain m1 m2 where m: "map_option snd (signo_map_insert m k (Some a)) = Some m1"
    "signo_map_erase_itr m1 (signo_map_get m1 k) = Some m2" "signo_map_wf m2"
    "signo_lookup m2 = signo_lookup m"
    using arr_map.ins_del_roundtrip[OF assms] by blast
  moreover obtain m1' where m1': "signo_map_insert m k (Some a) =
      Some (\<lparr>itr_val = Some a, itr_idx = word_of_int k\<rparr>, m1')"
    "signo_lookup m1' = (signo_lookup m)(k \<mapsto> a)"
    using signo_map_insert_ok[OF assms] by blast
  ultimately have "m1' = m1" by simp
  moreover have "signo_map_is_end (signo_map_get m1 n)" if "\<not> signo_valid n" for n
    using that by (auto simp: signo_map_get_is_end signo_lookup_arr)
  ultimately show ?thesis using m m1' by blast
qed

theorem signo_map_insert_erase_witness:
  "\<exists>it m1 m2. signo_map_insert signo_map_empty 11 (Some 7) = Some (it, m1)
     \<and> signo_lookup m1 = (signo_lookup signo_map_empty)(11 \<mapsto> 7)
     \<and> signo_map_erase_itr m1 (signo_map_get m1 11) = Some m2
     \<and> signo_map_wf m2 \<and> signo_lookup m2 = signo_lookup signo_map_empty
     \<and> (\<forall>n. \<not> signo_valid n \<longrightarrow> signo_map_is_end (signo_map_get m1 n))"
  by (rule signo_map_insert_erase) (simp_all add: signo_map_empty_wf signo_lookup_empty NSIG_def)

end
