(* ===== verification/Intrusive_List.thy ===== *)
theory Intrusive_List
  imports Signals_Prelude
begin

text \<open>
  The intrusive doubly linked list of \<^verbatim>\<open>detail/impl/linked_list.h\<close>: the three macros
  \<^verbatim>\<open>LIST_INSERT_FRONT\<close>, \<^verbatim>\<open>LIST_INSERT_BACK\<close> and \<^verbatim>\<open>LIST_REMOVE\<close>, write for
  write, on a heap of nodes with \<^verbatim>\<open>prev\<close> and \<^verbatim>\<open>next\<close> members, and the proof that on
  a well-formed list they are insertion at the front, insertion at the back and removal
  of a HOL list.
\<close>

section \<open>Nodes, list heads and the macros\<close>

record node =
  n_prev :: ptr
  n_next :: ptr

record dlist =
  l_front :: ptr
  l_back :: ptr

definition dlist_empty :: dlist where
  "dlist_empty = \<lparr>l_front = None, l_back = None\<rparr>"

definition LIST_INSERT_FRONT ::
  "dlist \<Rightarrow> ptr \<Rightarrow> 'a node_scheme heap \<Rightarrow> (dlist \<times> 'a node_scheme heap) option" where
  "LIST_INSERT_FRONT lst item h =
     (if l_front lst = None
      then do {
        assert_that (l_back lst = None);
        Some (lst\<lparr>l_front := item, l_back := item\<rparr>, h)
      }
      else do {
        assert_that (l_front lst \<noteq> None);
        assert_that (l_back lst \<noteq> None);
        h \<leftarrow> store h item (n_prev_update (\<lambda>_. None));
        h \<leftarrow> store h item (n_next_update (\<lambda>_. l_front lst));
        h \<leftarrow> store h (l_front lst) (n_prev_update (\<lambda>_. item));
        Some (lst\<lparr>l_front := item\<rparr>, h)
      })"

definition LIST_INSERT_BACK ::
  "dlist \<Rightarrow> ptr \<Rightarrow> 'a node_scheme heap \<Rightarrow> (dlist \<times> 'a node_scheme heap) option" where
  "LIST_INSERT_BACK lst item h =
     (if l_front lst = None
      then do {
        assert_that (l_back lst = None);
        Some (lst\<lparr>l_front := item, l_back := item\<rparr>, h)
      }
      else do {
        assert_that (l_front lst \<noteq> None);
        assert_that (l_back lst \<noteq> None);
        h \<leftarrow> store h item (n_next_update (\<lambda>_. None));
        h \<leftarrow> store h item (n_prev_update (\<lambda>_. l_back lst));
        h \<leftarrow> store h (l_back lst) (n_next_update (\<lambda>_. item));
        Some (lst\<lparr>l_back := item\<rparr>, h)
      })"

definition LIST_REMOVE ::
  "dlist \<Rightarrow> ptr \<Rightarrow> 'a node_scheme heap \<Rightarrow> (dlist \<times> 'a node_scheme heap) option" where
  "LIST_REMOVE lst item h = do {
     (lst, h) \<leftarrow>
       (if l_front lst = item \<and> l_back lst = item
        then Some (lst\<lparr>l_front := None, l_back := None\<rparr>, h)
        else if l_front lst = item
        then do {
          n \<leftarrow> deref h item;
          let lst = lst\<lparr>l_front := n_next n\<rparr>;
          h \<leftarrow> store h (l_front lst) (n_prev_update (\<lambda>_. None));
          Some (lst, h)
        }
        else if l_back lst = item
        then do {
          n \<leftarrow> deref h item;
          let lst = lst\<lparr>l_back := n_prev n\<rparr>;
          h \<leftarrow> store h (l_back lst) (n_next_update (\<lambda>_. None));
          Some (lst, h)
        }
        else do {
          n \<leftarrow> deref h item;
          h \<leftarrow> store h (n_next n) (n_prev_update (\<lambda>_. n_prev n));
          n \<leftarrow> deref h item;
          h \<leftarrow> store h (n_prev n) (n_next_update (\<lambda>_. n_next n));
          Some (lst, h)
        });
     h \<leftarrow> store h item (n_prev_update (\<lambda>_. None));
     h \<leftarrow> store h item (n_next_update (\<lambda>_. None));
     Some (lst, h)
   }"

section \<open>Well-formed lists\<close>

text \<open>
  \<open>dseg h p xs q\<close>: the cells \<open>xs\<close> are live and linked in this order, the first one's
  \<open>n_prev\<close> is \<open>p\<close> and the last one's \<open>n_next\<close> is \<open>q\<close>.
\<close>

definition first_ptr :: "addr list \<Rightarrow> ptr \<Rightarrow> ptr" where
  "first_ptr xs q = (case xs of [] \<Rightarrow> q | x # _ \<Rightarrow> Some x)"

definition last_ptr :: "ptr \<Rightarrow> addr list \<Rightarrow> ptr" where
  "last_ptr p xs = (if xs = [] then p else Some (last xs))"

fun dseg :: "'a node_scheme heap \<Rightarrow> ptr \<Rightarrow> addr list \<Rightarrow> ptr \<Rightarrow> bool" where
  "dseg h p [] q = True"
| "dseg h p (x # xs) q =
     (case h x of None \<Rightarrow> False
      | Some n \<Rightarrow> n_prev n = p \<and> n_next n = first_ptr xs q \<and> dseg h (Some x) xs q)"

definition dll :: "'a node_scheme heap \<Rightarrow> dlist \<Rightarrow> addr list \<Rightarrow> bool" where
  "dll h l xs \<longleftrightarrow> distinct xs \<and> l = \<lparr>l_front = first_ptr xs None, l_back = last_ptr None xs\<rparr>
     \<and> dseg h None xs None"

definition detached :: "'a node_scheme heap \<Rightarrow> addr \<Rightarrow> bool" where
  "detached h a \<longleftrightarrow> (case h a of None \<Rightarrow> False | Some n \<Rightarrow> n_prev n = None \<and> n_next n = None)"

text \<open>The members of a node other than its links, which no list operation touches.\<close>

definition payload :: "'a node_scheme heap \<Rightarrow> addr \<Rightarrow> 'a option" where
  "payload h a = map_option node.more (h a)"

lemma first_ptr_simps [simp]:
  "first_ptr [] q = q" "first_ptr (x # xs) q = Some x"
  by (simp_all add: first_ptr_def)

lemma last_ptr_simps [simp]:
  "last_ptr p [] = p" "last_ptr p (xs @ [x]) = Some x" "last_ptr p (x # xs) = last_ptr (Some x) xs"
  by (simp_all add: last_ptr_def)

lemma last_ptr_Some [simp]: "\<exists>z. last_ptr (Some y) ys = Some z" "last_ptr (Some y) ys \<noteq> None"
  by (simp_all add: last_ptr_def)

lemma last_ptr_append [simp]: "last_ptr p (xs @ ys) = last_ptr (last_ptr p xs) ys"
  by (auto simp: last_ptr_def)

lemma first_ptr_append [simp]: "first_ptr (xs @ ys) q = first_ptr xs (first_ptr ys q)"
  by (cases xs) auto

lemma dseg_append [simp]:
  "dseg h p (xs @ ys) q \<longleftrightarrow> dseg h p xs (first_ptr ys q) \<and> dseg h (last_ptr p xs) ys q"
  by (induction xs arbitrary: p) (auto split: option.splits)

lemma dseg_frame [heap_frame]: "a \<notin> set xs \<Longrightarrow> dseg (h(a := v)) p xs q = dseg h p xs q"
  by (induction xs arbitrary: p) (auto split: option.splits)

lemma dseg_cong:
  assumes "\<And>x. x \<in> set xs \<Longrightarrow> h' x = h x"
  shows "dseg h' p xs q = dseg h p xs q"
  using assms by (induction xs arbitrary: p) (auto split: option.splits)

lemma dseg_live: "dseg h p xs q \<Longrightarrow> x \<in> set xs \<Longrightarrow> \<exists>n. h x = Some n"
  by (induction xs arbitrary: p) (auto split: option.splits)

lemma dseg_set_prev:
  assumes "dseg h p (y # ys) q" "y \<notin> set ys" "h y = Some n"
  shows "dseg (h(y \<mapsto> n\<lparr>n_prev := p'\<rparr>)) p' (y # ys) q"
  using assms by (simp add: dseg_frame)

lemma dseg_set_next:
  assumes "dseg h p (xs @ [x]) q" "x \<notin> set xs" "h x = Some n"
  shows "dseg (h(x \<mapsto> n\<lparr>n_next := q'\<rparr>)) p (xs @ [x]) q'"
  using assms by (simp add: dseg_frame)

lemma dll_empty [simp]: "dll h dlist_empty []"
  by (simp add: dll_def dlist_empty_def)

lemma dll_frame [heap_frame]: "a \<notin> set xs \<Longrightarrow> dll (h(a := v)) l xs = dll h l xs"
  by (simp add: dll_def dseg_frame)

lemma dll_cong: "(\<And>x. x \<in> set xs \<Longrightarrow> h' x = h x) \<Longrightarrow> dll h' l xs = dll h l xs"
  unfolding dll_def by (metis dseg_cong)

lemma dll_live: "dll h l xs \<Longrightarrow> x \<in> set xs \<Longrightarrow> \<exists>n. h x = Some n"
  by (auto simp: dll_def dest: dseg_live)

lemma dll_distinct: "dll h l xs \<Longrightarrow> distinct xs"
  by (simp add: dll_def)

lemma dll_front: "dll h l xs \<Longrightarrow> l_front l = first_ptr xs None"
  by (simp add: dll_def)

lemma dll_unique_Nil: "dll h l xs \<Longrightarrow> (l_front l = None) = (xs = [])"
  by (cases xs) (auto simp: dll_def)

lemma payload_upd_links [simp]:
  "h a = Some n \<Longrightarrow> payload (h(a \<mapsto> n\<lparr>n_prev := p\<rparr>)) = payload h"
  "h a = Some n \<Longrightarrow> payload (h(a \<mapsto> n\<lparr>n_next := p\<rparr>)) = payload h"
  "h a = Some n \<Longrightarrow> payload (h(a \<mapsto> n\<lparr>n_prev := p, n_next := q\<rparr>)) = payload h"
  "h a = Some n \<Longrightarrow> payload (h(a \<mapsto> n\<lparr>n_next := p, n_prev := q\<rparr>)) = payload h"
  by (auto simp: payload_def fun_eq_iff)

lemma payload_eq_None [simp]: "payload h a = None \<longleftrightarrow> h a = None"
  by (simp add: payload_def)

section \<open>The macros on well-formed lists\<close>

lemma LIST_INSERT_FRONT_dll:
  assumes l: "dll h l xs" and x: "detached h x" "x \<notin> set xs"
  shows "\<exists>l' h'. LIST_INSERT_FRONT l (Some x) h = Some (l', h') \<and> dll h' l' (x # xs)
    \<and> payload h' = payload h \<and> (\<forall>a. a \<notin> set (x # xs) \<longrightarrow> h' a = h a)"
proof (cases xs)
  case Nil
  with l x show ?thesis
    by (auto simp: LIST_INSERT_FRONT_def dll_def detached_def split: option.splits)
next
  case (Cons y ys)
  obtain n where n: "h x = Some n" using x(1) by (auto simp: detached_def split: option.splits)
  obtain m where m: "h y = Some m" using l Cons by (auto simp: dll_def split: option.splits)
  have xy: "x \<noteq> y" "x \<notin> set ys" "y \<notin> set ys" using l x Cons by (auto simp: dll_def)
  show ?thesis
    using l n m xy unfolding Cons
    by (auto simp: LIST_INSERT_FRONT_def dll_def dseg_frame Let_def)
qed

lemma LIST_INSERT_BACK_dll:
  assumes l: "dll h l xs" and x: "detached h x" "x \<notin> set xs"
  shows "\<exists>l' h'. LIST_INSERT_BACK l (Some x) h = Some (l', h') \<and> dll h' l' (xs @ [x])
    \<and> payload h' = payload h \<and> (\<forall>a. a \<notin> set (x # xs) \<longrightarrow> h' a = h a)"
proof (cases xs rule: rev_cases)
  case Nil
  with l x show ?thesis
    by (auto simp: LIST_INSERT_BACK_def dll_def detached_def split: option.splits)
next
  case (snoc ys y)
  obtain n where n: "h x = Some n" using x(1) by (auto simp: detached_def split: option.splits)
  obtain m where m: "h y = Some m" using l snoc by (auto simp: dll_def split: option.splits)
  have xy: "x \<noteq> y" "x \<notin> set ys" "y \<notin> set ys" using l x snoc by (auto simp: dll_def)
  have fr: "l_front l \<noteq> None" "l_back l = Some y" using l snoc by (cases ys; auto simp: dll_def)+
  show ?thesis
    using l n m xy fr unfolding snoc
    by (auto simp: LIST_INSERT_BACK_def dll_def dseg_frame)
qed

lemma LIST_REMOVE_dll:
  assumes l: "dll h l (us @ x # vs)"
  shows "\<exists>l' h'. LIST_REMOVE l (Some x) h = Some (l', h') \<and> dll h' l' (us @ vs) \<and> detached h' x
    \<and> payload h' = payload h \<and> (\<forall>a. a \<notin> set (us @ x # vs) \<longrightarrow> h' a = h a)"
proof -
  obtain n where n: "h x = Some n" and np: "n_prev n = last_ptr None us"
    and nn: "n_next n = first_ptr vs None"
    using l by (auto simp: dll_def split: option.splits)
  have dist: "x \<notin> set us" "x \<notin> set vs" "distinct us" "distinct vs" "set us \<inter> set vs = {}"
    using l by (auto simp: dll_def)
  consider (only) "us = []" "vs = []" | (first) y ys where "us = []" "vs = y # ys"
    | (final) zs z where "us = zs @ [z]" "vs = []"
    | (mid) zs z y ys where "us = zs @ [z]" "vs = y # ys"
    by (metis list.exhaust rev_exhaust)
  then show ?thesis
  proof cases
    case only
    with l n show ?thesis
      by (auto simp: LIST_REMOVE_def dll_def detached_def)
  next
    case first
    obtain m where m: "h y = Some m" using l first by (auto simp: dll_def split: option.splits)
    have "x \<noteq> y" "last_ptr (Some y) ys \<noteq> Some x"
      using dist first by (auto simp: last_ptr_def)
    with l n m nn dist first show ?thesis
      by (auto simp: LIST_REMOVE_def dll_def detached_def dseg_frame)
  next
    case final
    obtain m where m: "h z = Some m" using l final by (auto simp: dll_def split: option.splits)
    have "x \<noteq> z" "first_ptr zs (Some z) \<noteq> Some x"
      using dist final by (cases zs; auto)+
    with l n m np dist final show ?thesis
      by (auto simp: LIST_REMOVE_def dll_def detached_def dseg_frame)
  next
    case mid
    obtain m where m: "h z = Some m" using l mid by (auto simp: dll_def split: option.splits)
    obtain m' where m': "h y = Some m'" using l mid by (auto simp: dll_def split: option.splits)
    have "x \<noteq> z" "x \<noteq> y" "z \<noteq> y" "z \<notin> set ys" "y \<notin> set zs" "first_ptr zs (Some z) \<noteq> Some x"
      "last_ptr (Some y) ys \<noteq> Some x"
      using dist mid by (cases zs; auto simp: last_ptr_def)+
    with l n m m' np nn dist mid show ?thesis
      by (auto simp: LIST_REMOVE_def dll_def detached_def dseg_frame)
  qed
qed

text \<open>
  C35 (refinement). On a well-formed list the three macros of \<^verbatim>\<open>linked_list.h\<close> never
  dereference a bad pointer and never fail their assertions; they are insertion at the front,
  insertion at the back and removal of the represented sequence. The removed node is left with null
  links, no other member of any node changes, and no node outside the list is written.
\<close>

theorem list_macros_refine:
  "dll h l xs \<Longrightarrow>
    (detached h x \<longrightarrow> x \<notin> set xs \<longrightarrow>
      (\<exists>l' h'. LIST_INSERT_FRONT l (Some x) h = Some (l', h') \<and> dll h' l' (x # xs)
        \<and> payload h' = payload h \<and> (\<forall>a. a \<notin> set (x # xs) \<longrightarrow> h' a = h a))
      \<and> (\<exists>l' h'. LIST_INSERT_BACK l (Some x) h = Some (l', h') \<and> dll h' l' (xs @ [x])
        \<and> payload h' = payload h \<and> (\<forall>a. a \<notin> set (x # xs) \<longrightarrow> h' a = h a)))
    \<and> (x \<in> set xs \<longrightarrow>
      (\<exists>l' h'. LIST_REMOVE l (Some x) h = Some (l', h') \<and> dll h' l' (remove1 x xs) \<and> detached h' x
        \<and> payload h' = payload h \<and> (\<forall>a. a \<notin> set xs \<longrightarrow> h' a = h a)))"
  (is "?wf \<Longrightarrow> ?ins \<and> ?rem")
proof (rule conjI)
  assume l: ?wf
  show ?ins using LIST_INSERT_FRONT_dll[OF l] LIST_INSERT_BACK_dll[OF l] by blast
  show ?rem
  proof
    assume "x \<in> set xs"
    then obtain us vs where xs: "xs = us @ x # vs" by (auto simp: in_set_conv_decomp)
    moreover have "remove1 x xs = us @ vs" using distinct_split_unique dll_distinct[OF l] xs by metis
    ultimately show "\<exists>l' h'. LIST_REMOVE l (Some x) h = Some (l', h') \<and> dll h' l' (remove1 x xs) \<and> detached h' x
        \<and> payload h' = payload h \<and> (\<forall>a. a \<notin> set xs \<longrightarrow> h' a = h a)"
      using LIST_REMOVE_dll[of h l us x vs] l by simp
  qed
qed

definition one_node :: "node heap" where
  "one_node = [1 \<mapsto> \<lparr>n_prev = None, n_next = None\<rparr>, 2 \<mapsto> \<lparr>n_prev = None, n_next = None\<rparr>]"

theorem list_macros_refine_witness:
  "(\<exists>l' h'. LIST_INSERT_BACK \<lparr>l_front = Some 1, l_back = Some 1\<rparr> (Some 2) one_node = Some (l', h') \<and> dll h' l' [1, 2])
   \<and> (\<exists>l' h'. LIST_REMOVE \<lparr>l_front = Some 1, l_back = Some 1\<rparr> (Some 1) one_node = Some (l', h') \<and> dll h' l' [])"
proof -
  have l: "dll one_node \<lparr>l_front = Some 1, l_back = Some 1\<rparr> [1]" and d: "detached one_node 2"
    by (simp_all add: dll_def one_node_def detached_def)
  show ?thesis using list_macros_refine[OF l, of 2] list_macros_refine[OF l, of 1] d by fastforce
qed

end
