(* ===== verification/Registry.thy ===== *)
theory Registry
  imports Signo_Map Intrusive_List
begin

unbundle bit_operations_syntax

text \<open>
  The process-wide handler registry of \<^verbatim>\<open>thrd_signal_handle_common.ipp.ipp\<close>: the handler
  containers (\<^verbatim>\<open>sighandler_info\<close>) with their two reference counts, the global decider
  nodes linked into them, and the operations that change them, with the POSIX
  \<^verbatim>\<open>install_sighandler_impl\<close> and \<^verbatim>\<open>uninstall_sighandler_impl\<close>. Containers, nodes and
  handles live in heaps of their own; a freed object leaves its heap, so a use after free or
  a double free is a fault. The lock is the one of \<^verbatim>\<open>lock_unlock.h\<close> as a single thread
  sees it: taking it while it is held never returns, releasing it while it is free fails
  the assertion.
\<close>

section \<open>State\<close>

type_synonym fnptr = nat
type_synonym siginfo_value = "64 word"

datatype sa_handler_t = SIG_DFL | SIG_IGN | User_Handler fnptr | Raw_Signal_Handler

record sigaction =
  sa_handler :: sa_handler_t
  sa_flags :: "32 word"

definition SA_NOCLDWAIT :: "32 word" where "SA_NOCLDWAIT = 2"
definition SA_SIGINFO :: "32 word" where "SA_SIGINFO = 4"
definition SA_NODEFER :: "32 word" where "SA_NODEFER = 0x40000000"

definition sigaction_zero :: sigaction where
  "sigaction_zero = \<lparr>sa_handler = SIG_DFL, sa_flags = 0\<rparr>"

record global_signal_decider_t = node +
  refcount :: int
  decider :: fnptr
  dvalue :: siginfo_value

record sighandler_info =
  install_count :: int
  lifetime_refcount :: int
  old_handler :: sigaction
  global_handler :: dlist
  deferred_frees :: dlist

text \<open>
  The opaque handle of \<^verbatim>\<open>signal_decider_create\<close>: a copy of the guarded set followed by one
  slot per guarded signal and a spare one.
\<close>

record decider_handle =
  dh_guarded :: sigset
  dh_slots :: "ptr list"

text \<open>
  A guarded section of \<^verbatim>\<open>sigguarded\<close>: the member \<open>fr_addr\<close> stands for its address in the
  stack, \<open>fr_value\<close> is the member \<^verbatim>\<open>rsi.value\<close>. The chain through \<^verbatim>\<open>prev\<close> is never
  rewritten, so a pointer to a frame is the list of that frame and the ones outside it, and
  the null pointer is the empty list.
\<close>

record frame =
  fr_addr :: nat
  fr_guarded :: sigset
  fr_recovery :: "fnptr option"
  fr_decider :: fnptr
  fr_value :: siginfo_value

text \<open>The members of the host's \<^verbatim>\<open>siginfo_t\<close> that the library reads or writes.\<close>

record siginfo =
  si_signo :: int
  si_errno :: int
  si_code :: int
  si_addr :: "64 word"

datatype event =
    Ev_Decider fnptr int siginfo_value
  | Ev_Handler fnptr int
  | Ev_Sigaction_Handler fnptr int siginfo "nat option"
  | Ev_Set_Disposition int sigaction
  | Ev_Kill_Self int

text \<open>
  The whole state an operation can see or change: \<^verbatim>\<open>sig_global_state_t\<close> (lock, count,
  map), the heaps, the calling thread's frame stack and \<^verbatim>\<open>errno\<close>, and of the host the
  signal dispositions, the signals whose disposition it refuses to change, and the outcome
  of the coming allocations (an exhausted plan means that they all succeed). The trace
  \<open>events\<close> records the calls that leave the library.
\<close>

record sig_world =
  lock :: "32 word"
  sighandlers_count :: int
  signo_to_sighandler_map :: signo_map
  infos :: "sighandler_info heap"
  nodes :: "global_signal_decider_t heap"
  install_handles :: "sigset heap"
  decider_handles :: "decider_handle heap"
  next_addr :: addr
  alloc_plan :: "bool list"
  errno :: int
  kernel :: "int \<Rightarrow> sigaction"
  refused :: "int \<Rightarrow> bool"
  tss :: "frame list option"
  events :: "event list"

definition sig_world_init :: sig_world where
  "sig_world_init = \<lparr>lock = 0, sighandlers_count = 0, signo_to_sighandler_map = signo_map_empty,
     infos = (\<lambda>_. None), nodes = (\<lambda>_. None), install_handles = (\<lambda>_. None),
     decider_handles = (\<lambda>_. None), next_addr = 1, alloc_plan = [], errno = 0,
     kernel = (\<lambda>_. sigaction_zero), refused = (\<lambda>n. n = SIGKILL \<or> n = SIGSTOP), tss = None,
     events = []\<rparr>"

section \<open>Lock, allocator and host calls\<close>

definition LOCK :: "sig_world \<Rightarrow> sig_world option" where
  "LOCK w = (if lock w \<noteq> 0 then None else Some (w\<lparr>lock := 1\<rparr>))"

definition UNLOCK :: "sig_world \<Rightarrow> sig_world option" where
  "UNLOCK w = do { assert_that (lock w = 1); Some (w\<lparr>lock := 0\<rparr>) }"

text \<open>One call of \<^verbatim>\<open>malloc\<close> or \<^verbatim>\<open>calloc\<close>: a fresh address, or null with \<^verbatim>\<open>ENOMEM\<close>.\<close>

definition host_alloc :: "sig_world \<Rightarrow> ptr \<times> sig_world" where
  "host_alloc w =
     (let w' = w\<lparr>alloc_plan := tl (alloc_plan w)\<rparr>
      in if alloc_plan w = [] \<or> hd (alloc_plan w)
         then (Some (next_addr w), w'\<lparr>next_addr := Suc (next_addr w)\<rparr>)
         else (None, w'\<lparr>errno := ENOMEM\<rparr>))"

text \<open>
  \<^verbatim>\<open>sigaction(signo, &act, &oldact)\<close>: return value, the old disposition, new state.
\<close>

definition host_sigaction :: "int \<Rightarrow> sigaction \<Rightarrow> sig_world \<Rightarrow> int \<times> sigaction \<times> sig_world" where
  "host_sigaction signo sa w =
     (if refused w signo then (-1, sigaction_zero, w\<lparr>errno := EINVAL\<rparr>)
      else (0, kernel w signo,
            w\<lparr>kernel := (kernel w)(signo := sa), events := events w @ [Ev_Set_Disposition signo sa]\<rparr>))"

section \<open>Containers and nodes\<close>

definition info_upd ::
  "ptr \<Rightarrow> (sighandler_info \<Rightarrow> sighandler_info) \<Rightarrow> sig_world \<Rightarrow> sig_world option" where
  "info_upd p f w = do { h \<leftarrow> store (infos w) p f; Some (w\<lparr>infos := h\<rparr>) }"

definition node_upd ::
  "ptr \<Rightarrow> (global_signal_decider_t \<Rightarrow> global_signal_decider_t) \<Rightarrow> sig_world \<Rightarrow> sig_world option" where
  "node_upd p f w = do { h \<leftarrow> store (nodes w) p f; Some (w\<lparr>nodes := h\<rparr>) }"

definition free_node :: "ptr \<Rightarrow> sig_world \<Rightarrow> sig_world option" where
  "free_node p w =
     (case p of None \<Rightarrow> Some w
      | Some a \<Rightarrow> do { h \<leftarrow> free_cell (nodes w) a; Some (w\<lparr>nodes := h\<rparr>) })"

definition free_info :: "ptr \<Rightarrow> sig_world \<Rightarrow> sig_world option" where
  "free_info p w =
     (case p of None \<Rightarrow> Some w
      | Some a \<Rightarrow> do { h \<leftarrow> free_cell (infos w) a; Some (w\<lparr>infos := h\<rparr>) })"

text \<open>\<^verbatim>\<open>LIST_REMOVE\<close> and \<^verbatim>\<open>LIST_INSERT_*\<close> on a list head inside a container.\<close>

definition gh_remove :: "ptr \<Rightarrow> ptr \<Rightarrow> sig_world \<Rightarrow> sig_world option" where
  "gh_remove item i w = do {
     inf \<leftarrow> deref (infos w) item;
     (l, h) \<leftarrow> LIST_REMOVE (global_handler inf) i (nodes w);
     info_upd item (global_handler_update (\<lambda>_. l)) (w\<lparr>nodes := h\<rparr>)
   }"

definition df_remove :: "ptr \<Rightarrow> ptr \<Rightarrow> sig_world \<Rightarrow> sig_world option" where
  "df_remove item i w = do {
     inf \<leftarrow> deref (infos w) item;
     (l, h) \<leftarrow> LIST_REMOVE (deferred_frees inf) i (nodes w);
     info_upd item (deferred_frees_update (\<lambda>_. l)) (w\<lparr>nodes := h\<rparr>)
   }"

definition gh_insert_front :: "ptr \<Rightarrow> ptr \<Rightarrow> sig_world \<Rightarrow> sig_world option" where
  "gh_insert_front item i w = do {
     inf \<leftarrow> deref (infos w) item;
     (l, h) \<leftarrow> LIST_INSERT_FRONT (global_handler inf) i (nodes w);
     info_upd item (global_handler_update (\<lambda>_. l)) (w\<lparr>nodes := h\<rparr>)
   }"

definition gh_insert_back :: "ptr \<Rightarrow> ptr \<Rightarrow> sig_world \<Rightarrow> sig_world option" where
  "gh_insert_back item i w = do {
     inf \<leftarrow> deref (infos w) item;
     (l, h) \<leftarrow> LIST_INSERT_BACK (global_handler inf) i (nodes w);
     info_upd item (global_handler_update (\<lambda>_. l)) (w\<lparr>nodes := h\<rparr>)
   }"

definition df_insert_back :: "ptr \<Rightarrow> ptr \<Rightarrow> sig_world \<Rightarrow> sig_world option" where
  "df_insert_back item i w = do {
     inf \<leftarrow> deref (infos w) item;
     (l, h) \<leftarrow> LIST_INSERT_BACK (deferred_frees inf) i (nodes w);
     info_upd item (deferred_frees_update (\<lambda>_. l)) (w\<lparr>nodes := h\<rparr>)
   }"

text \<open>The two loops of \<^verbatim>\<open>sighandler_info_release\<close>: each runs until its list is empty.\<close>

partial_function (option) drain_deferred_frees :: "ptr \<Rightarrow> sig_world \<Rightarrow> sig_world option" where
  "drain_deferred_frees item w = do {
     inf \<leftarrow> deref (infos w) item;
     (if l_front (deferred_frees inf) \<noteq> None
      then do {
        let i = l_front (deferred_frees inf);
        w \<leftarrow> df_remove item i w;
        w \<leftarrow> free_node i w;
        drain_deferred_frees item w
      }
      else Some w)
   }"

partial_function (option) detach_global_handlers :: "ptr \<Rightarrow> sig_world \<Rightarrow> sig_world option" where
  "detach_global_handlers item w = do {
     inf \<leftarrow> deref (infos w) item;
     (if l_front (global_handler inf) \<noteq> None
      then do {
        let i = l_front (global_handler inf);
        w \<leftarrow> gh_remove item i w;
        detach_global_handlers item w
      }
      else Some w)
   }"

definition sighandler_info_release :: "ptr \<Rightarrow> sig_world \<Rightarrow> sig_world option" where
  "sighandler_info_release item w = do {
     w \<leftarrow> info_upd item (\<lambda>inf. inf\<lparr>lifetime_refcount := lifetime_refcount inf - 1\<rparr>) w;
     inf \<leftarrow> deref (infos w) item;
     (if lifetime_refcount inf = 0
      then do {
        w \<leftarrow> drain_deferred_frees item w;
        w \<leftarrow> detach_global_handlers item w;
        free_info item w
      }
      else Some w)
   }"

partial_function (option) has_decider_from :: "ptr \<Rightarrow> ptr \<Rightarrow> sig_world \<Rightarrow> bool option" where
  "has_decider_from current n w =
     (if current \<noteq> None
      then if current = n then Some True
      else do {
        c \<leftarrow> deref (nodes w) current;
        has_decider_from (n_next c) n w
      }
      else Some False)"

definition sighandler_info_has_decider :: "ptr \<Rightarrow> ptr \<Rightarrow> sig_world \<Rightarrow> bool option" where
  "sighandler_info_has_decider item n w = do {
     inf \<leftarrow> deref (infos w) item;
     has_decider_from (l_front (global_handler inf)) n w
   }"

declare drain_deferred_frees.simps [code] detach_global_handlers.simps [code]
  has_decider_from.simps [code]

section \<open>Installing and uninstalling\<close>

text \<open>
  The per-thread state comes from one of two backends, selected at build time by
  \<^verbatim>\<open>WG14_SIGNALS_HAVE_ASYNC_SAFE_THREAD_LOCAL\<close>. The registry creates it with the first
  installed handler and destroys it with the last one, and uses nothing else of it, so the
  two functions are an argument of the operations below.
\<close>

record tss_backend =
  tss_create :: "sig_world \<Rightarrow> int \<times> sig_world"
  tss_destroy :: "sig_world \<Rightarrow> int \<times> sig_world"

text \<open>With native async-signal-safe thread locals, both functions only return zero.\<close>

definition sig_global_tss_state_create :: "sig_world \<Rightarrow> int \<times> sig_world" where
  "sig_global_tss_state_create w = (0, w)"

definition sig_global_tss_state_destroy :: "sig_world \<Rightarrow> int \<times> sig_world" where
  "sig_global_tss_state_destroy w = (0, w)"

definition native_tss :: tss_backend where
  "native_tss = \<lparr>tss_create = sig_global_tss_state_create, tss_destroy = sig_global_tss_state_destroy\<rparr>"

definition raw_sigaction :: sigaction where
  "raw_sigaction = \<lparr>sa_handler = Raw_Signal_Handler,
     sa_flags = SA_SIGINFO OR SA_NOCLDWAIT OR SA_NODEFER\<rparr>"

definition install_sighandler_impl :: "ptr \<Rightarrow> int \<Rightarrow> sig_world \<Rightarrow> (bool \<times> sig_world) option" where
  "install_sighandler_impl item signo w =
     (case host_sigaction signo raw_sigaction w of
        (r, old, w) \<Rightarrow>
          if r = -1 then Some (False, w)
          else do { w \<leftarrow> info_upd item (old_handler_update (\<lambda>_. old)) w; Some (True, w) })"

definition uninstall_sighandler_impl :: "ptr \<Rightarrow> int \<Rightarrow> sig_world \<Rightarrow> (bool \<times> sig_world) option" where
  "uninstall_sighandler_impl item signo w = do {
     inf \<leftarrow> deref (infos w) item;
     (case host_sigaction signo (old_handler inf) w of (r, old, w) \<Rightarrow> Some (True, w))
   }"

text \<open>A zeroed container, as \<^verbatim>\<open>calloc\<close> returns it.\<close>

definition sighandler_info_zero :: sighandler_info where
  "sighandler_info_zero = \<lparr>install_count = 0, lifetime_refcount = 0, old_handler = sigaction_zero,
     global_handler = dlist_empty, deferred_frees = dlist_empty\<rparr>"

text \<open>
  What \<^verbatim>\<open>install_sighandler\<close> (when it rolls back) and \<^verbatim>\<open>uninstall_sighandler\<close> do when a
  container's install count has reached zero, in the same words.
\<close>

definition unmap_handler :: "signo_map_itr \<Rightarrow> int \<Rightarrow> sig_world \<Rightarrow> sig_world option" where
  "unmap_handler it signo w = do {
     (b, w) \<leftarrow> uninstall_sighandler_impl (itr_val it) signo w;
     m \<leftarrow> signo_map_erase_itr (signo_to_sighandler_map w) it;
     sighandler_info_release (itr_val it) (w\<lparr>signo_to_sighandler_map := m\<rparr>)
   }"

text \<open>The second half of \<^verbatim>\<open>install_sighandler\<close>, from the count increment on.\<close>

definition install_commit ::
  "tss_backend \<Rightarrow> int \<Rightarrow> signo_map_itr \<Rightarrow> sig_world \<Rightarrow> (bool \<times> sig_world) option" where
  "install_commit B signo it w = do {
     w \<leftarrow> info_upd (itr_val it) (\<lambda>inf. inf\<lparr>install_count := install_count inf + 1\<rparr>) w;
     let former = sighandlers_count w;
     let w = w\<lparr>sighandlers_count := former + 1\<rparr>;
     (if former = 0
      then (case tss_create B w of
        (r, w) \<Rightarrow>
          if r = -1
          then do {
            let w = w\<lparr>sighandlers_count := sighandlers_count w - 1\<rparr>;
            w \<leftarrow> info_upd (itr_val it) (\<lambda>inf. inf\<lparr>install_count := install_count inf - 1\<rparr>) w;
            inf \<leftarrow> deref (infos w) (itr_val it);
            w \<leftarrow> (if install_count inf = 0
              then unmap_handler it signo w
              else Some w);
            w \<leftarrow> UNLOCK w;
            Some (False, w)
          }
          else do { w \<leftarrow> UNLOCK w; Some (True, w) })
      else do { w \<leftarrow> UNLOCK w; Some (True, w) })
   }"

definition install_sighandler :: "tss_backend \<Rightarrow> int \<Rightarrow> sig_world \<Rightarrow> (bool \<times> sig_world) option" where
  "install_sighandler B signo w = do {
     w \<leftarrow> LOCK w;
     let it = signo_map_get (signo_to_sighandler_map w) signo;
     (if signo_map_is_end it
      then (case host_alloc w of
        (None, w) \<Rightarrow> do { w \<leftarrow> UNLOCK w; Some (False, w) }
      | (Some a, w) \<Rightarrow> do {
          let w = w\<lparr>infos := (infos w)(a \<mapsto> sighandler_info_zero\<lparr>lifetime_refcount := 1\<rparr>)\<rparr>;
          (ok, w) \<leftarrow> install_sighandler_impl (Some a) signo w;
          (if \<not> ok
           then do {
             let errcode = errno w;
             w \<leftarrow> free_info (Some a) w;
             w \<leftarrow> UNLOCK (w\<lparr>errno := errcode\<rparr>);
             Some (False, w)
           }
           else do {
             (it, m) \<leftarrow> signo_map_insert (signo_to_sighandler_map w) signo (Some a);
             install_commit B signo it (w\<lparr>signo_to_sighandler_map := m\<rparr>)
           })
        })
      else install_commit B signo it w)
   }"

definition uninstall_sighandler :: "tss_backend \<Rightarrow> int \<Rightarrow> sig_world \<Rightarrow> (bool \<times> sig_world) option" where
  "uninstall_sighandler B signo w = do {
     w \<leftarrow> LOCK w;
     let it = signo_map_get (signo_to_sighandler_map w) signo;
     w \<leftarrow> (if \<not> signo_map_is_end it
       then do {
         w \<leftarrow> drain_deferred_frees (itr_val it) w;
         let w = w\<lparr>sighandlers_count := sighandlers_count w - 1\<rparr>;
         let need_to_destroy_tss = (sighandlers_count w = 0);
         w \<leftarrow> info_upd (itr_val it) (\<lambda>inf. inf\<lparr>install_count := install_count inf - 1\<rparr>) w;
         inf \<leftarrow> deref (infos w) (itr_val it);
         w \<leftarrow> (if install_count inf = 0
           then unmap_handler it signo w
           else Some w);
         Some (if need_to_destroy_tss then snd (tss_destroy B w) else w)
       }
       else Some w);
     w \<leftarrow> UNLOCK w;
     Some (True, w)
   }"

text \<open>
  The loops of \<^verbatim>\<open>siginstall\<close> and \<^verbatim>\<open>siguninstall\<close> over the signal numbers, as
  recursions over the list of numbers still to visit. The first one answers the number at
  which installation failed.
\<close>

definition skipped_signo :: "int \<Rightarrow> bool" where
  "skipped_signo signo \<longleftrightarrow> signo = SIGKILL \<or> signo = SIGSTOP"

fun install_each ::
  "tss_backend \<Rightarrow> sigset \<Rightarrow> int list \<Rightarrow> sig_world \<Rightarrow> (int option \<times> sig_world) option" where
  "install_each B ret [] w = Some (None, w)"
| "install_each B ret (signo # signos) w =
     (if skipped_signo signo then install_each B ret signos w
      else if sigismember ret signo
      then do {
        (ok, w) \<leftarrow> install_sighandler B signo w;
        (if \<not> ok then Some (Some signo, w) else install_each B ret signos w)
      }
      else install_each B ret signos w)"

fun uninstall_each ::
  "tss_backend \<Rightarrow> sigset \<Rightarrow> int list \<Rightarrow> sig_world \<Rightarrow> (bool \<times> sig_world) option" where
  "uninstall_each B ss [] w = Some (True, w)"
| "uninstall_each B ss (signo # signos) w =
     (if skipped_signo signo then uninstall_each B ss signos w
      else if sigismember ss signo
      then do {
        (ok, w) \<leftarrow> uninstall_sighandler B signo w;
        (if \<not> ok then Some (False, w) else uninstall_each B ss signos w)
      }
      else uninstall_each B ss signos w)"

text \<open>The roll-back loop ignores the result of each uninstall.\<close>

fun rollback_each :: "tss_backend \<Rightarrow> sigset \<Rightarrow> int list \<Rightarrow> sig_world \<Rightarrow> sig_world option" where
  "rollback_each B ret [] w = Some w"
| "rollback_each B ret (signo # signos) w =
     (if skipped_signo signo then rollback_each B ret signos w
      else if sigismember ret signo
      then do {
        (ok, w) \<leftarrow> uninstall_sighandler B signo w;
        rollback_each B ret signos w
      }
      else rollback_each B ret signos w)"

text \<open>
  The set \<^verbatim>\<open>siginstall\<close> installs: the caller's, or every signal but the realtime ones;
  then without those of the C library's internal signals (\<^verbatim>\<open>SIGCANCEL\<close>,
  \<^verbatim>\<open>SIGSETXID\<close>) that the host's headers define, given as the list \<open>internal\<close>.
\<close>

definition siginstall_set :: "int list \<Rightarrow> sigset option \<Rightarrow> sigset" where
  "siginstall_set internal guarded =
     (let ret = (case guarded of
            None \<Rightarrow> fold (\<lambda>n s. sigdelset s n) [SIGRTMIN..SIGRTMAX] sigfillset
          | Some g \<Rightarrow> g)
      in fold (\<lambda>n s. sigdelset s n) internal ret)"

definition siginstall ::
  "tss_backend \<Rightarrow> int list \<Rightarrow> sigset option \<Rightarrow> sig_world \<Rightarrow> (ptr \<times> sig_world) option" where
  "siginstall B internal guarded w =
     (case host_alloc w of
        (None, w) \<Rightarrow> Some (None, w)
      | (Some a, w) \<Rightarrow> do {
          let ret = siginstall_set internal guarded;
          let w = w\<lparr>install_handles := (install_handles w)(a \<mapsto> ret)\<rparr>;
          (failed, w) \<leftarrow> install_each B ret [1..NSIG - 1] w;
          (case failed of
             None \<Rightarrow> Some (Some a, w)
           | Some signo \<Rightarrow> do {
               let errcode = errno w;
               w \<leftarrow> rollback_each B ret [1..signo - 1] w;
               h \<leftarrow> free_cell (install_handles w) a;
               Some (None, w\<lparr>install_handles := h, errno := errcode\<rparr>)
             })
        })"

definition siguninstall :: "tss_backend \<Rightarrow> ptr \<Rightarrow> sig_world \<Rightarrow> (int \<times> sig_world) option" where
  "siguninstall B ss w =
     (if ss = None then Some (-1, w\<lparr>errno := EINVAL\<rparr>)
      else do {
        sigset \<leftarrow> deref (install_handles w) ss;
        (ok, w) \<leftarrow> uninstall_each B sigset [1..NSIG - 1] w;
        (if \<not> ok then Some (-1, w)
         else do {
           h \<leftarrow> free_cell (install_handles w) (the ss);
           Some (0, w\<lparr>install_handles := h\<rparr>)
         })
      })"

definition siguninstall_system :: "int \<Rightarrow> sig_world \<Rightarrow> int \<times> sig_world" where
  "siguninstall_system version w =
     (if version \<noteq> 0 then (-1, w\<lparr>errno := EINVAL\<rparr>) else (0, w))"

section \<open>Global deciders\<close>

text \<open>The slots of a handle, read and written through the running pointer \<^verbatim>\<open>retp\<close>.\<close>

definition slot_read :: "addr \<Rightarrow> nat \<Rightarrow> sig_world \<Rightarrow> ptr option" where
  "slot_read p k w = do {
     dh \<leftarrow> decider_handles w p;
     assert_that (k < length (dh_slots dh));
     Some (dh_slots dh ! k)
   }"

definition slot_write :: "addr \<Rightarrow> nat \<Rightarrow> ptr \<Rightarrow> sig_world \<Rightarrow> sig_world option" where
  "slot_write p k v w = do {
     dh \<leftarrow> decider_handles w p;
     assert_that (k < length (dh_slots dh));
     Some (w\<lparr>decider_handles := (decider_handles w)(p \<mapsto> dh\<lparr>dh_slots := (dh_slots dh)[k := v]\<rparr>)\<rparr>)
   }"

text \<open>
  One round of the loop of \<^verbatim>\<open>signal_decider_destroy\<close> for one signal number: the part under
  the lock, then the part after it; the result is the advanced slot index.
\<close>

definition destroy_locked :: "addr \<Rightarrow> sigset \<Rightarrow> int \<Rightarrow> nat \<Rightarrow> sig_world \<Rightarrow> sig_world option" where
  "destroy_locked p guarded signo k w = do {
     let it = signo_map_get (signo_to_sighandler_map w) signo;
     (if \<not> signo_map_is_end it
      then do {
        w \<leftarrow> drain_deferred_frees (itr_val it) w;
        (if sigismember guarded signo
         then do {
           n \<leftarrow> slot_read p k w;
           (if n \<noteq> None
            then do {
              w \<leftarrow> node_upd n (\<lambda>d. d\<lparr>refcount := refcount d - 1\<rparr>) w;
              d \<leftarrow> deref (nodes w) n;
              (if refcount d = 0
               then do {
                 linked \<leftarrow> sighandler_info_has_decider (itr_val it) n w;
                 w \<leftarrow> (if linked then gh_remove (itr_val it) n w
                   else node_upd n (\<lambda>d. d\<lparr>n_prev := None, n_next := None\<rparr>) w);
                 w \<leftarrow> free_node n w;
                 slot_write p k None w
               }
               else slot_write p k None w)
            }
            else Some w)
         }
         else Some w)
      }
      else Some w)
   }"

definition destroy_unlocked :: "addr \<Rightarrow> sigset \<Rightarrow> int \<Rightarrow> nat \<Rightarrow> sig_world \<Rightarrow> (nat \<times> sig_world) option" where
  "destroy_unlocked p guarded signo k w =
     (if sigismember guarded signo
      then do {
        n \<leftarrow> slot_read p k w;
        w \<leftarrow> (if n \<noteq> None
          then do {
            w \<leftarrow> node_upd n (\<lambda>d. d\<lparr>refcount := refcount d - 1\<rparr>) w;
            d \<leftarrow> deref (nodes w) n;
            (if refcount d = 0 then free_node n w else Some w)
          }
          else Some w);
        Some (k + 1, w)
      }
      else Some (k, w))"

fun destroy_each ::
  "addr \<Rightarrow> sigset \<Rightarrow> int list \<Rightarrow> nat \<Rightarrow> sig_world \<Rightarrow> sig_world option" where
  "destroy_each p guarded [] k w = Some w"
| "destroy_each p guarded (signo # signos) k w =
     (if skipped_signo signo then destroy_each p guarded signos k w
      else do {
        w \<leftarrow> LOCK w;
        w \<leftarrow> destroy_locked p guarded signo k w;
        w \<leftarrow> UNLOCK w;
        (k, w) \<leftarrow> destroy_unlocked p guarded signo k w;
        destroy_each p guarded signos k w
      })"

definition signal_decider_destroy :: "ptr \<Rightarrow> sig_world \<Rightarrow> (int \<times> sig_world) option" where
  "signal_decider_destroy p w =
     (case p of None \<Rightarrow> Some (-1, w\<lparr>errno := EINVAL\<rparr>)
      | Some a \<Rightarrow> do {
          dh \<leftarrow> decider_handles w a;
          w \<leftarrow> destroy_each a (dh_guarded dh) [1..NSIG - 1] 0 w;
          h \<leftarrow> free_cell (decider_handles w) a;
          Some (0, w\<lparr>decider_handles := h\<rparr>)
        })"

text \<open>
  The loop of \<^verbatim>\<open>signal_decider_create\<close>: the answer tells whether the allocation of a node
  failed, with the lock already released then.
\<close>

fun create_each ::
  "addr \<Rightarrow> sigset \<Rightarrow> bool \<Rightarrow> fnptr \<Rightarrow> siginfo_value \<Rightarrow> int list \<Rightarrow> nat \<Rightarrow> sig_world
     \<Rightarrow> (bool \<times> sig_world) option" where
  "create_each p guarded callfirst f v [] k w = Some (True, w)"
| "create_each p guarded callfirst f v (signo # signos) k w =
     (if skipped_signo signo then create_each p guarded callfirst f v signos k w
      else if sigismember guarded signo
      then do {
        w \<leftarrow> LOCK w;
        let it = signo_map_get (signo_to_sighandler_map w) signo;
        (if signo_map_is_end it
         then do {
           w \<leftarrow> slot_write p k None w;
           w \<leftarrow> UNLOCK w;
           create_each p guarded callfirst f v signos (k + 1) w
         }
         else (case host_alloc w of
           (None, w) \<Rightarrow> do { w \<leftarrow> UNLOCK w; Some (False, w) }
         | (Some i, w) \<Rightarrow> do {
             let w = w\<lparr>nodes := (nodes w)(i \<mapsto>
               \<lparr>n_prev = None, n_next = None, refcount = 1, decider = f, dvalue = v\<rparr>)\<rparr>;
             w \<leftarrow> (if callfirst then gh_insert_front (itr_val it) (Some i) w
               else gh_insert_back (itr_val it) (Some i) w);
             w \<leftarrow> slot_write p k (Some i) w;
             w \<leftarrow> UNLOCK w;
             create_each p guarded callfirst f v signos (k + 1) w
           }))
      }
      else create_each p guarded callfirst f v signos k w)"

definition guarded_signos :: "sigset \<Rightarrow> int list" where
  "guarded_signos guarded =
     filter (\<lambda>n. \<not> skipped_signo n \<and> sigismember guarded n) [1..NSIG - 1]"

definition signal_decider_create ::
  "sigset option \<Rightarrow> bool \<Rightarrow> fnptr option \<Rightarrow> siginfo_value \<Rightarrow> sig_world \<Rightarrow> (ptr \<times> sig_world) option" where
  "signal_decider_create guarded callfirst f v w =
     (case guarded of
        None \<Rightarrow> Some (None, w\<lparr>errno := EINVAL\<rparr>)
      | Some g \<Rightarrow>
          (let signo_count = length (guarded_signos g)
           in if signo_count = 0 \<or> f = None then Some (None, w\<lparr>errno := EINVAL\<rparr>)
           else (case host_alloc w of
             (None, w) \<Rightarrow> Some (None, w)
           | (Some a, w) \<Rightarrow> do {
               let w = w\<lparr>decider_handles := (decider_handles w)(a \<mapsto>
                 \<lparr>dh_guarded = g, dh_slots = replicate (signo_count + 1) None\<rparr>)\<rparr>;
               (ok, w) \<leftarrow> create_each a g callfirst (the f) v [1..NSIG - 1] 0 w;
               (if ok then Some (Some a, w)
                else do {
                  let errcode = errno w;
                  (r, w) \<leftarrow> signal_decider_destroy (Some a) w;
                  Some (None, w\<lparr>errno := errcode\<rparr>)
                })
             })))"

end
