(* ===== verification/Registry_Inv.thy ===== *)
theory Registry_Inv
  imports Registry
begin

text \<open>
  The invariant of the handler registry and the effect of its building blocks: draining and
  releasing a container, pinning it, changing its install count, taking it out of the map.
  Ghost functions name what the heaps hold: which nodes are on which list, and how many
  raises in flight hold a container or a node.
\<close>

section \<open>Heap updates inside the world\<close>

lemma info_upd_ok [simp]:
  "infos w a = Some ci \<Longrightarrow> info_upd (Some a) f w = Some (w\<lparr>infos := (infos w)(a \<mapsto> f ci)\<rparr>)"
  by (simp add: info_upd_def)

lemma node_upd_ok [simp]:
  "nodes w n = Some d \<Longrightarrow> node_upd (Some n) f w = Some (w\<lparr>nodes := (nodes w)(n \<mapsto> f d)\<rparr>)"
  by (simp add: node_upd_def)

lemma free_node_ok [simp]:
  "nodes w n = Some d \<Longrightarrow> free_node (Some n) w = Some (w\<lparr>nodes := (nodes w)(n := None)\<rparr>)"
  by (simp add: free_node_def)

lemma free_info_ok [simp]:
  "infos w a = Some ci \<Longrightarrow> free_info (Some a) w = Some (w\<lparr>infos := (infos w)(a := None)\<rparr>)"
  by (simp add: free_info_def)

lemma LOCK_ok [simp]: "lock w = 0 \<Longrightarrow> LOCK w = Some (w\<lparr>lock := 1\<rparr>)"
  by (simp add: LOCK_def)

lemma UNLOCK_ok [simp]: "lock w = 1 \<Longrightarrow> UNLOCK w = Some (w\<lparr>lock := 0\<rparr>)"
  by (simp add: UNLOCK_def)

definition unlinked :: "'a node_scheme \<Rightarrow> 'a node_scheme" where
  "unlinked n = n\<lparr>n_prev := None, n_next := None\<rparr>"

definition unlink_set :: "addr set \<Rightarrow> 'a node_scheme heap \<Rightarrow> 'a node_scheme heap" where
  "unlink_set S h n = (if n \<in> S then map_option unlinked (h n) else h n)"

lemma unlink_set_empty [simp]: "unlink_set {} h = h"
  by (simp add: unlink_set_def fun_eq_iff)

lemma restrict_UNIV [simp]: "m |` UNIV = m"
  by (simp add: restrict_map_def fun_eq_iff)

lemma node_sets_None [simp]:
  "h n = None \<Longrightarrow> unlink_set S h n = None" "h n = None \<Longrightarrow> (h |` T) n = None"
  by (simp_all add: unlink_set_def restrict_map_def)

lemmas node_sets = unlink_set_def restrict_map_def

lemma LIST_REMOVE_front:
  assumes "dll h l (x # xs)"
  shows "\<exists>l' h'. LIST_REMOVE l (Some x) h = Some (l', h') \<and> dll h' l' xs
   \<and> (\<forall>y. map_option unlinked (h' y) = map_option unlinked (h y))
   \<and> h' x = map_option unlinked (h x)
   \<and> (\<forall>y. y \<notin> set (x # xs) \<longrightarrow> h' y = h y)"
proof -
  obtain l' h' where r: "LIST_REMOVE l (Some x) h = Some (l', h')" "dll h' l' xs" "detached h' x"
    "payload h' = payload h" "\<forall>a. a \<notin> set (x # xs) \<longrightarrow> h' a = h a"
    using LIST_REMOVE_dll[of h l "[]" x xs] assms by auto
  have u: "map_option unlinked (h' y) = map_option unlinked (h y)" for y
    using fun_cong[OF r(4), of y]
    by (cases "h y"; cases "h' y")
      (auto simp: payload_def unlinked_def intro!: node.equality)
  have "h' x = map_option unlinked (h' x)"
    using r(3) by (auto simp: detached_def unlinked_def split: option.splits)
  with u r show ?thesis by metis
qed

text \<open>The two draining loops, with their exact effect.\<close>

lemma drain_deferred_frees_ok:
  assumes "infos w a = Some ci" "dll (nodes w) (deferred_frees ci) ds"
  shows "drain_deferred_frees (Some a) w = Some (w\<lparr>
    infos := (infos w)(a \<mapsto> ci\<lparr>deferred_frees := dlist_empty\<rparr>),
    nodes := nodes w |` (- set ds)\<rparr>)"
  using assms
proof (induction ds arbitrary: w ci)
  case Nil
  then have "deferred_frees ci = dlist_empty" by (simp add: dll_def dlist_empty_def)
  with Nil show ?case
    by (subst drain_deferred_frees.simps) (simp add: dlist_empty_def fun_upd_idem)
next
  case (Cons x ds)
  obtain l' h' where r: "LIST_REMOVE (deferred_frees ci) (Some x) (nodes w) = Some (l', h')"
    "dll h' l' ds" "h' x = map_option unlinked (nodes w x)"
    "\<forall>y. y \<notin> set (x # ds) \<longrightarrow> h' y = nodes w y"
    using LIST_REMOVE_front[OF Cons.prems(2)] by blast
  obtain d where d: "nodes w x = Some d" using dll_live[OF Cons.prems(2), of x] by auto
  have front: "l_front (deferred_frees ci) = Some x" using dll_front[OF Cons.prems(2)] by simp
  have dist: "x \<notin> set ds" using dll_distinct[OF Cons.prems(2)] by simp
  define w1 where "w1 = w\<lparr>infos := (infos w)(a \<mapsto> ci\<lparr>deferred_frees := l'\<rparr>), nodes := h'(x := None)\<rparr>"
  have "drain_deferred_frees (Some a) w = drain_deferred_frees (Some a) w1"
    using Cons.prems(1) r(1,3) d front
    by (subst drain_deferred_frees.simps) (simp add: df_remove_def w1_def)
  also have "\<dots> = Some (w1\<lparr>infos := (infos w1)(a \<mapsto> ci\<lparr>deferred_frees := l'\<rparr>\<lparr>deferred_frees := dlist_empty\<rparr>),
    nodes := nodes w1 |` (- set ds)\<rparr>)"
    using r(2) dll_frame[OF dist, of h' None l']
    by (intro Cons.IH) (simp_all add: w1_def fun_upd_def)
  finally show ?case
    using r(4) by (auto simp: w1_def fun_eq_iff node_sets)
qed

lemma detach_global_handlers_ok:
  assumes "infos w a = Some ci" "dll (nodes w) (global_handler ci) xs"
  shows "detach_global_handlers (Some a) w = Some (w\<lparr>
    infos := (infos w)(a \<mapsto> ci\<lparr>global_handler := dlist_empty\<rparr>),
    nodes := unlink_set (set xs) (nodes w)\<rparr>)"
  using assms
proof (induction xs arbitrary: w ci)
  case Nil
  then have "global_handler ci = dlist_empty" by (simp add: dll_def dlist_empty_def)
  with Nil show ?case
    by (subst detach_global_handlers.simps) (simp add: dlist_empty_def fun_upd_idem)
next
  case (Cons x xs)
  obtain l' h' where r: "LIST_REMOVE (global_handler ci) (Some x) (nodes w) = Some (l', h')"
    "dll h' l' xs" "h' x = map_option unlinked (nodes w x)"
    "\<forall>y. map_option unlinked (h' y) = map_option unlinked (nodes w y)"
    "\<forall>y. y \<notin> set (x # xs) \<longrightarrow> h' y = nodes w y"
    using LIST_REMOVE_front[OF Cons.prems(2)] by blast
  have front: "l_front (global_handler ci) = Some x" using dll_front[OF Cons.prems(2)] by simp
  have dist: "x \<notin> set xs" using dll_distinct[OF Cons.prems(2)] by simp
  define w1 where "w1 = w\<lparr>nodes := h', infos := (infos w)(a \<mapsto> ci\<lparr>global_handler := l'\<rparr>)\<rparr>"
  have "detach_global_handlers (Some a) w = detach_global_handlers (Some a) w1"
    using Cons.prems(1) r(1) front
    by (subst detach_global_handlers.simps) (simp add: gh_remove_def w1_def)
  also have "\<dots> = Some (w1\<lparr>infos := (infos w1)(a \<mapsto> ci\<lparr>global_handler := l'\<rparr>\<lparr>global_handler := dlist_empty\<rparr>),
    nodes := unlink_set (set xs) (nodes w1)\<rparr>)"
    by (rule Cons.IH) (simp_all add: w1_def r(2))
  finally show ?case
    using r(3-5) dist by (auto simp: w1_def fun_eq_iff node_sets)
qed

lemma has_decider_from_ok:
  "dseg (nodes w) p xs None \<Longrightarrow> has_decider_from (first_ptr xs None) (Some n) w = Some (n \<in> set xs)"
proof (induction xs arbitrary: p)
  case Nil
  show ?case by (subst has_decider_from.simps) simp
next
  case (Cons x xs)
  then obtain d where "nodes w x = Some d" "n_next d = first_ptr xs None"
    "dseg (nodes w) (Some x) xs None" by (auto split: option.splits)
  with Cons.IH show ?case by (subst has_decider_from.simps) auto
qed

lemma has_decider_ok:
  assumes "infos w a = Some ci" "dll (nodes w) (global_handler ci) xs"
  shows "sighandler_info_has_decider (Some a) (Some n) w = Some (n \<in> set xs)"
  using assms has_decider_from_ok[of w None xs n]
  by (simp add: sighandler_info_has_decider_def dll_def)


lemma sighandler_info_release_ok:
  assumes a: "infos w a = Some ci" and xs: "dll (nodes w) (global_handler ci) xs"
    and ds: "dll (nodes w) (deferred_frees ci) ds" and dj: "set xs \<inter> set ds = {}"
  shows "sighandler_info_release (Some a) w = Some (
    if lifetime_refcount ci = 1
    then w\<lparr>infos := (infos w)(a := None),
           nodes := unlink_set (set xs) (nodes w |` (- set ds))\<rparr>
    else w\<lparr>infos := (infos w)(a \<mapsto> ci\<lparr>lifetime_refcount := lifetime_refcount ci - 1\<rparr>)\<rparr>)"
proof (cases "lifetime_refcount ci = 1")
  case True
  define w1 where "w1 = w\<lparr>infos := (infos w)(a \<mapsto> ci\<lparr>lifetime_refcount := 0\<rparr>)\<rparr>"
  define w2 where "w2 = w1\<lparr>infos := (infos w1)(a \<mapsto> ci\<lparr>lifetime_refcount := 0, deferred_frees := dlist_empty\<rparr>),
    nodes := nodes w1 |` (- set ds)\<rparr>"
  have 1: "drain_deferred_frees (Some a) w1 = Some w2"
    using drain_deferred_frees_ok[of w1 a "ci\<lparr>lifetime_refcount := 0\<rparr>" ds] ds
    by (simp add: w1_def w2_def)
  have "dll (nodes w2) (global_handler ci) xs"
    using xs dj by (subst dll_cong[of _ _ "nodes w"]) (auto simp: w2_def w1_def node_sets)
  then have 2: "detach_global_handlers (Some a) w2 = Some (w2\<lparr>
    infos := (infos w2)(a \<mapsto> ci\<lparr>lifetime_refcount := 0, deferred_frees := dlist_empty, global_handler := dlist_empty\<rparr>),
    nodes := unlink_set (set xs) (nodes w2)\<rparr>)"
    using detach_global_handlers_ok[of w2 a "ci\<lparr>lifetime_refcount := 0, deferred_frees := dlist_empty\<rparr>" xs]
    by (simp add: w2_def)
  show ?thesis
    using True a 1 2 dj
    by (auto simp: sighandler_info_release_def w1_def[symmetric])
      (auto simp: w2_def w1_def fun_eq_iff node_sets)
next
  case False
  with a show ?thesis by (simp add: sighandler_info_release_def)
qed

section \<open>The registry invariant\<close>

definition disjoint_lists :: "(addr \<Rightarrow> addr list) \<Rightarrow> (addr \<Rightarrow> addr list) \<Rightarrow> bool" where
  "disjoint_lists G D \<longleftrightarrow> (\<forall>n a b. n \<in> set (G a) \<longrightarrow> n \<notin> set (D b) \<and> (n \<in> set (G b) \<longrightarrow> b = a))
     \<and> (\<forall>n a b. n \<in> set (D a) \<longrightarrow> n \<in> set (D b) \<longrightarrow> b = a)"

definition lists_inv ::
  "sighandler_info heap \<Rightarrow> global_signal_decider_t heap \<Rightarrow> (addr \<Rightarrow> addr list) \<Rightarrow> (addr \<Rightarrow> addr list) \<Rightarrow> bool"
  where
  "lists_inv I ns G D \<longleftrightarrow> disjoint_lists G D
     \<and> (\<forall>a. I a = None \<longrightarrow> G a = [] \<and> D a = [])
     \<and> (\<forall>a ci. I a = Some ci \<longrightarrow> dll ns (global_handler ci) (G a) \<and> dll ns (deferred_frees ci) (D a))"

lemma disjoint_listsD:
  assumes "disjoint_lists G D"
  shows "n \<in> set (G a) \<Longrightarrow> n \<notin> set (D b)" "n \<in> set (G a) \<Longrightarrow> n \<in> set (G b) \<Longrightarrow> b = a"
    "n \<in> set (D a) \<Longrightarrow> n \<notin> set (G b)" "n \<in> set (D a) \<Longrightarrow> n \<in> set (D b) \<Longrightarrow> b = a"
  using assms unfolding disjoint_lists_def by blast+

lemma lists_inv_disjoint: "lists_inv I ns G D \<Longrightarrow> disjoint_lists G D"
  by (simp add: lists_inv_def)

lemma lists_invD:
  assumes "lists_inv I ns G D" "I a = Some ci"
  shows "dll ns (global_handler ci) (G a)" "dll ns (deferred_frees ci) (D a)"
    "set (G a) \<inter> set (D a) = {}"
  using assms disjoint_listsD[OF lists_inv_disjoint[OF assms(1)]] by (auto simp: lists_inv_def)

lemma lists_inv_live:
  assumes "lists_inv I ns G D" "n \<in> set (G a) \<union> set (D a)"
  shows "\<exists>d. ns n = Some d" "\<exists>ci. I a = Some ci"
proof -
  show "\<exists>ci. I a = Some ci" using assms by (cases "I a") (auto simp: lists_inv_def)
  then obtain ci where "I a = Some ci" ..
  with assms(2) lists_invD[OF assms(1) this] show "\<exists>d. ns n = Some d" by (auto dest: dll_live)
qed

text \<open>
  What one change of the heaps does to the invariant: only the lists of one container may
  change, and outside of them the nodes on lists stay as they were.
\<close>

lemma lists_inv_change:
  assumes inv: "lists_inv I ns G D" and dj: "disjoint_lists G' D'"
    and fr: "\<And>n b. b \<noteq> a \<Longrightarrow> n \<in> set (G b) \<union> set (D b) \<Longrightarrow> ns' n = ns n"
    and eq: "\<And>b. b \<noteq> a \<Longrightarrow> I' b = I b \<and> G' b = G b \<and> D' b = D b"
    and new: "\<And>ci. I' a = Some ci \<Longrightarrow> dll ns' (global_handler ci) (G' a) \<and> dll ns' (deferred_frees ci) (D' a)"
    and none: "I' a = None \<Longrightarrow> G' a = [] \<and> D' a = []"
  shows "lists_inv I' ns' G' D'"
proof -
  have "dll ns' l (G b) = dll ns l (G b)" "dll ns' l (D b) = dll ns l (D b)" if "b \<noteq> a" for l b
    using fr[OF that] by (auto intro!: dll_cong)
  with inv dj eq new none show ?thesis
    unfolding lists_inv_def by metis
qed

lemma lists_inv_cong:
  assumes "lists_inv I ns G D" "\<And>n a. n \<in> set (G a) \<union> set (D a) \<Longrightarrow> ns' n = ns n"
  shows "lists_inv I ns' G D"
proof -
  have "dll ns' l (G b) = dll ns l (G b)" "dll ns' l (D b) = dll ns l (D b)" for l b
    using assms(2) by (auto intro!: dll_cong)
  with assms(1) show ?thesis by (simp add: lists_inv_def)
qed

lemma lists_inv_info_upd:
  assumes "lists_inv I ns G D" "I a = Some ci" "global_handler ci' = global_handler ci"
    "deferred_frees ci' = deferred_frees ci"
  shows "lists_inv (I(a \<mapsto> ci')) ns G D"
  using assms by (auto simp: lists_inv_def)

lemma dll_node_upd:
  assumes "dll ns l xs" "ns n = Some d" "n_prev d' = n_prev d" "n_next d' = n_next d"
  shows "dll (ns(n \<mapsto> d')) l xs"
proof -
  have "dseg (ns(n \<mapsto> d')) p xs q = dseg ns p xs q" for p q
    using assms(2-4) by (induction xs arbitrary: p) (auto split: option.splits)
  with assms(1) show ?thesis by (simp add: dll_def)
qed

lemma lists_inv_node_upd:
  assumes "lists_inv I ns G D" "ns n = Some d" "n_prev d' = n_prev d" "n_next d' = n_next d"
  shows "lists_inv I (ns(n \<mapsto> d')) G D"
proof -
  have "dll (ns(n \<mapsto> d')) l xs" if "dll ns l xs" for l xs
    using dll_node_upd[OF that assms(2-4)] .
  with assms(1) show ?thesis by (simp add: lists_inv_def)
qed

lemma lists_inv_drain:
  assumes inv: "lists_inv I ns G D" and a: "I a = Some ci"
  shows "lists_inv (I(a \<mapsto> ci\<lparr>deferred_frees := dlist_empty\<rparr>))
    (ns |` (- set (D a))) G (D(a := []))"
proof (rule lists_inv_change[OF inv, where a = a])
  note dj = lists_inv_disjoint[OF inv]
  show "disjoint_lists G (D(a := []))" using dj by (auto simp: disjoint_lists_def)
  show "(ns |` (- set (D a))) n = ns n" if "b \<noteq> a" "n \<in> set (G b) \<union> set (D b)" for n b
    using disjoint_listsD[OF dj] that by (auto simp: node_sets)
  have "dll (ns |` (- set (D a))) l (G a) = dll ns l (G a)" for l
    using disjoint_listsD[OF dj] by (intro dll_cong) (auto simp: node_sets)
  with lists_invD[OF inv a] a show "dll (ns |` (- set (D a))) (global_handler c) (G a)
      \<and> dll (ns |` (- set (D a))) (deferred_frees c) ((D(a := [])) a)"
    if "(I(a \<mapsto> ci\<lparr>deferred_frees := dlist_empty\<rparr>)) a = Some c" for c
    using that by auto
qed (auto)

lemma lists_inv_free:
  assumes inv: "lists_inv I ns G D"
  shows "lists_inv (I(a := None))
    (unlink_set (set (G a)) (ns |` (- set (D a))))
    (G(a := [])) (D(a := []))"
proof (rule lists_inv_change[OF inv, where a = a])
  note dj = lists_inv_disjoint[OF inv]
  show "disjoint_lists (G(a := [])) (D(a := []))" using dj by (auto simp: disjoint_lists_def)
  show "unlink_set (set (G a)) (ns |` (- set (D a))) n = ns n"
    if "b \<noteq> a" "n \<in> set (G b) \<union> set (D b)" for n b
    using disjoint_listsD[OF dj] that by (auto simp: node_sets)
qed auto

lemma lists_inv_new_info:
  assumes "lists_inv I ns G D" "I a = None" "global_handler ci = dlist_empty" "deferred_frees ci = dlist_empty"
  shows "lists_inv (I(a \<mapsto> ci)) ns G D"
  using assms by (auto simp: lists_inv_def)

lemma lists_inv_set_G:
  assumes inv: "lists_inv I ns G D" and a: "I a = Some ci" and l: "dll ns' l xs"
    and fr: "\<And>n. n \<notin> insert x (set (G a)) \<Longrightarrow> ns' n = ns n"
    and S: "\<And>b. x \<notin> set (D b)" "\<And>b. b \<noteq> a \<Longrightarrow> x \<notin> set (G b)"
    and xs: "set xs \<subseteq> insert x (set (G a))"
  shows "lists_inv (I(a \<mapsto> ci\<lparr>global_handler := l\<rparr>)) ns' (G(a := xs)) D"
proof (rule lists_inv_change[OF inv, where a = a])
  note dj = lists_inv_disjoint[OF inv]
  show "disjoint_lists (G(a := xs)) D"
    using dj xs S unfolding disjoint_lists_def by (auto; blast)
  show "ns' n = ns n" if "b \<noteq> a" "n \<in> set (G b) \<union> set (D b)" for n b
    using S disjoint_listsD[OF dj] that by (intro fr) (metis Un_iff insertE)
  have "dll ns' m (D a) = dll ns m (D a)" for m
    using S(1) disjoint_listsD[OF dj] by (intro dll_cong fr) (metis insertE)
  with lists_invD[OF inv a] l show "dll ns' (global_handler c) ((G(a := xs)) a) \<and> dll ns' (deferred_frees c) (D a)"
    if "(I(a \<mapsto> ci\<lparr>global_handler := l\<rparr>)) a = Some c" for c
    using that by auto
qed auto

lemma lists_inv_set_D:
  assumes inv: "lists_inv I ns G D" and a: "I a = Some ci" and l: "dll ns' l xs"
    and fr: "\<And>n. n \<notin> insert x (set (D a)) \<Longrightarrow> ns' n = ns n"
    and S: "\<And>b. x \<notin> set (G b)" "\<And>b. b \<noteq> a \<Longrightarrow> x \<notin> set (D b)"
    and xs: "set xs \<subseteq> insert x (set (D a))"
  shows "lists_inv (I(a \<mapsto> ci\<lparr>deferred_frees := l\<rparr>)) ns' G (D(a := xs))"
proof (rule lists_inv_change[OF inv, where a = a])
  note dj = lists_inv_disjoint[OF inv]
  show "disjoint_lists G (D(a := xs))"
    using dj xs S unfolding disjoint_lists_def by (auto; blast)
  show "ns' n = ns n" if "b \<noteq> a" "n \<in> set (G b) \<union> set (D b)" for n b
    using S disjoint_listsD[OF dj] that by (intro fr) (metis Un_iff insertE)
  have "dll ns' m (G a) = dll ns m (G a)" for m
    using S(1) disjoint_listsD[OF dj] by (intro dll_cong fr) (metis insertE)
  with lists_invD[OF inv a] l show "dll ns' (global_handler c) (G a) \<and> dll ns' (deferred_frees c) ((D(a := xs)) a)"
    if "(I(a \<mapsto> ci\<lparr>deferred_frees := l\<rparr>)) a = Some c" for c
    using that by auto
qed auto

text \<open>The node in slot \<open>k\<close> of the handle at \<open>h\<close>.\<close>

definition slot :: "decider_handle heap \<Rightarrow> addr \<Rightarrow> nat \<Rightarrow> addr option" where
  "slot hs h k = (case hs h of None \<Rightarrow> None
     | Some dh \<Rightarrow> if k < length (dh_slots dh) then dh_slots dh ! k else None)"

definition owned :: "decider_handle heap \<Rightarrow> addr \<Rightarrow> bool" where
  "owned hs n \<longleftrightarrow> (\<exists>h k. slot hs h k = Some n)"

definition listed :: "(addr \<Rightarrow> addr list) \<Rightarrow> addr \<Rightarrow> bool" where
  "listed F n \<longleftrightarrow> (\<exists>a. n \<in> set (F a))"

lemma listedI: "n \<in> set (F a) \<Longrightarrow> listed F n"
  by (auto simp: listed_def)

lemma listed_clear: "n \<notin> set (F a) \<Longrightarrow> listed (F(a := [])) n = listed F n"
  by (auto simp: listed_def)

lemma listed_empty [simp]: "\<not> listed (\<lambda>_. []) n"
  by (simp add: listed_def)

definition map_inv :: "signo_map \<Rightarrow> sighandler_info heap \<Rightarrow> bool" where
  "map_inv m I \<longleftrightarrow> signo_map_wf m
     \<and> (\<forall>j k a. signo_lookup m j = Some a \<longrightarrow> signo_lookup m k = Some a \<longrightarrow> j = k)
     \<and> (\<forall>k a. signo_lookup m k = Some a \<longrightarrow> (\<exists>ci. I a = Some ci \<and> install_count ci > 0))"

definition life_inv :: "signo_map \<Rightarrow> sighandler_info heap \<Rightarrow> (addr \<Rightarrow> nat) \<Rightarrow> bool" where
  "life_inv m I P \<longleftrightarrow> (\<forall>a. I a = None \<longrightarrow> P a = 0)
     \<and> (\<forall>a ci. I a = Some ci \<longrightarrow> (a \<in> ran (signo_lookup m) \<or> P a > 0)
          \<and> lifetime_refcount ci = of_bool (a \<in> ran (signo_lookup m)) + int (P a))"

definition installs :: "signo_map \<Rightarrow> sighandler_info heap \<Rightarrow> int \<Rightarrow> int" where
  "installs m I k = (case signo_lookup m k of None \<Rightarrow> 0 | Some a \<Rightarrow> install_count (the (I a)))"

definition count_inv :: "int \<Rightarrow> signo_map \<Rightarrow> sighandler_info heap \<Rightarrow> bool" where
  "count_inv c m I \<longleftrightarrow> c = (\<Sum>k \<in> {0..<NSIG}. installs m I k)"

definition own_inv :: "global_signal_decider_t heap \<Rightarrow> decider_handle heap \<Rightarrow> (addr \<Rightarrow> addr list)
    \<Rightarrow> (addr \<Rightarrow> nat) \<Rightarrow> bool" where
  "own_inv ns hs D N \<longleftrightarrow> (\<forall>n. ns n = None \<longrightarrow> \<not> owned hs n \<and> N n = 0)
     \<and> (\<forall>n d. ns n = Some d \<longrightarrow> refcount d = of_bool (owned hs n) + int (N n)
          \<and> (listed D n \<longleftrightarrow> \<not> owned hs n \<and> N n = 0))
     \<and> (\<forall>h k h' k' n. slot hs h k = Some n \<longrightarrow> slot hs h' k' = Some n \<longrightarrow> h' = h \<and> k' = k)"

definition home_inv :: "signo_map \<Rightarrow> decider_handle heap \<Rightarrow> (addr \<Rightarrow> addr list) \<Rightarrow> bool" where
  "home_inv m hs G \<longleftrightarrow> (\<forall>h dh. hs h = Some dh \<longrightarrow>
     length (dh_slots dh) = Suc (length (guarded_signos (dh_guarded dh)))
     \<and> (\<forall>k n. slot hs h k = Some n \<longrightarrow> k < length (guarded_signos (dh_guarded dh))
          \<and> (\<forall>a j. n \<in> set (G a) \<longrightarrow> signo_lookup m j = Some a \<longrightarrow> j = guarded_signos (dh_guarded dh) ! k)))"

definition kernel_inv :: "sig_world \<Rightarrow> bool" where
  "kernel_inv w \<longleftrightarrow> (\<forall>k a. signo_lookup (signo_to_sighandler_map w) k = Some a \<longrightarrow>
     \<not> refused w k \<and> kernel w k = raw_sigaction)"

definition fresh_inv :: "sig_world \<Rightarrow> bool" where
  "fresh_inv w \<longleftrightarrow> (\<forall>x \<ge> next_addr w. infos w x = None \<and> nodes w x = None
     \<and> decider_handles w x = None \<and> install_handles w x = None)"

text \<open>
  The invariant of the registry, with the ghost state that explains it: \<open>G a\<close> and \<open>D a\<close>
  are the nodes on the two lists of the container at \<open>a\<close>, \<open>P a\<close> counts the raises in
  flight that hold the container, \<open>N n\<close> those that are inside the decider of node \<open>n\<close>.
\<close>

definition reg_inv :: "sig_world \<Rightarrow> (addr \<Rightarrow> addr list) \<Rightarrow> (addr \<Rightarrow> addr list) \<Rightarrow> (addr \<Rightarrow> nat)
    \<Rightarrow> (addr \<Rightarrow> nat) \<Rightarrow> bool" where
  "reg_inv w G D P N \<longleftrightarrow> map_inv (signo_to_sighandler_map w) (infos w)
     \<and> life_inv (signo_to_sighandler_map w) (infos w) P
     \<and> count_inv (sighandlers_count w) (signo_to_sighandler_map w) (infos w)
     \<and> lists_inv (infos w) (nodes w) G D
     \<and> own_inv (nodes w) (decider_handles w) D N
     \<and> home_inv (signo_to_sighandler_map w) (decider_handles w) G
     \<and> kernel_inv w \<and> fresh_inv w"

lemmas reg_parts = map_inv_def life_inv_def count_inv_def own_inv_def home_inv_def kernel_inv_def fresh_inv_def

definition same_registry :: "sig_world \<Rightarrow> sig_world \<Rightarrow> bool" where
  "same_registry w w' \<longleftrightarrow> lock w' = lock w \<and> sighandlers_count w' = sighandlers_count w
     \<and> signo_to_sighandler_map w' = signo_to_sighandler_map w \<and> infos w' = infos w
     \<and> nodes w' = nodes w \<and> install_handles w' = install_handles w
     \<and> decider_handles w' = decider_handles w \<and> kernel w' = kernel w \<and> refused w' = refused w
     \<and> next_addr w \<le> next_addr w'"

lemma same_registry_refl [simp]: "same_registry w w"
  by (simp add: same_registry_def)

lemma same_registry_trans: "same_registry w w' \<Longrightarrow> same_registry w' w'' \<Longrightarrow> same_registry w w''"
  by (simp add: same_registry_def)

lemma reg_inv_same: "same_registry w w' \<Longrightarrow> reg_inv w G D P N \<Longrightarrow> reg_inv w' G D P N"
  by (auto simp: same_registry_def reg_inv_def kernel_inv_def fresh_inv_def)

lemma reg_inv_irrelevant [simp]:
  "reg_inv (w\<lparr>lock := x\<rparr>) = reg_inv w" "reg_inv (w\<lparr>errno := e\<rparr>) = reg_inv w"
  "reg_inv (w\<lparr>events := ev\<rparr>) = reg_inv w"
  "reg_inv (w\<lparr>alloc_plan := pl\<rparr>) = reg_inv w" "reg_inv (w\<lparr>tss := t\<rparr>) = reg_inv w"
  by (simp_all add: fun_eq_iff reg_inv_def kernel_inv_def fresh_inv_def)

lemma reg_inv_lists: "reg_inv w G D P N \<Longrightarrow> lists_inv (infos w) (nodes w) G D"
  by (simp add: reg_inv_def)

lemma reg_inv_lookup:
  "reg_inv w G D P N \<Longrightarrow> signo_lookup (signo_to_sighandler_map w) k = Some a \<Longrightarrow>
    \<exists>ci. infos w a = Some ci \<and> install_count ci > 0"
  by (simp add: reg_inv_def map_inv_def)

lemma reg_inv_init: "reg_inv sig_world_init (\<lambda>_. []) (\<lambda>_. []) (\<lambda>_. 0) (\<lambda>_. 0)"
  by (auto simp: reg_inv_def reg_parts sig_world_init_def lists_inv_def disjoint_lists_def
      signo_lookup_empty signo_map_empty_wf installs_def owned_def slot_def)

section \<open>Steps under the lock\<close>

lemma reg_inv_dead:
  assumes inv: "reg_inv w G D P N" and n: "n \<in> set (D a)"
  shows "\<not> owned (decider_handles w) n \<and> N n = 0"
proof -
  obtain d where "nodes w n = Some d" using lists_inv_live(1)[OF reg_inv_lists[OF inv], of n a] n by auto
  then show ?thesis using inv n listedI[of n D a] unfolding reg_inv_def own_inv_def by blast
qed

lemma reg_inv_life:
  assumes "reg_inv w G D P N" "infos w a = Some ci"
  shows "lifetime_refcount ci = of_bool (a \<in> ran (signo_lookup (signo_to_sighandler_map w))) + int (P a)"
    "lifetime_refcount ci > 0"
  using assms by (auto simp: reg_inv_def life_inv_def)

lemma installs_upd:
  assumes "\<And>j. j \<noteq> k \<Longrightarrow> installs m' I' j = installs m I j" "signo_valid k"
  shows "(\<Sum>j \<in> {0..<NSIG}. installs m' I' j) =
    (\<Sum>j \<in> {0..<NSIG}. installs m I j) + (installs m' I' k - installs m I k)"
proof -
  have k: "k \<in> {0..<NSIG}" "finite {0..<NSIG}" using assms(2) by auto
  have "(\<Sum>j \<in> {0..<NSIG} - {k}. installs m' I' j) = (\<Sum>j \<in> {0..<NSIG} - {k}. installs m I j)"
    using assms(1) by (intro sum.cong) auto
  then show ?thesis using k by (simp add: sum.remove[of _ k])
qed

text \<open>The parts of the invariant under a change of one container.\<close>

lemma map_inv_info_upd:
  "map_inv m I \<Longrightarrow> I a = Some ci \<Longrightarrow> install_count ci' > 0 \<or> a \<notin> ran (signo_lookup m) \<Longrightarrow> map_inv m (I(a \<mapsto> ci'))"
  by (auto simp: map_inv_def ran_def)

lemma life_inv_info_upd:
  assumes "life_inv m I P" "I a = Some ci" "0 < lifetime_refcount ci'"
    "lifetime_refcount ci' = lifetime_refcount ci + int p - int (P a)"
  shows "life_inv m (I(a \<mapsto> ci')) (P(a := p))"
  using assms by (auto simp: life_inv_def)

lemma life_inv_info_keep:
  "life_inv m I P \<Longrightarrow> I a = Some ci \<Longrightarrow> lifetime_refcount ci' = lifetime_refcount ci \<Longrightarrow> life_inv m (I(a \<mapsto> ci')) P"
  by (auto simp: life_inv_def)

lemma installs_info_upd:
  "I a = Some ci \<Longrightarrow> install_count ci' = install_count ci \<Longrightarrow> installs m (I(a \<mapsto> ci')) = installs m I"
  by (auto simp: installs_def fun_eq_iff split: option.splits)

lemma count_inv_info_upd:
  "count_inv c m I \<Longrightarrow> I a = Some ci \<Longrightarrow> install_count ci' = install_count ci \<Longrightarrow> count_inv c m (I(a \<mapsto> ci'))"
  by (simp add: count_inv_def installs_info_upd)

lemma reg_inv_installed:
  "reg_inv w G D P N \<Longrightarrow> infos w a = Some ci \<Longrightarrow> a \<in> ran (signo_lookup (signo_to_sighandler_map w)) \<Longrightarrow>
    0 < install_count ci"
  by (fastforce simp: reg_inv_def map_inv_def ran_def)

text \<open>A change of a container that keeps its install count and its lists.\<close>

lemma reg_inv_pin:
  assumes inv: "reg_inv w G D P N" and a: "infos w a = Some ci"
    and ci': "install_count ci' = install_count ci" "global_handler ci' = global_handler ci"
      "deferred_frees ci' = deferred_frees ci"
      "lifetime_refcount ci' = lifetime_refcount ci + int p - int (P a)" "0 < lifetime_refcount ci'"
  shows "reg_inv (w\<lparr>infos := (infos w)(a \<mapsto> ci')\<rparr>) G D (P(a := p)) N"
  using inv a ci' lists_inv_info_upd[OF reg_inv_lists[OF inv] a ci'(2,3)] reg_inv_installed[OF inv a]
  by (auto simp: reg_inv_def kernel_inv_def fresh_inv_def intro!: map_inv_info_upd life_inv_info_upd count_inv_info_upd)

lemma reg_inv_drain:
  assumes inv: "reg_inv w G D P N" and a: "infos w a = Some ci"
  shows "\<exists>w'. drain_deferred_frees (Some a) w = Some w' \<and> reg_inv w' G (D(a := [])) P N
    \<and> w' = w\<lparr>infos := (infos w)(a \<mapsto> ci\<lparr>deferred_frees := dlist_empty\<rparr>),
             nodes := (nodes w |` (- set (D a)))\<rparr>"
proof -
  note li = reg_inv_lists[OF inv]
  note dead = reg_inv_dead[OF inv]
  have own: "own_inv (nodes w |` (- set (D a))) (decider_handles w) (D(a := [])) N"
    using inv dead by (auto simp: reg_inv_def own_inv_def listed_clear node_sets)
  show ?thesis
    using drain_deferred_frees_ok[OF a lists_invD(2)[OF li a]] inv a own lists_inv_drain[OF li a]
      reg_inv_installed[OF inv a]
    by (auto simp: reg_inv_def kernel_inv_def fresh_inv_def node_sets intro!: map_inv_info_upd life_inv_info_keep count_inv_info_upd)
qed

text \<open>
  Dropping a reference, the map's one when \<open>unmapped\<close> or a raise's one.
\<close>

definition after_release :: "addr \<Rightarrow> bool \<Rightarrow> (addr \<Rightarrow> 'b list) \<Rightarrow> (addr \<Rightarrow> 'b list)" where
  "after_release a freed F = (if freed then F(a := []) else F)"

lemma own_inv_free:
  assumes inv: "reg_inv w G D P N"
  shows "own_inv (unlink_set (set (G a)) (nodes w |` (- set (D a)))) (decider_handles w) (D(a := [])) N"
proof -
  note li = reg_inv_lists[OF inv]
  note dead = reg_inv_dead[OF inv]
  show ?thesis
    using inv dead by (auto simp: reg_inv_def own_inv_def unlinked_def listed_clear node_sets split: if_splits)
qed

lemma reg_inv_unpin:
  assumes inv: "reg_inv w G D P N" and a: "infos w a = Some ci" and p: "P a > 0"
  defines "freed \<equiv> lifetime_refcount ci = 1"
  shows "\<exists>w'. sighandler_info_release (Some a) w = Some w'
    \<and> reg_inv w' (after_release a freed G) (after_release a freed D) (P(a := P a - 1)) N
    \<and> w' = w\<lparr>infos := infos w', nodes := nodes w'\<rparr>
    \<and> infos w' = (if freed then (infos w)(a := None)
         else (infos w)(a \<mapsto> ci\<lparr>lifetime_refcount := lifetime_refcount ci - 1\<rparr>))
    \<and> (\<forall>n. n \<notin> set (D a) \<longrightarrow> payload (nodes w') n = payload (nodes w) n)"
proof (cases freed)
  case True
  note li = reg_inv_lists[OF inv]
  have un: "a \<notin> ran (signo_lookup (signo_to_sighandler_map w))" "P a = 1"
    using reg_inv_life(1)[OF inv a] True p by (auto simp: freed_def split: if_splits simp: of_bool_def)
  then have nl: "signo_lookup (signo_to_sighandler_map w) k \<noteq> Some a" for k by (auto simp: ran_def)
  have eq: "installs (signo_to_sighandler_map w) ((infos w)(a := None)) = installs (signo_to_sighandler_map w) (infos w)"
    using nl by (auto simp: installs_def fun_eq_iff split: option.splits)
  have own: "own_inv (unlink_set (set (G a)) (nodes w |` (- set (D a))))
      (decider_handles w) (D(a := [])) N"
    by (rule own_inv_free[OF inv])
  have "payload (unlink_set (set (G a)) (nodes w |` (- set (D a)))) n = payload (nodes w) n"
    if "n \<notin> set (D a)" for n
    using that by (simp add: payload_def node_sets unlinked_def option.map_comp o_def)
  then show ?thesis
    using sighandler_info_release_ok[OF a lists_invD[OF li a]] inv True un nl own eq
      lists_inv_free[OF li, of a]
    by (auto simp: freed_def after_release_def reg_inv_def map_inv_def life_inv_def count_inv_def
        home_inv_def kernel_inv_def fresh_inv_def)
next
  case False
  note li = reg_inv_lists[OF inv]
  have "lifetime_refcount ci > 1" using reg_inv_life(2)[OF inv a] False by (simp add: freed_def)
  then show ?thesis
    using sighandler_info_release_ok[OF a lists_invD[OF li a]] False p
      reg_inv_pin[OF inv a, of "ci\<lparr>lifetime_refcount := lifetime_refcount ci - 1\<rparr>" "P a - 1"]
    by (simp add: freed_def after_release_def)
qed

end
