(* ===== verification/Registry_Spec.thy ===== *)
theory Registry_Spec
  imports Registry_Inv
begin

text \<open>
  The registry as its clients see it: for every signal the number of outstanding installs,
  the disposition found at the first of them and the chain of deciders, and the disposition
  the host has now. Installing and uninstalling signals, one or a whole set, refines two
  functions on that view; the operations themselves need the thread-state backend only
  through the interface \<open>tss_laws\<close>.
\<close>

section \<open>The abstract registry\<close>

text \<open>
  What a client can tell of a signal's handler: how many installs are outstanding, the
  disposition found at the first of them, and the chain of deciders in calling order.
\<close>

record abs_handler =
  ah_installs :: int
  ah_previous :: sigaction
  ah_chain :: "(addr \<times> fnptr \<times> siginfo_value) list"

type_synonym abs_registry = "int \<Rightarrow> abs_handler option"

definition abs_install :: "int \<Rightarrow> sigaction \<Rightarrow> abs_registry \<Rightarrow> abs_registry" where
  "abs_install k sa A = (case A k of
     None \<Rightarrow> A(k \<mapsto> \<lparr>ah_installs = 1, ah_previous = sa, ah_chain = []\<rparr>)
   | Some h \<Rightarrow> A(k \<mapsto> h\<lparr>ah_installs := ah_installs h + 1\<rparr>))"

definition abs_uninstall :: "int \<Rightarrow> abs_registry \<Rightarrow> abs_registry" where
  "abs_uninstall k A = (case A k of None \<Rightarrow> A
   | Some h \<Rightarrow> if ah_installs h = 1 then A(k := None)
       else A(k \<mapsto> h\<lparr>ah_installs := ah_installs h - 1\<rparr>))"

definition node_view :: "global_signal_decider_t heap \<Rightarrow> addr \<Rightarrow> addr \<times> fnptr \<times> siginfo_value" where
  "node_view ns n = (n, decider (the (ns n)), dvalue (the (ns n)))"

definition handler_view :: "global_signal_decider_t heap \<Rightarrow> sighandler_info \<Rightarrow> addr list \<Rightarrow> abs_handler" where
  "handler_view ns ci xs = \<lparr>ah_installs = install_count ci, ah_previous = old_handler ci,
     ah_chain = map (node_view ns) xs\<rparr>"

lemma handler_view_payload:
  "\<forall>n \<in> set xs. payload ns' n = payload ns n \<Longrightarrow> handler_view ns' c xs = handler_view ns c xs"
proof -
  have "node_view ns' n = node_view ns n" if "payload ns' n = payload ns n" for n
    using that
    by (cases "ns n"; cases "ns' n"; cases "the (ns n)"; cases "the (ns' n)")
      (auto simp: payload_def node_view_def)
  then show "\<forall>n \<in> set xs. payload ns' n = payload ns n \<Longrightarrow> handler_view ns' c xs = handler_view ns c xs"
    by (auto simp: handler_view_def)
qed

definition registry_view :: "signo_map \<Rightarrow> sighandler_info heap \<Rightarrow> global_signal_decider_t heap
    \<Rightarrow> (addr \<Rightarrow> addr list) \<Rightarrow> abs_registry" where
  "registry_view m I ns G k = (case signo_lookup m k of None \<Rightarrow> None
     | Some a \<Rightarrow> map_option (\<lambda>ci. handler_view ns ci (G a)) (I a))"

definition reg_abs :: "sig_world \<Rightarrow> (addr \<Rightarrow> addr list) \<Rightarrow> abs_registry" where
  "reg_abs w = registry_view (signo_to_sighandler_map w) (infos w) (nodes w)"

lemma reg_abs_Some:
  "signo_lookup (signo_to_sighandler_map w) k = Some a \<Longrightarrow> infos w a = Some ci \<Longrightarrow>
    reg_abs w G k = Some (handler_view (nodes w) ci (G a))"
  by (simp add: reg_abs_def registry_view_def)

lemma reg_abs_None:
  "reg_inv w G D P N \<Longrightarrow> reg_abs w G k = None \<longleftrightarrow> signo_lookup (signo_to_sighandler_map w) k = None"
  by (fastforce simp: reg_abs_def registry_view_def dest: reg_inv_lookup split: option.splits)

lemma reg_abs_irrelevant [simp]:
  "reg_abs (w\<lparr>lock := x\<rparr>) = reg_abs w" "reg_abs (w\<lparr>errno := e\<rparr>) = reg_abs w"
  "reg_abs (w\<lparr>events := ev\<rparr>) = reg_abs w" "reg_abs (w\<lparr>kernel := kn\<rparr>) = reg_abs w"
  "reg_abs (w\<lparr>alloc_plan := pl\<rparr>) = reg_abs w" "reg_abs (w\<lparr>tss := t\<rparr>) = reg_abs w"
  "reg_abs (w\<lparr>sighandlers_count := c\<rparr>) = reg_abs w"
  by (simp_all add: fun_eq_iff reg_abs_def)

lemma reg_abs_same: "same_registry w w' \<Longrightarrow> reg_abs w' G = reg_abs w G"
  by (simp add: same_registry_def reg_abs_def)

text \<open>What no install or uninstall changes.\<close>

definition handles_kept :: "sig_world \<Rightarrow> sig_world \<Rightarrow> bool" where
  "handles_kept w w' \<longleftrightarrow> lock w' = lock w \<and> refused w' = refused w \<and> install_handles w' = install_handles w
     \<and> decider_handles w' = decider_handles w \<and> next_addr w \<le> next_addr w'"

lemma handles_kept_refl [simp]: "handles_kept w w"
  by (simp add: handles_kept_def)

lemma handles_kept_trans: "handles_kept w w' \<Longrightarrow> handles_kept w' w'' \<Longrightarrow> handles_kept w w''"
  by (simp add: handles_kept_def)

lemma same_registry_kept: "same_registry w w' \<Longrightarrow> handles_kept w w'"
  by (simp add: same_registry_def handles_kept_def)

lemma reg_abs_drain:
  assumes inv: "reg_inv w G D P N" and a: "infos w a = Some ci"
    and w1: "w1 = w\<lparr>lock := l, infos := (infos w)(a \<mapsto> ci\<lparr>deferred_frees := dlist_empty\<rparr>),
             nodes := (nodes w |` (- set (D a)))\<rparr>"
  shows "reg_abs w1 G = reg_abs w G"
proof -
  have "n \<notin> set (D a)" if "n \<in> set (G b)" for n b
    using disjoint_listsD(1)[OF lists_inv_disjoint[OF reg_inv_lists[OF inv]] that] .
  then have "map (node_view (nodes w1)) (G b) = map (node_view (nodes w)) (G b)" for b
    by (auto simp: w1 node_view_def node_sets)
  then have v: "handler_view (nodes w1) c (G b) = handler_view (nodes w) c (G b)" for c b
    by (simp add: handler_view_def)
  have "map_option (\<lambda>c. handler_view (nodes w1) c (G b)) (infos w1 b)
      = map_option (\<lambda>c. handler_view (nodes w) c (G b)) (infos w b)" for b
    using a by (simp only: v) (simp add: w1 handler_view_def)
  then show ?thesis
    by (auto simp: reg_abs_def registry_view_def fun_eq_iff w1 split: option.splits)
qed

text \<open>Changing the install count of a mapped container together with the global count.\<close>

lemma reg_inv_count:
  assumes inv: "reg_inv w G D P N" and k: "signo_lookup (signo_to_sighandler_map w) k = Some a"
    and a: "infos w a = Some ci" and pos: "0 < install_count ci + z"
  shows "reg_inv (w\<lparr>sighandlers_count := sighandlers_count w + z,
    infos := (infos w)(a \<mapsto> ci\<lparr>install_count := install_count ci + z\<rparr>)\<rparr>) G D P N"
proof -
  let ?I = "(infos w)(a \<mapsto> ci\<lparr>install_count := install_count ci + z\<rparr>)" and ?m = "signo_to_sighandler_map w"
  have "installs ?m ?I j = installs ?m (infos w) j" if "j \<noteq> k" for j
    using that inv k by (auto simp: installs_def reg_inv_def map_inv_def split: option.splits)
  moreover have "installs ?m ?I k - installs ?m (infos w) k = z" using k a by (simp add: installs_def)
  ultimately have "count_inv (sighandlers_count w + z) ?m ?I"
    using inv installs_upd[of k ?m ?I ?m "infos w"] signo_lookup_valid[OF k]
    by (simp add: reg_inv_def count_inv_def)
  then show ?thesis
    using inv a pos lists_inv_info_upd[OF reg_inv_lists[OF inv] a, of "ci\<lparr>install_count := install_count ci + z\<rparr>"]
    by (auto simp: reg_inv_def kernel_inv_def fresh_inv_def intro!: map_inv_info_upd life_inv_info_keep)
qed

lemma reg_abs_count:
  assumes inv: "reg_inv w G D P N" and k: "signo_lookup (signo_to_sighandler_map w) k = Some a"
    and a: "infos w a = Some ci"
  shows "reg_abs (w\<lparr>sighandlers_count := c, infos := (infos w)(a \<mapsto> ci\<lparr>install_count := install_count ci + z\<rparr>)\<rparr>) G
    = (reg_abs w G)(k \<mapsto> (handler_view (nodes w) ci (G a))\<lparr>ah_installs := install_count ci + z\<rparr>)"
proof
  fix j
  have "signo_lookup (signo_to_sighandler_map w) j \<noteq> Some a" if "j \<noteq> k"
    using that inv k by (auto simp: reg_inv_def map_inv_def)
  then show "reg_abs (w\<lparr>sighandlers_count := c, infos := (infos w)(a \<mapsto> ci\<lparr>install_count := install_count ci + z\<rparr>)\<rparr>) G j
    = ((reg_abs w G)(k \<mapsto> (handler_view (nodes w) ci (G a))\<lparr>ah_installs := install_count ci + z\<rparr>)) j"
    using k a by (auto simp: reg_abs_def registry_view_def handler_view_def split: option.splits)
qed

text \<open>Taking a container out of the map turns the map's reference into a pin.\<close>

lemma reg_inv_unmap:
  assumes inv: "reg_inv w G D P N" and k: "signo_lookup (signo_to_sighandler_map w) k = Some a"
    and a: "infos w a = Some ci"
    and m: "signo_map_wf m" "signo_lookup m = (signo_lookup (signo_to_sighandler_map w))(k := None)"
    and kn: "\<And>j. j \<noteq> k \<Longrightarrow> kn j = kernel w j"
  shows "reg_inv (w\<lparr>sighandlers_count := sighandlers_count w - install_count ci,
    infos := (infos w)(a \<mapsto> ci\<lparr>install_count := 0\<rparr>), kernel := kn, events := ev,
    signo_to_sighandler_map := m\<rparr>) G D (P(a := Suc (P a))) N"
proof -
  let ?I = "(infos w)(a \<mapsto> ci\<lparr>install_count := 0\<rparr>)" and ?m = "signo_to_sighandler_map w"
  have inj: "signo_lookup ?m j \<noteq> Some a" if "j \<noteq> k" for j
    using that inv k by (auto simp: reg_inv_def map_inv_def)
  have "installs m ?I j = installs ?m (infos w) j" if "j \<noteq> k" for j
    using that inj[OF that] m(2) by (auto simp: installs_def split: option.splits)
  moreover have "installs m ?I k - installs ?m (infos w) k = - install_count ci"
    using k a m(2) by (simp add: installs_def)
  ultimately have c: "count_inv (sighandlers_count w - install_count ci) m ?I"
    using inv installs_upd[of k m ?I ?m "infos w"] signo_lookup_valid[OF k]
    by (simp add: reg_inv_def count_inv_def)
  have r: "a \<notin> ran (signo_lookup m)" "a \<in> ran (signo_lookup ?m)"
    "\<And>b. b \<noteq> a \<Longrightarrow> b \<in> ran (signo_lookup m) \<longleftrightarrow> b \<in> ran (signo_lookup ?m)"
  proof -
    show "a \<notin> ran (signo_lookup m)" "a \<in> ran (signo_lookup ?m)"
      using inj k unfolding m(2) by (auto simp: ran_def)
    show "b \<in> ran (signo_lookup m) \<longleftrightarrow> b \<in> ran (signo_lookup ?m)" if "b \<noteq> a" for b
      using k that unfolding m(2) ran_def by (auto, metis option.inject)
  qed
  have life: "life_inv m ?I (P(a := Suc (P a)))"
    using inv a r by (auto simp: reg_inv_def life_inv_def)
  have map: "map_inv m ?I" using inv inj m by (auto simp: reg_inv_def map_inv_def)
  have home: "home_inv m (decider_handles w) G" using inv m(2) by (auto simp: reg_inv_def home_inv_def)
  show ?thesis
    using inv a c life map home m(2) kn
      lists_inv_info_upd[OF reg_inv_lists[OF inv] a, of "ci\<lparr>install_count := 0\<rparr>"]
    by (auto simp: reg_inv_def kernel_inv_def fresh_inv_def)
qed

text \<open>
  The common tail of an uninstall and of a failed install: the last install of the signal
  is gone, its disposition is restored, the container leaves the map and loses a reference.
\<close>

lemma reg_abs_unmapped:
  assumes inv: "reg_inv w G D P N" and k: "signo_lookup (signo_to_sighandler_map w) k = Some a"
    and m: "signo_lookup (signo_to_sighandler_map w') = (signo_lookup (signo_to_sighandler_map w))(k := None)"
    and I: "\<And>b. b \<noteq> a \<Longrightarrow> infos w' b = infos w b" and ns: "\<And>n. payload (nodes w') n = payload (nodes w) n"
  shows "reg_abs w' (after_release a freed G) = (reg_abs w G)(k := None)"
proof
  fix j
  have v: "handler_view (nodes w') c xs = handler_view (nodes w) c xs" for c xs
    using ns by (simp add: handler_view_payload)
  have "b \<noteq> a" if "j \<noteq> k" "signo_lookup (signo_to_sighandler_map w) j = Some b" for b
    using that inv k by (auto simp: reg_inv_def map_inv_def)
  with m I v show "reg_abs w' (after_release a freed G) j = ((reg_abs w G)(k := None)) j"
    by (auto simp: reg_abs_def registry_view_def after_release_def split: option.splits)
qed

lemma unmap_release:
  assumes inv: "reg_inv w G D P N" and k: "signo_lookup (signo_to_sighandler_map w) k = Some a"
    and a: "infos w a = Some ci" and ic: "install_count ci = 1" and D: "D a = []"
    and w0: "w0 = w\<lparr>sighandlers_count := sighandlers_count w - 1, infos := (infos w)(a \<mapsto> ci\<lparr>install_count := 0\<rparr>)\<rparr>"
  defines "freed \<equiv> P a = 0"
  shows "\<exists>w'. unmap_handler \<lparr>itr_val = Some a, itr_idx = word_of_int k\<rparr> k w0 = Some w'
    \<and> handles_kept w w' \<and> reg_inv w' (after_release a freed G) D P N
    \<and> reg_abs w' (after_release a freed G) = abs_uninstall k (reg_abs w G)
    \<and> kernel w' = (kernel w)(k := old_handler ci)"
proof -
  have "signo_map_wf (signo_to_sighandler_map w)" using inv by (simp add: reg_inv_def map_inv_def)
  then obtain m where m: "signo_map_erase_itr (signo_to_sighandler_map w) \<lparr>itr_val = Some a, itr_idx = word_of_int k\<rparr> = Some m"
    "signo_map_wf m" "signo_lookup m = (signo_lookup (signo_to_sighandler_map w))(k := None)"
    using signo_map_erase_ok[OF _ k, of "\<lparr>itr_val = Some a, itr_idx = word_of_int k\<rparr>"] by auto
  have ref: "\<not> refused w k" using inv k by (auto simp: reg_inv_def kernel_inv_def)
  define w2 where "w2 = w\<lparr>sighandlers_count := sighandlers_count w - 1,
    infos := (infos w)(a \<mapsto> ci\<lparr>install_count := 0\<rparr>),
    kernel := (kernel w)(k := old_handler ci), events := events w @ [Ev_Set_Disposition k (old_handler ci)],
    signo_to_sighandler_map := m\<rparr>"
  have inv2: "reg_inv w2 G D (P(a := Suc (P a))) N"
    using reg_inv_unmap[OF inv k a m(2,3), of "(kernel w)(k := old_handler ci)"] ic by (simp add: w2_def)
  have a2: "infos w2 a = Some (ci\<lparr>install_count := 0\<rparr>)" by (simp add: w2_def)
  have life: "lifetime_refcount ci = 1 \<longleftrightarrow> P a = 0"
    using reg_inv_life(1)[OF inv a] k by (auto simp: ranI)
  obtain w3 where w3: "sighandler_info_release (Some a) w2 = Some w3"
    "reg_inv w3 (after_release a freed G) (after_release a freed D) P N"
    "w3 = w2\<lparr>infos := infos w3, nodes := nodes w3\<rparr>" "\<And>b. b \<noteq> a \<Longrightarrow> infos w3 b = infos w2 b"
    "\<And>n. payload (nodes w3) n = payload (nodes w2) n"
    using reg_inv_unpin[OF inv2 a2] D by (auto simp: freed_def life)
  have fields: "lock w3 = lock w" "refused w3 = refused w" "install_handles w3 = install_handles w"
    "decider_handles w3 = decider_handles w" "next_addr w3 = next_addr w"
    "kernel w3 = (kernel w)(k := old_handler ci)" "signo_to_sighandler_map w3 = m"
    by (subst w3(3), simp add: w2_def)+
  have "reg_abs w3 (after_release a freed G) = abs_uninstall k (reg_abs w G)"
    using reg_abs_unmapped[OF inv k, of w3 freed] w3(4,5) m(3) fields(7) ic
    by (simp add: abs_uninstall_def reg_abs_Some[OF k a] handler_view_def w2_def)
  moreover have "after_release a freed D = D" using D by (auto simp: after_release_def)
  moreover have "unmap_handler \<lparr>itr_val = Some a, itr_idx = word_of_int k\<rparr> k w0 = Some w3"
    using ref m(1) w3(1) by (simp add: unmap_handler_def uninstall_sighandler_impl_def host_sigaction_def w0 w2_def)
  ultimately show ?thesis using w3(2) fields by (auto simp: handles_kept_def)
qed

section \<open>The thread-state backend\<close>

locale tss_laws =
  fixes B :: tss_backend
  assumes create_frame: "tss_create B w = (r, w') \<Longrightarrow> same_registry w w' \<and> (r = 0 \<or> r = -1)"
    and destroy_frame: "tss_destroy B w = (r, w') \<Longrightarrow> same_registry w w'"
begin

lemma uninstall_absent:
  assumes "lock w = 0" "signo_lookup (signo_to_sighandler_map w) k = None"
  shows "uninstall_sighandler B k w = Some (True, w)"
proof -
  have "w\<lparr>lock := 0\<rparr> = w" using assms(1) by (cases w) simp
  then show ?thesis using assms by (simp add: uninstall_sighandler_def signo_map_get_is_end)
qed

lemma uninstall_present:
  assumes inv: "reg_inv w G D P N" and l: "lock w = 0"
    and k: "signo_lookup (signo_to_sighandler_map w) k = Some a" and a: "infos w a = Some ci"
  defines "freed \<equiv> install_count ci = 1 \<and> P a = 0"
  shows "\<exists>w'. uninstall_sighandler B k w = Some (True, w') \<and> handles_kept w w'
    \<and> reg_inv w' (after_release a freed G) (D(a := [])) P N
    \<and> reg_abs w' (after_release a freed G) = abs_uninstall k (reg_abs w G)
    \<and> kernel w' = (if install_count ci = 1 then (kernel w)(k := old_handler ci) else kernel w)"
proof -
  obtain w1 where d: "drain_deferred_frees (Some a) (w\<lparr>lock := 1\<rparr>) = Some w1"
    and inv1: "reg_inv w1 G (D(a := [])) P N"
    and w1: "w1 = w\<lparr>lock := 1, infos := (infos w)(a \<mapsto> ci\<lparr>deferred_frees := dlist_empty\<rparr>),
             nodes := (nodes w |` (- set (D a)))\<rparr>"
    using reg_inv_drain[of "w\<lparr>lock := 1\<rparr>" G D P N a ci] inv a by auto
  let ?ci = "ci\<lparr>deferred_frees := dlist_empty\<rparr>"
  have ic: "0 < install_count ci" using reg_inv_lookup[OF inv k] a by auto
  have view: "reg_abs w1 G = reg_abs w G" by (rule reg_abs_drain[OF inv a w1])
  have k1: "signo_lookup (signo_to_sighandler_map w1) k = Some a" "infos w1 a = Some ?ci"
    using k by (simp_all add: w1)
  show ?thesis
  proof (cases "install_count ci = 1")
    case False
    define w2 where "w2 = w1\<lparr>sighandlers_count := sighandlers_count w - 1,
      infos := (infos w1)(a \<mapsto> ?ci\<lparr>install_count := install_count ci - 1\<rparr>)\<rparr>"
    define w3 where "w3 = (if sighandlers_count w - 1 = 0 then snd (tss_destroy B w2) else w2)"
    have "reg_inv w2 G (D(a := [])) P N"
      using reg_inv_count[OF inv1 k1, of "-1"] ic False by (simp add: w2_def w1)
    moreover have s: "same_registry w2 w3"
      using destroy_frame[of w2] by (cases "tss_destroy B w2") (simp add: w3_def)
    moreover have "reg_abs w2 G = abs_uninstall k (reg_abs w G)"
      using reg_abs_count[OF inv1 k1, of "-1"] False
      by (simp add: view[symmetric] abs_uninstall_def w2_def reg_abs_Some[OF k1] handler_view_def)
    moreover have "uninstall_sighandler B k w = do { w \<leftarrow> UNLOCK w3; Some (True, w) }"
      using l d k False
      by (simp add: uninstall_sighandler_def signo_map_get_is_end signo_map_get_Some k1(2) w2_def w3_def
          del: if_split) (simp add: w1)
    moreover have "lock w3 = 1" using s by (simp add: same_registry_def w2_def w1)
    ultimately show ?thesis
      using False reg_inv_same[OF s] reg_abs_same[OF s] l
      by (auto simp: freed_def after_release_def handles_kept_def same_registry_def w2_def w1)
  next
    case True
    define w2 where "w2 = w1\<lparr>sighandlers_count := sighandlers_count w - 1,
      infos := (infos w1)(a \<mapsto> ?ci\<lparr>install_count := 0\<rparr>)\<rparr>"
    obtain w3 where w3: "unmap_handler \<lparr>itr_val = Some a, itr_idx = word_of_int k\<rparr> k w2 = Some w3"
      "handles_kept w1 w3" "reg_inv w3 (after_release a freed G) (D(a := [])) P N"
      "reg_abs w3 (after_release a freed G) = abs_uninstall k (reg_abs w1 G)"
      "kernel w3 = (kernel w)(k := old_handler ci)"
      using unmap_release[OF inv1 k1] True by (auto simp: w2_def w1 freed_def)
    define w4 where "w4 = (if sighandlers_count w - 1 = 0 then snd (tss_destroy B w3) else w3)"
    have s: "same_registry w3 w4"
      using destroy_frame[of w3] by (cases "tss_destroy B w3") (simp add: w4_def)
    have "uninstall_sighandler B k w = do { w \<leftarrow> UNLOCK w4; Some (True, w) }"
      using l d k True w3(1)
      by (cases "sighandlers_count w = 1")
        (simp_all add: uninstall_sighandler_def signo_map_get_is_end signo_map_get_Some w2_def w4_def w1)
    moreover have "lock w4 = 1" using s w3(2) by (simp add: same_registry_def handles_kept_def w1)
    ultimately show ?thesis
      using True w3(2-5) reg_inv_same[OF s] reg_abs_same[OF s] l s view
      by (auto simp: handles_kept_def same_registry_def w1)
  qed
qed

end

interpretation native: tss_laws native_tss
  by unfold_locales (auto simp: native_tss_def sig_global_tss_state_create_def sig_global_tss_state_destroy_def)

lemma abs_uninstall_install:
  "(\<And>h. A k = Some h \<Longrightarrow> ah_installs h \<noteq> 0) \<Longrightarrow> abs_uninstall k (abs_install k sa A) = A"
  by (cases "A k") (auto simp: abs_uninstall_def abs_install_def fun_eq_iff)

lemma host_alloc_None:
  "host_alloc w = (None, w') \<Longrightarrow> w' = w\<lparr>alloc_plan := tl (alloc_plan w), errno := ENOMEM\<rparr>"
  by (simp add: host_alloc_def Let_def split: if_splits)

lemma host_alloc_Some:
  "host_alloc w = (Some a, w') \<Longrightarrow>
    a = next_addr w \<and> w' = w\<lparr>alloc_plan := tl (alloc_plan w), next_addr := Suc (next_addr w)\<rparr>"
  by (auto simp: host_alloc_def Let_def split: if_splits)

lemma host_alloc_same: "host_alloc w = (p, w') \<Longrightarrow> same_registry w w'"
  by (cases p) (auto dest!: host_alloc_None host_alloc_Some simp: same_registry_def)

lemma reg_inv_fresh: "reg_inv w G D P N \<Longrightarrow> infos w (next_addr w) = None \<and> nodes w (next_addr w) = None
    \<and> decider_handles w (next_addr w) = None \<and> install_handles w (next_addr w) = None"
  by (simp add: reg_inv_def fresh_inv_def)

text \<open>Entering a fresh container in the map.\<close>

lemma reg_inv_map:
  assumes inv: "reg_inv w G D P N" and k: "signo_lookup (signo_to_sighandler_map w) k = None" "signo_valid k"
    and a: "infos w a = None" "a < next_addr w" and r: "\<not> refused w k"
    and m: "signo_map_wf m" "signo_lookup m = (signo_lookup (signo_to_sighandler_map w))(k \<mapsto> a)"
  shows "reg_inv (w\<lparr>sighandlers_count := sighandlers_count w + 1,
    infos := (infos w)(a \<mapsto> \<lparr>install_count = 1, lifetime_refcount = 1, old_handler = sa,
      global_handler = dlist_empty, deferred_frees = dlist_empty\<rparr>),
    kernel := (kernel w)(k := raw_sigaction), signo_to_sighandler_map := m\<rparr>) G D P N"
proof -
  let ?I = "(infos w)(a \<mapsto> \<lparr>install_count = 1, lifetime_refcount = 1, old_handler = sa,
      global_handler = dlist_empty, deferred_frees = dlist_empty\<rparr>)" and ?m = "signo_to_sighandler_map w"
  have inj: "signo_lookup ?m j \<noteq> Some a" for j
    using reg_inv_lookup[OF inv] a(1) by fastforce
  have "installs m ?I j = installs ?m (infos w) j" if "j \<noteq> k" for j
    using that inj[of j] m(2) by (auto simp: installs_def split: option.splits)
  moreover have "installs m ?I k - installs ?m (infos w) k = 1"
    using k m(2) by (simp add: installs_def)
  ultimately have c: "count_inv (sighandlers_count w + 1) m ?I"
    using inv installs_upd[of k m ?I ?m "infos w"] k(2)
    by (simp add: reg_inv_def count_inv_def)
  have ran: "ran (signo_lookup m) = insert a (ran (signo_lookup ?m))" using m(2) k(1) by simp
  have "a \<notin> ran (signo_lookup ?m)" using inj by (auto simp: ran_def)
  then have life: "life_inv m ?I P" using inv a ran by (auto simp: reg_inv_def life_inv_def)
  have map: "map_inv m ?I" using inv inj m by (auto simp: reg_inv_def map_inv_def)
  have "G a = []" using inv a(1) by (auto simp: reg_inv_def lists_inv_def)
  then have home: "home_inv m (decider_handles w) G" using inv m(2) by (auto simp: reg_inv_def home_inv_def)
  show ?thesis
    using inv a c life map home m(2) r lists_inv_new_info[OF reg_inv_lists[OF inv] a(1)]
    by (auto simp: reg_inv_def kernel_inv_def fresh_inv_def)
qed

lemma installs_nonneg: "map_inv m I \<Longrightarrow> 0 \<le> installs m I k"
  by (fastforce simp: installs_def map_inv_def split: option.splits)

lemma reg_inv_count_pos:
  assumes inv: "reg_inv w G D P N" and k: "signo_lookup (signo_to_sighandler_map w) k = Some a"
  shows "0 < sighandlers_count w"
proof -
  let ?f = "installs (signo_to_sighandler_map w) (infos w)"
  have "?f k \<le> (\<Sum>j \<in> {0..<NSIG}. ?f j)"
    using inv signo_lookup_valid[OF k] by (intro member_le_sum) (auto simp: reg_inv_def intro: installs_nonneg)
  moreover have "0 < ?f k" using reg_inv_lookup[OF inv k] k by (auto simp: installs_def)
  ultimately show ?thesis using inv by (simp add: reg_inv_def count_inv_def)
qed

text \<open>The part of \<open>install_commit\<close> after the two counts went up.\<close>

definition install_commit_tail ::
  "tss_backend \<Rightarrow> int \<Rightarrow> signo_map_itr \<Rightarrow> int \<Rightarrow> sig_world \<Rightarrow> (bool \<times> sig_world) option" where
  "install_commit_tail B k it former w =
     (if former = 0
      then (case tss_create B w of
        (r, w) \<Rightarrow>
          if r = -1
          then do {
            let w = w\<lparr>sighandlers_count := sighandlers_count w - 1\<rparr>;
            w \<leftarrow> info_upd (itr_val it) (\<lambda>ci. ci\<lparr>install_count := install_count ci - 1\<rparr>) w;
            ci \<leftarrow> deref (infos w) (itr_val it);
            w \<leftarrow> (if install_count ci = 0 then unmap_handler it k w else Some w);
            w \<leftarrow> UNLOCK w;
            Some (False, w)
          }
          else do { w \<leftarrow> UNLOCK w; Some (True, w) })
      else do { w \<leftarrow> UNLOCK w; Some (True, w) })"

lemma install_commit_alt:
  "install_commit B k it w = do {
     w \<leftarrow> info_upd (itr_val it) (\<lambda>ci. ci\<lparr>install_count := install_count ci + 1\<rparr>) w;
     install_commit_tail B k it (sighandlers_count w) (w\<lparr>sighandlers_count := sighandlers_count w + 1\<rparr>)
   }"
  by (simp add: install_commit_def install_commit_tail_def Let_def)

context tss_laws
begin

lemma install_present:
  assumes inv: "reg_inv w G D P N" and l: "lock w = 0"
    and k: "signo_lookup (signo_to_sighandler_map w) k = Some a" and a: "infos w a = Some ci"
  shows "\<exists>w'. install_sighandler B k w = Some (True, w') \<and> handles_kept w w' \<and> errno w' = errno w
    \<and> reg_inv w' G D P N \<and> reg_abs w' G = abs_install k (kernel w k) (reg_abs w G) \<and> kernel w' = kernel w"
proof -
  define w' where "w' = w\<lparr>sighandlers_count := sighandlers_count w + 1,
     infos := (infos w)(a \<mapsto> ci\<lparr>install_count := install_count ci + 1\<rparr>)\<rparr>"
  have ic: "0 < install_count ci" using reg_inv_lookup[OF inv k] a by auto
  have "sighandlers_count w \<noteq> 0" using reg_inv_count_pos[OF inv k] by simp
  then have "install_sighandler B k w = Some (True, w'\<lparr>lock := 0\<rparr>)"
    using l k a
    by (simp add: install_sighandler_def signo_map_get_is_end signo_map_get_Some install_commit_def w'_def)
  moreover have "reg_inv w' G D P N" using reg_inv_count[OF inv k a, of 1] ic by (simp add: w'_def)
  moreover have "reg_abs w' G = abs_install k (kernel w k) (reg_abs w G)"
    using reg_abs_count[OF inv k a, of 1 "sighandlers_count w + 1"]
    unfolding w'_def abs_install_def reg_abs_Some[OF k a] by (simp add: handler_view_def del: reg_abs_irrelevant)
  ultimately show ?thesis using l by (simp add: handles_kept_def w'_def)
qed

lemma commit_tail:
  assumes inv: "reg_inv w G D P N" and l: "lock w = 1"
    and k: "signo_lookup (signo_to_sighandler_map w) k = Some a" and a: "infos w a = Some ci"
    and ic: "install_count ci = 1" and ga: "G a = []" "D a = []" "P a = 0"
  shows "\<exists>ok w'. install_commit_tail B k \<lparr>itr_val = Some a, itr_idx = word_of_int k\<rparr> former w = Some (ok, w')
    \<and> handles_kept (w\<lparr>lock := 0\<rparr>) w' \<and> reg_inv w' G D P N
    \<and> reg_abs w' G = (if ok then reg_abs w G else abs_uninstall k (reg_abs w G))
    \<and> kernel w' = (if ok then kernel w else (kernel w)(k := old_handler ci))"
proof (cases "tss_create B w")
  case (Pair r w1)
  note s = create_frame[OF Pair]
  show ?thesis
  proof (cases "former = 0 \<and> r = -1")
    case True
    have inv1: "reg_inv w1 G D P N" using reg_inv_same s inv by blast
    have k1: "signo_lookup (signo_to_sighandler_map w1) k = Some a" "infos w1 a = Some ci"
      using s k a by (simp_all add: same_registry_def)
    obtain w2 where w2: "unmap_handler \<lparr>itr_val = Some a, itr_idx = word_of_int k\<rparr> k
        (w1\<lparr>sighandlers_count := sighandlers_count w1 - 1, infos := (infos w1)(a \<mapsto> ci\<lparr>install_count := 0\<rparr>)\<rparr>) = Some w2"
      "handles_kept w1 w2" "reg_inv w2 (G(a := [])) D P N" "reg_abs w2 (G(a := [])) = abs_uninstall k (reg_abs w1 G)"
      "kernel w2 = (kernel w1)(k := old_handler ci)"
      using unmap_release[OF inv1 k1 ic ga(2) refl] ga(3) by (auto simp: after_release_def)
    have "G(a := []) = G" using ga(1) by auto
    moreover have "install_commit_tail B k \<lparr>itr_val = Some a, itr_idx = word_of_int k\<rparr> former w = Some (False, w2\<lparr>lock := 0\<rparr>)"
      using True Pair w2(1,2) k1 ic s l by (simp add: install_commit_tail_def handles_kept_def same_registry_def)
    ultimately show ?thesis
      using w2 s reg_abs_same[of w w1 G]
      by (intro exI[of _ False] exI[of _ "w2\<lparr>lock := 0\<rparr>"]) (auto simp: handles_kept_def same_registry_def)
  next
    case False
    define w2 where "w2 = (if former = 0 then w1 else w)"
    have s2: "same_registry w w2" using s by (simp add: w2_def)
    have "install_commit_tail B k \<lparr>itr_val = Some a, itr_idx = word_of_int k\<rparr> former w = Some (True, w2\<lparr>lock := 0\<rparr>)"
      using False Pair l s by (auto simp: install_commit_tail_def w2_def same_registry_def)
    then show ?thesis
      using s2 reg_abs_same[OF s2] reg_inv_same[OF s2 inv]
      by (intro exI[of _ True] exI[of _ "w2\<lparr>lock := 0\<rparr>"]) (auto simp: handles_kept_def same_registry_def)
  qed
qed

lemma install_absent:
  assumes inv: "reg_inv w G D P N" and l: "lock w = 0"
    and k: "signo_lookup (signo_to_sighandler_map w) k = None" "signo_valid k"
  shows "\<exists>ok w'. install_sighandler B k w = Some (ok, w') \<and> handles_kept w w' \<and> reg_inv w' G D P N
    \<and> reg_abs w' G = (if ok then abs_install k (kernel w k) (reg_abs w G) else reg_abs w G)
    \<and> kernel w' = (if ok then (kernel w)(k := raw_sigaction) else kernel w)"
proof (cases "host_alloc (w\<lparr>lock := 1\<rparr>)")
  case (Pair p w1)
  note s1 = host_alloc_same[OF Pair]
  show ?thesis
  proof (cases p)
    case None
    then have "install_sighandler B k w = Some (False, w1\<lparr>lock := 0\<rparr>)"
      using l k s1 Pair by (simp add: install_sighandler_def signo_map_get_is_end same_registry_def)
    moreover have "same_registry w (w1\<lparr>lock := 0\<rparr>)" using s1 l by (simp add: same_registry_def)
    ultimately show ?thesis
      using reg_inv_same[OF _ inv, of "w1\<lparr>lock := 0\<rparr>"] reg_abs_same[of w "w1\<lparr>lock := 0\<rparr>"]
        same_registry_kept[of w "w1\<lparr>lock := 0\<rparr>"]
      by (intro exI[of _ False] exI[of _ "w1\<lparr>lock := 0\<rparr>"]) (auto simp: same_registry_def)
  next
    case (Some a)
    with host_alloc_Some[of "w\<lparr>lock := 1\<rparr>" a w1] Pair have
      w1: "a = next_addr w" "w1 = w\<lparr>lock := 1, alloc_plan := tl (alloc_plan w), next_addr := Suc (next_addr w)\<rparr>"
      by auto
    have inv1: "reg_inv w1 G D P N" using reg_inv_same[OF s1] inv by simp
    have ga: "G a = []" "D a = []" "P a = 0"
      using inv reg_inv_fresh[OF inv] w1(1) by (auto simp: reg_inv_def lists_inv_def life_inv_def)
    have a1: "infos w1 a = None" "a < next_addr w1" using reg_inv_fresh[OF inv] w1 by simp_all
    show ?thesis
    proof (cases "refused w k")
      case True
      then have "install_sighandler B k w = Some (False, w1\<lparr>errno := EINVAL, lock := 0\<rparr>)"
        using l k w1 a1 Pair Some
        by (simp add: install_sighandler_def signo_map_get_is_end install_sighandler_impl_def
            host_sigaction_def fun_upd_idem)
      then show ?thesis
        using inv1 l
        by (intro exI[of _ False] exI[of _ "w1\<lparr>errno := EINVAL, lock := 0\<rparr>"])
          (simp, simp add: handles_kept_def reg_abs_def w1(2))
    next
      case False
      have "signo_map_wf (signo_to_sighandler_map w1)" using inv1 by (simp add: reg_inv_def map_inv_def)
      moreover have k1: "signo_lookup (signo_to_sighandler_map w1) k = None" using k w1 by simp
      ultimately obtain m where m: "signo_map_insert (signo_to_sighandler_map w1) k (Some a) =
          Some (\<lparr>itr_val = Some a, itr_idx = word_of_int k\<rparr>, m)" "signo_map_wf m"
        "signo_lookup m = (signo_lookup (signo_to_sighandler_map w1))(k \<mapsto> a)"
        using signo_map_insert_ok[OF _ k(2), of _ a] by blast
      let ?ci = "\<lparr>install_count = 1, lifetime_refcount = 1, old_handler = kernel w k,
          global_handler = dlist_empty, deferred_frees = dlist_empty\<rparr>"
      define w2 where "w2 = w1\<lparr>kernel := (kernel w)(k := raw_sigaction),
        events := events w @ [Ev_Set_Disposition k raw_sigaction], signo_to_sighandler_map := m,
        infos := (infos w1)(a \<mapsto> ?ci), sighandlers_count := sighandlers_count w + 1\<rparr>"
      have "reg_inv (w1\<lparr>sighandlers_count := sighandlers_count w1 + 1, infos := (infos w1)(a \<mapsto> ?ci),
          kernel := (kernel w1)(k := raw_sigaction), signo_to_sighandler_map := m\<rparr>) G D P N"
        using reg_inv_map[OF inv1 k1 k(2) a1 _ m(2,3)] False w1 by simp
      then have inv2: "reg_inv w2 G D P N" 
        by (simp add: w2_def reg_inv_def kernel_inv_def fresh_inv_def w1(2))
      have k2: "signo_lookup (signo_to_sighandler_map w2) k = Some a" "infos w2 a = Some ?ci"
        by (simp_all add: w2_def m(3))
      have l2: "lock w2 = 1" by (simp add: w2_def w1(2))
      have "b \<noteq> a" if "signo_lookup (signo_to_sighandler_map w1) j = Some b" for j b
        using reg_inv_lookup[OF inv1 that] a1(1) by auto
      then have "reg_abs w2 G j = abs_install k (kernel w k) (reg_abs w G) j" for j
        using k1 ga a1
        by (auto simp: abs_install_def reg_abs_def registry_view_def w2_def m(3) w1(2) handler_view_def split: option.splits)
      then have view2: "reg_abs w2 G = abs_install k (kernel w k) (reg_abs w G)" ..
      obtain ok w' where c: "install_commit_tail B k \<lparr>itr_val = Some a, itr_idx = word_of_int k\<rparr> (sighandlers_count w) w2
          = Some (ok, w')" "lock w' = 0" "handles_kept (w2\<lparr>lock := 0\<rparr>) w'" "reg_inv w' G D P N"
        "reg_abs w' G = (if ok then reg_abs w2 G else abs_uninstall k (reg_abs w2 G))"
        "kernel w' = (if ok then kernel w2 else (kernel w2)(k := kernel w k))"
        using commit_tail[OF inv2 l2 k2 _ ga, of "sighandlers_count w"] by (auto simp: handles_kept_def)
      have "install_sighandler B k w = Some (ok, w')"
        using l k a1 Pair Some False c(1) m(1)
        by (simp add: install_sighandler_def signo_map_get_is_end install_sighandler_impl_def
            host_sigaction_def install_commit_alt sighandler_info_zero_def w2_def w1(2))
      moreover have "abs_uninstall k (reg_abs w2 G) = reg_abs w G"
        using reg_abs_None[OF inv, of k] k(1) by (auto simp: view2 intro: abs_uninstall_install)
      moreover have "handles_kept w (w2\<lparr>lock := 0\<rparr>)" "kernel w2 = (kernel w)(k := raw_sigaction)"
        using l by (simp_all add: handles_kept_def w2_def w1(2))
      ultimately show ?thesis
        using c handles_kept_trans[of w "w2\<lparr>lock := 0\<rparr>" w'] view2
        by (intro exI[of _ ok] exI[of _ w']) auto
    qed
  qed
qed

end

section \<open>Whole sets of signals\<close>

text \<open>
  The state of one signal: its handler, and the disposition the host has for it. The
  functions \<open>inst\<close> and \<open>uninst\<close> say what one install and one uninstall make of it.
\<close>

type_synonym signal_state = "abs_handler option \<times> sigaction"

fun inst :: "signal_state \<Rightarrow> signal_state" where
  "inst (None, sa) = (Some \<lparr>ah_installs = 1, ah_previous = sa, ah_chain = []\<rparr>, raw_sigaction)"
| "inst (Some h, sa) = (Some (h\<lparr>ah_installs := ah_installs h + 1\<rparr>), sa)"

fun uninst :: "signal_state \<Rightarrow> signal_state" where
  "uninst (None, sa) = (None, sa)"
| "uninst (Some h, sa) = (if ah_installs h = 1 then (None, ah_previous h)
     else (Some (h\<lparr>ah_installs := ah_installs h - 1\<rparr>), sa))"

definition reg_state :: "sig_world \<Rightarrow> (addr \<Rightarrow> addr list) \<Rightarrow> int \<Rightarrow> signal_state" where
  "reg_state w G j = (reg_abs w G j, kernel w j)"

definition positive :: "signal_state \<Rightarrow> bool" where
  "positive s \<longleftrightarrow> (\<forall>h. fst s = Some h \<longrightarrow> 0 < ah_installs h)"

lemma uninst_inst: "positive s \<Longrightarrow> uninst (inst s) = s"
  by (cases s rule: inst.cases) (auto simp: positive_def)

lemma positive_inst: "positive s \<Longrightarrow> positive (inst s)"
  by (cases s rule: inst.cases) (auto simp: positive_def)

lemma reg_inv_positive: "reg_inv w G D P N \<Longrightarrow> positive (reg_state w G j)"
  by (fastforce simp: positive_def reg_state_def reg_abs_def registry_view_def handler_view_def
      dest: reg_inv_lookup split: option.splits)

text \<open>How the lists may change while other raises hold some containers.\<close>

definition shrinks :: "(addr \<Rightarrow> nat) \<Rightarrow> (addr \<Rightarrow> addr list) \<Rightarrow> (addr \<Rightarrow> addr list) \<Rightarrow> bool" where
  "shrinks P F F' \<longleftrightarrow> (\<forall>b. F' b = F b \<or> P b = 0 \<and> F' b = [])"

lemma shrinks_refl [simp]: "shrinks P F F"
  by (simp add: shrinks_def)

lemma shrinks_trans: "shrinks P F F' \<Longrightarrow> shrinks P F' F'' \<Longrightarrow> shrinks P F F''"
  by (auto simp: shrinks_def) metis+

lemma shrinks_empty [simp]: "shrinks P (\<lambda>_. []) F \<longleftrightarrow> F = (\<lambda>_. [])"
  by (auto simp: shrinks_def fun_eq_iff)

definition visited :: "sigset \<Rightarrow> int \<Rightarrow> bool" where
  "visited S k \<longleftrightarrow> \<not> skipped_signo k \<and> sigismember S k"

definition at_signals :: "(int \<Rightarrow> bool) \<Rightarrow> (signal_state \<Rightarrow> signal_state) \<Rightarrow> (int \<Rightarrow> signal_state) \<Rightarrow> int \<Rightarrow> signal_state" where
  "at_signals Q f s j = (if Q j then f (s j) else s j)"

context tss_laws
begin

lemma install_step:
  assumes inv: "reg_inv w G D P N" and l: "lock w = 0" and k: "signo_valid k"
  shows "\<exists>ok w'. install_sighandler B k w = Some (ok, w') \<and> handles_kept w w' \<and> reg_inv w' G D P N
    \<and> reg_state w' G = (if ok then at_signals (\<lambda>j. j = k) inst (reg_state w G) else reg_state w G)"
proof (cases "signo_lookup (signo_to_sighandler_map w) k")
  case None
  with install_absent[OF inv l None k] reg_abs_None[OF inv, of k] show ?thesis
    by (fastforce simp: reg_state_def at_signals_def abs_install_def fun_eq_iff)
next
  case (Some a)
  obtain ci where a: "infos w a = Some ci" using reg_inv_lookup[OF inv Some] by blast
  with install_present[OF inv l Some a] reg_abs_Some[OF Some a, of G] show ?thesis
    by (fastforce simp: reg_state_def at_signals_def abs_install_def fun_eq_iff)
qed

lemma uninstall_step:
  assumes inv: "reg_inv w G D P N" and l: "lock w = 0"
  shows "\<exists>w' G' D'. uninstall_sighandler B k w = Some (True, w') \<and> handles_kept w w' \<and> reg_inv w' G' D' P N
    \<and> shrinks P G G' \<and> (\<forall>b. D' b = D b \<or> D' b = [])
    \<and> reg_state w' G' = at_signals (\<lambda>j. j = k) uninst (reg_state w G)"
proof (cases "signo_lookup (signo_to_sighandler_map w) k")
  case None
  with uninstall_absent[OF l None] reg_abs_None[OF inv, of k] inv show ?thesis
    by (intro exI[of _ w] exI[of _ G] exI[of _ D]) (auto simp: reg_state_def at_signals_def fun_eq_iff)
next
  case (Some a)
  obtain ci where a: "infos w a = Some ci" using reg_inv_lookup[OF inv Some] by blast
  let ?f = "install_count ci = 1 \<and> P a = 0"
  obtain w' where w': "uninstall_sighandler B k w = Some (True, w')" "handles_kept w w'"
    "reg_inv w' (after_release a ?f G) (D(a := [])) P N"
    "reg_abs w' (after_release a ?f G) = abs_uninstall k (reg_abs w G)"
    "kernel w' = (if install_count ci = 1 then (kernel w)(k := old_handler ci) else kernel w)"
    using uninstall_present[OF inv l Some a] by blast
  have "shrinks P G (after_release a ?f G)" by (simp add: shrinks_def after_release_def)
  moreover have "reg_state w' (after_release a ?f G) = at_signals (\<lambda>j. j = k) uninst (reg_state w G)"
    using w'(4,5) reg_abs_Some[OF Some a, of G]
    by (auto simp: reg_state_def at_signals_def abs_uninstall_def fun_eq_iff handler_view_def)
  moreover have "\<forall>b. (D(a := [])) b = D b \<or> (D(a := [])) b = []" by simp
  ultimately show ?thesis using w'(1-3) by blast
qed

lemma install_each_ok:
  assumes "reg_inv w G D P N" "lock w = 0" "\<forall>k \<in> set ks. signo_valid k" "distinct ks"
  shows "\<exists>failed w' us vs. install_each B S ks w = Some (failed, w') \<and> handles_kept w w' \<and> reg_inv w' G D P N
    \<and> ks = us @ vs \<and> (case failed of None \<Rightarrow> vs = [] | Some k \<Rightarrow> vs \<noteq> [] \<and> hd vs = k)
    \<and> reg_state w' G = at_signals (\<lambda>j. j \<in> set us \<and> visited S j) inst (reg_state w G)"
  using assms
proof (induction ks arbitrary: w)
  case Nil
  then show ?case by (intro exI[of _ None] exI[of _ w]) (auto simp: at_signals_def fun_eq_iff)
next
  case (Cons k ks)
  show ?case
  proof (cases "visited S k")
    case False
    then have "install_each B S (k # ks) w = install_each B S ks w" by (auto simp: visited_def)
    moreover obtain failed w' us vs where r: "install_each B S ks w = Some (failed, w')" "handles_kept w w'"
      "reg_inv w' G D P N" "ks = us @ vs" "case failed of None \<Rightarrow> vs = [] | Some k \<Rightarrow> vs \<noteq> [] \<and> hd vs = k"
      "reg_state w' G = at_signals (\<lambda>j. j \<in> set us \<and> visited S j) inst (reg_state w G)"
      using Cons.IH[of w] Cons.prems by auto
    moreover have "at_signals (\<lambda>j. j \<in> set (k # us) \<and> visited S j) inst (reg_state w G) =
       at_signals (\<lambda>j. j \<in> set us \<and> visited S j) inst (reg_state w G)"
      using False by (auto simp: at_signals_def fun_eq_iff)
    ultimately show ?thesis
      by (intro exI[of _ failed] exI[of _ w'] exI[of _ "k # us"] exI[of _ vs]) auto
  next
    case True
    obtain ok w1 where s: "install_sighandler B k w = Some (ok, w1)" "handles_kept w w1" "reg_inv w1 G D P N"
      "reg_state w1 G = (if ok then at_signals (\<lambda>j. j = k) inst (reg_state w G) else reg_state w G)"
      using install_step[OF Cons.prems(1,2)] Cons.prems(3) by (metis list.set_intros(1))
    show ?thesis
    proof (cases ok)
      case False
      then have "install_each B S (k # ks) w = Some (Some k, w1)" using True s(1) by (simp add: visited_def)
      with False s show ?thesis
        by (intro exI[of _ "Some k"] exI[of _ w1] exI[of _ "[]"] exI[of _ "k # ks"])
          (auto simp: at_signals_def fun_eq_iff)
    next
      case ok: True
      have l1: "lock w1 = 0" using s(2) Cons.prems(2) by (simp add: handles_kept_def)
      have "install_each B S (k # ks) w = install_each B S ks w1" using ok True s(1) by (simp add: visited_def)
      moreover obtain failed w' us vs where r: "install_each B S ks w1 = Some (failed, w')" "handles_kept w1 w'"
        "reg_inv w' G D P N" "ks = us @ vs" "case failed of None \<Rightarrow> vs = [] | Some k \<Rightarrow> vs \<noteq> [] \<and> hd vs = k"
        "reg_state w' G = at_signals (\<lambda>j. j \<in> set us \<and> visited S j) inst (reg_state w1 G)"
        using Cons.IH[OF s(3) l1] Cons.prems(3,4) by auto
      moreover have "reg_state w' G = at_signals (\<lambda>j. j \<in> set (k # us) \<and> visited S j) inst (reg_state w G)"
        using True ok s(4) r(4,6) Cons.prems(4) by (auto simp: at_signals_def fun_eq_iff)
      ultimately show ?thesis using handles_kept_trans[OF s(2)]
        by (intro exI[of _ failed] exI[of _ w'] exI[of _ "k # us"] exI[of _ vs]) auto
    qed
  qed
qed

lemma rollback_each_ok:
  assumes "reg_inv w G D P N" "lock w = 0" "distinct ks"
  shows "\<exists>w' G' D'. rollback_each B S ks w = Some w' \<and> handles_kept w w' \<and> reg_inv w' G' D' P N
    \<and> shrinks P G G' \<and> (\<forall>b. D' b = D b \<or> D' b = [])
    \<and> reg_state w' G' = at_signals (\<lambda>j. j \<in> set ks \<and> visited S j) uninst (reg_state w G)"
  using assms
proof (induction ks arbitrary: w G D)
  case Nil
  then show ?case by (intro exI[of _ w] exI[of _ G] exI[of _ D]) (auto simp: at_signals_def fun_eq_iff)
next
  case (Cons k ks)
  show ?case
  proof (cases "visited S k")
    case False
    then have "rollback_each B S (k # ks) w = rollback_each B S ks w" by (auto simp: visited_def)
    moreover have "at_signals (\<lambda>j. j \<in> set (k # ks) \<and> visited S j) uninst (reg_state w G) =
       at_signals (\<lambda>j. j \<in> set ks \<and> visited S j) uninst (reg_state w G)"
      using False by (auto simp: at_signals_def fun_eq_iff)
    ultimately show ?thesis using Cons.IH[OF Cons.prems(1,2)] Cons.prems(3) by simp
  next
    case True
    obtain w1 G1 D1 where s: "uninstall_sighandler B k w = Some (True, w1)" "handles_kept w w1" "reg_inv w1 G1 D1 P N"
      "shrinks P G G1" "\<forall>b. D1 b = D b \<or> D1 b = []"
      "reg_state w1 G1 = at_signals (\<lambda>j. j = k) uninst (reg_state w G)"
      using uninstall_step[OF Cons.prems(1,2)] by blast
    have l1: "lock w1 = 0" using s(2) Cons.prems(2) by (simp add: handles_kept_def)
    obtain w' G' D' where r: "rollback_each B S ks w1 = Some w'" "handles_kept w1 w'" "reg_inv w' G' D' P N"
      "shrinks P G1 G'" "\<forall>b. D' b = D1 b \<or> D' b = []"
      "reg_state w' G' = at_signals (\<lambda>j. j \<in> set ks \<and> visited S j) uninst (reg_state w1 G1)"
      using Cons.IH[OF s(3) l1] Cons.prems(3) by auto
    have "reg_state w' G' = at_signals (\<lambda>j. j \<in> set (k # ks) \<and> visited S j) uninst (reg_state w G)"
      using True s(6) r(6) Cons.prems(3) by (auto simp: at_signals_def fun_eq_iff)
    moreover have "rollback_each B S (k # ks) w = Some w'" using True s(1) r(1) by (simp add: visited_def)
    moreover have "\<forall>b. D' b = D b \<or> D' b = []" using s(5) r(5) by metis
    ultimately show ?thesis
      using handles_kept_trans[OF s(2) r(2)] r(3) shrinks_trans[OF s(4) r(4)] by blast
  qed
qed

lemma uninstall_each_rollback:
  assumes "reg_inv w G D P N" "lock w = 0"
  shows "uninstall_each B S ks w = map_option (Pair True) (rollback_each B S ks w)"
  using assms
proof (induction ks arbitrary: w G D)
  case (Cons k ks)
  obtain w1 G1 D1 where "uninstall_sighandler B k w = Some (True, w1)" "handles_kept w w1" "reg_inv w1 G1 D1 P N"
    using uninstall_step[OF Cons.prems] by blast
  with Cons show ?case by (simp add: handles_kept_def)
qed simp

end

lemma reg_inv_install_handles:
  "reg_inv w G D P N \<Longrightarrow> h = None \<or> a < next_addr w \<Longrightarrow>
    reg_inv (w\<lparr>install_handles := (install_handles w)(a := h)\<rparr>) G D P N"
  by (auto simp: reg_inv_def kernel_inv_def fresh_inv_def)

lemma reg_state_irrelevant [simp]:
  "reg_state (w\<lparr>install_handles := h\<rparr>) = reg_state w" "reg_state (w\<lparr>errno := e\<rparr>) = reg_state w"
  "reg_state (w\<lparr>lock := l\<rparr>) = reg_state w" "reg_state (w\<lparr>events := ev\<rparr>) = reg_state w"
  "reg_state (w\<lparr>decider_handles := dh\<rparr>) = reg_state w" "reg_state (w\<lparr>tss := t\<rparr>) = reg_state w"
  "reg_state (w\<lparr>alloc_plan := pl\<rparr>) = reg_state w" "reg_state (w\<lparr>next_addr := na\<rparr>) = reg_state w"
  by (simp_all add: fun_eq_iff reg_state_def reg_abs_def)

lemma reg_state_same: "same_registry w w' \<Longrightarrow> reg_state w' G = reg_state w G"
  by (simp add: fun_eq_iff reg_state_def reg_abs_same) (simp add: same_registry_def)

lemma visited_range: "visited S j \<Longrightarrow> 1 \<le> j \<and> j < NSIG"
  by (simp add: visited_def sigismember_def)

lemma at_signals_cong: "(\<And>j. Q j = Q' j) \<Longrightarrow> at_signals Q f s = at_signals Q' f s"
  by (simp add: at_signals_def fun_eq_iff)

lemma at_signals_visited:
  "at_signals (\<lambda>j. j \<in> set [1..NSIG - 1] \<and> visited S j) f s = at_signals (visited S) f s"
  by (rule at_signals_cong) (auto dest: visited_range)

lemma upto_split_hd:
  assumes "[1..m] = us @ k # vs" shows "us = [1..k - 1]"
proof -
  have len: "nat m = length us + Suc (length vs)" using arg_cong[OF assms, of length] by simp
  have "length us < length [1..m]" using assms by simp
  then have "k = 1 + int (length us)" 
    using arg_cong[OF assms, of "\<lambda>xs. xs ! length us"] by (simp add: nth_append)
  moreover have "us = take (length us) [1..m]" using assms by simp
  moreover have "take n [1..m] = [1..int n]" if "n \<le> nat m" for n
    using that by (auto simp: list_eq_iff_nth_eq)
  ultimately show ?thesis using len by (metis add_diff_cancel_left' le_add1)
qed

context tss_laws
begin

lemma siginstall_ok:
  assumes inv: "reg_inv w G D P N" and l: "lock w = 0"
    and S_def: "S = siginstall_set internal g"
  shows "\<exists>r w' G' D'. siginstall B internal g w = Some (r, w') \<and> lock w' = 0 \<and> decider_handles w' = decider_handles w
    \<and> shrinks P G G' \<and> (\<forall>b. D' b = D b \<or> D' b = []) \<and> reg_inv w' G' D' P N
    \<and> (case r of
         Some a \<Rightarrow> install_handles w a = None \<and> install_handles w' = (install_handles w)(a \<mapsto> S)
           \<and> reg_state w' G' = at_signals (visited S) inst (reg_state w G)
       | None \<Rightarrow> install_handles w' = install_handles w \<and> reg_state w' G' = reg_state w G)"
proof (cases "host_alloc w")
  case (Pair p w1)
  note s1 = host_alloc_same[OF Pair]
  note inv1 = reg_inv_same[OF s1 inv]
  show ?thesis
  proof (cases p)
    case None
    then have "siginstall B internal g w = Some (None, w1)" using Pair by (simp add: siginstall_def)
    then show ?thesis
      using inv1 s1 l reg_state_same[OF s1]
      by - (rule exI[of _ None], rule exI[of _ w1], rule exI[of _ G], rule exI[of _ D], simp add: same_registry_def)
  next
    case (Some a)
    note w1 = host_alloc_Some[OF Pair[unfolded Some]]
    define w2 where "w2 = w1\<lparr>install_handles := (install_handles w1)(a \<mapsto> S)\<rparr>"
    have inv2: "reg_inv w2 G D P N"
      using reg_inv_install_handles[OF inv1, of "Some S" a] w1 by (simp add: w2_def)
    have l2: "lock w2 = 0" using l w1 by (simp add: w2_def)
    have st2: "reg_state w2 G = reg_state w G" using reg_state_same[OF s1] by (simp add: w2_def)
    have h2: "decider_handles w2 = decider_handles w" "install_handles w2 = (install_handles w)(a \<mapsto> S)"
      "install_handles w a = None" using w1 reg_inv_fresh[OF inv] by (simp_all add: w2_def)
    have rng: "\<forall>k \<in> set [1..NSIG - 1]. signo_valid k" by auto
    obtain failed w3 us vs where r: "install_each B S [1..NSIG - 1] w2 = Some (failed, w3)"
      "handles_kept w2 w3" "reg_inv w3 G D P N" "[1..NSIG - 1] = us @ vs"
      "case failed of None \<Rightarrow> vs = [] | Some k \<Rightarrow> vs \<noteq> [] \<and> hd vs = k"
      "reg_state w3 G = at_signals (\<lambda>j. j \<in> set us \<and> visited S j) inst (reg_state w2 G)"
      using install_each_ok[OF inv2 l2 rng distinct_upto] by blast
    have l3: "lock w3 = 0" using r(2) l2 by (simp add: handles_kept_def)
    show ?thesis
    proof (cases failed)
      case None
      then have "siginstall B internal g w = Some (Some a, w3)"
        using Pair Some r(1) by (simp add: siginstall_def S_def w2_def)
      moreover have "reg_state w3 G = at_signals (visited S) inst (reg_state w G)"
        using r(4-6) None st2 at_signals_visited by simp
      ultimately show ?thesis
        using r(2,3) l3 h2
        by - (rule exI[of _ "Some a"], rule exI[of _ w3], rule exI[of _ G], rule exI[of _ D], simp add: handles_kept_def)
    next
      case failed: (Some k)
      then have us: "us = [1..k - 1]" using r(4,5) by (cases vs) (auto intro: upto_split_hd)
      obtain w4 G' D' where b: "rollback_each B S [1..k - 1] w3 = Some w4" "handles_kept w3 w4"
        "reg_inv w4 G' D' P N" "shrinks P G G'" "\<forall>b. D' b = D b \<or> D' b = []"
        "reg_state w4 G' = at_signals (\<lambda>j. j \<in> set us \<and> visited S j) uninst (reg_state w3 G)"
        using rollback_each_ok[OF r(3) l3 distinct_upto[of 1 "k - 1"], of S] unfolding us by blast
      have st: "reg_state w4 G' = reg_state w G"
        using reg_inv_positive[OF inv] unfolding b(6) r(6) st2 by (auto simp: at_signals_def fun_eq_iff uninst_inst)
      have h4: "install_handles w4 = (install_handles w)(a \<mapsto> S)" "decider_handles w4 = decider_handles w" "lock w4 = 0"
        using b(2) r(2) h2 l3 by (simp_all add: handles_kept_def)
      have "siginstall B internal g w = Some (None, w4\<lparr>install_handles := (install_handles w4)(a := None), errno := errno w3\<rparr>)"
        using Pair Some r(1) failed b(1) h4 by (simp add: siginstall_def S_def[symmetric] w2_def)
      moreover have "(install_handles w4)(a := None) = install_handles w" using h4(1) h2(3) by auto
      ultimately show ?thesis
        using b(3-5) st h4 reg_inv_install_handles[OF b(3), of None a]
        by - (rule exI[of _ None], rule exI[of _ "w4\<lparr>install_handles := install_handles w, errno := errno w3\<rparr>"], rule exI[of _ G'], rule exI[of _ D'], simp)
    qed
  qed
qed

lemma siguninstall_ok:
  assumes inv: "reg_inv w G D P N" and l: "lock w = 0" and a: "install_handles w a = Some S"
  shows "\<exists>w' G' D'. siguninstall B (Some a) w = Some (0, w') \<and> lock w' = 0 \<and> decider_handles w' = decider_handles w
    \<and> shrinks P G G' \<and> (\<forall>b. D' b = D b \<or> D' b = []) \<and> reg_inv w' G' D' P N
    \<and> install_handles w' = (install_handles w)(a := None)
    \<and> reg_state w' G' = at_signals (visited S) uninst (reg_state w G)"
proof -
  obtain w1 G' D' where r: "rollback_each B S [1..NSIG - 1] w = Some w1" "handles_kept w w1"
    "reg_inv w1 G' D' P N" "shrinks P G G'" "\<forall>b. D' b = D b \<or> D' b = []"
    "reg_state w1 G' = at_signals (\<lambda>j. j \<in> set [1..NSIG - 1] \<and> visited S j) uninst (reg_state w G)"
    using rollback_each_ok[OF inv l distinct_upto] by blast
  have "siguninstall B (Some a) w = Some (0, w1\<lparr>install_handles := (install_handles w1)(a := None)\<rparr>)"
    using r(1,2) a by (simp add: siguninstall_def uninstall_each_rollback[OF inv l] handles_kept_def)
  moreover have "reg_state w1 G' = at_signals (visited S) uninst (reg_state w G)"
    using r(6) by (simp only: at_signals_visited)
  ultimately show ?thesis
    using r(2-5) l reg_inv_install_handles[OF r(3), of None a]
    by - (rule exI[of _ "w1\<lparr>install_handles := (install_handles w1)(a := None)\<rparr>"], rule exI[of _ G'], rule exI[of _ D'], simp add: handles_kept_def)
qed

end

lemma install_sighandler_succeeds:
  assumes "install_sighandler native_tss k w = Some (ok, w')" "alloc_plan w = []" "\<not> refused w k"
  shows "ok \<and> alloc_plan w' = []"
  using assms
  by (auto simp: install_sighandler_def LOCK_def UNLOCK_def install_commit_def info_upd_def host_alloc_def Let_def
      install_sighandler_impl_def host_sigaction_def native_tss_def sig_global_tss_state_create_def
      bind_Some_conv assert_that_def split: if_splits)

lemma install_each_succeeds:
  assumes "install_each native_tss S ks w = Some (failed, w')" "alloc_plan w = []"
    "\<forall>k \<in> set ks. visited S k \<longrightarrow> \<not> refused w k" "reg_inv w G D P N" "lock w = 0" "\<forall>k \<in> set ks. signo_valid k"
  shows "failed = None \<and> alloc_plan w' = []"
  using assms
proof (induction ks arbitrary: w)
  case (Cons k ks)
  show ?case
  proof (cases "visited S k")
    case True
    obtain ok w1 where s: "install_sighandler native_tss k w = Some (ok, w1)" "handles_kept w w1" "reg_inv w1 G D P N"
      using native.install_step[OF Cons.prems(4,5)] Cons.prems(6) by (metis list.set_intros(1))
    then have "ok" "alloc_plan w1 = []" using install_sighandler_succeeds[OF s(1)] Cons.prems True by auto
    with s Cons.prems True show ?thesis
      by (intro Cons.IH[of w1]) (auto simp: visited_def handles_kept_def)
  next
    case False
    then show ?thesis using Cons.prems by (intro Cons.IH[of w]) (auto simp: visited_def split: if_splits)
  qed
qed simp

section \<open>Properties of installing and uninstalling\<close>

text \<open>Between calls of the library nothing is in flight: the registry and its abstract state.\<close>

definition registry_rel :: "sig_world \<Rightarrow> (int \<Rightarrow> signal_state) \<Rightarrow> bool" where
  "registry_rel w s \<longleftrightarrow> lock w = 0 \<and> (\<exists>G D. reg_inv w G D (\<lambda>_. 0) (\<lambda>_. 0) \<and> s = reg_state w G)"

lemma registry_relI: "lock w = 0 \<Longrightarrow> reg_inv w G D (\<lambda>_. 0) (\<lambda>_. 0) \<Longrightarrow> reg_state w G = s \<Longrightarrow> registry_rel w s"
  by (auto simp: registry_rel_def)

lemma registry_rel_init: "registry_rel (sig_world_init\<lparr>tss := t\<rparr>) (\<lambda>_. (None, sigaction_zero))"
proof -
  have "reg_state (sig_world_init\<lparr>tss := t\<rparr>) (\<lambda>_. []) = (\<lambda>_. (None, sigaction_zero))"
    by (simp add: fun_eq_iff reg_state_def reg_abs_def registry_view_def sig_world_init_def signo_lookup_empty)
  moreover have "lock (sig_world_init\<lparr>tss := t\<rparr>) = 0" by (simp add: sig_world_init_def)
  ultimately show ?thesis unfolding registry_rel_def
    by (metis reg_inv_init reg_inv_irrelevant(5))
qed

lemma siginstall_rel:
  assumes rel: "registry_rel w s" and S: "S = siginstall_set internal g"
  shows "\<exists>r w'. siginstall native_tss internal g w = Some (r, w') \<and> decider_handles w' = decider_handles w
    \<and> (case r of
         Some a \<Rightarrow> install_handles w a = None \<and> install_handles w' = (install_handles w)(a \<mapsto> S)
           \<and> registry_rel w' (at_signals (visited S) inst s)
       | None \<Rightarrow> install_handles w' = install_handles w \<and> registry_rel w' s)"
proof -
  obtain G D where w: "lock w = 0" "reg_inv w G D (\<lambda>_. 0) (\<lambda>_. 0)" "s = reg_state w G"
    using rel by (auto simp: registry_rel_def)
  obtain r w' G' D' where r: "siginstall native_tss internal g w = Some (r, w')" "lock w' = 0" "decider_handles w' = decider_handles w"
    "reg_inv w' G' D' (\<lambda>_. 0) (\<lambda>_. 0)"
    "case r of Some a \<Rightarrow> install_handles w a = None \<and> install_handles w' = (install_handles w)(a \<mapsto> S)
           \<and> reg_state w' G' = at_signals (visited S) inst (reg_state w G)
       | None \<Rightarrow> install_handles w' = install_handles w \<and> reg_state w' G' = reg_state w G"
    using native.siginstall_ok[OF w(2,1) S] by blast
  then show ?thesis by (cases r) (auto simp: registry_rel_def w(3))
qed

lemma siguninstall_rel:
  assumes rel: "registry_rel w s" and a: "install_handles w a = Some S"
  shows "\<exists>w'. siguninstall native_tss (Some a) w = Some (0, w') \<and> decider_handles w' = decider_handles w
    \<and> install_handles w' = (install_handles w)(a := None) \<and> registry_rel w' (at_signals (visited S) uninst s)"
proof -
  obtain G D where w: "lock w = 0" "reg_inv w G D (\<lambda>_. 0) (\<lambda>_. 0)" "s = reg_state w G"
    using rel by (auto simp: registry_rel_def)
  show ?thesis using native.siguninstall_ok[OF w(2,1) a] w(3) registry_relI by blast
qed

lemma siginstall_succeeds_rel:
  assumes rel: "registry_rel w s" and plan: "alloc_plan w = []"
    and ref: "\<forall>k. visited (siginstall_set internal g) k \<longrightarrow> \<not> refused w k"
    and r: "siginstall native_tss internal g w = Some (r, w')"
  shows "r \<noteq> None"
proof -
  obtain G D where w: "lock w = 0" "reg_inv w G D (\<lambda>_. 0) (\<lambda>_. 0)" using rel by (auto simp: registry_rel_def)
  obtain a w1 where al: "host_alloc w = (Some a, w1)" using plan by (simp add: host_alloc_def Let_def)
  note w1 = host_alloc_Some[OF al]
  let ?S = "siginstall_set internal g"
  let ?w = "w1\<lparr>install_handles := (install_handles w1)(a \<mapsto> ?S)\<rparr>"
  have inv: "reg_inv ?w G D (\<lambda>_. 0) (\<lambda>_. 0)" using reg_inv_install_handles[OF reg_inv_same[OF host_alloc_same[OF al] w(2)]] w1 by simp
  have l: "lock ?w = 0" using w(1) w1 by simp
  have rng: "\<forall>k \<in> set [1..NSIG - 1]. signo_valid k" by auto
  obtain failed w2 where i: "install_each native_tss ?S [1..NSIG - 1] ?w = Some (failed, w2)"
    using native.install_each_ok[OF inv l rng distinct_upto] by blast
  have p: "alloc_plan ?w = []" "refused ?w = refused w" using plan w1 by simp_all
  have "failed = None"
    using install_each_succeeds[OF i p(1) _ inv l rng] ref p(2) by simp
  then show ?thesis using r al i by (auto simp: siginstall_def)
qed

lemma registry_rel_positive: "registry_rel w s \<Longrightarrow> positive (s j)"
  by (auto simp: registry_rel_def intro: reg_inv_positive)



text \<open>
  C9 (refinement). \<^verbatim>\<open>siguninstall\<close> of a live handle always returns zero, frees the handle and
  takes back one install of every signal of its set: the last install of a signal restores
  the disposition that the first one found and drops the signal's chain, an earlier one
  changes only the count. That the chain is dropped is what the code does and not what
  \<^verbatim>\<open>docs/proposed-wording.md\<close> asks for: there (7.14.2.6 p2, 7.14.1 p15) uninstallation removes no
  decider, and a signal that is activated again invokes its deciders again.
\<close>

theorem siguninstall_refines:
  assumes "registry_rel w s" "install_handles w a = Some S"
  shows "\<exists>w'. siguninstall native_tss (Some a) w = Some (0, w') \<and> decider_handles w' = decider_handles w
    \<and> install_handles w' = (install_handles w)(a := None) \<and> registry_rel w' (at_signals (visited S) uninst s)"
  by (rule siguninstall_rel[OF assms])

theorem siguninstall_refines_witness:
  "\<exists>w a w'. install_handles w a = Some {10} \<and> siguninstall native_tss (Some a) w = Some (0, w')
    \<and> install_handles w' = (install_handles w)(a := None)
    \<and> registry_rel w' (at_signals (visited {10}) uninst (at_signals (visited {10}) inst (\<lambda>_. (None, sigaction_zero))))"
proof -
  note rel0 = registry_rel_init[of None]
  have S: "{10} = siginstall_set [] (Some {10})" by (simp add: siginstall_set_def)
  obtain r w where r: "siginstall native_tss [] (Some {10}) (sig_world_init\<lparr>tss := None\<rparr>) = Some (r, w)"
    "case r of Some a \<Rightarrow> install_handles w = (install_handles (sig_world_init\<lparr>tss := None\<rparr>))(a \<mapsto> {10})
           \<and> registry_rel w (at_signals (visited {10}) inst (\<lambda>_. (None, sigaction_zero))) | None \<Rightarrow> True"
    using siginstall_rel[OF rel0 S] by (fastforce split: option.splits)
  have "r \<noteq> None"
    using siginstall_succeeds_rel[OF rel0 _ _ r(1)]
    by (auto simp: sig_world_init_def visited_def skipped_signo_def siginstall_set_def)
  then obtain a where "r = Some a" by blast
  then have "install_handles w a = Some {10}"
    "registry_rel w (at_signals (visited {10}) inst (\<lambda>_. (None, sigaction_zero)))" using r(2) by simp_all
  then show ?thesis using siguninstall_refines by blast
qed

text \<open>
  Where the code departs from the proposed wording: when the last install of a signal is taken
  back and the signal is installed again later, its chain is empty, whichever deciders
  it had; their handles are still allocated.
\<close>

theorem uninstall_forgets_deciders:
  assumes rel: "registry_rel w s" and a: "install_handles w a = Some S" and j: "visited S j" "s j = (Some h, sa)" "ah_installs h = 1"
  shows "\<exists>w1. siguninstall native_tss (Some a) w = Some (0, w1) \<and> decider_handles w1 = decider_handles w
    \<and> (\<forall>internal g b w2. siginstall native_tss internal g w1 = Some (Some b, w2) \<and> visited (siginstall_set internal g) j \<longrightarrow>
        decider_handles w2 = decider_handles w
        \<and> (\<exists>s2 h2. registry_rel w2 s2 \<and> fst (s2 j) = Some h2 \<and> ah_installs h2 = 1 \<and> ah_chain h2 = []))"
proof -
  obtain w1 where w1: "siguninstall native_tss (Some a) w = Some (0, w1)" "decider_handles w1 = decider_handles w"
    "registry_rel w1 (at_signals (visited S) uninst s)"
    using siguninstall_rel[OF rel a] by blast
  have "decider_handles w2 = decider_handles w \<and> (\<exists>s2 h2. registry_rel w2 s2 \<and> fst (s2 j) = Some h2 \<and> ah_installs h2 = 1 \<and> ah_chain h2 = [])"
    if w2: "siginstall native_tss internal g w1 = Some (Some b, w2)" "visited (siginstall_set internal g) j" for internal g b w2
  proof -
    have "decider_handles w2 = decider_handles w1"
      "registry_rel w2 (at_signals (visited (siginstall_set internal g)) inst (at_signals (visited S) uninst s))"
      using siginstall_rel[OF w1(3) refl, of internal g] w2(1) by auto
    moreover have "at_signals (visited (siginstall_set internal g)) inst (at_signals (visited S) uninst s) j
        = (Some \<lparr>ah_installs = 1, ah_previous = ah_previous h, ah_chain = []\<rparr>, raw_sigaction)"
      using j w2(2) by (simp add: at_signals_def)
    ultimately show ?thesis using w1(2)
      by (intro conjI exI[of _ "at_signals (visited (siginstall_set internal g)) inst (at_signals (visited S) uninst s)"]) auto
  qed
  then show ?thesis using w1(1,2) by blast
qed

text \<open>
  Roundtrip. When no allocation fails and the host refuses none of the signals,
  \<^verbatim>\<open>siginstall\<close> succeeds, and uninstalling its handle gives every signal back exactly the
  installs, chain, previous and present disposition it had.
\<close>

theorem siginstall_siguninstall_roundtrip:
  assumes rel: "registry_rel w s" and plan: "alloc_plan w = []"
    and ref: "\<forall>k. visited (siginstall_set internal g) k \<longrightarrow> \<not> refused w k"
  shows "\<exists>a w1 w2. siginstall native_tss internal g w = Some (Some a, w1)
    \<and> registry_rel w1 (at_signals (visited (siginstall_set internal g)) inst s)
    \<and> siguninstall native_tss (Some a) w1 = Some (0, w2) \<and> registry_rel w2 s
    \<and> install_handles w2 = install_handles w"
proof -
  let ?S = "siginstall_set internal g"
  obtain r w1 where r: "siginstall native_tss internal g w = Some (r, w1)"
    "case r of Some a \<Rightarrow> install_handles w a = None \<and> install_handles w1 = (install_handles w)(a \<mapsto> ?S)
        \<and> registry_rel w1 (at_signals (visited ?S) inst s) | None \<Rightarrow> True"
    using siginstall_rel[OF rel refl] by (fastforce split: option.splits)
  obtain a where a: "r = Some a" "install_handles w a = None" "install_handles w1 = (install_handles w)(a \<mapsto> ?S)"
    "registry_rel w1 (at_signals (visited ?S) inst s)"
    using siginstall_succeeds_rel[OF rel plan ref r(1)] r(2) by auto
  obtain w2 where w2: "siguninstall native_tss (Some a) w1 = Some (0, w2)" "install_handles w2 = (install_handles w1)(a := None)"
    "registry_rel w2 (at_signals (visited ?S) uninst (at_signals (visited ?S) inst s))"
    using siguninstall_rel[OF a(4), of a ?S] a(3) by auto
  have "at_signals (visited ?S) uninst (at_signals (visited ?S) inst s) = s"
    using registry_rel_positive[OF rel] by (simp add: at_signals_def uninst_inst fun_eq_iff)
  then show ?thesis using r(1) a w2 by auto
qed

theorem siginstall_siguninstall_roundtrip_witness:
  "\<exists>a w1 w2. siginstall native_tss [] (Some {10, 15}) (sig_world_init\<lparr>tss := None\<rparr>) = Some (Some a, w1)
    \<and> registry_rel w1 (at_signals (visited (siginstall_set [] (Some {10, 15}))) inst (\<lambda>_. (None, sigaction_zero)))
    \<and> siguninstall native_tss (Some a) w1 = Some (0, w2) \<and> registry_rel w2 (\<lambda>_. (None, sigaction_zero))
    \<and> install_handles w2 = install_handles (sig_world_init\<lparr>tss := None\<rparr>)"
  by (rule siginstall_siguninstall_roundtrip[OF registry_rel_init])
    (auto simp: sig_world_init_def visited_def skipped_signo_def siginstall_set_def)

end
