(* ===== verification/Registry_Deciders.thy ===== *)
theory Registry_Deciders
  imports Registry_Spec
begin

text \<open>
  Creating and destroying global deciders keeps the registry invariant and does to the
  abstract registry what it should: a new decider appears at the chosen end of every
  handled signal's chain, and destroying its handle takes it off again.
\<close>

section \<open>Decider handles\<close>

lemma slot_read_ok: "decider_handles w p = Some dh \<Longrightarrow> k < length (dh_slots dh) \<Longrightarrow>
    slot_read p k w = Some (slot (decider_handles w) p k)"
  by (simp add: slot_read_def slot_def)

lemma slot_write_ok: "decider_handles w p = Some dh \<Longrightarrow> k < length (dh_slots dh) \<Longrightarrow>
    slot_write p k v w = Some (w\<lparr>decider_handles := (decider_handles w)(p \<mapsto> dh\<lparr>dh_slots := (dh_slots dh)[k := v]\<rparr>)\<rparr>)"
  by (simp add: slot_write_def)

definition set_slot :: "decider_handle heap \<Rightarrow> addr \<Rightarrow> nat \<Rightarrow> ptr \<Rightarrow> decider_handle heap" where
  "set_slot hs p k v = (case hs p of None \<Rightarrow> hs
     | Some dh \<Rightarrow> hs(p \<mapsto> dh\<lparr>dh_slots := (dh_slots dh)[k := v]\<rparr>))"

lemma slot_set_slot:
  assumes "hs p = Some dh" "k < length (dh_slots dh)"
  shows "slot (set_slot hs p k v) h j = (if h = p \<and> j = k then v else slot hs h j)"
  using assms by (auto simp: slot_def set_slot_def nth_list_update)

lemma set_slot_cases:
  assumes "hs p = Some dh"
  shows "set_slot hs p k v h = (if h = p then Some (dh\<lparr>dh_slots := (dh_slots dh)[k := v]\<rparr>) else hs h)"
  using assms by (simp add: set_slot_def)

lemma slot_write_set: "decider_handles w p = Some dh \<Longrightarrow> k < length (dh_slots dh) \<Longrightarrow>
    slot_write p k v w = Some (w\<lparr>decider_handles := set_slot (decider_handles w) p k v\<rparr>)"
  by (simp add: slot_write_def set_slot_def)

lemma own_inv_unique: "own_inv ns hs D N \<Longrightarrow> slot hs h k = Some n \<Longrightarrow> slot hs h' k' = Some n \<Longrightarrow> h' = h \<and> k' = k"
  unfolding own_inv_def by blast

lemma owned_set_slot:
  assumes own: "own_inv ns hs D N" and hs: "hs p = Some dh" "k < length (dh_slots dh)"
  shows "owned (set_slot hs p k v) n \<longleftrightarrow> v = Some n \<or> owned hs n \<and> slot hs p k \<noteq> Some n"
proof -
  note sl = slot_set_slot[of hs p dh k, OF hs]
  have "(\<exists>h j. (h, j) \<noteq> (p, k) \<and> slot hs h j = Some n) \<longleftrightarrow> owned hs n \<and> slot hs p k \<noteq> Some n"
    using own_inv_unique[OF own, of p k n] unfolding owned_def by (metis Pair_inject)
  moreover have "owned (set_slot hs p k v) n \<longleftrightarrow> v = Some n \<or> (\<exists>h j. (h, j) \<noteq> (p, k) \<and> slot hs h j = Some n)"
    unfolding owned_def sl by auto
  ultimately show ?thesis by simp
qed

lemma payload_refcount:
  assumes "payload ns' n = payload ns n" "ns' n = Some d'"
  shows "\<exists>d. ns n = Some d \<and> refcount d = refcount d' \<and> decider d = decider d' \<and> dvalue d = dvalue d'"
  using assms by (cases "ns n"; cases "the (ns n)"; cases d') (auto simp: payload_def)

text \<open>A new node, linked and recorded in its handle.\<close>

lemma own_inv_new:
  assumes own: "own_inv ns hs D N" and hs: "hs p = Some dh" "k < length (dh_slots dh)"
    and n: "ns n = None" "\<not> listed D n" and s: "slot hs p k = None"
    and ns': "ns' n = Some d" "refcount d = 1" "\<And>m. m \<noteq> n \<Longrightarrow> payload ns' m = payload ns m"
  shows "own_inv ns' (set_slot hs p k (Some n)) D N"
proof -
  have fresh: "\<not> owned hs n" "N n = 0" using own n(1) by (auto simp: own_inv_def)
  note ow = owned_set_slot[of ns hs D N p dh k "Some n", OF own hs]
  have "refcount d' = of_bool (owned (set_slot hs p k (Some n)) m) + int (N m)
      \<and> (listed D m \<longleftrightarrow> \<not> owned (set_slot hs p k (Some n)) m \<and> N m = 0)" if m: "ns' m = Some d'" for m d'
  proof (cases "m = n")
    case True
    then show ?thesis using m ns' fresh n(2) ow[of n] by simp
  next
    case False
    then obtain d0 where d0: "ns m = Some d0" "refcount d0 = refcount d'"
      using payload_refcount[OF ns'(3)[OF False] m] by blast
    then show ?thesis using own False s ow[of m] by (auto simp: own_inv_def)
  qed
  moreover have "\<not> owned (set_slot hs p k (Some n)) m \<and> N m = 0" if m: "ns' m = None" for m
  proof -
    have "m \<noteq> n" using m ns'(1) by auto
    then have "ns m = None" using ns'(3)[of m] m by (metis payload_eq_None)
    then show ?thesis using own \<open>m \<noteq> n\<close> ow[of m] by (auto simp: own_inv_def)
  qed
  moreover have "h' = h \<and> j' = j" if "slot (set_slot hs p k (Some n)) h j = Some m"
    "slot (set_slot hs p k (Some n)) h' j' = Some m" for h j h' j' m
    using that fresh(1) own_inv_unique[OF own] unfolding slot_set_slot[of hs p dh k, OF hs] owned_def
    by (auto split: if_splits)
  ultimately show ?thesis unfolding own_inv_def by blast
qed


lemma home_inv_new:
  assumes home: "home_inv m hs G" and hs: "hs p = Some dh" "k < length (guarded_signos (dh_guarded dh))"
    and m: "signo_lookup m (guarded_signos (dh_guarded dh) ! k) = Some a"
      "\<And>j. signo_lookup m j = Some a \<Longrightarrow> j = guarded_signos (dh_guarded dh) ! k"
    and n: "\<not> owned hs n" "\<not> listed G n" and xs: "set xs \<subseteq> insert n (set (G a))"
  shows "home_inv m (set_slot hs p k (Some n)) (G(a := xs))"
proof -
  have len: "k < length (dh_slots dh)" using home hs by (auto simp: home_inv_def)
  note sl = slot_set_slot[of hs p dh k, OF hs(1) len]
  have no: "slot hs h i \<noteq> Some n" for h i using n(1) by (auto simp: owned_def)
  have out: "b = a" if "n \<in> set ((G(a := xs)) b)" for b
    using that n(2) by (auto simp: listed_def split: if_splits)
  have old: "x \<in> set (G b)" if "x \<in> set ((G(a := xs)) b)" "x \<noteq> n" for x b
    using that xs by (auto split: if_splits)
  show ?thesis
    unfolding home_inv_def
  proof (intro allI impI)
    fix h dh' assume h: "set_slot hs p k (Some n) h = Some dh'"
    then obtain dh0 where d0: "hs h = Some dh0" "dh_guarded dh' = dh_guarded dh0"
      "length (dh_slots dh') = length (dh_slots dh0)" "h = p \<longrightarrow> dh0 = dh"
      using hs(1) by (auto simp: set_slot_def split: if_splits)
    have "x < length (guarded_signos (dh_guarded dh0))
        \<and> (\<forall>b j. y \<in> set ((G(a := xs)) b) \<longrightarrow> signo_lookup m j = Some b \<longrightarrow> j = guarded_signos (dh_guarded dh0) ! x)"
      if "slot (set_slot hs p k (Some n)) h x = Some y" for x y
    proof (cases "h = p \<and> x = k")
      case True
      with that d0 sl have "y = n" "dh0 = dh" by auto
      with True hs(2) m(2) out show ?thesis by blast
    next
      case False
      with that sl no have y: "slot hs h x = Some y" "y \<noteq> n" by auto
      with home d0(1) have "x < length (guarded_signos (dh_guarded dh0))"
        "\<And>b j. y \<in> set (G b) \<Longrightarrow> signo_lookup m j = Some b \<Longrightarrow> j = guarded_signos (dh_guarded dh0) ! x"
        unfolding home_inv_def by blast+
      with old[OF _ y(2)] show ?thesis by blast
    qed
    moreover have "length (dh_slots dh0) = Suc (length (guarded_signos (dh_guarded dh0)))"
      using home d0(1) unfolding home_inv_def by blast
    ultimately show "length (dh_slots dh') = Suc (length (guarded_signos (dh_guarded dh')))
      \<and> (\<forall>k' n'. slot (set_slot hs p k (Some n)) h k' = Some n' \<longrightarrow> k' < length (guarded_signos (dh_guarded dh'))
        \<and> (\<forall>b j. n' \<in> set ((G(a := xs)) b) \<longrightarrow> signo_lookup m j = Some b \<longrightarrow> j = guarded_signos (dh_guarded dh') ! k'))"
      unfolding d0(2,3) by blast
  qed
qed

definition add_to_chain :: "bool \<Rightarrow> 'x \<Rightarrow> 'x list \<Rightarrow> 'x list" where
  "add_to_chain callfirst x xs = (if callfirst then x # xs else xs @ [x])"

lemma set_add_to_chain [simp]: "set (add_to_chain c x xs) = insert x (set xs)"
  by (auto simp: add_to_chain_def)

lemma map_add_to_chain [simp]: "map f (add_to_chain c x xs) = add_to_chain c (f x) (map f xs)"
  by (simp add: add_to_chain_def)

lemma gh_insert_ok:
  assumes "infos w a = Some ci" "dll (nodes w) (global_handler ci) xs" "detached (nodes w) n" "n \<notin> set xs"
  shows "\<exists>l h. (if callfirst then gh_insert_front (Some a) (Some n) w else gh_insert_back (Some a) (Some n) w)
      = Some (w\<lparr>nodes := h, infos := (infos w)(a \<mapsto> ci\<lparr>global_handler := l\<rparr>)\<rparr>)
    \<and> dll h l (add_to_chain callfirst n xs) \<and> payload h = payload (nodes w)
    \<and> (\<forall>m. m \<notin> insert n (set xs) \<longrightarrow> h m = nodes w m)"
  using LIST_INSERT_FRONT_dll[OF assms(2-4)] LIST_INSERT_BACK_dll[OF assms(2-4)] assms(1)
  by (cases callfirst) (auto simp: gh_insert_front_def gh_insert_back_def add_to_chain_def; blast)+

fun add_decider :: "bool \<Rightarrow> addr \<times> fnptr \<times> siginfo_value \<Rightarrow> signal_state \<Rightarrow> signal_state" where
  "add_decider callfirst x (None, sa) = (None, sa)"
| "add_decider callfirst x (Some h, sa) = (Some (h\<lparr>ah_chain := add_to_chain callfirst x (ah_chain h)\<rparr>), sa)"

lemma reg_inv_fresh_all: "reg_inv w G D P N \<Longrightarrow> next_addr w \<le> x \<Longrightarrow> infos w x = None \<and> nodes w x = None
    \<and> decider_handles w x = None \<and> install_handles w x = None"
  by (simp add: reg_inv_def fresh_inv_def)

lemma node_view_payload: "payload ns' n = payload ns n \<Longrightarrow> node_view ns' n = node_view ns n"
  using handler_view_payload[of "[n]" ns' ns] by (simp add: handler_view_def)

lemma reg_inv_new_decider:
  assumes inv: "reg_inv w G D P N" and j: "signo_lookup (signo_to_sighandler_map w) j = Some a"
    and a: "infos w a = Some ci" and n: "nodes w n = None" "n < next_addr w"
    and hs: "decider_handles w p = Some dh" "k < length (guarded_signos (dh_guarded dh))"
      "guarded_signos (dh_guarded dh) ! k = j" "slot (decider_handles w) p k = None"
    and d: "d = \<lparr>n_prev = None, n_next = None, refcount = 1, decider = f, dvalue = v\<rparr>"
  shows "\<exists>w1 w2. (if callfirst then gh_insert_front (Some a) (Some n) (w\<lparr>nodes := (nodes w)(n \<mapsto> d)\<rparr>)
        else gh_insert_back (Some a) (Some n) (w\<lparr>nodes := (nodes w)(n \<mapsto> d)\<rparr>)) = Some w1
    \<and> slot_write p k (Some n) w1 = Some w2
    \<and> w2 = w\<lparr>nodes := nodes w2, infos := infos w2, decider_handles := set_slot (decider_handles w) p k (Some n)\<rparr>
    \<and> reg_inv w2 (G(a := add_to_chain callfirst n (G a))) D P N
    \<and> reg_state w2 (G(a := add_to_chain callfirst n (G a)))
      = at_signals (\<lambda>i. i = j) (add_decider callfirst (n, f, v)) (reg_state w G)"
proof -
  note li = reg_inv_lists[OF inv]
  let ?ns = "(nodes w)(n \<mapsto> d)"
  have unl: "n \<notin> set (G b)" "n \<notin> set (D b)" for b using lists_inv_live(1)[OF li, of n b] n(1) by auto
  have li1: "lists_inv (infos w) ?ns G D" using lists_inv_cong[OF li, of ?ns] unl by fastforce
  obtain l h where ins: "(if callfirst then gh_insert_front (Some a) (Some n) (w\<lparr>nodes := ?ns\<rparr>)
        else gh_insert_back (Some a) (Some n) (w\<lparr>nodes := ?ns\<rparr>))
      = Some (w\<lparr>nodes := h, infos := (infos w)(a \<mapsto> ci\<lparr>global_handler := l\<rparr>)\<rparr>)"
    and h: "dll h l (add_to_chain callfirst n (G a))" "payload h = payload ?ns"
      "\<And>m. m \<notin> insert n (set (G a)) \<Longrightarrow> h m = ?ns m"
    using gh_insert_ok[of "w\<lparr>nodes := ?ns\<rparr>" a ci "G a" n callfirst] a lists_invD(1)[OF li1 a] unl d
    by (auto simp: detached_def)
  define w2 where "w2 = w\<lparr>nodes := h, infos := (infos w)(a \<mapsto> ci\<lparr>global_handler := l\<rparr>),
    decider_handles := set_slot (decider_handles w) p k (Some n)\<rparr>"
  have len: "k < length (dh_slots dh)" using inv hs(1,2) by (auto simp: reg_inv_def home_inv_def)
  have pl: "payload h n = payload ?ns n" "\<And>m. m \<noteq> n \<Longrightarrow> payload h m = payload (nodes w) m"
    using h(2) by (auto simp: payload_def)
  obtain d' where d': "h n = Some d'" "refcount d' = 1" "decider d' = f" "dvalue d' = v"
    using payload_refcount[of ?ns n h d] pl(1) d by (auto simp: payload_def)
  have "lists_inv ((infos w)(a \<mapsto> ci\<lparr>global_handler := l\<rparr>)) h (G(a := add_to_chain callfirst n (G a))) D"
    by (rule lists_inv_set_G[OF li1 a h(1) h(3)]) (use unl in auto)
  moreover have "own_inv h (set_slot (decider_handles w) p k (Some n)) D N"
    using inv by (intro own_inv_new[of "nodes w" _ _ _ _ dh, OF _ hs(1) len n(1) _ hs(4) d'(1,2) pl(2)])
      (auto simp: reg_inv_def listed_def unl)
  moreover have "home_inv (signo_to_sighandler_map w) (set_slot (decider_handles w) p k (Some n))
      (G(a := add_to_chain callfirst n (G a)))"
    using inv j n(1) unl hs
    by (intro home_inv_new[of _ _ _ _ dh]) (auto simp: reg_inv_def map_inv_def own_inv_def listed_def)
  moreover have "h x = None" if "next_addr w \<le> x" for x
    using pl(2)[of x] reg_inv_fresh_all[OF inv that] that n(2) by (metis leD payload_eq_None)
  ultimately have inv2: "reg_inv w2 (G(a := add_to_chain callfirst n (G a))) D P N"
    using inv a n(2) reg_inv_installed[OF inv a] hs(1)
    by (auto simp: w2_def reg_inv_def kernel_inv_def fresh_inv_def set_slot_def
        intro!: map_inv_info_upd life_inv_info_keep count_inv_info_upd)
  have view: "map (node_view h) (G b) = map (node_view (nodes w)) (G b)" for b
    using pl(2) unl(1)[of b] by (intro map_cong refl node_view_payload) metis
  have nv: "node_view h n = (n, f, v)" using d' by (simp add: node_view_def)
  have other: "signo_lookup (signo_to_sighandler_map w) i \<noteq> Some a" if "i \<noteq> j" for i
    using that j inv by (auto simp: reg_inv_def map_inv_def)
  have "reg_state w2 (G(a := add_to_chain callfirst n (G a))) i
      = at_signals (\<lambda>i. i = j) (add_decider callfirst (n, f, v)) (reg_state w G) i" for i
    using j a other[of i]
    by (cases "signo_lookup (signo_to_sighandler_map w) i"; cases "i = j")
      (auto simp: w2_def reg_state_def reg_abs_def registry_view_def at_signals_def handler_view_def view nv)
  then have "reg_state w2 (G(a := add_to_chain callfirst n (G a)))
      = at_signals (\<lambda>i. i = j) (add_decider callfirst (n, f, v)) (reg_state w G)" ..
  moreover have "slot_write p k (Some n) (w\<lparr>nodes := h, infos := (infos w)(a \<mapsto> ci\<lparr>global_handler := l\<rparr>)\<rparr>) = Some w2"
    using slot_write_set[of "w\<lparr>nodes := h, infos := (infos w)(a \<mapsto> ci\<lparr>global_handler := l\<rparr>)\<rparr>" p dh k "Some n"] hs(1) len
    by (simp add: w2_def)
  ultimately show ?thesis using ins inv2 by (auto simp: w2_def)
qed

text \<open>A handle gives up a node.\<close>

lemma home_inv_shrink:
  assumes home: "home_inv m hs G" and hs: "hs p = Some dh" "k < length (dh_slots dh)"
    and G: "\<And>b. set (G' b) \<subseteq> set (G b)"
  shows "home_inv m (set_slot hs p k None) G'"
proof -
  note sl = slot_set_slot[of hs p dh k, OF hs]
  have 1: "\<exists>dh0. hs h = Some dh0 \<and> dh_guarded dh' = dh_guarded dh0 \<and> length (dh_slots dh') = length (dh_slots dh0)"
    if "set_slot hs p k None h = Some dh'" for h dh'
    using that hs(1) by (auto simp: set_slot_def split: if_splits)
  have 2: "slot hs h i = Some n" if "slot (set_slot hs p k None) h i = Some n" for h i n
    using that by (auto simp: sl split: if_splits)
  show ?thesis
    unfolding home_inv_def
  proof (intro allI impI)
    fix h dh' assume h: "set_slot hs p k None h = Some dh'"
    obtain dh0 where d0: "hs h = Some dh0" "dh_guarded dh' = dh_guarded dh0" "length (dh_slots dh') = length (dh_slots dh0)"
      using 1[OF h] by blast
    show "length (dh_slots dh') = Suc (length (guarded_signos (dh_guarded dh')))
      \<and> (\<forall>k' n. slot (set_slot hs p k None) h k' = Some n \<longrightarrow> k' < length (guarded_signos (dh_guarded dh'))
        \<and> (\<forall>a j. n \<in> set (G' a) \<longrightarrow> signo_lookup m j = Some a \<longrightarrow> j = guarded_signos (dh_guarded dh') ! k'))"
      using home d0(1) G 2 unfolding home_inv_def d0(2,3) by blast
  qed
qed

lemma own_inv_disown:
  assumes own: "own_inv ns hs D N" and hs: "hs p = Some dh" "k < length (dh_slots dh)"
    and s: "slot hs p k = Some n"
    and ns': "\<And>m. m \<noteq> n \<Longrightarrow> payload ns' m = payload ns m"
      "N n = 0 \<Longrightarrow> ns' n = None" "0 < N n \<Longrightarrow> \<exists>d'. ns' n = Some d' \<and> refcount d' = int (N n)"
  shows "own_inv ns' (set_slot hs p k None) D N"
proof -
  note ow = owned_set_slot[of ns hs D N p dh k None, OF own hs]
  have on: "owned hs n" using s by (auto simp: owned_def)
  obtain d where d: "ns n = Some d" using own on by (cases "ns n") (auto simp: own_inv_def)
  have nl: "\<not> listed D n" using own on d by (auto simp: own_inv_def)
  have "refcount d' = of_bool (owned (set_slot hs p k None) m) + int (N m)
      \<and> (listed D m \<longleftrightarrow> \<not> owned (set_slot hs p k None) m \<and> N m = 0)" if m: "ns' m = Some d'" for m d'
  proof (cases "m = n")
    case True
    then have "0 < N n" using m ns'(2) by (cases "N n = 0") auto
    then show ?thesis using m True ns'(3) nl ow[of n] s by auto
  next
    case False
    then obtain d0 where d0: "ns m = Some d0" "refcount d0 = refcount d'"
      using payload_refcount[OF ns'(1)[OF False] m] by blast
    then show ?thesis using own False s ow[of m] by (auto simp: own_inv_def)
  qed
  moreover have "\<not> owned (set_slot hs p k None) m \<and> N m = 0" if m: "ns' m = None" for m
  proof (cases "m = n")
    case True
    then show ?thesis using m ns'(3) ow[of n] s by (cases "N n") auto
  next
    case False
    then have "ns m = None" using ns'(1)[of m] m by (metis payload_eq_None)
    then show ?thesis using own ow[of m] by (auto simp: own_inv_def)
  qed
  moreover have "h' = h \<and> j' = j" if "slot (set_slot hs p k None) h j = Some m"
    "slot (set_slot hs p k None) h' j' = Some m" for h j h' j' m
    using that own_inv_unique[OF own] unfolding slot_set_slot[of hs p dh k, OF hs]
    by (auto split: if_splits)
  ultimately show ?thesis unfolding own_inv_def by blast
qed

lemma reg_inv_slot:
  assumes inv: "reg_inv w G D P N" and s: "slot (decider_handles w) p k = Some n"
  obtains dh d where "decider_handles w p = Some dh" "k < length (dh_slots dh)" "nodes w n = Some d"
    "refcount d = 1 + int (N n)" "\<And>b. n \<notin> set (D b)" "n < next_addr w"
    "k < length (guarded_signos (dh_guarded dh))"
proof -
  obtain dh where dh: "decider_handles w p = Some dh" "k < length (dh_slots dh)"
    using s by (auto simp: slot_def split: option.splits if_splits)
  have ow: "owned (decider_handles w) n" using s by (auto simp: owned_def)
  have own: "own_inv (nodes w) (decider_handles w) D N" using inv by (simp add: reg_inv_def)
  obtain d where d: "nodes w n = Some d" using own ow by (cases "nodes w n") (auto simp: own_inv_def)
  have "n \<notin> set (D b)" for b using reg_inv_dead[OF inv, of n b] ow by blast
  moreover have "refcount d = 1 + int (N n)" using own d ow by (simp add: own_inv_def)
  moreover have "n < next_addr w" using reg_inv_fresh_all[OF inv, of n] d by (cases "n < next_addr w") auto
  moreover have "k < length (guarded_signos (dh_guarded dh))"
    using inv dh(1) s unfolding reg_inv_def home_inv_def by blast
  ultimately show ?thesis using that dh d by blast
qed

lemma reg_inv_disown_pinned:
  assumes inv: "reg_inv w G D P N" and s: "slot (decider_handles w) p k = Some n"
    and d: "nodes w n = Some d" and N: "0 < N n"
  shows "reg_inv (w\<lparr>nodes := (nodes w)(n \<mapsto> d\<lparr>refcount := refcount d - 1\<rparr>),
    decider_handles := set_slot (decider_handles w) p k None\<rparr>) G D P N"
proof -
  obtain dh where dh: "decider_handles w p = Some dh" "k < length (dh_slots dh)"
    "refcount d = 1 + int (N n)" "n < next_addr w"
    using reg_inv_slot[OF inv s] d by auto
  have "own_inv ((nodes w)(n \<mapsto> d\<lparr>refcount := refcount d - 1\<rparr>)) (set_slot (decider_handles w) p k None) D N"
    by (rule own_inv_disown[of "nodes w" "decider_handles w" D N p dh k n])
      (use inv dh s N in \<open>auto simp: reg_inv_def payload_def\<close>)
  moreover have "home_inv (signo_to_sighandler_map w) (set_slot (decider_handles w) p k None) G"
    by (rule home_inv_shrink[of _ "decider_handles w" G p dh]) (use inv dh in \<open>auto simp: reg_inv_def\<close>)
  moreover have "lists_inv (infos w) ((nodes w)(n \<mapsto> d\<lparr>refcount := refcount d - 1\<rparr>)) G D"
    by (rule lists_inv_node_upd[OF reg_inv_lists[OF inv] d]) simp_all
  ultimately show ?thesis
    using inv dh by (auto simp: reg_inv_def kernel_inv_def fresh_inv_def set_slot_def)
qed

lemma reg_inv_disown_free:
  assumes inv: "reg_inv w G D P N" and s: "slot (decider_handles w) p k = Some n" and N: "N n = 0"
    and G: "\<And>b. n \<notin> set (G b)"
  shows "reg_inv (w\<lparr>nodes := (nodes w)(n := None),
    decider_handles := set_slot (decider_handles w) p k None\<rparr>) G D P N"
proof -
  obtain dh d where dh: "decider_handles w p = Some dh" "k < length (dh_slots dh)" "\<And>b. n \<notin> set (D b)"
    using reg_inv_slot[OF inv s] by metis
  have "own_inv ((nodes w)(n := None)) (set_slot (decider_handles w) p k None) D N"
    by (rule own_inv_disown[of "nodes w" "decider_handles w" D N p dh k n])
      (use inv dh s N in \<open>auto simp: reg_inv_def payload_def\<close>)
  moreover have "home_inv (signo_to_sighandler_map w) (set_slot (decider_handles w) p k None) G"
    by (rule home_inv_shrink[of _ "decider_handles w" G p dh]) (use inv dh in \<open>auto simp: reg_inv_def\<close>)
  moreover have "lists_inv (infos w) ((nodes w)(n := None)) G D"
    using G dh(3) by (intro lists_inv_cong[OF reg_inv_lists[OF inv]]) auto
  ultimately show ?thesis
    using inv dh by (auto simp: reg_inv_def kernel_inv_def fresh_inv_def set_slot_def)
qed

lemma gh_remove_ok:
  assumes "infos w a = Some ci" "dll (nodes w) (global_handler ci) xs" "n \<in> set xs"
  shows "\<exists>l h. gh_remove (Some a) (Some n) w = Some (w\<lparr>nodes := h, infos := (infos w)(a \<mapsto> ci\<lparr>global_handler := l\<rparr>)\<rparr>)
    \<and> dll h l (remove1 n xs) \<and> detached h n \<and> payload h = payload (nodes w)
    \<and> (\<forall>m. m \<notin> set xs \<longrightarrow> h m = nodes w m)"
proof -
  obtain us vs where xs: "xs = us @ n # vs" using split_list[OF assms(3)] by blast
  have "remove1 n xs = us @ vs"
    using dll_distinct[OF assms(2)] unfolding xs by (rule distinct_split_unique)
  then show ?thesis
    using LIST_REMOVE_dll[of "nodes w" "global_handler ci" us n vs] assms(1,2) xs
    by (auto simp: gh_remove_def; blast)
qed

lemma reg_inv_disown_linked:
  assumes inv: "reg_inv w G D P N" and s: "slot (decider_handles w) p k = Some n" and N: "N n = 0"
    and n: "n \<in> set (G a)" and a: "infos w a = Some ci" and d: "nodes w n = Some d"
  shows "\<exists>w1. gh_remove (Some a) (Some n) (w\<lparr>nodes := (nodes w)(n \<mapsto> d\<lparr>refcount := r\<rparr>)\<rparr>) = Some w1
    \<and> (\<exists>d. nodes w1 n = Some d) \<and> w1 = w\<lparr>nodes := nodes w1, infos := infos w1\<rparr>
    \<and> (\<forall>m. m \<noteq> n \<longrightarrow> payload (nodes w1) m = payload (nodes w) m)
    \<and> (\<exists>l. infos w1 = (infos w)(a \<mapsto> ci\<lparr>global_handler := l\<rparr>))
    \<and> reg_inv (w1\<lparr>nodes := (nodes w1)(n := None),
        decider_handles := set_slot (decider_handles w) p k None\<rparr>) (G(a := remove1 n (G a))) D P N"
proof -
  note li = reg_inv_lists[OF inv]
  let ?ns = "(nodes w)(n \<mapsto> d\<lparr>refcount := r\<rparr>)"
  have li2: "lists_inv (infos w) ?ns G D" by (rule lists_inv_node_upd[OF li d]) simp_all
  obtain l h where r: "gh_remove (Some a) (Some n) (w\<lparr>nodes := ?ns\<rparr>) = Some (w\<lparr>nodes := h, infos := (infos w)(a \<mapsto> ci\<lparr>global_handler := l\<rparr>)\<rparr>)"
    "dll h l (remove1 n (G a))" "detached h n" "payload h = payload ?ns" "\<And>m. m \<notin> set (G a) \<Longrightarrow> h m = ?ns m"
    using gh_remove_ok[of "w\<lparr>nodes := ?ns\<rparr>" a ci "G a" n] a lists_invD(1)[OF li2 a] n by auto
  have pl: "payload h m = payload (nodes w) m" if "m \<noteq> n" for m
    using fun_cong[OF r(4), of m] that by (simp add: payload_def)
  obtain dh d where dh: "decider_handles w p = Some dh" "k < length (dh_slots dh)"
    using reg_inv_slot[OF inv s] by metis
  have dist: "distinct (G a)" using dll_distinct[OF lists_invD(1)[OF li a]] .
  then have nr: "n \<notin> set (remove1 n (G a))" by simp
  note dj = disjoint_listsD[OF lists_inv_disjoint[OF li]]
  have "lists_inv ((infos w)(a \<mapsto> ci\<lparr>global_handler := l\<rparr>)) (h(n := None)) (G(a := remove1 n (G a))) D"
  proof (rule lists_inv_set_G[OF li a])
    show "dll (h(n := None)) l (remove1 n (G a))" using r(2) dll_frame[OF nr, of h None l] by (simp only:)
    show "(h(n := None)) m = nodes w m" if "m \<notin> insert n (set (G a))" for m using that r(5) by simp
    show "n \<notin> set (D b)" for b using dj(1)[OF n] .
    show "n \<notin> set (G b)" if "b \<noteq> a" for b using dj(2)[OF n] that by blast
    show "set (remove1 n (G a)) \<subseteq> insert n (set (G a))" using set_remove1_subset by fastforce
  qed
  moreover have "own_inv (h(n := None)) (set_slot (decider_handles w) p k None) D N"
    by (rule own_inv_disown[of "nodes w" "decider_handles w" D N p dh k n])
      (use inv dh s N pl in \<open>auto simp: reg_inv_def payload_def\<close>)
  moreover have "home_inv (signo_to_sighandler_map w) (set_slot (decider_handles w) p k None) (G(a := remove1 n (G a)))"
    by (rule home_inv_shrink[of _ "decider_handles w" G p dh])
      (use inv dh set_remove1_subset[of n "G a"] in \<open>auto simp: reg_inv_def\<close>)
  moreover have "h x = None" if "next_addr w \<le> x" for x
    using reg_inv_fresh_all[OF inv that] pl[of x] d by (metis option.distinct(1) payload_eq_None)
  ultimately have "reg_inv (w\<lparr>infos := (infos w)(a \<mapsto> ci\<lparr>global_handler := l\<rparr>), nodes := h(n := None),
        decider_handles := set_slot (decider_handles w) p k None\<rparr>) (G(a := remove1 n (G a))) D P N"
    using inv a reg_inv_installed[OF inv a] dh reg_inv_fresh_all[OF inv]
    by (auto simp: reg_inv_def kernel_inv_def fresh_inv_def set_slot_def
        intro!: map_inv_info_upd life_inv_info_keep count_inv_info_upd)
  then show ?thesis
    using r(1,3) pl by (auto simp: detached_def split: option.splits)
qed

fun drop_nodes :: "(addr \<Rightarrow> bool) \<Rightarrow> signal_state \<Rightarrow> signal_state" where
  "drop_nodes Q (None, sa) = (None, sa)"
| "drop_nodes Q (Some h, sa) = (Some (h\<lparr>ah_chain := filter (\<lambda>x. \<not> Q (fst x)) (ah_chain h)\<rparr>), sa)"

definition without :: "(addr \<Rightarrow> bool) \<Rightarrow> (addr \<Rightarrow> addr list) \<Rightarrow> addr \<Rightarrow> addr list" where
  "without Q G b = filter (\<lambda>m. \<not> Q m) (G b)"

lemma without_none: "(\<And>b m. m \<in> set (G b) \<Longrightarrow> \<not> Q m) \<Longrightarrow> without Q G = G"
  by (auto simp: without_def fun_eq_iff filter_id_conv)

lemma without_one:
  assumes "distinct (G a)" "\<And>b. b \<noteq> a \<Longrightarrow> n \<notin> set (G b)"
  shows "without (\<lambda>m. m = n) G = G(a := remove1 n (G a))"
proof
  fix b
  show "without (\<lambda>m. m = n) G b = (G(a := remove1 n (G a))) b"
    using assms(1) assms(2)[of b]
    by (cases "b = a")
      (auto simp: without_def distinct_remove1_removeAll removeAll_filter_not_eq filter_id_conv intro!: filter_cong)
qed

lemma without_without: "without Q (without R G) = without (\<lambda>m. R m \<or> Q m) G"
  by (auto simp: without_def fun_eq_iff intro!: filter_cong)

lemma drop_nodes_drop: "drop_nodes Q (drop_nodes R s) = drop_nodes (\<lambda>m. R m \<or> Q m) s"
  by (cases s rule: inst.cases) (auto intro!: filter_cong)

lemma filter_node_view: "filter (\<lambda>x. \<not> Q (fst x)) (map (node_view ns) xs) = map (node_view ns) (filter (\<lambda>m. \<not> Q m) xs)"
  by (simp add: filter_map o_def node_view_def)

text \<open>A step that only takes nodes off the chains, as the abstract registry sees it.\<close>

lemma reg_state_without:
  assumes "signo_to_sighandler_map w' = signo_to_sighandler_map w" "kernel w' = kernel w"
    and I: "\<And>b. map_option (\<lambda>ci. (install_count ci, old_handler ci)) (infos w' b)
      = map_option (\<lambda>ci. (install_count ci, old_handler ci)) (infos w b)"
    and ns: "\<And>b m. m \<in> set (G b) \<Longrightarrow> \<not> Q m \<Longrightarrow> node_view (nodes w') m = node_view (nodes w) m"
  shows "reg_state w' (without Q G) = drop_nodes Q \<circ> reg_state w G"
proof
  fix j
  have v: "map (node_view (nodes w')) (filter (\<lambda>m. \<not> Q m) (G b)) = map (node_view (nodes w)) (filter (\<lambda>m. \<not> Q m) (G b))" for b
    using ns[of _ b] by (intro map_cong refl) auto
  show "reg_state w' (without Q G) j = (drop_nodes Q \<circ> reg_state w G) j"
  proof (cases "signo_lookup (signo_to_sighandler_map w) j")
    case None
    then show ?thesis using assms(1,2) by (simp add: reg_state_def reg_abs_def registry_view_def)
  next
    case (Some b)
    then show ?thesis
      using assms(1,2) I[of b]
      by (cases "infos w b"; cases "infos w' b")
        (auto simp: reg_state_def reg_abs_def registry_view_def handler_view_def filter_node_view without_def v simp del: map_eq_conv)
  qed
qed

text \<open>What destroying a handle leaves alone, and what it does to one slot.\<close>

definition outer_same :: "sig_world \<Rightarrow> sig_world \<Rightarrow> bool" where
  "outer_same w w' \<longleftrightarrow> lock w' = lock w \<and> refused w' = refused w \<and> install_handles w' = install_handles w
     \<and> next_addr w' = next_addr w \<and> signo_to_sighandler_map w' = signo_to_sighandler_map w
     \<and> kernel w' = kernel w \<and> alloc_plan w' = alloc_plan w \<and> errno w' = errno w \<and> tss w' = tss w"

lemma outer_same_refl [simp]: "outer_same w w"
  by (simp add: outer_same_def)

lemma outer_same_trans: "outer_same w w' \<Longrightarrow> outer_same w' w'' \<Longrightarrow> outer_same w w''"
  by (simp add: outer_same_def)

definition slot_dead :: "decider_handle heap \<Rightarrow> addr \<Rightarrow> nat \<Rightarrow> (addr \<Rightarrow> nat) \<Rightarrow> addr \<Rightarrow> bool" where
  "slot_dead H p k N m \<longleftrightarrow> slot H p k = Some m \<and> N m = 0"

lemma set_slot_None_idem: "H p = Some dh \<Longrightarrow> slot H p k = None \<Longrightarrow> set_slot H p k None = H"
  by (cases "k < length (dh_slots dh)")
    (auto simp: set_slot_def slot_def fun_eq_iff list_update_same_conv list_update_beyond)

lemma gh_remove_handles:
  "gh_remove i n (w\<lparr>decider_handles := H\<rparr>) = map_option (\<lambda>w. w\<lparr>decider_handles := H\<rparr>) (gh_remove i n w)"
  by (auto simp: gh_remove_def info_upd_def store_def deref_def split: option.splits Option.bind_splits prod.splits)

lemma destroy_unlocked_ok:
  assumes inv: "reg_inv (w\<lparr>decider_handles := H\<rparr>) G D P N" and un: "signo_lookup (signo_to_sighandler_map w) j = None"
    and dh: "decider_handles w p = Some dh" "k < length (dh_slots dh)" and H: "slot H p k = slot (decider_handles w) p k"
      "H p = Some dhH"
    and vis: "sigismember g j"
    and safe: "\<And>n b. slot H p k = Some n \<Longrightarrow> n \<in> set (G b) \<Longrightarrow> N n > 0"
  shows "\<exists>w'. destroy_unlocked p g j k w = Some (Suc k, w') \<and> outer_same w w' \<and> decider_handles w' = decider_handles w
    \<and> reg_inv (w'\<lparr>decider_handles := set_slot H p k None\<rparr>) (without (slot_dead H p k N) G) D P N
    \<and> reg_state w' (without (slot_dead H p k N) G) = drop_nodes (slot_dead H p k N) \<circ> reg_state w G"
proof -
  have wo: "without (slot_dead H p k N) G = G" using safe by (intro without_none) (auto simp: slot_dead_def)
  show ?thesis
  proof (cases "slot H p k")
    case None
    then have "destroy_unlocked p g j k w = Some (Suc k, w)"
      using vis dh H by (simp add: destroy_unlocked_def slot_read_ok)
    moreover have "reg_state w G = drop_nodes (slot_dead H p k N) \<circ> reg_state w G"
      using reg_state_without[of w w G "slot_dead H p k N"] wo by simp
    ultimately show ?thesis using inv None set_slot_None_idem[OF H(2) None] wo by auto
  next
    case (Some n)
    obtain d where d: "nodes w n = Some d" "refcount d = 1 + int (N n)"
      using reg_inv_slot[OF inv, of p k n] Some by auto
    define w' where "w' = w\<lparr>nodes := (if N n = 0 then (nodes w)(n := None) else (nodes w)(n \<mapsto> d\<lparr>refcount := refcount d - 1\<rparr>))\<rparr>"
    have "destroy_unlocked p g j k w = Some (Suc k, w')"
      using vis dh H Some d by (auto simp: destroy_unlocked_def slot_read_ok w'_def)
    moreover have "reg_inv (w'\<lparr>decider_handles := set_slot H p k None\<rparr>) G D P N"
    proof (cases "N n = 0")
      case True
      then show ?thesis
        using reg_inv_disown_free[OF inv, of p k n] Some safe[of n] by (fastforce simp: w'_def)
    next
      case False
      then show ?thesis
        using reg_inv_disown_pinned[OF inv, of p k n d] Some d by (simp add: w'_def)
    qed
    moreover have "reg_state w' (without (slot_dead H p k N) G) = drop_nodes (slot_dead H p k N) \<circ> reg_state w G"
      using safe[OF Some] Some d by (intro reg_state_without) (auto simp: w'_def slot_dead_def node_view_def)
    ultimately show ?thesis by (auto simp: wo outer_same_def w'_def)
  qed
qed

text \<open>What \<^verbatim>\<open>signal_decider_destroy\<close> does with one slot of the handle, after the deferred frees.\<close>

definition release_slot :: "addr \<Rightarrow> nat \<Rightarrow> ptr \<Rightarrow> sig_world \<Rightarrow> sig_world option" where
  "release_slot p k item w = do {
     n \<leftarrow> slot_read p k w;
     (if n \<noteq> None
      then do {
        w \<leftarrow> node_upd n (\<lambda>d. d\<lparr>refcount := refcount d - 1\<rparr>) w;
        d \<leftarrow> deref (nodes w) n;
        (if refcount d = 0
         then do {
           linked \<leftarrow> sighandler_info_has_decider item n w;
           w \<leftarrow> (if linked then gh_remove item n w else node_upd n (\<lambda>d. d\<lparr>n_prev := None, n_next := None\<rparr>) w);
           w \<leftarrow> free_node n w;
           slot_write p k None w
         }
         else slot_write p k None w)
      }
      else Some w)
   }"

definition slot_released ::
  "decider_handle heap \<Rightarrow> addr \<Rightarrow> nat \<Rightarrow> (addr \<Rightarrow> addr list) \<Rightarrow> (addr \<Rightarrow> addr list) \<Rightarrow> (addr \<Rightarrow> nat) \<Rightarrow> (addr \<Rightarrow> nat) \<Rightarrow> sig_world \<Rightarrow> sig_world \<Rightarrow> bool" where
  "slot_released H p k G D P N w w' \<longleftrightarrow> outer_same w w' \<and> decider_handles w' = set_slot (decider_handles w) p k None
    \<and> reg_inv (w'\<lparr>decider_handles := set_slot H p k None\<rparr>) (without (slot_dead H p k N) G) D P N
    \<and> (\<forall>b. map_option (\<lambda>ci. (install_count ci, old_handler ci)) (infos w' b) = map_option (\<lambda>ci. (install_count ci, old_handler ci)) (infos w b))
    \<and> (\<forall>b m. m \<in> set (G b) \<longrightarrow> \<not> slot_dead H p k N m \<longrightarrow> node_view (nodes w') m = node_view (nodes w) m)"

lemma release_empty:
  assumes inv: "reg_inv (w\<lparr>decider_handles := H\<rparr>) G D P N" and dh: "decider_handles w p = Some dh" "k < length (dh_slots dh)"
    and H: "slot H p k = slot (decider_handles w) p k" "H p = Some dhH" and n: "slot H p k = None"
  shows "release_slot p k item w = Some w \<and> slot_released H p k G D P N w w"
proof -
  have "release_slot p k item w = Some w" using n H dh slot_read_ok[OF dh] by (simp add: release_slot_def)
  moreover have "without (slot_dead H p k N) G = G" using n by (intro without_none) (simp add: slot_dead_def)
  ultimately show ?thesis
    using inv n set_slot_None_idem[of "decider_handles w" p dh k] set_slot_None_idem[OF H(2) n] dh H by (auto simp: slot_released_def outer_same_def)
qed

text \<open>The common start for a slot with a node: its count goes down.\<close>

lemma release_start:
  assumes inv: "reg_inv (w\<lparr>decider_handles := H\<rparr>) G D P N" and dh: "decider_handles w p = Some dh" "k < length (dh_slots dh)"
    and H: "slot H p k = slot (decider_handles w) p k" and n: "slot H p k = Some n"
  obtains d where "nodes w n = Some d" "refcount d = 1 + int (N n)" "slot_read p k w = Some (Some n)"
    "\<forall>w'. decider_handles w' = decider_handles w \<longrightarrow> slot_write p k None w' = Some (w'\<lparr>decider_handles := set_slot (decider_handles w) p k None\<rparr>)"
proof -
  obtain d where d: "nodes w n = Some d" "refcount d = 1 + int (N n)" using reg_inv_slot[OF inv, of p k n] n by auto
  have "slot_read p k w = Some (Some n)" using n H slot_read_ok[OF dh] by simp
  moreover have "slot_write p k None w' = Some (w'\<lparr>decider_handles := set_slot (decider_handles w) p k None\<rparr>)"
    if "decider_handles w' = decider_handles w" for w' using slot_write_set[of w' p dh k None] that dh by simp
  ultimately show ?thesis using that[OF d] by blast
qed

lemma release_pinned:
  assumes inv: "reg_inv (w\<lparr>decider_handles := H\<rparr>) G D P N" and dh: "decider_handles w p = Some dh" "k < length (dh_slots dh)"
    and H: "slot H p k = slot (decider_handles w) p k" and n: "slot H p k = Some n" "N n \<noteq> 0"
  shows "\<exists>w'. release_slot p k item w = Some w' \<and> slot_released H p k G D P N w w'"
proof -
  obtain d where d: "nodes w n = Some d" "refcount d = 1 + int (N n)" "slot_read p k w = Some (Some n)"
    "\<forall>w'. decider_handles w' = decider_handles w \<longrightarrow> slot_write p k None w' = Some (w'\<lparr>decider_handles := set_slot (decider_handles w) p k None\<rparr>)"
    by (rule release_start[OF inv dh H n(1)]) (rule that)
  define w2 where "w2 = w\<lparr>nodes := (nodes w)(n \<mapsto> d\<lparr>refcount := refcount d - 1\<rparr>)\<rparr>"
  have "release_slot p k item w = Some (w2\<lparr>decider_handles := set_slot (decider_handles w) p k None\<rparr>)"
    using n(2) d(1-3) d(4)[rule_format, of w2] by (simp add: release_slot_def w2_def)
  moreover have "without (slot_dead H p k N) G = G" using n by (intro without_none) (auto simp: slot_dead_def)
  ultimately show ?thesis using reg_inv_disown_pinned[OF inv, of p k n d] n d(1)
    by (auto simp: slot_released_def w2_def outer_same_def node_view_def)
qed

lemma release_orphan:
  assumes inv: "reg_inv (w\<lparr>decider_handles := H\<rparr>) G D P N" and dh: "decider_handles w p = Some dh" "k < length (dh_slots dh)"
    and H: "slot H p k = slot (decider_handles w) p k" and n: "slot H p k = Some n" "N n = 0" and a: "infos w a = Some ci" and nG: "\<And>b. n \<notin> set (G b)"
  shows "\<exists>w'. release_slot p k (Some a) w = Some w' \<and> slot_released H p k G D P N w w'"
proof -
  obtain d where d: "nodes w n = Some d" "refcount d = 1 + int (N n)" "slot_read p k w = Some (Some n)"
    "\<forall>w'. decider_handles w' = decider_handles w \<longrightarrow> slot_write p k None w' = Some (w'\<lparr>decider_handles := set_slot (decider_handles w) p k None\<rparr>)"
    by (rule release_start[OF inv dh H n(1)]) (rule that)
  define w2 where "w2 = w\<lparr>nodes := (nodes w)(n \<mapsto> d\<lparr>refcount := refcount d - 1\<rparr>)\<rparr>"
  have "lists_inv (infos w) (nodes w2) G D" using lists_inv_node_upd[of "infos w" "nodes w" G D n d] reg_inv_lists[OF inv] d(1) by (simp add: w2_def)
  from lists_invD(1)[OF this a] have dll2: "dll (nodes w2) (global_handler ci) (G a)" .
  have a2: "infos w2 a = Some ci" using a by (simp add: w2_def)
  have "release_slot p k (Some a) w = Some (w\<lparr>nodes := (nodes w)(n := None), decider_handles := set_slot (decider_handles w) p k None\<rparr>)"
    using nG n(2) d(1-3) has_decider_ok[OF a2 dll2, of n] d(4)[rule_format, of "w\<lparr>nodes := (nodes w)(n := None)\<rparr>"] by (simp add: release_slot_def w2_def)
  moreover have "without (slot_dead H p k N) G = G" using n nG by (intro without_none) (auto simp: slot_dead_def)
  moreover have "node_view ((nodes w)(n := None)) m = node_view (nodes w) m" if "m \<in> set (G b)" for m b using that nG by (auto simp: node_view_def)
  ultimately show ?thesis using reg_inv_disown_free[OF inv, of p k n] n nG by (auto simp: slot_released_def outer_same_def)
qed

lemma release_linked:
  assumes inv: "reg_inv (w\<lparr>decider_handles := H\<rparr>) G D P N" and dh: "decider_handles w p = Some dh" "k < length (dh_slots dh)"
    and H: "slot H p k = slot (decider_handles w) p k" and n: "slot H p k = Some n" "N n = 0" and a: "infos w a = Some ci" and linked: "n \<in> set (G a)"
  shows "\<exists>w'. release_slot p k (Some a) w = Some w' \<and> slot_released H p k G D P N w w'"
proof -
  obtain d where d: "nodes w n = Some d" "refcount d = 1 + int (N n)" "slot_read p k w = Some (Some n)"
    "\<forall>w'. decider_handles w' = decider_handles w \<longrightarrow> slot_write p k None w' = Some (w'\<lparr>decider_handles := set_slot (decider_handles w) p k None\<rparr>)"
    by (rule release_start[OF inv dh H n(1)]) (rule that)
  define w2 where "w2 = w\<lparr>nodes := (nodes w)(n \<mapsto> d\<lparr>refcount := refcount d - 1\<rparr>)\<rparr>"
  have dead: "slot_dead H p k N = (\<lambda>m. m = n)" using n by (auto simp: slot_dead_def)
  have "lists_inv (infos w) (nodes w2) G D" using lists_inv_node_upd[of "infos w" "nodes w" G D n d] reg_inv_lists[OF inv] d(1) by (simp add: w2_def)
  from lists_invD(1)[OF this a] have dll2: "dll (nodes w2) (global_handler ci) (G a)" .
  have a2: "infos w2 a = Some ci" using a by (simp add: w2_def)
  have comm: "w\<lparr>decider_handles := H, nodes := (nodes w)(n \<mapsto> d\<lparr>refcount := refcount d - 1\<rparr>)\<rparr> = w2\<lparr>decider_handles := H\<rparr>"
    by (cases w) (simp add: w2_def)
  obtain w3 where w3: "gh_remove (Some a) (Some n) (w2\<lparr>decider_handles := H\<rparr>) = Some w3"
    "reg_inv (w3\<lparr>nodes := (nodes w3)(n := None), decider_handles := set_slot H p k None\<rparr>) (G(a := remove1 n (G a))) D P N"
    using reg_inv_disown_linked[OF inv, of p k n a ci d "refcount d - 1"] n linked a d(1) comm by auto
  obtain l h where r: "gh_remove (Some a) (Some n) w2 = Some (w2\<lparr>nodes := h, infos := (infos w2)(a \<mapsto> ci\<lparr>global_handler := l\<rparr>)\<rparr>)"
    "detached h n" "payload h = payload (nodes w2)" using gh_remove_ok[OF a2 dll2 linked] by blast
  define w4 where "w4 = w2\<lparr>nodes := h, infos := (infos w2)(a \<mapsto> ci\<lparr>global_handler := l\<rparr>)\<rparr>"
  have "w3 = w4\<lparr>decider_handles := H\<rparr>" using w3(1) r(1) by (simp add: gh_remove_handles w4_def)
  then have inv4: "reg_inv (w4\<lparr>nodes := h(n := None), decider_handles := set_slot H p k None\<rparr>) (G(a := remove1 n (G a))) D P N"
    using w3(2) by (simp add: w4_def reg_inv_def kernel_inv_def fresh_inv_def)
  have "without (slot_dead H p k N) G = G(a := remove1 n (G a))"
    unfolding dead using dll_distinct[OF dll2] disjoint_listsD(2)[OF lists_inv_disjoint[OF reg_inv_lists[OF inv]] linked] by (intro without_one) auto
  moreover have "release_slot p k (Some a) w = Some (w4\<lparr>nodes := h(n := None), decider_handles := set_slot (decider_handles w) p k None\<rparr>)"
    using n(2) d(1-3) has_decider_ok[OF a2 dll2, of n] r(1,2) linked d(4)[rule_format, of "w4\<lparr>nodes := h(n := None)\<rparr>"]
    by (auto simp: release_slot_def w2_def w4_def detached_def split: option.splits)
  moreover have "node_view (h(n := None)) m = node_view (nodes w) m" if "m \<noteq> n" for m
  proof -
    have "payload h m = payload (nodes w) m" using that fun_cong[OF r(3), of m] by (simp add: w2_def payload_def)
    then have "node_view h m = node_view (nodes w) m" using node_view_payload by metis
    then show ?thesis using that by (simp add: node_view_def)
  qed
  ultimately show ?thesis using inv4 a by (auto simp: slot_released_def w4_def w2_def outer_same_def dead)
qed

lemma release_slot_ok:
  assumes inv: "reg_inv (w\<lparr>decider_handles := H\<rparr>) G D P N" and dh: "decider_handles w p = Some dh" "k < length (dh_slots dh)"
    and H: "slot H p k = slot (decider_handles w) p k" "H p = Some dhH" and a: "infos w a = Some ci"
    and safe: "\<And>n b. slot H p k = Some n \<Longrightarrow> n \<in> set (G b) \<Longrightarrow> b = a \<or> N n > 0"
  shows "\<exists>w'. release_slot p k (Some a) w = Some w' \<and> slot_released H p k G D P N w w'"
proof (cases "slot H p k")
  case None
  then show ?thesis using release_empty[OF inv dh H] by blast
next
  case (Some n)
  consider "N n \<noteq> 0" | "N n = 0" "n \<in> set (G a)" | "N n = 0" "n \<notin> set (G a)" by blast
  then show ?thesis
  proof cases
    case 1
    show ?thesis by (rule release_pinned[OF inv dh H(1) Some 1])
  next
    case 2
    show ?thesis by (rule release_linked[OF inv dh H(1) Some 2(1) a 2(2)])
  next
    case 3
    have "n \<notin> set (G b)" for b using safe[OF Some, of b] 3 by auto
    then show ?thesis by (rule release_orphan[OF inv dh H(1) Some 3(1) a])
  qed
qed

lemma destroy_locked_release:
  "destroy_locked p g j k w =
     (let it = signo_map_get (signo_to_sighandler_map w) j
      in if \<not> signo_map_is_end it
      then do {
        w \<leftarrow> drain_deferred_frees (itr_val it) w;
        (if sigismember g j then release_slot p k (itr_val it) w else Some w)
      }
      else Some w)"
  by (simp only: destroy_locked_def release_slot_def)

lemma destroy_locked_ok:
  assumes inv: "reg_inv (w\<lparr>decider_handles := H\<rparr>) G D P N" and j: "signo_lookup (signo_to_sighandler_map w) j = Some a"
    and dh: "decider_handles w p = Some dh" "k < length (dh_slots dh)" and H: "slot H p k = slot (decider_handles w) p k"
      "H p = Some dhH" and vis: "sigismember g j"
    and safe: "\<And>n b. slot H p k = Some n \<Longrightarrow> n \<in> set (G b) \<Longrightarrow> b = a \<or> N n > 0"
  shows "\<exists>w'. destroy_locked p g j k w = Some w' \<and> outer_same w w'
    \<and> decider_handles w' = set_slot (decider_handles w) p k None
    \<and> reg_inv (w'\<lparr>decider_handles := set_slot H p k None\<rparr>) (without (slot_dead H p k N) G) (D(a := [])) P N
    \<and> reg_state w' (without (slot_dead H p k N) G) = drop_nodes (slot_dead H p k N) \<circ> reg_state w G"
proof -
  obtain ci where a: "infos w a = Some ci" using reg_inv_lookup[OF inv, of j a] j by auto
  let ?ci = "ci\<lparr>deferred_frees := dlist_empty\<rparr>"
  define w1 where "w1 = w\<lparr>infos := (infos w)(a \<mapsto> ?ci), nodes := nodes w |` (- set (D a))\<rparr>"
  have d1: "drain_deferred_frees (Some a) w = Some w1"
    using drain_deferred_frees_ok[OF a lists_invD(2)[OF reg_inv_lists[OF inv], simplified, OF a]] by (simp add: w1_def)
  have inv1: "reg_inv (w1\<lparr>decider_handles := H\<rparr>) G (D(a := [])) P N"
    using reg_inv_drain[OF inv, of a ci] a by (auto simp: w1_def reg_inv_def kernel_inv_def fresh_inv_def)
  have st1: "node_view (nodes w1) m = node_view (nodes w) m" if "m \<in> set (G b)" for m b
    using disjoint_listsD(1)[OF lists_inv_disjoint[OF reg_inv_lists[OF inv]] that, of a] by (simp add: w1_def node_view_def)
  have "destroy_locked p g j k w = release_slot p k (Some a) w1"
    using d1 vis by (simp add: destroy_locked_release signo_map_get_Some[OF j] signo_map_is_end_def)
  moreover obtain w' where w': "release_slot p k (Some a) w1 = Some w'" "slot_released H p k G (D(a := [])) P N w1 w'"
    using release_slot_ok[OF inv1, of p dh k dhH a ?ci] dh H safe by (auto simp: w1_def)
  moreover have "outer_same w w'" using w'(2) by (simp add: slot_released_def outer_same_def w1_def)
  moreover have "map_option (\<lambda>ci. (install_count ci, old_handler ci)) (infos w' b) = map_option (\<lambda>ci. (install_count ci, old_handler ci)) (infos w b)" for b
    using w'(2) a by (auto simp: slot_released_def w1_def)
  moreover have "node_view (nodes w') m = node_view (nodes w) m" if "m \<in> set (G b)" "\<not> slot_dead H p k N m" for m b
    using w'(2) st1[OF that(1)] that by (auto simp: slot_released_def)
  ultimately have "reg_state w' (without (slot_dead H p k N) G) = drop_nodes (slot_dead H p k N) \<circ> reg_state w G"
    by (intro reg_state_without) (auto simp: outer_same_def)
  then show ?thesis using w' \<open>outer_same w w'\<close> \<open>destroy_locked p g j k w = release_slot p k (Some a) w1\<close> by (auto simp: slot_released_def w1_def)
qed

lemma reg_inv_lock_handles [simp]:
  "reg_inv (w\<lparr>lock := x, decider_handles := H\<rparr>) = reg_inv (w\<lparr>decider_handles := H\<rparr>)"
  by (simp add: fun_eq_iff reg_inv_def kernel_inv_def fresh_inv_def)

lemma outer_same_lock: "outer_same (w\<lparr>lock := 1\<rparr>) w' \<Longrightarrow> lock w = 0 \<Longrightarrow> outer_same w (w'\<lparr>lock := 0\<rparr>) \<and> lock w' = 1"
  by (simp add: outer_same_def)

text \<open>One round of the loop of \<^verbatim>\<open>signal_decider_destroy\<close>.\<close>

definition destroy_round :: "addr \<Rightarrow> sigset \<Rightarrow> int \<Rightarrow> nat \<Rightarrow> sig_world \<Rightarrow> (nat \<times> sig_world) option" where
  "destroy_round p g j k w = do {
     w \<leftarrow> LOCK w; w \<leftarrow> destroy_locked p g j k w; w \<leftarrow> UNLOCK w; destroy_unlocked p g j k w }"

lemma destroy_round_skip:
  assumes inv: "reg_inv (w\<lparr>decider_handles := H\<rparr>) G D P N" and l: "lock w = 0" and out: "\<not> sigismember g j"
  shows "\<exists>w' D'. destroy_round p g j k w = Some (k, w') \<and> outer_same w w' \<and> decider_handles w' = decider_handles w
    \<and> (\<forall>b. D' b = D b \<or> D' b = []) \<and> reg_inv (w'\<lparr>decider_handles := H\<rparr>) G D' P N \<and> reg_state w' G = reg_state w G"
proof (cases "signo_lookup (signo_to_sighandler_map w) j")
  case None
  then have "destroy_round p g j k w = Some (k, w\<lparr>lock := 0\<rparr>)"
    using l out by (simp add: destroy_round_def destroy_locked_def destroy_unlocked_def signo_map_get_is_end)
  moreover have "w\<lparr>lock := 0\<rparr> = w" using l by (cases w) simp
  ultimately show ?thesis using inv by auto
next
  case (Some a)
  obtain ci where a: "infos w a = Some ci" using reg_inv_lookup[OF inv, of j a] Some by auto
  define w1 where "w1 = w\<lparr>lock := 1, infos := (infos w)(a \<mapsto> ci\<lparr>deferred_frees := dlist_empty\<rparr>), nodes := nodes w |` (- set (D a))\<rparr>"
  have "drain_deferred_frees (Some a) (w\<lparr>lock := 1\<rparr>) = Some w1"
    using drain_deferred_frees_ok[of "w\<lparr>lock := 1\<rparr>" a ci "D a"] a lists_invD(2)[OF reg_inv_lists[OF inv], simplified, OF a]
    by (simp add: w1_def)
  then have "destroy_round p g j k w = Some (k, w1\<lparr>lock := 0\<rparr>)"
    using l out Some
    by (simp add: destroy_round_def destroy_locked_def destroy_unlocked_def signo_map_get_is_end signo_map_get_Some w1_def)
  moreover have "reg_inv (w1\<lparr>lock := 0, decider_handles := H\<rparr>) G (D(a := [])) P N"
    using reg_inv_drain[OF inv, of a ci] a by (auto simp: w1_def reg_inv_def kernel_inv_def fresh_inv_def)
  moreover have "reg_abs (w1\<lparr>decider_handles := H\<rparr>) G = reg_abs (w\<lparr>decider_handles := H\<rparr>) G"
    using reg_abs_drain[OF inv, of a ci "w1\<lparr>decider_handles := H\<rparr>" 1] a by (simp add: w1_def reg_abs_def)
  then have "reg_state (w1\<lparr>lock := 0\<rparr>) G = reg_state w G"
    by (simp add: reg_state_def fun_eq_iff reg_abs_def w1_def)
  moreover have "outer_same w (w1\<lparr>lock := 0\<rparr>)" "decider_handles (w1\<lparr>lock := 0\<rparr>) = decider_handles w"
    using l by (simp_all add: outer_same_def w1_def)
  moreover have "\<forall>b. (D(a := [])) b = D b \<or> (D(a := [])) b = []" by simp
  ultimately show ?thesis by blast
qed

lemma destroy_round_visit:
  assumes inv: "reg_inv (w\<lparr>decider_handles := H\<rparr>) G D P N" and l: "lock w = 0" and mem: "sigismember g j"
    and dh: "decider_handles w p = Some dh" "k < length (dh_slots dh)"
    and H: "slot H p k = slot (decider_handles w) p k" "H p = Some dhH" "guarded_signos (dh_guarded dhH) ! k = j"
    and safe: "\<And>n b. slot H p k = Some n \<Longrightarrow> n \<in> set (G b) \<Longrightarrow> b \<in> ran (signo_lookup (signo_to_sighandler_map w)) \<or> N n > 0"
  shows "\<exists>w' D'. destroy_round p g j k w = Some (Suc k, w') \<and> outer_same w w'
    \<and> (decider_handles w' = decider_handles w \<and> signo_lookup (signo_to_sighandler_map w) j = None
        \<or> decider_handles w' = set_slot (decider_handles w) p k None)
    \<and> (\<forall>b. D' b = D b \<or> D' b = [])
    \<and> reg_inv (w'\<lparr>decider_handles := set_slot H p k None\<rparr>) (without (slot_dead H p k N) G) D' P N
    \<and> reg_state w' (without (slot_dead H p k N) G) = drop_nodes (slot_dead H p k N) \<circ> reg_state w G"
proof -
  have home: "i = j" if "slot H p k = Some n" "n \<in> set (G b)" "signo_lookup (signo_to_sighandler_map w) i = Some b" for n b i
    using inv that H(2,3) unfolding reg_inv_def home_inv_def by fastforce
  show ?thesis
  proof (cases "signo_lookup (signo_to_sighandler_map w) j")
    case None
    have pinned: "N n > 0" if "slot H p k = Some n" "n \<in> set (G b)" for n b
      using safe[OF that] home[OF that] None by (auto simp: ran_def)
    obtain w' where "destroy_unlocked p g j k w = Some (Suc k, w')" "outer_same w w'" "decider_handles w' = decider_handles w"
      "reg_inv (w'\<lparr>decider_handles := set_slot H p k None\<rparr>) (without (slot_dead H p k N) G) D P N"
      "reg_state w' (without (slot_dead H p k N) G) = drop_nodes (slot_dead H p k N) \<circ> reg_state w G"
      using destroy_unlocked_ok[OF inv None dh H(1,2) mem] pinned by blast
    moreover have "w\<lparr>lock := 0\<rparr> = w" using l by (cases w) simp
    moreover have "destroy_round p g j k w = destroy_unlocked p g j k (w\<lparr>lock := 0\<rparr>)"
      using l None by (simp add: destroy_round_def destroy_locked_def signo_map_get_is_end)
    ultimately show ?thesis using None by (metis (no_types, lifting))
  next
    case (Some a)
    have s': "b = a \<or> N n > 0" if "slot H p k = Some n" "n \<in> set (G b)" for n b
      using safe[OF that] home[OF that] Some by (auto simp: ran_def)
    obtain w1 where w1: "destroy_locked p g j k (w\<lparr>lock := 1\<rparr>) = Some w1" "outer_same (w\<lparr>lock := 1\<rparr>) w1"
      "decider_handles w1 = set_slot (decider_handles w) p k None"
      "reg_inv (w1\<lparr>decider_handles := set_slot H p k None\<rparr>) (without (slot_dead H p k N) G) (D(a := [])) P N"
      "reg_state w1 (without (slot_dead H p k N) G) = drop_nodes (slot_dead H p k N) \<circ> reg_state w G"
      using destroy_locked_ok[where w = "w\<lparr>lock := 1\<rparr>" and H = H and G = G and D = D and P = P and N = N and j = j and a = a and p = p and dh = dh and k = k and dhH = dhH and g = g] inv Some dh H(1,2) mem s' by auto
    have "slot_read p k (w1\<lparr>lock := 0\<rparr>) = Some None"
      using w1(3) dh by (simp add: slot_read_def set_slot_def)
    then have "destroy_round p g j k w = Some (Suc k, w1\<lparr>lock := 0\<rparr>)"
      using l w1(1,2) mem by (simp add: destroy_round_def destroy_unlocked_def outer_same_def)
    moreover have "outer_same w (w1\<lparr>lock := 0\<rparr>)" using outer_same_lock[OF w1(2) l] by simp
    ultimately show ?thesis using w1(3-5)
      by - (rule exI[of _ "w1\<lparr>lock := 0\<rparr>"], rule exI[of _ "D(a := [])"], simp)
  qed
qed

lemma destroy_each_round:
  "destroy_each p g (j # js) k w = (if skipped_signo j then destroy_each p g js k w
     else do { (k, w) \<leftarrow> destroy_round p g j k w; destroy_each p g js k w })"
  by (simp add: destroy_round_def)


text \<open>The nodes of a handle, and the condition under which destroying it is safe.\<close>

definition handle_nodes :: "decider_handle heap \<Rightarrow> addr \<Rightarrow> addr set" where
  "handle_nodes hs p = {n. \<exists>i. slot hs p i = Some n}"

definition destroy_safe :: "signo_map \<Rightarrow> decider_handle heap \<Rightarrow> addr \<Rightarrow> (addr \<Rightarrow> addr list) \<Rightarrow> (addr \<Rightarrow> nat) \<Rightarrow> bool" where
  "destroy_safe m hs p G N \<longleftrightarrow> (\<forall>n b. n \<in> handle_nodes hs p \<longrightarrow> n \<in> set (G b) \<longrightarrow>
     b \<in> ran (signo_lookup m) \<or> N n > 0)"

definition handle_dead :: "decider_handle heap \<Rightarrow> addr \<Rightarrow> nat \<Rightarrow> (addr \<Rightarrow> nat) \<Rightarrow> addr \<Rightarrow> bool" where
  "handle_dead H p k N m \<longleftrightarrow> (\<exists>i \<ge> k. slot H p i = Some m) \<and> N m = 0"

lemma handle_dead_step:
  assumes "H p = Some dh" "k < length (dh_slots dh)"
  shows "(\<lambda>m. slot_dead H p k N m \<or> handle_dead (set_slot H p k None) p (Suc k) N m) = handle_dead H p k N"
proof
  fix m
  have "slot (set_slot H p k None) p i = slot H p i" if "Suc k \<le> i" for i
    using that by (simp add: slot_set_slot[of H p dh k, OF assms])
  moreover have "(\<exists>i \<ge> k. slot H p i = Some m) \<longleftrightarrow> slot H p k = Some m \<or> (\<exists>i \<ge> Suc k. slot H p i = Some m)"
    by (metis Suc_leD le_antisym not_less_eq_eq order_refl)
  ultimately show "(slot_dead H p k N m \<or> handle_dead (set_slot H p k None) p (Suc k) N m) = handle_dead H p k N m"
    unfolding slot_dead_def handle_dead_def by (metis (no_types, lifting))
qed

lemma destroy_each_ok:
  assumes "reg_inv (w\<lparr>decider_handles := H\<rparr>) G D P N" "lock w = 0"
    and "decider_handles w p = Some dh" "H p = Some dhH" "length (dh_slots dh) = length (dh_slots dhH)"
    and "dh_guarded dhH = g" "guarded_signos g = us @ filter (visited g) ks" "k = length us"
    and "\<forall>i. slot H p i = (if i < k then None else slot (decider_handles w) p i)"
    and "destroy_safe (signo_to_sighandler_map w) H p G N"
  shows "\<exists>w' D' H'. destroy_each p g ks k w = Some w' \<and> outer_same w w' \<and> decider_handles w' p \<noteq> None
    \<and> (\<forall>h. h \<noteq> p \<longrightarrow> decider_handles w' h = decider_handles w h \<and> H' h = H h) \<and> (\<forall>i. slot H' p i = None)
    \<and> (\<forall>b. D' b = D b \<or> D' b = [])
    \<and> reg_inv (w'\<lparr>decider_handles := H'\<rparr>) (without (handle_dead H p k N) G) D' P N
    \<and> reg_state w' (without (handle_dead H p k N) G) = drop_nodes (handle_dead H p k N) \<circ> reg_state w G"
  using assms
proof (induction ks arbitrary: w H G D k us dh dhH)
  case Nil
  have "length (dh_slots dhH) = Suc k" and spare: "slot H p i = Some n \<Longrightarrow> i < k" for i n
    using Nil.prems(1,4,6,7,8) unfolding reg_inv_def home_inv_def by auto
  then have none: "slot H p i = None" for i using Nil.prems(9) by (metis not_None_eq)
  then have "without (handle_dead H p k N) G = G" by (intro without_none) (simp add: handle_dead_def)
  moreover have "reg_state w G = drop_nodes (handle_dead H p k N) \<circ> reg_state w G"
    using reg_state_without[of w w G "handle_dead H p k N"] calculation by simp
  ultimately show ?case using Nil.prems(1,3) none by auto
next
  case (Cons j ks)
  show ?case
  proof (cases "visited g j")
    case False
    show ?thesis
    proof (cases "skipped_signo j")
      case True
      then show ?thesis using Cons.IH[OF Cons.prems(1-6), of us k] Cons.prems(7-) False by (simp add: destroy_each_round del: destroy_each.simps)
    next
      case nsk: False
      then have out: "\<not> sigismember g j" using False by (simp add: visited_def)
      obtain w1 D1 where r: "destroy_round p g j k w = Some (k, w1)" "outer_same w w1" "decider_handles w1 = decider_handles w"
        "\<forall>b. D1 b = D b \<or> D1 b = []" "reg_inv (w1\<lparr>decider_handles := H\<rparr>) G D1 P N" "reg_state w1 G = reg_state w G"
        using destroy_round_skip[OF Cons.prems(1,2) out] by blast
      have pre: "lock w1 = 0" "decider_handles w1 p = Some dh"
        "guarded_signos g = us @ filter (visited g) ks"
        "\<forall>i. slot H p i = (if i < k then None else slot (decider_handles w1) p i)"
        "destroy_safe (signo_to_sighandler_map w1) H p G N"
        using r(2,3) Cons.prems(2,3,7,9,10) False by (simp_all add: outer_same_def)
      obtain w' D' H' where IH: "destroy_each p g ks k w1 = Some w'" "outer_same w1 w'" "decider_handles w' p \<noteq> None"
        "\<forall>h. h \<noteq> p \<longrightarrow> decider_handles w' h = decider_handles w h \<and> H' h = H h" "\<forall>i. slot H' p i = None"
        "\<forall>b. D' b = D1 b \<or> D' b = []"
        "reg_inv (w'\<lparr>decider_handles := H'\<rparr>) (without (handle_dead H p k N) G) D' P N"
        "reg_state w' (without (handle_dead H p k N) G) = drop_nodes (handle_dead H p k N) \<circ> reg_state w G"
        using Cons.IH[OF r(5) pre(1,2) Cons.prems(4-6) pre(3) Cons.prems(8) pre(4,5)] unfolding r(3,6) by blast
      have "\<forall>b. D' b = D b \<or> D' b = []" using r(4) IH(6) by metis
      moreover have "destroy_each p g (j # ks) k w = destroy_each p g ks k w1" using nsk r(1) by (simp add: destroy_each_round del: destroy_each.simps)
      ultimately show ?thesis using IH(1,3-5,7,8) outer_same_trans[OF r(2) IH(2)] by (metis (no_types, lifting))
    qed
  next
    case True
    then have mem: "sigismember g j" and nsk: "\<not> skipped_signo j" by (simp_all add: visited_def)
    have gsk: "guarded_signos (dh_guarded dhH) ! k = j" "k < length (guarded_signos (dh_guarded dhH))"
      using Cons.prems(6-8) True by (simp_all add: nth_append)
    have len: "k < length (dh_slots dhH)" using Cons.prems(1,4) gsk(2) by (auto simp: reg_inv_def home_inv_def)
    have safe: "b \<in> ran (signo_lookup (signo_to_sighandler_map w)) \<or> N n > 0"
      if "slot H p k = Some n" "n \<in> set (G b)" for n b
      using Cons.prems(10) that unfolding destroy_safe_def handle_nodes_def mem_Collect_eq by metis
    let ?H = "set_slot H p k None" and ?G = "without (slot_dead H p k N) G"
    obtain w1 D1 where r: "destroy_round p g j k w = Some (Suc k, w1)" "outer_same w w1"
      "decider_handles w1 = decider_handles w \<or> decider_handles w1 = set_slot (decider_handles w) p k None"
      "\<forall>b. D1 b = D b \<or> D1 b = []" "reg_inv (w1\<lparr>decider_handles := ?H\<rparr>) ?G D1 P N"
      "reg_state w1 ?G = drop_nodes (slot_dead H p k N) \<circ> reg_state w G"
      using destroy_round_visit[OF Cons.prems(1,2) mem Cons.prems(3) _ _ Cons.prems(4) gsk(1) safe]
        len Cons.prems(5,9) by auto
    note sl = slot_set_slot[of H p dhH k, OF Cons.prems(4) len]
    have "k < length (dh_slots dh)" using len Cons.prems(5) by simp
    note slw = slot_set_slot[of "decider_handles w" p dh k, OF Cons.prems(3) this]
    obtain dh1 where dh1: "decider_handles w1 p = Some dh1" "length (dh_slots dh1) = length (dh_slots dh)"
      using r(3) Cons.prems(3) by (auto simp: set_slot_def)
    have H1: "?H p = Some (dhH\<lparr>dh_slots := (dh_slots dhH)[k := None]\<rparr>)" using Cons.prems(4) by (simp add: set_slot_def)
    have others: "decider_handles w1 h = decider_handles w h" "?H h = H h" if "h \<noteq> p" for h
      using r(3) Cons.prems(3,4) that by (auto simp: set_slot_def)
    have pre: "lock w1 = 0" "length (dh_slots dh1) = length (dh_slots (dhH\<lparr>dh_slots := (dh_slots dhH)[k := None]\<rparr>))"
      "guarded_signos g = (us @ [j]) @ filter (visited g) ks" "Suc k = length (us @ [j])"
      using r(2) Cons.prems(2,5,7,8) True dh1 by (auto simp: outer_same_def)
    have g1: "dh_guarded (dhH\<lparr>dh_slots := (dh_slots dhH)[k := None]\<rparr>) = g" using Cons.prems(6) by simp
    have pre5: "\<forall>i. slot ?H p i = (if i < Suc k then None else slot (decider_handles w1) p i)"
      using r(3) Cons.prems(9) by (auto simp: sl slw less_Suc_eq)
    have safe1: "destroy_safe (signo_to_sighandler_map w1) ?H p ?G N"
      using Cons.prems(10) r(2) sl unfolding destroy_safe_def handle_nodes_def without_def outer_same_def
      by (auto split: if_splits)
    obtain w' D' H' where IH: "destroy_each p g ks (Suc k) w1 = Some w'" "outer_same w1 w'" "decider_handles w' p \<noteq> None"
      "\<forall>h. h \<noteq> p \<longrightarrow> decider_handles w' h = decider_handles w1 h \<and> H' h = ?H h" "\<forall>i. slot H' p i = None"
      "\<forall>b. D' b = D1 b \<or> D' b = []"
      "reg_inv (w'\<lparr>decider_handles := H'\<rparr>) (without (handle_dead ?H p (Suc k) N) ?G) D' P N"
      "reg_state w' (without (handle_dead ?H p (Suc k) N) ?G) = drop_nodes (handle_dead ?H p (Suc k) N) \<circ> reg_state w1 ?G"
      using Cons.IH[OF r(5) pre(1) dh1(1) H1 pre(2) g1 pre(3,4) pre5 safe1] by blast
    have "without (handle_dead ?H p (Suc k) N) ?G = without (handle_dead H p k N) G"
      by (simp only: without_without handle_dead_step[of H p dhH k, OF Cons.prems(4) len])
    moreover have "drop_nodes (handle_dead ?H p (Suc k) N) \<circ> reg_state w1 ?G = drop_nodes (handle_dead H p k N) \<circ> reg_state w G"
      unfolding r(6) by (simp only: o_def drop_nodes_drop handle_dead_step[of H p dhH k, OF Cons.prems(4) len])
    moreover have "destroy_each p g (j # ks) k w = Some w'" using nsk r(1) IH(1) by (simp add: destroy_each_round del: destroy_each.simps)
    moreover have "\<forall>b. D' b = D b \<or> D' b = []" using r(4) IH(6) by metis
    ultimately show ?thesis
      using IH(3-5,7,8) outer_same_trans[OF r(2) IH(2)] others by (metis (no_types, lifting))
  qed
qed


lemma reg_inv_drop_handle:
  assumes inv: "reg_inv (w\<lparr>decider_handles := H\<rparr>) G D P N" and none: "\<And>i. slot H p i = None"
  shows "reg_inv (w\<lparr>decider_handles := H(p := None)\<rparr>) G D P N"
proof -
  have sl: "slot (H(p := None)) h i = slot H h i" for h i
    using none[of i] by (cases "h = p") (auto simp: slot_def)
  then have "owned (H(p := None)) = owned H" by (simp add: owned_def fun_eq_iff)
  with inv sl show ?thesis
    by (auto simp: reg_inv_def own_inv_def home_inv_def kernel_inv_def fresh_inv_def)
qed

text \<open>
  Destroying a handle always succeeds; it takes the handle's nodes off the chains, except
  those inside whose decider some raise still is.
\<close>

lemma signal_decider_destroy_ok:
  assumes inv: "reg_inv w G D P N" and l: "lock w = 0" and p: "decider_handles w p = Some dh"
    and safe: "destroy_safe (signo_to_sighandler_map w) (decider_handles w) p G N"
  defines "Q \<equiv> (\<lambda>m. m \<in> handle_nodes (decider_handles w) p \<and> N m = 0)"
  shows "\<exists>w' D'. signal_decider_destroy (Some p) w = Some (0, w') \<and> outer_same w w'
    \<and> decider_handles w' = (decider_handles w)(p := None) \<and> (\<forall>b. D' b = D b \<or> D' b = [])
    \<and> reg_inv w' (without Q G) D' P N \<and> reg_state w' (without Q G) = drop_nodes Q \<circ> reg_state w G"
proof -
  have "handle_dead (decider_handles w) p 0 N = Q"
    by (simp add: handle_dead_def Q_def handle_nodes_def fun_eq_iff)
  moreover have "guarded_signos (dh_guarded dh) = [] @ filter (visited (dh_guarded dh)) [1..NSIG - 1]"
    by (auto simp: guarded_signos_def visited_def intro!: filter_cong)
  moreover have "w\<lparr>decider_handles := decider_handles w\<rparr> = w" by simp
  ultimately obtain w1 D' H' where r: "destroy_each p (dh_guarded dh) [1..NSIG - 1] 0 w = Some w1" "outer_same w w1"
    "decider_handles w1 p \<noteq> None" "\<forall>h. h \<noteq> p \<longrightarrow> decider_handles w1 h = decider_handles w h \<and> H' h = decider_handles w h"
    "\<forall>i. slot H' p i = None" "\<forall>b. D' b = D b \<or> D' b = []" "reg_inv (w1\<lparr>decider_handles := H'\<rparr>) (without Q G) D' P N"
    "reg_state w1 (without Q G) = drop_nodes Q \<circ> reg_state w G"
    using destroy_each_ok[where w = w and H = "decider_handles w" and G = G and D = D and P = P and N = N and p = p
        and dh = dh and dhH = dh and g = "dh_guarded dh" and us = "[]" and ks = "[1..NSIG - 1]" and k = 0] inv l p safe
    by auto
  have "H'(p := None) = (decider_handles w)(p := None)" "(decider_handles w1)(p := None) = (decider_handles w)(p := None)"
    using r(4) by (auto simp: fun_eq_iff)
  then show ?thesis
    using r(1-3,6,8) p reg_inv_drop_handle[OF r(7), of p] r(5)
    by (intro exI[of _ "w1\<lparr>decider_handles := (decider_handles w)(p := None)\<rparr>"] exI[of _ D'])
      (auto simp: signal_decider_destroy_def outer_same_def)
qed

lemma chain_nodes_old:
  assumes inv: "reg_inv w G D P N" and "fst (reg_state w G j) = Some h" "x \<in> set (ah_chain h)"
  shows "fst x < next_addr w"
proof -
  obtain a where "fst x \<in> set (G a)"
    using assms(2,3) by (auto simp: reg_state_def reg_abs_def registry_view_def handler_view_def node_view_def split: option.splits)
  then obtain d where "nodes w (fst x) = Some d" using lists_inv_live(1)[OF reg_inv_lists[OF inv], of "fst x" a] by auto
  then show ?thesis using reg_inv_fresh_all[OF inv, of "fst x"] by (cases "fst x < next_addr w") auto
qed

lemma G_old: "reg_inv w G D P N \<Longrightarrow> n \<in> set (G a) \<Longrightarrow> n < next_addr w"
  using lists_inv_live(1)[OF reg_inv_lists, of w G D P N n a] reg_inv_fresh_all[of w G D P N n]
  by (cases "n < next_addr w") auto

lemma without_new_chain:
  "n \<notin> set (G a) \<Longrightarrow> (\<And>b m. m \<in> set (G b) \<Longrightarrow> \<not> Q m) \<Longrightarrow> Q n \<Longrightarrow> without Q (G(a := add_to_chain c n (G a))) = G"
  by (auto simp: without_def fun_eq_iff add_to_chain_def filter_id_conv)

definition create_effect :: "(int \<Rightarrow> bool) \<Rightarrow> bool \<Rightarrow> fnptr \<Rightarrow> siginfo_value \<Rightarrow> (int \<Rightarrow> addr) \<Rightarrow> (int \<Rightarrow> signal_state) \<Rightarrow> int \<Rightarrow> signal_state" where
  "create_effect Q callfirst f v \<nu> s j = (if Q j then add_decider callfirst (\<nu> j, f, v) (s j) else s j)"

definition handled :: "(int \<Rightarrow> signal_state) \<Rightarrow> int \<Rightarrow> bool" where
  "handled s j \<longleftrightarrow> fst (s j) \<noteq> None"

lemma add_decider_unhandled: "\<not> handled s j \<Longrightarrow> add_decider c x (s j) = s j"
  by (cases "s j" rule: inst.cases) (auto simp: handled_def)

text \<open>
  What creating deciders for the signals in \<open>Q\<close> does: only the chains of those signals
  and the handle at \<open>p\<close> change, by the new nodes \<open>\<nu>\<close>.
\<close>

definition created :: "addr \<Rightarrow> (int \<Rightarrow> bool) \<Rightarrow> bool \<Rightarrow> fnptr \<Rightarrow> siginfo_value \<Rightarrow> (int \<Rightarrow> addr)
    \<Rightarrow> sig_world \<Rightarrow> (addr \<Rightarrow> addr list) \<Rightarrow> sig_world \<Rightarrow> (addr \<Rightarrow> addr list) \<Rightarrow> bool" where
  "created p Q c f v \<nu> w G w' G' \<longleftrightarrow> lock w' = lock w \<and> install_handles w' = install_handles w
    \<and> refused w' = refused w \<and> next_addr w \<le> next_addr w'
    \<and> signo_to_sighandler_map w' = signo_to_sighandler_map w \<and> kernel w' = kernel w
    \<and> (\<forall>h. h \<noteq> p \<longrightarrow> decider_handles w' h = decider_handles w h)
    \<and> without (\<lambda>m. next_addr w \<le> m) G' = G
    \<and> (\<forall>j. Q j \<and> handled (reg_state w G) j \<longrightarrow> next_addr w \<le> \<nu> j)
    \<and> handle_nodes (decider_handles w') p =
        handle_nodes (decider_handles w) p \<union> \<nu> ` {j. Q j \<and> handled (reg_state w G) j}
    \<and> reg_state w' G' = create_effect Q c f v \<nu> (reg_state w G)"

lemma created_none:
  assumes "reg_inv w G D P N"
  shows "created p (\<lambda>_. False) c f v \<nu> w G w G"
  using without_none[of G "\<lambda>m. next_addr w \<le> m"] G_old[OF assms]
  by (auto simp: created_def create_effect_def fun_eq_iff not_le)

lemma handled_create_effect: "handled (create_effect Q c f v \<nu> s) j = handled s j"
  by (cases "s j" rule: inst.cases) (auto simp: handled_def create_effect_def)

lemma created_trans:
  assumes a: "created p Q1 c f v \<nu>1 w G w1 G1" and b: "created p Q2 c f v \<nu>2 w1 G1 w2 G2"
    and dj: "\<And>j. Q1 j \<Longrightarrow> \<not> Q2 j"
  shows "created p (\<lambda>j. Q1 j \<or> Q2 j) c f v (\<lambda>j. if Q1 j then \<nu>1 j else \<nu>2 j) w G w2 G2"
proof -
  let ?\<nu> = "\<lambda>j. if Q1 j then \<nu>1 j else \<nu>2 j" and ?s = "reg_state w G"
  have s1: "reg_state w1 G1 = create_effect Q1 c f v \<nu>1 ?s" and le: "next_addr w \<le> next_addr w1"
    using a by (simp_all add: created_def)
  have h1: "handled (reg_state w1 G1) j = handled ?s j" for j by (simp add: s1 handled_create_effect)
  have "without (\<lambda>m. next_addr w \<le> m) G2 = without (\<lambda>m. next_addr w \<le> m) (without (\<lambda>m. next_addr w1 \<le> m) G2)"
    using le unfolding without_without by (auto simp: without_def fun_eq_iff intro!: filter_cong)
  then have w: "without (\<lambda>m. next_addr w \<le> m) G2 = G" using a b by (simp add: created_def)
  have "\<nu>1 ` {j. Q1 j \<and> handled ?s j} \<union> \<nu>2 ` {j. Q2 j \<and> handled ?s j} = ?\<nu> ` {j. (Q1 j \<or> Q2 j) \<and> handled ?s j}"
    using dj by (auto simp: image_iff)
  then have n: "handle_nodes (decider_handles w2) p =
      handle_nodes (decider_handles w) p \<union> ?\<nu> ` {j. (Q1 j \<or> Q2 j) \<and> handled ?s j}"
    using a b h1 by (auto simp: created_def)
  have st: "reg_state w2 G2 = create_effect (\<lambda>j. Q1 j \<or> Q2 j) c f v ?\<nu> ?s"
    using b dj unfolding created_def s1 by (auto simp: create_effect_def fun_eq_iff)
  have "\<forall>j. (Q1 j \<or> Q2 j) \<and> handled ?s j \<longrightarrow> next_addr w \<le> ?\<nu> j"
    using a b h1 le unfolding created_def by (auto intro: order_trans)
  with w n st a b show ?thesis unfolding created_def by auto
qed


lemma handle_nodes_set_slot:
  assumes "hs p = Some dh" "k < length (dh_slots dh)" "slot hs p k = None"
  shows "handle_nodes (set_slot hs p k (Some n)) p = insert n (handle_nodes hs p)"
proof -
  note sl = slot_set_slot[of hs p dh k, OF assms(1,2)]
  show ?thesis using assms(3) unfolding handle_nodes_def sl by (auto, metis option.distinct(1))
qed

text \<open>One round of the loop of \<^verbatim>\<open>signal_decider_create\<close> for a guarded signal.\<close>

lemma create_one:
  assumes inv: "reg_inv w G D P N" and l: "lock w = 0" and dh: "decider_handles w p = Some dh"
    and k: "k < length (guarded_signos (dh_guarded dh))" "guarded_signos (dh_guarded dh) ! k = j"
    and none: "\<forall>i \<ge> k. slot (decider_handles w) p i = None" and vis: "visited (dh_guarded dh) j"
  shows "\<exists>ok w' G' \<nu>. (\<forall>js. create_each p (dh_guarded dh) c f v (j # js) k w = (if ok then create_each p (dh_guarded dh) c f v js (Suc k) w' else Some (False, w')))
    \<and> reg_inv w' G' D P N \<and> created p (\<lambda>i. ok \<and> i = j) c f v \<nu> w G w' G'
    \<and> (\<exists>dh'. decider_handles w' p = Some dh' \<and> dh_guarded dh' = dh_guarded dh)
    \<and> (\<forall>i \<ge> Suc k. slot (decider_handles w') p i = None)"
proof -
  have mem: "\<not> skipped_signo j" "sigismember (dh_guarded dh) j" using vis by (simp_all add: visited_def)
  have len: "k < length (dh_slots dh)" using inv dh k(1) by (auto simp: reg_inv_def home_inv_def)
  show ?thesis
  proof (cases "signo_lookup (signo_to_sighandler_map w) j")
    case None
    have "set_slot (decider_handles w) p k None = decider_handles w"
      using set_slot_None_idem[of "decider_handles w" p dh k, OF dh] none by simp
    then have wr: "slot_write p k None (w\<lparr>lock := 1\<rparr>) = Some (w\<lparr>lock := 1\<rparr>)"
      using slot_write_set[of "w\<lparr>lock := 1\<rparr>" p dh k None] dh len by simp
    have w: "w\<lparr>lock := 0\<rparr> = w" using l by (cases w) simp
    have "\<not> handled (reg_state w G) j" using None by (simp add: handled_def reg_state_def reg_abs_def registry_view_def)
    then have "created p (\<lambda>i. i = j) c f v \<nu> w G w G" for \<nu>
      using created_none[OF inv, of p c f v \<nu>] add_decider_unhandled[of "reg_state w G" j c]
      by (auto simp: created_def create_effect_def fun_eq_iff)
    moreover have "create_each p (dh_guarded dh) c f v (j # js) k w = create_each p (dh_guarded dh) c f v js (Suc k) (w\<lparr>lock := 0\<rparr>)" for js
      using mem l None wr by (simp add: signo_map_get_is_end)
    ultimately show ?thesis
      unfolding w using inv dh none by (intro exI[of _ True] exI[of _ w] exI[of _ G]) auto
  next
    case (Some a)
    note get = signo_map_get_Some[OF Some]
    obtain ci where a: "infos w a = Some ci" using reg_inv_lookup[OF inv Some] by blast
    obtain q w1 where al: "host_alloc (w\<lparr>lock := 1\<rparr>) = (q, w1)" by fastforce
    note s1 = host_alloc_same[OF al]
    have inv1: "reg_inv w1 G D P N" using reg_inv_same[OF s1] inv by simp
    show ?thesis
    proof (cases q)
      case None
      note w1 = host_alloc_None[OF al[unfolded None]]
      have "create_each p (dh_guarded dh) c f v (j # js) k w = Some (False, w1\<lparr>lock := 0\<rparr>)" for js
        using mem l Some get al None w1 by (simp add: signo_map_is_end_def)
      moreover have "created p (\<lambda>i. False) c f v \<nu> w G (w1\<lparr>lock := 0\<rparr>) G" for \<nu>
        using created_none[OF inv, of p c f v \<nu>] reg_state_same[OF s1, of G] l w1 by (simp add: created_def)
      moreover have "decider_handles (w1\<lparr>lock := 0\<rparr>) = decider_handles w" using w1 by simp
      ultimately show ?thesis
        using inv1 dh none by (intro exI[of _ False] exI[of _ "w1\<lparr>lock := 0\<rparr>"] exI[of _ G]) auto
    next
      case q: (Some n)
      note w1 = host_alloc_Some[OF al[unfolded q]]
      let ?G = "G(a := add_to_chain c n (G a))"
      obtain w2 w3 where r: "(if c then gh_insert_front (Some a) (Some n) (w1\<lparr>nodes := (nodes w1)(n \<mapsto>
          \<lparr>n_prev = None, n_next = None, refcount = 1, decider = f, dvalue = v\<rparr>)\<rparr>)
        else gh_insert_back (Some a) (Some n) (w1\<lparr>nodes := (nodes w1)(n \<mapsto>
          \<lparr>n_prev = None, n_next = None, refcount = 1, decider = f, dvalue = v\<rparr>)\<rparr>)) = Some w2"
        "slot_write p k (Some n) w2 = Some w3"
        "w3 = w1\<lparr>nodes := nodes w3, infos := infos w3, decider_handles := set_slot (decider_handles w1) p k (Some n)\<rparr>"
        "reg_inv w3 ?G D P N"
        "reg_state w3 ?G = at_signals (\<lambda>i. i = j) (add_decider c (n, f, v)) (reg_state w1 G)"
        using reg_inv_new_decider[OF inv1, of j a ci n p dh k, OF _ _ _ _ _ _ _ _ refl, of c f v]
          Some a reg_inv_fresh[OF inv] dh k none w1 by auto
      have f3: "lock w3 = 1" "install_handles w3 = install_handles w" "refused w3 = refused w"
        "next_addr w3 = Suc (next_addr w)" "signo_to_sighandler_map w3 = signo_to_sighandler_map w"
        "kernel w3 = kernel w" "decider_handles w3 = set_slot (decider_handles w) p k (Some n)"
        by (subst r(3), simp add: w1)+
      have st: "reg_state w3 ?G = create_effect (\<lambda>i. i = j) c f v (\<lambda>_. n) (reg_state w G)"
        using r(5) reg_state_same[OF s1, of G] by (auto simp: create_effect_def at_signals_def fun_eq_iff)
      have wo: "without (\<lambda>m. next_addr w \<le> m) ?G = G"
        using G_old[OF inv] w1 by (intro without_new_chain) (auto simp: not_le)
      have h: "handled (reg_state w G) j" using Some a by (simp add: handled_def reg_state_def reg_abs_def registry_view_def)
      then have eq: "{i. i = j \<and> handled (reg_state w G) i} = {j}" by auto
      have hn: "handle_nodes (decider_handles w3) p = insert n (handle_nodes (decider_handles w) p)"
        using handle_nodes_set_slot[of "decider_handles w" p dh k n] dh len none f3(7) by simp
      have others: "decider_handles w3 h = decider_handles w h" if "h \<noteq> p" for h
        using that dh by (simp add: f3(7) set_slot_def)
      have "created p (\<lambda>i. i = j) c f v (\<lambda>_. n) w G (w3\<lparr>lock := 0\<rparr>) ?G"
        using f3(1-6) st wo l w1 others by (auto simp: created_def eq hn)
      moreover have "create_each p (dh_guarded dh) c f v (j # js) k w = create_each p (dh_guarded dh) c f v js (Suc k) (w3\<lparr>lock := 0\<rparr>)" for js
        using mem l get al q r(1,2) f3(1) by (cases c) (simp_all add: signo_map_is_end_def Let_def)
      moreover have "slot (decider_handles w3) p i = None" if "Suc k \<le> i" for i
        using none that slot_set_slot[of "decider_handles w" p dh k, OF dh len] by (simp add: f3(7))
      moreover have "\<exists>dh'. decider_handles w3 p = Some dh' \<and> dh_guarded dh' = dh_guarded dh"
        using dh by (simp add: f3(7) set_slot_def)
      ultimately show ?thesis
        using r(4) by (intro exI[of _ True] exI[of _ "w3\<lparr>lock := 0\<rparr>"] exI[of _ ?G] exI[of _ "\<lambda>_. n"]) auto
    qed
  qed
qed

lemma created_lock: "created p Q c f v \<nu> w G w' G' \<Longrightarrow> lock w' = lock w"
  by (simp add: created_def)

lemma create_each_ok:
  assumes "reg_inv w G D P N" "lock w = 0" "decider_handles w p = Some dh" "dh_guarded dh = g"
    "guarded_signos g = us @ filter (visited g) ks" "k = length us" "distinct ks"
    "\<forall>i \<ge> k. slot (decider_handles w) p i = None"
  shows "\<exists>ok w' G' \<nu> Q. create_each p g c f v ks k w = Some (ok, w') \<and> reg_inv w' G' D P N
    \<and> created p Q c f v \<nu> w G w' G' \<and> (\<forall>j. Q j \<longrightarrow> j \<in> set ks \<and> visited g j)
    \<and> (ok \<longrightarrow> (\<forall>j \<in> set ks. visited g j \<longrightarrow> Q j)) \<and> (\<exists>dh'. decider_handles w' p = Some dh')"
  using assms
proof (induction ks arbitrary: w G k us dh)
  case Nil
  then show ?case
    using created_none[OF Nil.prems(1)]
    by (intro exI[of _ True] exI[of _ w] exI[of _ G] exI[of _ undefined] exI[of _ "\<lambda>_. False"]) auto
next
  case (Cons j ks)
  show ?case
  proof (cases "visited g j")
    case False
    have gs: "guarded_signos g = us @ filter (visited g) ks" "distinct ks" using Cons.prems(5,7) False by auto
    obtain ok w' G' \<nu> Q where IH: "create_each p g c f v ks k w = Some (ok, w')" "reg_inv w' G' D P N"
      "created p Q c f v \<nu> w G w' G'" "\<forall>j. Q j \<longrightarrow> j \<in> set ks \<and> visited g j"
      "ok \<longrightarrow> (\<forall>j \<in> set ks. visited g j \<longrightarrow> Q j)" "\<exists>dh'. decider_handles w' p = Some dh'"
      using Cons.IH[OF Cons.prems(1-4) gs(1) Cons.prems(6) gs(2) Cons.prems(8)] by blast
    moreover have "create_each p g c f v (j # ks) k w = create_each p g c f v ks k w" using False by (auto simp: visited_def)
    ultimately show ?thesis using False
      by (intro exI[of _ ok] exI[of _ w'] exI[of _ G'] exI[of _ \<nu>] exI[of _ Q]) simp
  next
    case True
    have k: "k < length (guarded_signos (dh_guarded dh))" "guarded_signos (dh_guarded dh) ! k = j"
      "visited (dh_guarded dh) j"
      using Cons.prems(4-6) True by (simp_all add: nth_append)
    obtain ok w1 G1 \<nu>1 where r0: "\<forall>js. create_each p (dh_guarded dh) c f v (j # js) k w =
        (if ok then create_each p (dh_guarded dh) c f v js (Suc k) w1 else Some (False, w1))"
      "reg_inv w1 G1 D P N" "created p (\<lambda>i. ok \<and> i = j) c f v \<nu>1 w G w1 G1"
      "\<exists>dh'. decider_handles w1 p = Some dh' \<and> dh_guarded dh' = dh_guarded dh" "\<forall>i \<ge> Suc k. slot (decider_handles w1) p i = None"
      using create_one[OF Cons.prems(1-3) k(1,2) Cons.prems(8) k(3), of c f v] by (elim exE conjE) (rule that, assumption+, blast, assumption)
    obtain dh1 where dh1: "decider_handles w1 p = Some dh1" "dh_guarded dh1 = g" using r0(4) Cons.prems(4) by auto
    note r = r0(1)[unfolded Cons.prems(4), rule_format] r0(2,3) dh1 r0(5)
    show ?thesis
    proof (cases ok)
      case False
      have "created p (\<lambda>_. False) c f v \<nu>1 w G w1 G1" using r(3) False by simp
      moreover have "create_each p g c f v (j # ks) k w = Some (False, w1)" using r(1)[of ks] False by simp
      ultimately show ?thesis using r(2,4)
        by (intro exI[of _ False] exI[of _ w1] exI[of _ G1] exI[of _ \<nu>1] exI[of _ "\<lambda>_. False"]) simp
    next
      case ok: True
      have pre: "lock w1 = 0" "guarded_signos g = (us @ [j]) @ filter (visited g) ks" "Suc k = length (us @ [j])" "distinct ks"
        using created_lock[OF r(3)] Cons.prems(2,5,6,7) True by simp_all
      obtain ok' w' G' \<nu> Q where IH: "create_each p g c f v ks (Suc k) w1 = Some (ok', w')" "reg_inv w' G' D P N"
        "created p Q c f v \<nu> w1 G1 w' G'" "\<forall>j. Q j \<longrightarrow> j \<in> set ks \<and> visited g j"
        "ok' \<longrightarrow> (\<forall>j \<in> set ks. visited g j \<longrightarrow> Q j)" "\<exists>dh'. decider_handles w' p = Some dh'"
        using Cons.IH[OF r(2) pre(1) r(4,5) pre(2-4) r(6)] by blast
      have "created p (\<lambda>i. i = j \<or> Q i) c f v (\<lambda>i. if i = j then \<nu>1 i else \<nu> i) w G w' G'"
        using created_trans[OF _ IH(3), of "\<lambda>i. i = j" \<nu>1 w G] r(3) ok IH(4) Cons.prems(7) by auto
      moreover have "create_each p g c f v (j # ks) k w = Some (ok', w')" using r(1)[of ks] ok IH(1) by simp
      moreover have "\<forall>i. i = j \<or> Q i \<longrightarrow> i \<in> set (j # ks) \<and> visited g i" using IH(4) True by auto
      moreover have "ok' \<longrightarrow> (\<forall>i \<in> set (j # ks). visited g i \<longrightarrow> i = j \<or> Q i)" using IH(5) by auto
      ultimately show ?thesis using IH(2,6) by blast
    qed
  qed
qed



text \<open>Adding a handle whose slots are all empty.\<close>

lemma reg_inv_new_handle:
  assumes inv: "reg_inv w G D P N" and p: "decider_handles w p = None" "p < next_addr w"
  shows "reg_inv (w\<lparr>decider_handles := (decider_handles w)(p \<mapsto>
    \<lparr>dh_guarded = g, dh_slots = replicate (Suc (length (guarded_signos g))) None\<rparr>)\<rparr>) G D P N"
    "slot ((decider_handles w)(p \<mapsto> \<lparr>dh_guarded = g, dh_slots = replicate (Suc (length (guarded_signos g))) None\<rparr>)) h i
      = slot (decider_handles w) h i"
proof -
  let ?hs = "(decider_handles w)(p \<mapsto> \<lparr>dh_guarded = g, dh_slots = replicate (Suc (length (guarded_signos g))) None\<rparr>)"
  have sl: "slot ?hs h i = slot (decider_handles w) h i" for h i
    using p(1) by (auto simp: slot_def simp del: replicate.simps)
  then show "slot ?hs h i = slot (decider_handles w) h i" .
  have none: "slot (decider_handles w) p i = None" for i using p(1) by (simp add: slot_def)
  have "owned ?hs = owned (decider_handles w)" by (simp add: owned_def sl fun_eq_iff del: replicate.simps)
  with inv sl none p show "reg_inv (w\<lparr>decider_handles := ?hs\<rparr>) G D P N"
    by (auto simp: reg_inv_def own_inv_def home_inv_def kernel_inv_def fresh_inv_def simp del: replicate.simps)
qed

lemma drop_add_decider:
  "Q (fst x) \<Longrightarrow> (\<And>h y. fst s = Some h \<Longrightarrow> y \<in> set (ah_chain h) \<Longrightarrow> \<not> Q (fst y)) \<Longrightarrow> drop_nodes Q (add_decider c x s) = s"
  by (cases s rule: inst.cases) (auto simp: add_to_chain_def filter_id_conv)

lemma drop_nodes_none:
  "(\<And>h y. fst s = Some h \<Longrightarrow> y \<in> set (ah_chain h) \<Longrightarrow> \<not> Q (fst y)) \<Longrightarrow> drop_nodes Q s = s"
  by (cases s rule: inst.cases) (auto simp: filter_id_conv)

text \<open>Destroying the handle after (part of) its creation undoes the creation.\<close>

lemma drop_created:
  assumes inv: "reg_inv w G D P N" and cr: "created p Q c f v \<nu> w G w' G'" and none: "handle_nodes (decider_handles w) p = {}"
    and R: "R = (\<lambda>m. m \<in> handle_nodes (decider_handles w') p)"
  shows "drop_nodes R \<circ> reg_state w' G' = reg_state w G"
proof
  fix j
  have R': "R m \<longleftrightarrow> (\<exists>i. Q i \<and> handled (reg_state w G) i \<and> m = \<nu> i)" for m
    using cr none R by (auto simp: created_def)
  have new: "next_addr w \<le> m" if "R m" for m using that cr unfolding R' by (auto simp: created_def)
  have old: "\<not> R (fst y)" if "fst (reg_state w G j) = Some h" "y \<in> set (ah_chain h)" for h y
    using chain_nodes_old[OF inv that] new by (meson leD)
  have st: "reg_state w' G' j = (if Q j then add_decider c (\<nu> j, f, v) (reg_state w G j) else reg_state w G j)"
    using cr by (simp add: created_def create_effect_def)
  show "(drop_nodes R \<circ> reg_state w' G') j = reg_state w G j"
  proof (cases "Q j \<and> handled (reg_state w G) j")
    case True
    then have "R (\<nu> j)" unfolding R' by blast
    then show ?thesis using st True drop_add_decider[of R "(\<nu> j, f, v)" "reg_state w G j" c] old by simp
  next
    case False
    then have "reg_state w' G' j = reg_state w G j" using st add_decider_unhandled[of "reg_state w G" j c] by auto
    then show ?thesis using drop_nodes_none[of "reg_state w G j" R] old by simp
  qed
qed


text \<open>
  Creating deciders: with a set that guards nothing or no decider nothing happens; otherwise
  either every handled signal of the set gets the new decider at the chosen end of its
  chain, or memory ran out and the registry is as it was.
\<close>

lemma reg_state_chain:
  "reg_state w G j = (Some h, sa) \<Longrightarrow> \<exists>a. signo_lookup (signo_to_sighandler_map w) j = Some a
    \<and> ah_chain h = map (node_view (nodes w)) (G a)"
  by (auto simp: reg_state_def reg_abs_def registry_view_def handler_view_def split: option.splits)

lemma created_safe:
  assumes inv: "reg_inv w' G' D P N" and cr: "created p Q c f v \<nu> w G w' G'" and none: "handle_nodes (decider_handles w) p = {}"
  shows "destroy_safe (signo_to_sighandler_map w') (decider_handles w') p G' N"
  unfolding destroy_safe_def
proof (intro allI impI disjI1)
  fix n b assume n: "n \<in> handle_nodes (decider_handles w') p" "n \<in> set (G' b)"
  obtain j where j: "Q j" "handled (reg_state w G) j" "n = \<nu> j" using n(1) cr none by (auto simp: created_def)
  obtain h sa where s: "reg_state w G j = (Some h, sa)" using j(2) by (cases "reg_state w G j" rule: inst.cases) (auto simp: handled_def)
  have "reg_state w' G' j = (Some (h\<lparr>ah_chain := add_to_chain c (n, f, v) (ah_chain h)\<rparr>), sa)"
    using cr j s by (simp add: created_def create_effect_def)
  then obtain a where "signo_lookup (signo_to_sighandler_map w') j = Some a"
    "add_to_chain c (n, f, v) (ah_chain h) = map (node_view (nodes w')) (G' a)"
    using reg_state_chain[of w' G' j] by fastforce
  note a = this
  have "(n, f, v) \<in> set (map (node_view (nodes w')) (G' a))" unfolding a(2)[symmetric] by simp
  then have "n \<in> set (G' a)" by (auto simp: node_view_def)
  with a(1) show "b \<in> ran (signo_lookup (signo_to_sighandler_map w'))"
    using disjoint_listsD(2)[OF lists_inv_disjoint[OF reg_inv_lists[OF inv]] n(2)] by (auto simp: ran_def)
qed

lemma guarded_signos_visited: "guarded_signos g = filter (visited g) [1..NSIG - 1]"
  by (auto simp: guarded_signos_def visited_def intro!: filter_cong)

lemma signal_decider_create_ok:
  assumes inv: "reg_inv w G D P N" and l: "lock w = 0"
    and gs: "guarded_signos g \<noteq> []"
  shows "\<exists>r w' G' D'. signal_decider_create (Some g) c (Some f) v w = Some (r, w') \<and> lock w' = 0
    \<and> install_handles w' = install_handles w \<and> (\<forall>b. D' b = D b \<or> D' b = []) \<and> reg_inv w' G' D' P N
    \<and> without (\<lambda>m. next_addr w \<le> m) G' = G
    \<and> (case r of
         Some p \<Rightarrow> decider_handles w p = None \<and> (\<forall>h. h \<noteq> p \<longrightarrow> decider_handles w' h = decider_handles w h)
           \<and> (\<exists>\<nu>. handle_nodes (decider_handles w') p = \<nu> ` {j. visited g j \<and> handled (reg_state w G) j}
             \<and> (\<exists>dh. decider_handles w' p = Some dh)
             \<and> (\<forall>j. visited g j \<and> handled (reg_state w G) j \<longrightarrow> next_addr w \<le> \<nu> j)
             \<and> reg_state w' G' = create_effect (visited g) c f v \<nu> (reg_state w G))
       | None \<Rightarrow> decider_handles w' = decider_handles w \<and> reg_state w' G' = reg_state w G)"
proof (cases "host_alloc w")
  case (Pair q w1)
  note s1 = host_alloc_same[OF Pair]
  note inv1 = reg_inv_same[OF s1 inv]
  have base: "without (\<lambda>m. next_addr w \<le> m) G = G" using G_old[OF inv] by (intro without_none) (auto simp: not_le)
  show ?thesis
  proof (cases q)
    case None
    then have "signal_decider_create (Some g) c (Some f) v w = Some (None, w1)"
      using Pair gs by (simp add: signal_decider_create_def)
    then show ?thesis
      using inv1 s1 l reg_state_same[OF s1] base
      by - (rule exI[of _ None], rule exI[of _ w1], rule exI[of _ G], rule exI[of _ D], simp add: same_registry_def)
  next
    case (Some p)
    note w1 = host_alloc_Some[OF Pair[unfolded Some]]
    define dh where "dh = \<lparr>dh_guarded = g, dh_slots = replicate (Suc (length (guarded_signos g))) None :: ptr list\<rparr>"
    define w2 where "w2 = w1\<lparr>decider_handles := (decider_handles w1)(p \<mapsto> dh)\<rparr>"
    have fr: "decider_handles w p = None" using reg_inv_fresh[OF inv] w1 by simp
    have p1: "decider_handles w1 p = None" "p < next_addr w1" using fr w1 by simp_all
    have inv2: "reg_inv w2 G D P N" using reg_inv_new_handle(1)[OF inv1 p1, of g] by (simp only: w2_def dh_def)
    have sl2: "slot (decider_handles w2) h i = slot (decider_handles w) h i" for h i
      using reg_inv_new_handle(2)[OF inv1 p1, of g h i] w1 by (simp add: w2_def dh_def del: replicate.simps)
    have st2: "reg_state w2 G = reg_state w G" using reg_state_same[OF s1] by (simp add: w2_def)
    have hn2: "handle_nodes (decider_handles w2) p = {}" unfolding handle_nodes_def sl2 using fr by (simp add: slot_def)
    have f2: "lock w2 = 0" "decider_handles w2 p = Some dh" "install_handles w2 = install_handles w"
      "next_addr w2 = Suc (next_addr w)" "(decider_handles w2)(p := None) = decider_handles w"
      "\<And>h. h \<noteq> p \<Longrightarrow> decider_handles w2 h = decider_handles w h"
      using l w1 fr by (auto simp: w2_def fun_eq_iff)
    have gs2: "guarded_signos g = [] @ filter (visited g) [1..NSIG - 1]" by (simp add: guarded_signos_visited)
    have g2: "dh_guarded dh = g" by (simp add: dh_def)
    have none2: "\<forall>i \<ge> 0. slot (decider_handles w2) p i = None" unfolding sl2 using fr by (simp add: slot_def)
    obtain ok w3 G3 \<nu> Q where r: "create_each p g c f v [1..NSIG - 1] 0 w2 = Some (ok, w3)" "reg_inv w3 G3 D P N"
      "created p Q c f v \<nu> w2 G w3 G3" "\<forall>j. Q j \<longrightarrow> j \<in> set [1..NSIG - 1] \<and> visited g j"
      "ok \<longrightarrow> (\<forall>j \<in> set [1..NSIG - 1]. visited g j \<longrightarrow> Q j)" "\<exists>dh'. decider_handles w3 p = Some dh'"
      using create_each_ok[OF inv2 f2(1,2) g2 gs2 _ distinct_upto none2, of c f v] by (elim meta_impE exE conjE) (simp, blast)
    have all: "visited g j \<Longrightarrow> j \<in> set [1..NSIG - 1]" for j using visited_range by auto
    have "without (\<lambda>m. next_addr w \<le> m) G3 = without (\<lambda>m. next_addr w \<le> m) (without (\<lambda>m. Suc (next_addr w) \<le> m) G3)"
      unfolding without_without by (auto simp: without_def fun_eq_iff intro!: filter_cong)
    also have "\<dots> = G" using r(3) base by (simp add: created_def f2(4))
    finally have wo3: "without (\<lambda>m. next_addr w \<le> m) G3 = G" .
    have f3: "lock w3 = 0" "install_handles w3 = install_handles w" "\<And>h. h \<noteq> p \<Longrightarrow> decider_handles w3 h = decider_handles w h"
      using r(3) f2 by (auto simp: created_def)
    show ?thesis
    proof (cases ok)
      case True
      then have Q: "Q = visited g" using r(4,5) all by blast
      have "signal_decider_create (Some g) c (Some f) v w = Some (Some p, w3)"
        using Pair Some gs r(1) True by (simp add: signal_decider_create_def w2_def dh_def)
      moreover have "handle_nodes (decider_handles w3) p = \<nu> ` {j. visited g j \<and> handled (reg_state w G) j}"
        "reg_state w3 G3 = create_effect (visited g) c f v \<nu> (reg_state w G)"
        "\<forall>j. visited g j \<and> handled (reg_state w G) j \<longrightarrow> next_addr w \<le> \<nu> j"
        using r(3) by (auto simp: created_def Q st2 hn2 f2(4))
      ultimately show ?thesis
        using r(2,6) f3 fr wo3
        by - (rule exI[of _ "Some p"], rule exI[of _ w3], rule exI[of _ G3], rule exI[of _ D], auto)
    next
      case False
      let ?Q = "\<lambda>m. m \<in> handle_nodes (decider_handles w3) p \<and> N m = 0"
      obtain dh' where dh': "decider_handles w3 p = Some dh'" using r(6) by blast
      have new: "next_addr w \<le> m" "N m = 0" if "m \<in> handle_nodes (decider_handles w3) p" for m
      proof -
        show "next_addr w \<le> m" using that r(3) hn2 f2(4) by (auto simp: created_def)
        then show "N m = 0" using reg_inv_fresh_all[OF inv] inv unfolding reg_inv_def own_inv_def by blast
      qed
      obtain w4 D4 where d: "signal_decider_destroy (Some p) w3 = Some (0, w4)" "outer_same w3 w4"
        "decider_handles w4 = (decider_handles w3)(p := None)" "\<forall>b. D4 b = D b \<or> D4 b = []"
        "reg_inv w4 (without ?Q G3) D4 P N" "reg_state w4 (without ?Q G3) = drop_nodes ?Q \<circ> reg_state w3 G3"
        using signal_decider_destroy_ok[OF r(2) f3(1) dh' created_safe[OF r(2,3) hn2]] by blast
      have "?Q = (\<lambda>m. m \<in> handle_nodes (decider_handles w3) p)" using new(2) by auto
      then have st4: "reg_state w4 (without ?Q G3) = reg_state w G"
        using drop_created[OF inv2 r(3) hn2 refl] st2 d(6) by simp
      have wo4: "without (\<lambda>m. next_addr w \<le> m) (without ?Q G3) = G"
      proof -
        have "(\<lambda>m. ?Q m \<or> next_addr w \<le> m) = (\<lambda>m. next_addr w \<le> m)" using new(1) by auto
        then show ?thesis using wo3 unfolding without_without by simp
      qed
      have "signal_decider_create (Some g) c (Some f) v w = Some (None, w4\<lparr>errno := errno w3\<rparr>)"
        using Pair Some gs r(1) False d(1) by (simp add: signal_decider_create_def w2_def dh_def)
      moreover have "decider_handles w4 = decider_handles w" using d(3) f3(3) fr by (auto simp: fun_eq_iff)
      ultimately show ?thesis
        using d(2,4,5) st4 f3(1,2) wo4
        by - (rule exI[of _ None], rule exI[of _ "w4\<lparr>errno := errno w3\<rparr>"], rule exI[of _ "without ?Q G3"], rule exI[of _ D4],
          simp add: outer_same_def)
    qed
  qed
qed

section \<open>Properties of creating and destroying deciders\<close>

text \<open>With no raise in flight every live container is in the map, so destroying is safe.\<close>

lemma destroy_safe_quiet:
  assumes inv: "reg_inv w G D (\<lambda>_. 0) N"
  shows "destroy_safe (signo_to_sighandler_map w) hs p G N"
proof -
  have "b \<in> ran (signo_lookup (signo_to_sighandler_map w))" if "n \<in> set (G b)" for n b
    using lists_inv_live(2)[OF reg_inv_lists[OF inv], of n b] that inv unfolding reg_inv_def life_inv_def by auto
  then show ?thesis by (auto simp: destroy_safe_def)
qed

lemma signal_decider_destroy_rel:
  assumes rel: "registry_rel w s" and p: "decider_handles w p = Some dh"
  shows "\<exists>w'. signal_decider_destroy (Some p) w = Some (0, w') \<and> install_handles w' = install_handles w
    \<and> decider_handles w' = (decider_handles w)(p := None)
    \<and> registry_rel w' (drop_nodes (\<lambda>m. m \<in> handle_nodes (decider_handles w) p) \<circ> s)"
proof -
  obtain G D where w: "lock w = 0" "reg_inv w G D (\<lambda>_. 0) (\<lambda>_. 0)" "s = reg_state w G"
    using rel by (auto simp: registry_rel_def)
  let ?Q = "\<lambda>m. m \<in> handle_nodes (decider_handles w) p"
  obtain w' D' where d: "signal_decider_destroy (Some p) w = Some (0, w')" "outer_same w w'"
    "decider_handles w' = (decider_handles w)(p := None)" "reg_inv w' (without ?Q G) D' (\<lambda>_. 0) (\<lambda>_. 0)"
    "reg_state w' (without ?Q G) = drop_nodes ?Q \<circ> reg_state w G"
    using signal_decider_destroy_ok[OF w(2,1) p destroy_safe_quiet[OF w(2)]] by auto
  then show ?thesis using registry_relI[OF _ d(4,5)] w(1,3) by (auto simp: outer_same_def)
qed

definition chain_nodes :: "(int \<Rightarrow> signal_state) \<Rightarrow> addr set" where
  "chain_nodes s = {n. \<exists>j h x. fst (s j) = Some h \<and> x \<in> set (ah_chain h) \<and> n = fst x}"

lemma signal_decider_create_rel:
  assumes rel: "registry_rel w s" and gs: "guarded_signos g \<noteq> []"
  shows "\<exists>r w'. signal_decider_create (Some g) c (Some f) v w = Some (r, w') \<and> install_handles w' = install_handles w
    \<and> (case r of
         Some p \<Rightarrow> decider_handles w p = None \<and> (\<forall>h. h \<noteq> p \<longrightarrow> decider_handles w' h = decider_handles w h)
           \<and> (\<exists>dh. decider_handles w' p = Some dh)
           \<and> (\<exists>\<nu>. handle_nodes (decider_handles w') p = \<nu> ` {j. visited g j \<and> handled s j}
             \<and> (\<forall>j. visited g j \<and> handled s j \<longrightarrow> \<nu> j \<notin> chain_nodes s)
             \<and> registry_rel w' (create_effect (visited g) c f v \<nu> s))
       | None \<Rightarrow> decider_handles w' = decider_handles w \<and> registry_rel w' s)"
proof -
  obtain G D where w: "lock w = 0" "reg_inv w G D (\<lambda>_. 0) (\<lambda>_. 0)" and st: "s = reg_state w G"
    using rel by (auto simp: registry_rel_def)
  obtain r w' G' D' where r: "signal_decider_create (Some g) c (Some f) v w = Some (r, w')" "lock w' = 0"
    "install_handles w' = install_handles w" "reg_inv w' G' D' (\<lambda>_. 0) (\<lambda>_. 0)"
    "case r of
         Some p \<Rightarrow> decider_handles w p = None \<and> (\<forall>h. h \<noteq> p \<longrightarrow> decider_handles w' h = decider_handles w h)
           \<and> (\<exists>\<nu>. handle_nodes (decider_handles w') p = \<nu> ` {j. visited g j \<and> handled s j}
             \<and> (\<exists>dh. decider_handles w' p = Some dh)
             \<and> (\<forall>j. visited g j \<and> handled s j \<longrightarrow> next_addr w \<le> \<nu> j)
             \<and> reg_state w' G' = create_effect (visited g) c f v \<nu> s)
       | None \<Rightarrow> decider_handles w' = decider_handles w \<and> reg_state w' G' = s"
    using signal_decider_create_ok[OF w(2,1) gs, of c f v] unfolding st by blast
  have old: "next_addr w \<le> n \<Longrightarrow> n \<notin> chain_nodes s" for n
    using chain_nodes_old[OF w(2)] by (fastforce simp: chain_nodes_def st)
  show ?thesis
  proof (cases r)
    case None
    then show ?thesis using r registry_relI[OF r(2,4)] by auto
  next
    case (Some p)
    then obtain \<nu> where "handle_nodes (decider_handles w') p = \<nu> ` {j. visited g j \<and> handled s j}"
      "\<forall>j. visited g j \<and> handled s j \<longrightarrow> next_addr w \<le> \<nu> j"
      "reg_state w' G' = create_effect (visited g) c f v \<nu> s" using r(5) by auto
    then have "handle_nodes (decider_handles w') p = \<nu> ` {j. visited g j \<and> handled s j}
      \<and> (\<forall>j. visited g j \<and> handled s j \<longrightarrow> \<nu> j \<notin> chain_nodes s) \<and> registry_rel w' (create_effect (visited g) c f v \<nu> s)"
      using old registry_relI[OF r(2,4)] by blast
    then show ?thesis using r Some by auto
  qed
qed

text \<open>Taking the new nodes out again leaves the chains as they were.\<close>

lemma drop_create_effect:
  assumes N: "N = \<nu> ` {j. Q j \<and> handled s j}" and fresh: "\<forall>j. Q j \<and> handled s j \<longrightarrow> \<nu> j \<notin> chain_nodes s"
  shows "drop_nodes (\<lambda>m. m \<in> N) \<circ> create_effect Q c f v \<nu> s = s"
proof
  fix j
  have old: "fst y \<notin> N" if "fst (s j) = Some h" "y \<in> set (ah_chain h)" for h y
  proof -
    have "fst y \<in> chain_nodes s" using that unfolding chain_nodes_def by blast
    then show ?thesis using fresh by (auto simp: N)
  qed
  show "(drop_nodes (\<lambda>m. m \<in> N) \<circ> create_effect Q c f v \<nu> s) j = s j"
  proof (cases "Q j \<and> handled s j")
    case True
    then have "\<nu> j \<in> N" by (auto simp: N)
    then show ?thesis using True old drop_add_decider[of "\<lambda>m. m \<in> N" "(\<nu> j, f, v)" "s j" c] by (simp add: create_effect_def)
  next
    case False
    then have "create_effect Q c f v \<nu> s j = s j" by (auto simp: create_effect_def add_decider_unhandled)
    then show ?thesis using old drop_nodes_none[of "s j" "\<lambda>m. m \<in> N"] by simp
  qed
qed

lemma guarded_signos_usr1: "guarded_signos {10} = [10]" by code_simp

definition usr1_world :: sig_world where
  "usr1_world = snd (the (siginstall native_tss [] (Some {10}) (sig_world_init\<lparr>tss := Some []\<rparr>)))"

lemma usr1_world_facts:
  shows usr1_installed: "siginstall native_tss [] (Some {10}) (sig_world_init\<lparr>tss := Some []\<rparr>) = Some (Some 1, usr1_world)"
      "install_handles usr1_world = [1 \<mapsto> {10}]" "decider_handles usr1_world = (\<lambda>_. None)"
    and usr1_world_rel: "registry_rel usr1_world (at_signals (visited {10}) inst (\<lambda>_. (None, sigaction_zero)))"
proof -
  let ?w = "sig_world_init\<lparr>tss := Some []\<rparr>"
  have S: "{10} = siginstall_set [] (Some {10})" by (simp add: siginstall_set_def)
  have "map_option fst (siginstall native_tss [] (Some {10}) ?w) = Some (Some 1)" by code_simp
  then show i: "siginstall native_tss [] (Some {10}) ?w = Some (Some 1, usr1_world)" by (auto simp: usr1_world_def)
  have r: "decider_handles usr1_world = decider_handles ?w" "install_handles usr1_world = (install_handles ?w)(1 \<mapsto> {10})"
    "registry_rel usr1_world (at_signals (visited {10}) inst (\<lambda>_. (None, sigaction_zero)))"
    using siginstall_rel[OF registry_rel_init[of "Some []"] S] i by auto
  then show "install_handles usr1_world = [1 \<mapsto> {10}]" "decider_handles usr1_world = (\<lambda>_. None)"
    "registry_rel usr1_world (at_signals (visited {10}) inst (\<lambda>_. (None, sigaction_zero)))"
    by (simp_all add: sig_world_init_def)
qed

definition usr1_decider_world :: sig_world where
  "usr1_decider_world = snd (the (signal_decider_create (Some {10}) False (Some 7) 42 usr1_world))"

lemma usr1_decider_created: "map_option fst (signal_decider_create (Some {10}) False (Some 7) 42 usr1_world) = Some (Some 3)"
  by code_simp

text \<open>
  C10 (refinement). \<^verbatim>\<open>signal_decider_create\<close> for a set that guards at least one signal returns
  whichever allocation fails. Null: no chain, handle or disposition has changed (what it had
  already linked is unlinked and freed again). A handle: it is new, and a new node with the
  decider and its value stands at the front (\<^verbatim>\<open>callfirst\<close>) or the back of the chain of
  every guarded signal that has a handler, and of no other signal.
\<close>

theorem signal_decider_create_refines:
  assumes "registry_rel w s" "guarded_signos g \<noteq> []"
  shows "\<exists>r w'. signal_decider_create (Some g) c (Some f) v w = Some (r, w') \<and> install_handles w' = install_handles w
    \<and> (case r of
         Some p \<Rightarrow> decider_handles w p = None \<and> (\<forall>h. h \<noteq> p \<longrightarrow> decider_handles w' h = decider_handles w h)
           \<and> (\<exists>dh. decider_handles w' p = Some dh)
           \<and> (\<exists>\<nu>. handle_nodes (decider_handles w') p = \<nu> ` {j. visited g j \<and> handled s j}
             \<and> (\<forall>j. visited g j \<and> handled s j \<longrightarrow> \<nu> j \<notin> chain_nodes s)
             \<and> registry_rel w' (create_effect (visited g) c f v \<nu> s))
       | None \<Rightarrow> decider_handles w' = decider_handles w \<and> registry_rel w' s)"
  by (rule signal_decider_create_rel[OF assms])

theorem signal_decider_create_refines_witness:
  "\<exists>r w'. signal_decider_create (Some {10}) True (Some 7) 42 usr1_world = Some (r, w')
    \<and> (case r of
         Some p \<Rightarrow> (\<exists>\<nu>. registry_rel w' (create_effect (visited {10}) True 7 42 \<nu>
             (at_signals (visited {10}) inst (\<lambda>_. (None, sigaction_zero)))))
       | None \<Rightarrow> registry_rel w' (at_signals (visited {10}) inst (\<lambda>_. (None, sigaction_zero))))"
proof -
  have "guarded_signos {10} \<noteq> []" by (simp add: guarded_signos_usr1)
  from signal_decider_create_refines[OF usr1_world_rel this, of True 7 42]
  show ?thesis by (elim exE conjE) (auto split: option.splits)
qed

lemma usr1_decider_world_handle:
  obtains dh \<nu> where "decider_handles usr1_decider_world 3 = Some dh"
    "registry_rel usr1_decider_world (create_effect (visited {10}) False 7 42 \<nu> (at_signals (visited {10}) inst (\<lambda>_. (None, sigaction_zero))))"
proof -
  have g: "guarded_signos {10} \<noteq> []" by (simp add: guarded_signos_usr1)
  obtain w' where "signal_decider_create (Some {10}) False (Some 7) 42 usr1_world = Some (Some 3, w')"
    using usr1_decider_created by auto
  then show ?thesis using that signal_decider_create_rel[OF usr1_world_rel g, of False 7 42]
    by (auto simp: usr1_decider_world_def)
qed

text \<open>
  C11 (refinement). \<^verbatim>\<open>signal_decider_destroy\<close> of a live handle, with no raise in flight, always
  returns zero, frees the handle and takes exactly the nodes of that handle out of every
  chain, leaving the order of the others and every other handle as they were.
\<close>

theorem signal_decider_destroy_refines:
  assumes "registry_rel w s" "decider_handles w p = Some dh"
  shows "\<exists>w'. signal_decider_destroy (Some p) w = Some (0, w') \<and> install_handles w' = install_handles w
    \<and> decider_handles w' = (decider_handles w)(p := None)
    \<and> registry_rel w' (drop_nodes (\<lambda>m. m \<in> handle_nodes (decider_handles w) p) \<circ> s)"
  by (rule signal_decider_destroy_rel[OF assms])

theorem signal_decider_destroy_refines_witness:
  "\<exists>s w'. registry_rel usr1_decider_world s \<and> signal_decider_destroy (Some 3) usr1_decider_world = Some (0, w')
    \<and> decider_handles w' = (decider_handles usr1_decider_world)(3 := None)
    \<and> registry_rel w' (drop_nodes (\<lambda>m. m \<in> handle_nodes (decider_handles usr1_decider_world) 3) \<circ> s)"
  by (rule usr1_decider_world_handle) (use signal_decider_destroy_refines in blast)

text \<open>
  Roundtrip. Destroying a handle right after \<^verbatim>\<open>signal_decider_create\<close> returned it gives
  every signal the chain it had before, and leaves the handles that were live before.
\<close>

theorem create_destroy_roundtrip:
  assumes rel: "registry_rel w s" and gs: "guarded_signos g \<noteq> []"
    and c: "signal_decider_create (Some g) c (Some f) v w = Some (Some p, w1)"
  shows "\<exists>w2. signal_decider_destroy (Some p) w1 = Some (0, w2) \<and> registry_rel w2 s
    \<and> decider_handles w2 = decider_handles w \<and> install_handles w2 = install_handles w"
proof -
  obtain \<nu> dh where w1: "install_handles w1 = install_handles w" "decider_handles w p = None"
    "\<forall>h. h \<noteq> p \<longrightarrow> decider_handles w1 h = decider_handles w h" "decider_handles w1 p = Some dh"
    "handle_nodes (decider_handles w1) p = \<nu> ` {j. visited g j \<and> handled s j}"
    "\<forall>j. visited g j \<and> handled s j \<longrightarrow> \<nu> j \<notin> chain_nodes s"
    "registry_rel w1 (create_effect (visited g) c f v \<nu> s)"
    using signal_decider_create_rel[OF rel gs, of c f v] c by auto
  have "(decider_handles w1)(p := None) = decider_handles w" using w1(2,3) by (auto simp: fun_eq_iff)
  then show ?thesis using signal_decider_destroy_rel[OF w1(7,4)] w1(1) drop_create_effect[OF w1(5,6)] by auto
qed

theorem create_destroy_roundtrip_witness:
  "\<exists>w1 w2. signal_decider_create (Some {10}) False (Some 7) 42 usr1_world = Some (Some 3, w1)
    \<and> signal_decider_destroy (Some 3) w1 = Some (0, w2)
    \<and> registry_rel w2 (at_signals (visited {10}) inst (\<lambda>_. (None, sigaction_zero)))
    \<and> decider_handles w2 = decider_handles usr1_world"
proof -
  have g: "guarded_signos {10} \<noteq> []" by (simp add: guarded_signos_usr1)
  obtain w1 where "signal_decider_create (Some {10}) False (Some 7) 42 usr1_world = Some (Some 3, w1)"
    using usr1_decider_created by auto
  then show ?thesis using create_destroy_roundtrip[OF usr1_world_rel g] by blast
qed

lemma signal_decider_create_refused:
  assumes "g = None \<or> f = None \<or> guarded_signos (the g) = []"
  shows "signal_decider_create g c f v w = Some (None, w\<lparr>errno := EINVAL\<rparr>)"
  using assms by (cases g) (auto simp: signal_decider_create_def)

text \<open>
  Error. A null handle given to \<^verbatim>\<open>siguninstall\<close> or \<^verbatim>\<open>signal_decider_destroy\<close>, a null set
  or decider or a set that guards no signal given to \<^verbatim>\<open>signal_decider_create\<close>, and an
  unknown version given to \<^verbatim>\<open>siguninstall_system\<close> are refused with \<^verbatim>\<open>EINVAL\<close> and change
  nothing else, whatever the state.
\<close>

theorem invalid_arguments_refused:
  "siguninstall B None w = Some (-1, w\<lparr>errno := EINVAL\<rparr>)
   \<and> signal_decider_destroy None w = Some (-1, w\<lparr>errno := EINVAL\<rparr>)
   \<and> (g = None \<or> f = None \<or> guarded_signos (the g) = [] \<longrightarrow>
       signal_decider_create g c f v w = Some (None, w\<lparr>errno := EINVAL\<rparr>))
   \<and> (version \<noteq> 0 \<longrightarrow> siguninstall_system version w = (-1, w\<lparr>errno := EINVAL\<rparr>))
   \<and> siguninstall_system 0 w = (0, w)"
  using signal_decider_create_refused[of g f c v w]
  by (auto simp: siguninstall_def signal_decider_destroy_def siguninstall_system_def)

theorem invalid_arguments_refused_witness:
  "signal_decider_create (Some {9, 19}) True (Some 7) 0 sig_world_init = Some (None, sig_world_init\<lparr>errno := EINVAL\<rparr>)
   \<and> siguninstall_system 1 sig_world_init = (-1, sig_world_init\<lparr>errno := EINVAL\<rparr>)"
proof -
  have "guarded_signos {9, 19} = []" by code_simp
  then show ?thesis
    using invalid_arguments_refused[of native_tss sig_world_init "Some {9, 19}" "Some 7" True 0 1] by simp
qed

end
