(* ===== verification/Posix_Raise.thy ===== *)
theory Posix_Raise
  imports Registry
begin

unbundle bit_operations_syntax

text \<open>
  Raising a signal on POSIX (\<^verbatim>\<open>thrd_signal_handle_posix.c.ipp\<close>): the walk over the calling
  thread's guarded sections, the global decider chain, the hand-off to the previously
  installed handler, \<^verbatim>\<open>sigguarded\<close> itself, and abandoning a decider. Deciders, guarded
  functions and recovery functions are the user's code: they are arguments of the
  operations, as functions on the whole state, so that they may call back into the library.
\<close>

section \<open>Types\<close>

record stdc_siginfo =
  signo :: int
  error_code :: int
  si_fault_addr :: "64 word"
  si_value :: siginfo_value
  raw_info :: "siginfo option"
  raw_context :: "nat option"
  internal_local_decider :: "frame list"
  internal_sighandler :: ptr
  internal_global_decider :: ptr
  internal_decider_is_abandoned :: bool

datatype sig_decision =
    sig_decision_next_decider
  | sig_decision_resume_execution
  | sig_decision_call_recovery

text \<open>A decider returns a decision, or leaves for good through a \<^verbatim>\<open>longjmp\<close> of its own.\<close>

datatype dec_outcome = Returns sig_decision | Leaves

type_synonym decide_fn =
  "fnptr \<Rightarrow> stdc_siginfo \<Rightarrow> sig_world \<Rightarrow> (dec_outcome \<times> stdc_siginfo \<times> sig_world) option"

text \<open>
  How \<^verbatim>\<open>stdc_raise\<close> ends: it returns a value, it jumps back into the \<^verbatim>\<open>sigguarded\<close> of a
  frame, a decider left it, or the default action ended the process.
\<close>

datatype raise_outcome = Raised bool | Recover frame stdc_siginfo | Left_By_Decider | Terminated

definition SI_USER :: int where "SI_USER = 0"

section \<open>Preparing the information for deciders\<close>

definition prepare_rsi ::
  "stdc_siginfo \<Rightarrow> int \<Rightarrow> siginfo option \<Rightarrow> nat option \<Rightarrow> stdc_siginfo" where
  "prepare_rsi rsi sig info context =
     (let rsi = rsi\<lparr>signo := sig, raw_context := context\<rparr>;
          rsi = (case info of
              Some i \<Rightarrow> rsi\<lparr>raw_info := info, error_code := si_errno i, si_fault_addr := si_addr i\<rparr>
            | None \<Rightarrow> rsi\<lparr>raw_info := None, error_code := 0, si_fault_addr := 0\<rparr>)
      in rsi\<lparr>internal_decider_is_abandoned := False, internal_global_decider := None,
           internal_local_decider := [], internal_sighandler := None\<rparr>)"

section \<open>The hand-off to the previous handler\<close>

text \<open>
  Signals whose default action ends the process when the thread sends one to itself; the
  others are ignored, stop the process or continue it.
\<close>

definition default_terminates :: "int \<Rightarrow> bool" where
  "default_terminates sig \<longleftrightarrow>
     sig \<notin> {SIGCHLD, SIGURG, SIGWINCH, SIGSTOP, SIGTSTP, SIGTTIN, SIGTTOU, SIGCONT}"

datatype invoke_outcome = Invoked bool | Killed

text \<open>
  Calling through the handler member of a \<^verbatim>\<open>struct sigaction\<close>: a user function is recorded
  in the trace; \<^verbatim>\<open>SIG_DFL\<close> and \<^verbatim>\<open>SIG_IGN\<close> are not functions, so calling them is a fault, and
  so is calling the library's own raw handler, which would recurse without end.
\<close>

definition call_sa_sigaction ::
  "sa_handler_t \<Rightarrow> int \<Rightarrow> siginfo \<Rightarrow> nat option \<Rightarrow> sig_world \<Rightarrow> sig_world option" where
  "call_sa_sigaction fn sig info context w =
     (case fn of User_Handler f \<Rightarrow>
        Some (w\<lparr>events := events w @ [Ev_Sigaction_Handler f sig info context]\<rparr>)
      | _ \<Rightarrow> None)"

definition call_sa_handler :: "sa_handler_t \<Rightarrow> int \<Rightarrow> sig_world \<Rightarrow> sig_world option" where
  "call_sa_handler fn sig w =
     (case fn of User_Handler f \<Rightarrow> Some (w\<lparr>events := events w @ [Ev_Handler f sig]\<rparr>)
      | _ \<Rightarrow> None)"

definition invoke_sigaction ::
  "sigaction \<Rightarrow> int \<Rightarrow> siginfo option \<Rightarrow> nat option \<Rightarrow> sig_world \<Rightarrow> (invoke_outcome \<times> sig_world) option" where
  "invoke_sigaction sa sig info context w =
     (if sa_flags sa AND SA_SIGINFO \<noteq> 0
      then do {
        w \<leftarrow> (case info of
            None \<Rightarrow> call_sa_sigaction (sa_handler sa) sig
              \<lparr>si_signo = sig, si_errno = 0, si_code = SI_USER, si_addr = 0\<rparr> context w
          | Some i \<Rightarrow> call_sa_sigaction (sa_handler sa) sig i context w);
        Some (Invoked True, w)
      }
      else if sa_handler sa = SIG_DFL
      then if sig = SIGCHLD \<or> sig = SIGURG \<or> sig = SIGWINCH then Some (Invoked False, w)
      else (let current = kernel w sig;
                (r, old, w) = host_sigaction sig sigaction_zero w;
                w = w\<lparr>events := events w @ [Ev_Kill_Self sig]\<rparr>
            in if sa_handler (kernel w sig) = SIG_DFL \<and> default_terminates sig
               then Some (Killed, w)
               else (case host_sigaction sig current w of (r, old, w) \<Rightarrow> Some (Invoked True, w)))
      else if sa_handler sa = SIG_IGN then Some (Invoked False, w)
      else do { w \<leftarrow> call_sa_handler (sa_handler sa) sig w; Some (Invoked True, w) })"

section \<open>Per-thread state\<close>

text \<open>
  With native thread locals: the pointer is null until the first use on the thread, then
  it points to a zeroed object whose member \<^verbatim>\<open>front\<close> heads the frame chain. The callback
  that frees the object at thread exit is registered with \<^verbatim>\<open>__cxa_thread_atexit\<close>, whose
  wrapper always answers zero.
\<close>

definition sig_global_tss_state_init :: "sig_world \<Rightarrow> int \<times> sig_world" where
  "sig_global_tss_state_init w =
     (if tss w \<noteq> None then (0, w)
      else (case host_alloc w of
        (None, w) \<Rightarrow> (-1, w\<lparr>errno := ENOMEM\<rparr>)
      | (Some a, w) \<Rightarrow> (0, w\<lparr>tss := Some []\<rparr>)))"

section \<open>Raising\<close>

text \<open>The uninitialised local variable \<^verbatim>\<open>rsi\<close>: every member is written before it is read.\<close>

definition rsi_uninit :: stdc_siginfo where
  "rsi_uninit = \<lparr>signo = 0, error_code = 0, si_fault_addr = 0, si_value = 0, raw_info = None,
     raw_context = None, internal_local_decider = [], internal_sighandler = None,
     internal_global_decider = None, internal_decider_is_abandoned = False\<rparr>"

definition log_event :: "event \<Rightarrow> sig_world \<Rightarrow> sig_world" where
  "log_event e w = w\<lparr>events := events w @ [e]\<rparr>"

text \<open>
  The walk from the innermost guarded section outwards. The answer \<^term>\<open>None\<close> means that no
  frame claimed the signal.
\<close>

fun walk_frames ::
  "decide_fn \<Rightarrow> int \<Rightarrow> siginfo option \<Rightarrow> nat option \<Rightarrow> frame list \<Rightarrow> sig_world
     \<Rightarrow> (raise_outcome option \<times> sig_world) option" where
  "walk_frames decide sig info context [] w = Some (None, w)"
| "walk_frames decide sig info context (fr # frs) w =
     (if sigismember (fr_guarded fr) sig
      then do {
        let rsi = prepare_rsi rsi_uninit sig info context;
        let rsi = rsi\<lparr>si_value := fr_value fr, internal_local_decider := fr # frs\<rparr>;
        (out, rsi, w) \<leftarrow> decide (fr_decider fr) rsi
          (log_event (Ev_Decider (fr_decider fr) sig (si_value rsi)) w);
        (case out of
           Leaves \<Rightarrow> Some (Some Left_By_Decider, w)
         | Returns sig_decision_next_decider \<Rightarrow> walk_frames decide sig info context frs w
         | Returns sig_decision_resume_execution \<Rightarrow> Some (Some (Raised True), w)
         | Returns sig_decision_call_recovery \<Rightarrow>
             (if fr_recovery fr = None then walk_frames decide sig info context frs w
              else Some (Some (Recover fr rsi), w)))
      }
      else walk_frames decide sig info context frs w)"

text \<open>
  The loop over the global deciders of a container, entered with the lock held and
  \<open>current\<close> not null. The answer \<^term>\<open>None\<close> (lock held) means that none of them claimed the
  signal.
\<close>

partial_function (option) raise_global ::
  "decide_fn \<Rightarrow> int \<Rightarrow> ptr \<Rightarrow> ptr \<Rightarrow> stdc_siginfo \<Rightarrow> sig_world
     \<Rightarrow> (raise_outcome option \<times> sig_world) option" where
  "raise_global decide sig item current rsi w = do {
     c \<leftarrow> deref (nodes w) current;
     let rsi = rsi\<lparr>si_value := dvalue c\<rparr>;
     w \<leftarrow> node_upd current (\<lambda>d. d\<lparr>refcount := refcount d + 1\<rparr>) w;
     w \<leftarrow> UNLOCK w;
     let rsi = rsi\<lparr>internal_sighandler := item, internal_global_decider := current\<rparr>;
     c \<leftarrow> deref (nodes w) current;
     (out, rsi, w) \<leftarrow> decide (decider c) rsi
       (log_event (Ev_Decider (decider c) sig (si_value rsi)) w);
     (case out of
        Leaves \<Rightarrow> Some (Some Left_By_Decider, w)
      | Returns res \<Rightarrow> do {
          w \<leftarrow> LOCK w;
          w \<leftarrow> node_upd current (\<lambda>d. d\<lparr>refcount := refcount d - 1\<rparr>) w;
          c \<leftarrow> deref (nodes w) current;
          let current' = n_next c;
          w \<leftarrow> (if refcount c = 0
            then do {
              w \<leftarrow> gh_remove item current w;
              df_insert_back item current w
            }
            else Some w);
          (if res \<noteq> sig_decision_next_decider
           then do {
             w \<leftarrow> sighandler_info_release item w;
             w \<leftarrow> UNLOCK w;
             Some (Some (Raised True), w)
           }
           else if current' \<noteq> None then raise_global decide sig item current' rsi w
           else Some (None, w))
        })
   }"

declare raise_global.simps [code]

text \<open>The part of \<^verbatim>\<open>stdc_raise\<close> after the frame walk.\<close>

definition raise_from_registry ::
  "decide_fn \<Rightarrow> int \<Rightarrow> siginfo option \<Rightarrow> nat option \<Rightarrow> sig_world \<Rightarrow> (raise_outcome \<times> sig_world) option" where
  "raise_from_registry decide sig info context w = do {
     w \<leftarrow> LOCK w;
     let it = signo_map_get (signo_to_sighandler_map w) sig;
     (if signo_map_is_end it
      then do { w \<leftarrow> UNLOCK w; Some (Raised False, w) }
      else do {
        let item = itr_val it;
        inf \<leftarrow> deref (infos w) item;
        let sa = old_handler inf;
        let rsi = prepare_rsi rsi_uninit sig info context;
        w \<leftarrow> info_upd item (\<lambda>inf. inf\<lparr>lifetime_refcount := lifetime_refcount inf + 1\<rparr>) w;
        inf \<leftarrow> deref (infos w) item;
        (claimed, w) \<leftarrow> (if l_front (global_handler inf) \<noteq> None
          then raise_global decide sig item (l_front (global_handler inf)) rsi w
          else Some (None, w));
        (case claimed of
           Some out \<Rightarrow> Some (out, w)
         | None \<Rightarrow> do {
             w \<leftarrow> sighandler_info_release item w;
             w \<leftarrow> UNLOCK w;
             (out, w) \<leftarrow> invoke_sigaction sa sig info context w;
             Some (case out of Killed \<Rightarrow> Terminated | Invoked b \<Rightarrow> Raised True, w)
           })
      })
   }"

definition stdc_raise ::
  "decide_fn \<Rightarrow> int \<Rightarrow> siginfo option \<Rightarrow> nat option \<Rightarrow> sig_world \<Rightarrow> (raise_outcome \<times> sig_world) option" where
  "stdc_raise decide sig info context w =
     (case sig_global_tss_state_init w of
        (r, w) \<Rightarrow>
          if r \<noteq> 0 then Some (Raised False, if errno w = 0 then w\<lparr>errno := ENOMEM\<rparr> else w)
          else if sig = 0 then Some (Raised False, w)
          else if sig < 1 \<or> sig \<ge> NSIG then Some (Raised False, w)
          else do {
            frames \<leftarrow> tss w;
            (claimed, w) \<leftarrow> walk_frames decide sig info context frames w;
            (case claimed of
               Some out \<Rightarrow> Some (out, w)
             | None \<Rightarrow> raise_from_registry decide sig info context w)
          })"

definition raw_signal_handler ::
  "decide_fn \<Rightarrow> int \<Rightarrow> siginfo option \<Rightarrow> nat option \<Rightarrow> sig_world \<Rightarrow> (raise_outcome \<times> sig_world) option" where
  "raw_signal_handler decide sig info context w = do {
     (out, w) \<leftarrow> stdc_raise decide sig info context w;
     (if out = Raised False
      then do {
        (r, w) \<leftarrow> invoke_sigaction sigaction_zero sig info context w;
        Some (case r of Killed \<Rightarrow> Terminated | Invoked b \<Rightarrow> Raised False, w)
      }
      else Some (out, w))
   }"

section \<open>Guarded sections\<close>

text \<open>
  How the guarded function ends: with a value, by a jump to the frame at an address (a raise
  inside it was answered with \<^verbatim>\<open>sig_decision_call_recovery\<close>), or it leaves or ends the
  process.
\<close>

datatype body_outcome = Body_Value siginfo_value | Body_Jump nat stdc_siginfo | Body_Gone

datatype guarded_outcome =
  Guarded_Value siginfo_value | Guarded_Jump nat stdc_siginfo | Guarded_Gone | Guarded_Abort

definition sigguarded_failure_value :: siginfo_value where
  "sigguarded_failure_value = - 99"

definition set_front :: "frame list \<Rightarrow> sig_world \<Rightarrow> sig_world option" where
  "set_front frs w = do { assert_that (tss w \<noteq> None); Some (w\<lparr>tss := Some frs\<rparr>) }"

definition sigguarded ::
  "sigset option \<Rightarrow> (siginfo_value \<Rightarrow> sig_world \<Rightarrow> (body_outcome \<times> sig_world) option) option
    \<Rightarrow> (fnptr \<times> (stdc_siginfo \<Rightarrow> sig_world \<Rightarrow> (siginfo_value \<times> sig_world) option)) option
    \<Rightarrow> fnptr option \<Rightarrow> siginfo_value \<Rightarrow> sig_world \<Rightarrow> (guarded_outcome \<times> sig_world) option" where
  "sigguarded signals guarded recovery d value w =
     (if signals = None \<or> guarded = None \<or> d = None then Some (Guarded_Abort, w)
      else (case sig_global_tss_state_init w of
        (r, w) \<Rightarrow>
          if r \<noteq> 0 then Some (Guarded_Value sigguarded_failure_value, w)
          else do {
            old \<leftarrow> tss w;
            let current = \<lparr>fr_addr = next_addr w, fr_guarded = the signals,
              fr_recovery = map_option fst recovery, fr_decider = the d, fr_value = value\<rparr>;
            let w = w\<lparr>next_addr := Suc (next_addr w)\<rparr>;
            w \<leftarrow> set_front (current # old) w;
            (out, w) \<leftarrow> the guarded value w;
            (case out of
               Body_Value v \<Rightarrow> do { w \<leftarrow> set_front old w; Some (Guarded_Value v, w) }
             | Body_Jump a rsi \<Rightarrow>
                 (if a = fr_addr current
                  then do {
                    w \<leftarrow> set_front old w;
                    (_, f) \<leftarrow> recovery;
                    (v, w) \<leftarrow> f rsi w;
                    Some (Guarded_Value v, w)
                  }
                  else Some (Guarded_Jump a rsi, w))
             | Body_Gone \<Rightarrow> Some (Guarded_Gone, w))
          }))"

section \<open>Abandoning a decider\<close>

definition sigdecider_abandon :: "stdc_siginfo \<Rightarrow> sig_world \<Rightarrow> (stdc_siginfo \<times> sig_world) option" where
  "sigdecider_abandon rsi w =
     (if \<not> internal_decider_is_abandoned rsi
      then do {
        w \<leftarrow> (if internal_local_decider rsi \<noteq> []
          then do {
            frs \<leftarrow> tss w;
            assert_that (frs = internal_local_decider rsi);
            Some (w\<lparr>tss := Some (tl frs)\<rparr>)
          }
          else Some w);
        w \<leftarrow> (if internal_sighandler rsi \<noteq> None \<or> internal_global_decider rsi \<noteq> None
          then do {
            w \<leftarrow> LOCK w;
            w \<leftarrow> (if internal_sighandler rsi \<noteq> None
              then info_upd (internal_sighandler rsi)
                (\<lambda>inf. inf\<lparr>lifetime_refcount := lifetime_refcount inf - 1\<rparr>) w
              else Some w);
            w \<leftarrow> (if internal_global_decider rsi \<noteq> None
              then node_upd (internal_global_decider rsi) (\<lambda>d. d\<lparr>refcount := refcount d - 1\<rparr>) w
              else Some w);
            UNLOCK w
          }
          else Some w);
        Some (rsi\<lparr>internal_decider_is_abandoned := True\<rparr>, w)
      }
      else Some (rsi, w))"

definition sigdecider_abandon_resume ::
  "stdc_siginfo \<Rightarrow> sig_world \<Rightarrow> (stdc_siginfo \<times> sig_world) option" where
  "sigdecider_abandon_resume rsi w =
     (if internal_decider_is_abandoned rsi
      then do {
        w \<leftarrow> (if internal_local_decider rsi \<noteq> []
          then do {
            frs \<leftarrow> tss w;
            assert_that (frs = tl (internal_local_decider rsi));
            Some (w\<lparr>tss := Some (internal_local_decider rsi)\<rparr>)
          }
          else Some w);
        w \<leftarrow> (if internal_sighandler rsi \<noteq> None \<or> internal_global_decider rsi \<noteq> None
          then do {
            w \<leftarrow> LOCK w;
            w \<leftarrow> (if internal_sighandler rsi \<noteq> None
              then info_upd (internal_sighandler rsi)
                (\<lambda>inf. inf\<lparr>lifetime_refcount := lifetime_refcount inf + 1\<rparr>) w
              else Some w);
            w \<leftarrow> (if internal_global_decider rsi \<noteq> None
              then node_upd (internal_global_decider rsi) (\<lambda>d. d\<lparr>refcount := refcount d + 1\<rparr>) w
              else Some w);
            UNLOCK w
          }
          else Some w);
        Some (rsi\<lparr>internal_decider_is_abandoned := False\<rparr>, w)
      }
      else Some (rsi, w))"

end
