(* ===== verification/Raise_Order.thy ===== *)
theory Raise_Order
  imports Registry_Deciders Posix_Raise
begin

text \<open>
  Raising a signal for which the thread has no guarded section, with deciders that only
  answer: the chain of global deciders is asked in order until one claims the signal, and
  the previous disposition gets it when none does.
\<close>

section \<open>Deciders that leave the registry alone\<close>

text \<open>
  A decider that only answers: it neither changes the state nor the information it is
  given.
\<close>

definition answering :: "(fnptr \<Rightarrow> stdc_siginfo \<Rightarrow> sig_decision) \<Rightarrow> decide_fn" where
  "answering ans f rsi w = Some (Returns (ans f rsi), rsi, w)"

text \<open>What a global decider is told: the prepared information, its own value, its place.\<close>

definition told :: "stdc_siginfo \<Rightarrow> addr \<Rightarrow> addr \<times> fnptr \<times> siginfo_value \<Rightarrow> stdc_siginfo" where
  "told rsi a x = rsi\<lparr>si_value := snd (snd x), internal_sighandler := Some a, internal_global_decider := Some (fst x)\<rparr>"

fun ask_chain :: "(fnptr \<Rightarrow> stdc_siginfo \<Rightarrow> sig_decision) \<Rightarrow> int \<Rightarrow> stdc_siginfo \<Rightarrow> addr
    \<Rightarrow> (addr \<times> fnptr \<times> siginfo_value) list \<Rightarrow> bool \<times> event list" where
  "ask_chain ans sig rsi a [] = (False, [])"
| "ask_chain ans sig rsi a (x # xs) =
     (let e = Ev_Decider (fst (snd x)) sig (snd (snd x)) in
      if ans (fst (snd x)) (told rsi a x) \<noteq> sig_decision_next_decider then (True, [e])
      else (case ask_chain ans sig rsi a xs of (claimed, es) \<Rightarrow> (claimed, e # es)))"

lemma told_told [simp]: "told (told rsi a x) a y = told rsi a y"
  by (simp add: told_def)

lemma ask_chain_told [simp]: "ask_chain ans sig (told rsi a x) a xs = ask_chain ans sig rsi a xs"
  by (induction xs) (simp_all add: Let_def)

lemma raise_global_step:
  assumes d: "nodes w x = Some d" "refcount d > 0" and l: "lock w = 1"
    and rsi'_def: "rsi' = told rsi a (node_view (nodes w) x)"
    and w'_def: "w' = w\<lparr>events := events w @ [Ev_Decider (decider d) sig (dvalue d)]\<rparr>"
  shows "raise_global (answering ans) sig (Some a) (Some x) rsi w =
    (if ans (decider d) rsi' \<noteq> sig_decision_next_decider
     then do { w \<leftarrow> sighandler_info_release (Some a) w'; w \<leftarrow> UNLOCK w; Some (Some (Raised True), w) }
     else if n_next d \<noteq> None then raise_global (answering ans) sig (Some a) (n_next d) rsi' w'
     else Some (None, w'))"
proof -
  have w': "w\<lparr>events := events w @ [Ev_Decider (decider d) sig (dvalue d)], lock := 1, nodes := (nodes w)(x \<mapsto> d)\<rparr> = w'"
    using d(1) l by (cases w) (simp add: w'_def fun_upd_idem)
  show ?thesis
    using d l
    by (subst raise_global.simps) (simp add: answering_def log_event_def Let_def w' rsi'_def told_def node_view_def)
qed


lemma raise_global_answering:
  assumes "dseg (nodes w) p (x # xs) None" "lock w = 1" "\<forall>n \<in> set (x # xs). \<forall>d. nodes w n = Some d \<longrightarrow> refcount d > 0"
    "ask_chain ans sig rsi a (map (node_view (nodes w)) (x # xs)) = (claimed, es)"
  shows "raise_global (answering ans) sig (Some a) (Some x) rsi w =
     (if claimed then do { w \<leftarrow> sighandler_info_release (Some a) (w\<lparr>events := events w @ es\<rparr>); w \<leftarrow> UNLOCK w; Some (Some (Raised True), w) }
      else Some (None, w\<lparr>events := events w @ es\<rparr>))"
  using assms
proof (induction xs arbitrary: p x rsi w es)
  case Nil
  then obtain d where d: "nodes w x = Some d" "n_next d = None" "refcount d > 0" by (auto split: option.splits)
  show ?case
    using d Nil.prems(2,4) by (auto simp: raise_global_step[OF d(1,3)] node_view_def Let_def split: if_splits)
next
  case (Cons y ys)
  then obtain d where d: "nodes w x = Some d" "n_next d = Some y" "refcount d > 0" "dseg (nodes w) (Some x) (y # ys) None"
    by (auto split: option.splits)
  let ?e = "Ev_Decider (decider d) sig (dvalue d)" and ?rsi = "told rsi a (node_view (nodes w) x)"
  show ?case
  proof (cases "ans (decider d) ?rsi = sig_decision_next_decider")
    case False
    then show ?thesis
      using d Cons.prems(2,4) by (auto simp: raise_global_step[OF d(1,3)] node_view_def Let_def)
  next
    case True
    define zs where "zs = map (node_view (nodes w)) (y # ys)"
    obtain c' es' where zs: "ask_chain ans sig rsi a zs = (c', es')" by fastforce
    have "ask_chain ans sig rsi a (node_view (nodes w) x # zs) = (claimed, es)" using Cons.prems(4) by (simp add: zs_def)
    then have es': "ask_chain ans sig rsi a (map (node_view (nodes w)) (y # ys)) = (claimed, es')" "es = ?e # es'"
      using True d(1) zs unfolding zs_def[symmetric] by (auto simp: node_view_def Let_def)
    let ?w = "w\<lparr>events := events w @ [?e]\<rparr>"
    have "raise_global (answering ans) sig (Some a) (Some x) rsi w = raise_global (answering ans) sig (Some a) (Some y) ?rsi ?w"
      using d True Cons.prems(2) by (simp add: raise_global_step[OF d(1,3)])
    also have "\<dots> = (if claimed then do { w \<leftarrow> sighandler_info_release (Some a) (?w\<lparr>events := events ?w @ es'\<rparr>); w \<leftarrow> UNLOCK w; Some (Some (Raised True), w) }
      else Some (None, ?w\<lparr>events := events ?w @ es'\<rparr>))"
      using d(4) Cons.prems(2,3) es'(1) by (intro Cons.IH[where p = "Some x"]) (auto simp: Let_def)
    finally show ?thesis by (simp add: es'(2))
  qed
qed


lemma reg_inv_refcount_pos:
  assumes inv: "reg_inv w G D P N" and n: "n \<in> set (G a)" and d: "nodes w n = Some d"
  shows "refcount d > 0"
proof -
  have "\<not> listed D n"
    using disjoint_listsD(1)[OF lists_inv_disjoint[OF reg_inv_lists[OF inv]] n] by (auto simp: listed_def)
  then have "refcount d = of_bool (owned (decider_handles w) n) + int (N n)" "owned (decider_handles w) n \<or> N n > 0"
    using inv d unfolding reg_inv_def own_inv_def by auto
  then show ?thesis by auto
qed

text \<open>The registry part of a raise for a handled signal, with the container's lookup done.\<close>

lemma raise_from_registry_handled:
  assumes l: "lock w = 0" and sig: "signo_lookup (signo_to_sighandler_map w) sig = Some a" "infos w a = Some ci"
    and w1: "w1 = w\<lparr>lock := 1, infos := (infos w)(a \<mapsto> ci\<lparr>lifetime_refcount := lifetime_refcount ci + 1\<rparr>)\<rparr>"
  shows "raise_from_registry decide sig info ctx w = do {
      (claimed, w) \<leftarrow> (if l_front (global_handler ci) \<noteq> None
        then raise_global decide sig (Some a) (l_front (global_handler ci)) (prepare_rsi rsi_uninit sig info ctx) w1
        else Some (None, w1));
      (case claimed of Some out \<Rightarrow> Some (out, w)
       | None \<Rightarrow> do {
           w \<leftarrow> sighandler_info_release (Some a) w; w \<leftarrow> UNLOCK w;
           (out, w) \<leftarrow> invoke_sigaction (old_handler ci) sig info ctx w;
           Some (case out of Killed \<Rightarrow> Terminated | Invoked b \<Rightarrow> Raised True, w)
         })
    }"
  using l sig
  by (simp add: raise_from_registry_def signo_map_get_is_end signo_map_get_Some w1 Let_def del: if_split)

text \<open>A raise holds the container while it asks the chain, and gives it back.\<close>

definition holding :: "addr \<Rightarrow> sighandler_info \<Rightarrow> sig_world \<Rightarrow> sig_world" where
  "holding a ci w = w\<lparr>lock := 1, infos := (infos w)(a \<mapsto> ci\<lparr>lifetime_refcount := lifetime_refcount ci + 1\<rparr>)\<rparr>"

lemma holding_released:
  assumes inv: "reg_inv w G D P N" and l: "lock w = 0" and sig: "infos w a = Some ci"
  shows "sighandler_info_release (Some a) ((holding a ci w)\<lparr>events := ev\<rparr>) = Some ((holding a ci w)\<lparr>events := ev, infos := infos w\<rparr>)"
    and "UNLOCK ((holding a ci w)\<lparr>events := ev, infos := infos w\<rparr>) = Some (w\<lparr>events := ev\<rparr>)"
proof -
  have "lifetime_refcount ci > 0" using reg_inv_life(2)[OF inv sig] .
  then show "sighandler_info_release (Some a) ((holding a ci w)\<lparr>events := ev\<rparr>) = Some ((holding a ci w)\<lparr>events := ev, infos := infos w\<rparr>)"
    using sig by (simp add: sighandler_info_release_def holding_def fun_upd_idem)
  show "UNLOCK ((holding a ci w)\<lparr>events := ev, infos := infos w\<rparr>) = Some (w\<lparr>events := ev\<rparr>)"
    using l by (cases w) (simp add: holding_def UNLOCK_def)
qed

lemma raise_chain_answering:
  assumes inv: "reg_inv w G D P N" and l: "lock w = 0" and sig: "infos w a = Some ci"
    and ask: "ask_chain ans sig rsi a (map (node_view (nodes w)) (G a)) = (claimed, es)"
  shows "(if l_front (global_handler ci) \<noteq> None
      then raise_global (answering ans) sig (Some a) (l_front (global_handler ci)) rsi (holding a ci w) else Some (None, holding a ci w)) =
     (if claimed then Some (Some (Raised True), w\<lparr>events := events w @ es\<rparr>)
      else Some (None, (holding a ci w)\<lparr>events := events w @ es\<rparr>))"
proof -
  note ds = lists_invD[OF reg_inv_lists[OF inv] sig] and hr = holding_released[OF inv l sig, of "events w @ es"]
  have seg: "dseg (nodes (holding a ci w)) None (G a) None" and fr: "l_front (global_handler ci) = first_ptr (G a) None"
    using ds(1) by (simp_all add: dll_def holding_def)
  have pos: "\<forall>n \<in> set (G a). \<forall>d. nodes (holding a ci w) n = Some d \<longrightarrow> refcount d > 0"
    using reg_inv_refcount_pos[OF inv] by (auto simp: holding_def)
  have h: "nodes (holding a ci w) = nodes w" "lock (holding a ci w) = 1" "events (holding a ci w) = events w" by (simp_all add: holding_def)
  show ?thesis
  proof (cases "G a")
    case Nil
    then show ?thesis using ask fr by (auto simp: holding_def)
  next
    case (Cons x xs)
    have "raise_global (answering ans) sig (Some a) (Some x) rsi (holding a ci w) =
      (if claimed then do { w \<leftarrow> sighandler_info_release (Some a) ((holding a ci w)\<lparr>events := events (holding a ci w) @ es\<rparr>); w \<leftarrow> UNLOCK w; Some (Some (Raised True), w) }
       else Some (None, (holding a ci w)\<lparr>events := events (holding a ci w) @ es\<rparr>))"
      using seg pos ask h by (intro raise_global_answering[where p = None]) (auto simp: Cons Let_def)
    then show ?thesis using Cons fr hr h by simp
  qed
qed

lemma raise_from_registry_answering:
  assumes inv: "reg_inv w G D P N" and l: "lock w = 0"
    and sig: "signo_lookup (signo_to_sighandler_map w) sig = Some a" "infos w a = Some ci"
    and ask: "ask_chain ans sig (prepare_rsi rsi_uninit sig info ctx) a (map (node_view (nodes w)) (G a)) = (claimed, es)"
  shows "raise_from_registry (answering ans) sig info ctx w =
    (if claimed then Some (Raised True, w\<lparr>events := events w @ es\<rparr>)
     else map_option (map_prod (\<lambda>out. case out of Killed \<Rightarrow> Terminated | Invoked b \<Rightarrow> Raised True) id)
       (invoke_sigaction (old_handler ci) sig info ctx (w\<lparr>events := events w @ es\<rparr>)))"
  unfolding raise_from_registry_handled[OF l sig holding_def] raise_chain_answering[OF inv l sig(2) ask]
  using holding_released[OF inv l sig(2)]
  by (cases claimed) (simp_all split: option.split Option.bind_splits prod.splits)

lemma walk_frames_unguarded:
  "\<forall>fr \<in> set frs. \<not> sigismember (fr_guarded fr) sig \<Longrightarrow> walk_frames decide sig info ctx frs w = Some (None, w)"
  by (induction frs) auto

text \<open>The deciders asked, in order: those that pass, and the first one that does not.\<close>

definition asked :: "('a \<Rightarrow> bool) \<Rightarrow> 'a list \<Rightarrow> 'a list" where
  "asked Q xs = takeWhile (\<lambda>x. \<not> Q x) xs @ take 1 (dropWhile (\<lambda>x. \<not> Q x) xs)"

lemma asked_simps [simp]: "asked Q [] = []" "asked Q (x # xs) = (if Q x then [x] else x # asked Q xs)"
  by (simp_all add: asked_def)

lemma ask_chain_asked:
  "ask_chain (\<lambda>f rsi. ans f (si_value rsi)) sig rsi a xs =
    (\<exists>(n, f, v) \<in> set xs. ans f v \<noteq> sig_decision_next_decider,
     map (\<lambda>(n, f, v). Ev_Decider f sig v) (asked (\<lambda>(n, f, v). ans f v \<noteq> sig_decision_next_decider) xs))"
  by (induction xs) (auto simp: told_def Let_def)

definition unguarded :: "sig_world \<Rightarrow> int \<Rightarrow> bool" where
  "unguarded w sig \<longleftrightarrow> (case tss w of None \<Rightarrow> False | Some frs \<Rightarrow> \<forall>fr \<in> set frs. \<not> sigismember (fr_guarded fr) sig)"

lemma stdc_raise_unguarded:
  "unguarded w sig \<Longrightarrow> 1 \<le> sig \<Longrightarrow> sig < NSIG \<Longrightarrow>
    stdc_raise decide sig info ctx w = raise_from_registry decide sig info ctx w"
  by (auto simp: stdc_raise_def unguarded_def sig_global_tss_state_init_def walk_frames_unguarded split: option.splits)

lemma registry_rel_handler:
  assumes "registry_rel w s" "s sig = (Some h, sa)"
  obtains G D a ci where "lock w = 0" "reg_inv w G D (\<lambda>_. 0) (\<lambda>_. 0)" "signo_lookup (signo_to_sighandler_map w) sig = Some a"
    "infos w a = Some ci" "h = handler_view (nodes w) ci (G a)" "s = reg_state w G" "sa = kernel w sig"
  using assms
  by (auto simp: registry_rel_def reg_state_def reg_abs_def registry_view_def split: option.splits)

text \<open>
  C12 (functional). A raise for an installed signal that no frame of the thread guards calls the
  global deciders of its chain in chain order, each with its own value, up to the
  first that does not pass, and then answers true; when all pass, or there is none, the
  disposition from before the first install gets the signal, and a raise that comes back from it
  answers true as well. The registry is unchanged afterwards. The second answer is the code's;
  \<^verbatim>\<open>thrd_signal_handle.h\<close> says that the call returns false when no decider claims the signal
  (\<^verbatim>\<open>IGND\<close> in \<^verbatim>\<open>plans/analysis.md\<close>).
\<close>

theorem raise_asks_chain_in_order:
  assumes rel: "registry_rel w s" and h: "s sig = (Some h, sa)"
    and sig: "1 \<le> sig" "sig < NSIG" "unguarded w sig"
  shows "stdc_raise (answering (\<lambda>f rsi. ans f (si_value rsi))) sig info ctx w =
    (let claims = (\<lambda>(n, f, v). ans f v \<noteq> sig_decision_next_decider);
         w' = w\<lparr>events := events w @ map (\<lambda>(n, f, v). Ev_Decider f sig v) (asked claims (ah_chain h))\<rparr>
     in if \<exists>x \<in> set (ah_chain h). claims x then Some (Raised True, w')
        else map_option (map_prod (\<lambda>out. case out of Killed \<Rightarrow> Terminated | Invoked b \<Rightarrow> Raised True) id)
          (invoke_sigaction (ah_previous h) sig info ctx w'))"
proof -
  obtain G D a ci where w: "lock w = 0" "reg_inv w G D (\<lambda>_. 0) (\<lambda>_. 0)" "signo_lookup (signo_to_sighandler_map w) sig = Some a"
    "infos w a = Some ci" "h = handler_view (nodes w) ci (G a)"
    using registry_rel_handler[OF rel h] by metis
  show ?thesis
    using raise_from_registry_answering[OF w(2,1,3,4) ask_chain_asked] w(5)
    by (simp add: stdc_raise_unguarded[OF sig(3,1,2)] handler_view_def Let_def)
qed


theorem raise_asks_chain_in_order_witness:
  "stdc_raise (answering (\<lambda>f rsi. sig_decision_resume_execution)) 10 None None usr1_decider_world =
    Some (Raised True, usr1_decider_world\<lparr>events := events usr1_decider_world @ [Ev_Decider 7 10 42]\<rparr>)"
proof -
  obtain \<nu> where rel: "registry_rel usr1_decider_world
      (create_effect (visited {10}) False 7 42 \<nu> (at_signals (visited {10}) inst (\<lambda>_. (None, sigaction_zero))))"
    using usr1_decider_world_handle by metis
  have "unguarded usr1_decider_world 10" by code_simp
  moreover have "visited {10} 10" by code_simp
  ultimately show ?thesis
    using raise_asks_chain_in_order[OF rel, of 10 _ _ "\<lambda>_ _. sig_decision_resume_execution" None None]
    by (simp add: create_effect_def at_signals_def add_to_chain_def NSIG_def)
qed

end
