(* ===== verification/Raise_Reentrancy.thy ===== *)
theory Raise_Reentrancy
  imports Raise_Order
begin

text \<open>
  Raising a signal with deciders that call back into the library. The locale
  \<open>decider_env\<close> states what a decider may do to the registry while raises are in flight; under
  it, a raise always returns and keeps the registry's invariant. Deciders that run any
  sequence of installs and uninstalls are such an environment.
\<close>

section \<open>Deciders that call back into the library\<close>

definition after :: "'a \<Rightarrow> 'a list \<Rightarrow> 'a list" where
  "after x xs = tl (dropWhile (\<lambda>y. y \<noteq> x) xs)"

lemma after_split: "x \<notin> set us \<Longrightarrow> after x (us @ x # vs) = vs"
  by (induction us) (auto simp: after_def)

lemma after_filter: "x \<in> set xs \<Longrightarrow> Q x \<Longrightarrow> length (after x (filter Q xs)) \<le> length (after x xs)"
  by (induction xs) (auto simp: after_def)

text \<open>
  What a callback may do to the chains of containers that raises in flight hold: the nodes
  they are at stay where they are, and the rest of the chain behind them does not grow.
\<close>

definition pins_kept :: "(addr \<Rightarrow> nat) \<Rightarrow> (addr \<Rightarrow> nat) \<Rightarrow> (addr \<Rightarrow> addr list) \<Rightarrow> (addr \<Rightarrow> addr list) \<Rightarrow> bool" where
  "pins_kept P N G G' \<longleftrightarrow> (\<forall>b m. P b > 0 \<longrightarrow> N m > 0 \<longrightarrow> m \<in> set (G b) \<longrightarrow>
     m \<in> set (G' b) \<and> length (after m (G' b)) \<le> length (after m (G b)))"

lemma pins_kept_refl [simp]: "pins_kept P N G G"
  by (simp add: pins_kept_def)

lemma pins_kept_trans: "pins_kept P N G G' \<Longrightarrow> pins_kept P N G' G'' \<Longrightarrow> pins_kept P N G G''"
  unfolding pins_kept_def by (meson order_trans)

lemma pins_kept_mono:
  "pins_kept P N G G' \<Longrightarrow> (\<And>b. P' b > 0 \<Longrightarrow> P b > 0) \<Longrightarrow> (\<And>m. N' m > 0 \<Longrightarrow> N m > 0) \<Longrightarrow> pins_kept P' N' G G'"
  by (auto simp: pins_kept_def)

lemma pins_kept_shrinks: "shrinks P G G' \<Longrightarrow> pins_kept P N G G'"
  unfolding pins_kept_def shrinks_def by (metis less_irrefl order_refl)

lemma pins_kept_without: "(\<And>m. Q m \<Longrightarrow> N m = 0) \<Longrightarrow> pins_kept P N G (without Q G)"
  by (auto simp: pins_kept_def without_def intro: after_filter)

locale decider_env =
  fixes decide :: decide_fn
  assumes returns: "reg_inv w G D P N \<Longrightarrow> lock w = 0 \<Longrightarrow>
    \<exists>out rsi' w' G' D'. decide f rsi w = Some (out, rsi', w') \<and> reg_inv w' G' D' P N \<and> lock w' = 0
      \<and> pins_kept P N G G'"

lemma reg_inv_pinned_live: "reg_inv w G D P N \<Longrightarrow> P a > 0 \<Longrightarrow> \<exists>ci. infos w a = Some ci"
  unfolding reg_inv_def life_inv_def by (metis less_irrefl not_None_eq)

text \<open>Entering and leaving the decider of a node.\<close>

lemma reg_inv_pin_node:
  assumes inv: "reg_inv w G D P N" and n: "n \<in> set (G a)" and d: "nodes w n = Some d"
  shows "reg_inv (w\<lparr>nodes := (nodes w)(n \<mapsto> d\<lparr>refcount := refcount d + 1\<rparr>)\<rparr>) G D P (N(n := Suc (N n)))"
proof -
  have nl: "\<not> listed D n"
    using disjoint_listsD(1)[OF lists_inv_disjoint[OF reg_inv_lists[OF inv]] n] by (auto simp: listed_def)
  have "own_inv ((nodes w)(n \<mapsto> d\<lparr>refcount := refcount d + 1\<rparr>)) (decider_handles w) D (N(n := Suc (N n)))"
    using inv d nl unfolding reg_inv_def own_inv_def by auto
  moreover have "lists_inv (infos w) ((nodes w)(n \<mapsto> d\<lparr>refcount := refcount d + 1\<rparr>)) G D"
    by (rule lists_inv_node_upd[OF reg_inv_lists[OF inv] d]) simp_all
  ultimately show ?thesis using inv d by (auto simp: reg_inv_def kernel_inv_def fresh_inv_def)
qed

lemma reg_inv_unpin_node:
  assumes inv: "reg_inv w G D P N" and n: "n \<in> set (G a)" and d: "nodes w n = Some d" and N: "N n > 0"
    and r: "refcount d \<noteq> 1"
  shows "reg_inv (w\<lparr>nodes := (nodes w)(n \<mapsto> d\<lparr>refcount := refcount d - 1\<rparr>)\<rparr>) G D P (N(n := N n - 1))"
proof -
  have nl: "\<not> listed D n"
    using disjoint_listsD(1)[OF lists_inv_disjoint[OF reg_inv_lists[OF inv]] n] by (auto simp: listed_def)
  have rc: "refcount d = of_bool (owned (decider_handles w) n) + int (N n)"
    using inv d unfolding reg_inv_def own_inv_def by auto
  then have "owned (decider_handles w) n \<or> N n > 1" using r N by (cases "owned (decider_handles w) n") auto
  then have "own_inv ((nodes w)(n \<mapsto> d\<lparr>refcount := refcount d - 1\<rparr>)) (decider_handles w) D (N(n := N n - 1))"
    using inv d nl rc N unfolding reg_inv_def own_inv_def by auto
  moreover have "lists_inv (infos w) ((nodes w)(n \<mapsto> d\<lparr>refcount := refcount d - 1\<rparr>)) G D"
    by (rule lists_inv_node_upd[OF reg_inv_lists[OF inv] d]) simp_all
  ultimately show ?thesis using inv d by (auto simp: reg_inv_def kernel_inv_def fresh_inv_def)
qed


lemma df_insert_back_ok:
  assumes "infos w a = Some ci" "dll (nodes w) (deferred_frees ci) xs" "detached (nodes w) n" "n \<notin> set xs"
  shows "\<exists>l h. df_insert_back (Some a) (Some n) w
      = Some (w\<lparr>nodes := h, infos := (infos w)(a \<mapsto> ci\<lparr>deferred_frees := l\<rparr>)\<rparr>)
    \<and> dll h l (xs @ [n]) \<and> payload h = payload (nodes w) \<and> (\<forall>m. m \<notin> insert n (set xs) \<longrightarrow> h m = nodes w m)"
  using LIST_INSERT_BACK_dll[OF assms(2-4)] assms(1) by (auto simp: df_insert_back_def; blast)

text \<open>A node whose handle is gone retires to the container's deferred list.\<close>

lemma listed_snoc: "listed (D(a := D a @ [n])) m \<longleftrightarrow> m = n \<or> listed D m"
  by (auto simp: listed_def)

lemma own_inv_retire:
  assumes own: "own_inv ns hs D N" and n: "\<not> owned hs n" and D: "\<And>m. m \<noteq> n \<Longrightarrow> listed D' m = listed D m" "listed D' n"
    and ns': "\<And>m. m \<noteq> n \<Longrightarrow> payload ns' m = payload ns m" "ns' n = Some d" "refcount d = 0"
  shows "own_inv ns' hs D' (N(n := 0))"
proof -
  have "refcount d' = of_bool (owned hs m) + int ((N(n := 0)) m) \<and> (listed D' m \<longleftrightarrow> \<not> owned hs m \<and> (N(n := 0)) m = 0)"
    if m: "ns' m = Some d'" for m d'
  proof (cases "m = n")
    case True
    then show ?thesis using m ns'(2,3) n D(2) by simp
  next
    case False
    then obtain d0 where "ns m = Some d0" "refcount d0 = refcount d'"
      using payload_refcount[OF ns'(1)[OF False] m] by blast
    then show ?thesis using own False D(1)[OF False] by (auto simp: own_inv_def)
  qed
  moreover have "\<not> owned hs m \<and> (N(n := 0)) m = 0" if m: "ns' m = None" for m
  proof -
    have "m \<noteq> n" using m ns'(2) by auto
    then show ?thesis using ns'(1)[of m] m own by (metis fun_upd_other own_inv_def payload_eq_None)
  qed
  moreover have "h' = h \<and> j' = j" if "slot hs h j = Some m" "slot hs h' j' = Some m" for h j h' j' m
    using that own_inv_unique[OF own] by blast
  ultimately show ?thesis unfolding own_inv_def by blast
qed

lemma reg_inv_retire:
  assumes inv: "reg_inv w G D P N" and n: "n \<in> set (G a)" and a: "infos w a = Some ci"
    and d: "nodes w n = Some d" and no: "\<not> owned (decider_handles w) n"
  shows "\<exists>w1 w2 l l'. gh_remove (Some a) (Some n) (w\<lparr>nodes := (nodes w)(n \<mapsto> d\<lparr>refcount := 0\<rparr>)\<rparr>) = Some w1
    \<and> df_insert_back (Some a) (Some n) w1 = Some w2
    \<and> w2 = w\<lparr>nodes := nodes w2, infos := (infos w)(a \<mapsto> ci\<lparr>global_handler := l, deferred_frees := l'\<rparr>)\<rparr>
    \<and> reg_inv w2 (G(a := remove1 n (G a))) (D(a := D a @ [n])) P (N(n := 0))"
proof -
  note li = reg_inv_lists[OF inv]
  note dj = disjoint_listsD[OF lists_inv_disjoint[OF li]]
  let ?ns = "(nodes w)(n \<mapsto> d\<lparr>refcount := 0\<rparr>)"
  have li1: "lists_inv (infos w) ?ns G D" by (rule lists_inv_node_upd[OF li d]) simp_all
  obtain l h where r: "gh_remove (Some a) (Some n) (w\<lparr>nodes := ?ns\<rparr>) = Some (w\<lparr>nodes := h, infos := (infos w)(a \<mapsto> ci\<lparr>global_handler := l\<rparr>)\<rparr>)"
    "dll h l (remove1 n (G a))" "detached h n" "payload h = payload ?ns" "\<And>m. m \<notin> set (G a) \<Longrightarrow> h m = ?ns m"
    using gh_remove_ok[of "w\<lparr>nodes := ?ns\<rparr>" a ci "G a" n] a lists_invD(1)[OF li1 a] n by auto
  let ?I = "(infos w)(a \<mapsto> ci\<lparr>global_handler := l\<rparr>)" and ?G = "G(a := remove1 n (G a))"
  have nG: "n \<notin> set (?G b)" for b
    using dj(2)[OF n, of b] dll_distinct[OF lists_invD(1)[OF li a]] by auto
  have li2: "lists_inv ?I h ?G D"
    by (rule lists_inv_set_G[OF li1 a r(2), where x = n])
      (use r(5) dj(1)[OF n] dj(2)[OF n] set_remove1_subset[of n "G a"] in auto)
  have "dll h (deferred_frees (ci\<lparr>global_handler := l\<rparr>)) (D a)" using lists_invD(2)[OF li2, of a] by simp
  then obtain l' h' where r': "df_insert_back (Some a) (Some n) (w\<lparr>nodes := h, infos := ?I\<rparr>)
      = Some (w\<lparr>nodes := h', infos := ?I(a \<mapsto> ci\<lparr>global_handler := l, deferred_frees := l'\<rparr>)\<rparr>)"
    "dll h' l' (D a @ [n])" "payload h' = payload h" "\<And>m. m \<notin> insert n (set (D a)) \<Longrightarrow> h' m = h m"
    using df_insert_back_ok[of "w\<lparr>nodes := h, infos := ?I\<rparr>" a "ci\<lparr>global_handler := l\<rparr>" "D a" n] r(3) dj(1)[OF n] by auto
  have li3: "lists_inv (?I(a \<mapsto> ci\<lparr>global_handler := l, deferred_frees := l'\<rparr>)) h' ?G (D(a := D a @ [n]))"
    by (rule lists_inv_set_D[OF li2 _ r'(2), where x = n]) (use r'(4) nG dj(1)[OF n] in auto)
  have pl: "payload h' m = payload ?ns m" for m using r(4) r'(3) by simp
  obtain d' where d': "h' n = Some d'" "refcount d' = 0"
    using payload_refcount[of ?ns n h' "d\<lparr>refcount := 0\<rparr>"] pl[of n] by auto
  have "own_inv h' (decider_handles w) (D(a := D a @ [n])) (N(n := 0))"
    by (rule own_inv_retire[of "nodes w" _ D N]) (use inv no d' pl in \<open>auto simp: reg_inv_def listed_snoc payload_def\<close>)
  moreover have "home_inv (signo_to_sighandler_map w) (decider_handles w) ?G"
    using inv set_remove1_subset[of n "G a"] unfolding reg_inv_def home_inv_def by (auto split: if_splits)
  moreover have "h' x = None" if "next_addr w \<le> x" for x
    using reg_inv_fresh_all[OF inv that] pl[of x] d by (metis fun_upd_other option.distinct(1) payload_eq_None payload_def)
  ultimately have "reg_inv (w\<lparr>nodes := h', infos := (infos w)(a \<mapsto> ci\<lparr>global_handler := l, deferred_frees := l'\<rparr>)\<rparr>)
      ?G (D(a := D a @ [n])) P (N(n := 0))"
    using inv a reg_inv_installed[OF inv a] li3
    by (auto simp: reg_inv_def kernel_inv_def fresh_inv_def intro!: map_inv_info_upd life_inv_info_keep count_inv_info_upd)
  with r(1) r'(1) show ?thesis by auto
qed


text \<open>Leaving a decider: the raise gives up the node, which retires when nobody else holds it.\<close>

definition leave_node :: "ptr \<Rightarrow> ptr \<Rightarrow> sig_world \<Rightarrow> (ptr \<times> sig_world) option" where
  "leave_node item current w = do {
     w \<leftarrow> node_upd current (\<lambda>d. d\<lparr>refcount := refcount d - 1\<rparr>) w;
     c \<leftarrow> deref (nodes w) current;
     w \<leftarrow> (if refcount c = 0 then do { w \<leftarrow> gh_remove item current w; df_insert_back item current w } else Some w);
     Some (n_next c, w)
   }"

lemma raise_global_leave:
  "raise_global decide sig item current rsi w = do {
     c \<leftarrow> deref (nodes w) current;
     w \<leftarrow> node_upd current (\<lambda>d. d\<lparr>refcount := refcount d + 1\<rparr>) w;
     w \<leftarrow> UNLOCK w;
     c' \<leftarrow> deref (nodes w) current;
     (out, rsi, w) \<leftarrow> decide (decider c') (rsi\<lparr>si_value := dvalue c, internal_sighandler := item, internal_global_decider := current\<rparr>)
       (log_event (Ev_Decider (decider c') sig (dvalue c)) w);
     (case out of Leaves \<Rightarrow> Some (Some Left_By_Decider, w)
      | Returns res \<Rightarrow> do {
          w \<leftarrow> LOCK w;
          (current', w) \<leftarrow> leave_node item current w;
          (if res \<noteq> sig_decision_next_decider
           then do { w \<leftarrow> sighandler_info_release item w; w \<leftarrow> UNLOCK w; Some (Some (Raised True), w) }
           else if current' \<noteq> None then raise_global decide sig item current' rsi w
           else Some (None, w))
        })
   }"
  by (subst raise_global.simps) (simp add: leave_node_def Let_def cong: dec_outcome.case_cong)

lemma leave_node_ok:
  assumes inv: "reg_inv w G D P (N(n := Suc (N n)))" and Ga: "G a = us @ n # vs" and P: "P a > 0"
  shows "\<exists>w' G' D'. leave_node (Some a) (Some n) w = Some (first_ptr vs None, w') \<and> reg_inv w' G' D' P N \<and> lock w' = lock w
    \<and> (G' a = us @ n # vs \<or> G' a = us @ vs) \<and> pins_kept P N G G' \<and> distinct (us @ n # vs)"
proof -
  note li = reg_inv_lists[OF inv]
  have n: "n \<in> set (G a)" using Ga by simp
  obtain ci where a: "infos w a = Some ci" using lists_inv_live(2)[OF li, of n a] n by auto
  note ll = lists_invD(1)[OF li a]
  obtain d where d: "nodes w n = Some d" "n_next d = first_ptr vs None"
    using ll Ga by (auto simp: dll_def split: option.splits)
  have dist: "distinct (us @ n # vs)" using dll_distinct[OF ll] Ga by simp
  have rc: "refcount d = of_bool (owned (decider_handles w) n) + int (Suc (N n))"
    using inv d(1) unfolding reg_inv_def own_inv_def by auto
  show ?thesis
  proof (cases "refcount d = 1")
    case False
    then have "reg_inv (w\<lparr>nodes := (nodes w)(n \<mapsto> d\<lparr>refcount := refcount d - 1\<rparr>)\<rparr>) G D P N"
      using reg_inv_unpin_node[OF inv n d(1)] by simp
    moreover have "leave_node (Some a) (Some n) w = Some (first_ptr vs None, w\<lparr>nodes := (nodes w)(n \<mapsto> d\<lparr>refcount := refcount d - 1\<rparr>)\<rparr>)"
      using False d by (simp add: leave_node_def)
    ultimately show ?thesis using Ga dist
      by - (rule exI[of _ "w\<lparr>nodes := (nodes w)(n \<mapsto> d\<lparr>refcount := refcount d - 1\<rparr>)\<rparr>"], rule exI[of _ G], rule exI[of _ D], simp)
  next
    case True
    then have no: "\<not> owned (decider_handles w) n" "N n = 0" using rc by (auto simp: of_bool_def split: if_splits)
    obtain w1 w2 l l' where r: "gh_remove (Some a) (Some n) (w\<lparr>nodes := (nodes w)(n \<mapsto> d\<lparr>refcount := 0\<rparr>)\<rparr>) = Some w1"
      "df_insert_back (Some a) (Some n) w1 = Some w2"
      "w2 = w\<lparr>nodes := nodes w2, infos := (infos w)(a \<mapsto> ci\<lparr>global_handler := l, deferred_frees := l'\<rparr>)\<rparr>"
      "reg_inv w2 (G(a := remove1 n (G a))) (D(a := D a @ [n])) P ((N(n := Suc (N n)))(n := 0))"
      using reg_inv_retire[OF inv n a d(1) no(1)] by blast
    have "remove1 n (G a) = us @ vs" using dist unfolding Ga by (rule distinct_split_unique)
    moreover have "(N(n := Suc (N n)))(n := 0) = N" using no(2) by auto
    moreover have "leave_node (Some a) (Some n) w = Some (first_ptr vs None, w2)"
      using True d r(1,2) by (simp add: leave_node_def)
    moreover have "lock w2 = lock w" by (subst r(3)) simp
    moreover have "pins_kept P N G (G(a := us @ vs))"
    proof -
      have "n \<notin> set (G b)" if "b \<noteq> a" for b
        using disjoint_listsD(2)[OF lists_inv_disjoint[OF li] n] that by blast
      then have "without (\<lambda>m. m = n) G = G(a := remove1 n (G a))" using without_one[of G a n] dist Ga by simp
      then show ?thesis using pins_kept_without[of "\<lambda>m. m = n" N P G] no(2) \<open>remove1 n (G a) = us @ vs\<close> by simp
    qed
    ultimately show ?thesis using r(4) dist
      by - (rule exI[of _ w2], rule exI[of _ "G(a := us @ vs)"], rule exI[of _ "D(a := D a @ [n])"], simp)
  qed
qed


text \<open>Leaving a node and releasing a container touch no handle.\<close>

definition handles_same :: "sig_world \<Rightarrow> sig_world \<Rightarrow> bool" where
  "handles_same w w' \<longleftrightarrow> install_handles w' = install_handles w \<and> decider_handles w' = decider_handles w"

lemma handles_same_refl [simp]: "handles_same w w"
  by (simp add: handles_same_def)

lemma handles_same_trans: "handles_same w w' \<Longrightarrow> handles_same w' w'' \<Longrightarrow> handles_same w w''"
  by (simp add: handles_same_def)

lemma leave_node_handles: "leave_node item n w = Some (m, w') \<Longrightarrow> handles_same w w'"
  by (auto simp: leave_node_def node_upd_def info_upd_def gh_remove_def df_insert_back_def handles_same_def bind_eq_Some_conv split: if_splits)

text \<open>A raise gives its reference on the container back.\<close>

lemma release_ok:
  assumes inv: "reg_inv w G D P N" and p: "P a > 0" and l: "lock w = 1"
  shows "\<exists>w' G' D'. sighandler_info_release (Some a) w = Some w' \<and> reg_inv w' G' D' (P(a := P a - 1)) N
    \<and> lock w' = 1 \<and> handles_same w w' \<and> pins_kept (P(a := P a - 1)) N G G'"
proof -
  obtain ci where a: "infos w a = Some ci" using reg_inv_pinned_live[OF inv p] by blast
  let ?f = "lifetime_refcount ci = 1"
  obtain w' where w': "sighandler_info_release (Some a) w = Some w'"
    "reg_inv w' (after_release a ?f G) (after_release a ?f D) (P(a := P a - 1)) N" "w' = w\<lparr>infos := infos w', nodes := nodes w'\<rparr>"
    using reg_inv_unpin[OF inv a p] by blast
  have "?f \<Longrightarrow> P a = 1" using reg_inv_life(1)[OF inv a] p by (auto simp: of_bool_def split: if_splits)
  then have "pins_kept (P(a := P a - 1)) N G (after_release a ?f G)"
    by (intro pins_kept_shrinks) (auto simp: shrinks_def after_release_def)
  moreover have "lock w' = 1" "handles_same w w'" by (subst w'(3), simp add: l handles_same_def)+
  ultimately show ?thesis using w'(1,2) by blast
qed

text \<open>
  How a raise through a container \<open>a\<close> leaves the registry: the lock and the raise's
  reference on the container are still held when no decider claimed the signal, both are
  given back when one did, and a decider that leaves for good keeps them.
\<close>

definition raise_post :: "addr \<Rightarrow> (addr \<Rightarrow> addr list) \<Rightarrow> (addr \<Rightarrow> nat) \<Rightarrow> (addr \<Rightarrow> nat) \<Rightarrow> raise_outcome option \<Rightarrow> sig_world \<Rightarrow> bool" where
  "raise_post a G P N r w \<longleftrightarrow> (\<exists>G' D'. case r of
     None \<Rightarrow> lock w = 1 \<and> reg_inv w G' D' P N \<and> pins_kept P N G G'
   | Some out \<Rightarrow> lock w = 0 \<and>
       (out = Raised True \<and> reg_inv w G' D' (P(a := P a - 1)) N \<and> pins_kept (P(a := P a - 1)) N G G'
        \<or> out = Left_By_Decider \<and> (\<exists>n. reg_inv w G' D' P (N(n := Suc (N n)))) \<and> pins_kept P N G G'))"

lemma raise_post_mono:
  assumes k: "pins_kept P N G0 G" and r: "raise_post a G P N r w"
  shows "raise_post a G0 P N r w"
proof -
  have "pins_kept (P(a := P a - 1)) N G0 G" by (rule pins_kept_mono[OF k]) (auto split: if_splits)
  then have t: "pins_kept P N G G' \<Longrightarrow> pins_kept P N G0 G'"
    "pins_kept (P(a := P a - 1)) N G G' \<Longrightarrow> pins_kept (P(a := P a - 1)) N G0 G'" for G'
    using k pins_kept_trans by blast+
  obtain G' D' where "case r of None \<Rightarrow> lock w = 1 \<and> reg_inv w G' D' P N \<and> pins_kept P N G G'
   | Some out \<Rightarrow> lock w = 0 \<and>
       (out = Raised True \<and> reg_inv w G' D' (P(a := P a - 1)) N \<and> pins_kept (P(a := P a - 1)) N G G'
        \<or> out = Left_By_Decider \<and> (\<exists>n. reg_inv w G' D' P (N(n := Suc (N n)))) \<and> pins_kept P N G G')"
    using r unfolding raise_post_def by blast
  then show ?thesis
    unfolding raise_post_def by - (rule exI[of _ G'], rule exI[of _ D'], cases r, use t in auto)
qed

context decider_env
begin

lemma raise_global_env:
  assumes "reg_inv w G D P N" "lock w = 1" "P a > 0" "G a = us @ n # vs"
  shows "\<exists>r w'. raise_global decide sig (Some a) (Some n) rsi w = Some (r, w') \<and> raise_post a G P N r w'"
  using assms
proof (induction "length vs" arbitrary: w G D us n vs rsi rule: less_induct)
  case less
  note inv = less.prems(1)
  note li = reg_inv_lists[OF inv]
  have n: "n \<in> set (G a)" using less.prems(4) by simp
  obtain d where d: "nodes w n = Some d" using lists_inv_live(1)[OF li, of n a] n by auto
  have distG: "distinct (us @ n # vs)"
    using reg_inv_pinned_live[OF inv less.prems(3)] dll_distinct[OF lists_invD(1)[OF li]] less.prems(4) by fastforce
  let ?N = "N(n := Suc (N n))"
  define w1 where "w1 = log_event (Ev_Decider (decider d) sig (dvalue d))
    (w\<lparr>nodes := (nodes w)(n \<mapsto> d\<lparr>refcount := refcount d + 1\<rparr>), lock := 0\<rparr>)"
  let ?rsi = "rsi\<lparr>si_value := dvalue d, internal_sighandler := Some a, internal_global_decider := Some n\<rparr>"
  have inv1: "reg_inv w1 G D P ?N" "lock w1 = 0" using reg_inv_pin_node[OF inv n d] by (simp_all add: w1_def log_event_def)
  obtain out rsi' w2 G2 D2 where c: "decide (decider d) ?rsi w1 = Some (out, rsi', w2)" "reg_inv w2 G2 D2 P ?N" "lock w2 = 0"
    "pins_kept P ?N G G2"
    using returns[OF inv1] by blast
  have k2: "pins_kept P N G G2" by (rule pins_kept_mono[OF c(4)]) (auto split: if_splits)
  have n2: "n \<in> set (G2 a)" "length (after n (G2 a)) \<le> length (after n (G a))"
    using c(4) n less.prems(3) by (auto simp: pins_kept_def)
  obtain us2 vs2 where G2: "G2 a = us2 @ n # vs2" using split_list[OF n2(1)] by blast
  have call: "raise_global decide sig (Some a) (Some n) rsi w = (case out of Leaves \<Rightarrow> Some (Some Left_By_Decider, w2)
      | Returns res \<Rightarrow> do {
          w \<leftarrow> LOCK w2;
          (current', w) \<leftarrow> leave_node (Some a) (Some n) w;
          (if res \<noteq> sig_decision_next_decider
           then do { w \<leftarrow> sighandler_info_release (Some a) w; w \<leftarrow> UNLOCK w; Some (Some (Raised True), w) }
           else if current' \<noteq> None then raise_global decide sig (Some a) current' rsi' w
           else Some (None, w))
        })"
    using d less.prems(2) c(1) by (subst raise_global_leave) (simp add: w1_def)
  show ?case
  proof (cases out)
    case Leaves
    then show ?thesis using call c(2,3) k2 by (auto simp: raise_post_def)
  next
    case (Returns res)
    have inv2: "reg_inv (w2\<lparr>lock := 1\<rparr>) G2 D2 P ?N" using c(2) by simp
    obtain w3 G3 D3 where l: "leave_node (Some a) (Some n) (w2\<lparr>lock := 1\<rparr>) = Some (first_ptr vs2 None, w3)"
      "reg_inv w3 G3 D3 P N" "lock w3 = 1" "G3 a = us2 @ n # vs2 \<or> G3 a = us2 @ vs2" "pins_kept P N G2 G3" "distinct (us2 @ n # vs2)"
      using leave_node_ok[OF inv2 G2 less.prems(3)] by auto
    have k3: "pins_kept P N G G3" using pins_kept_trans[OF k2 l(5)] .
    show ?thesis
    proof (cases "res = sig_decision_next_decider")
      case False
      obtain w4 G4 D4 where w4: "sighandler_info_release (Some a) w3 = Some w4" "reg_inv w4 G4 D4 (P(a := P a - 1)) N"
        "lock w4 = 1" "pins_kept (P(a := P a - 1)) N G3 G4"
        using release_ok[OF l(2) less.prems(3) l(3)] by blast
      have "pins_kept (P(a := P a - 1)) N G G3" by (rule pins_kept_mono[OF k3]) (auto split: if_splits)
      then have "pins_kept (P(a := P a - 1)) N G G4" using pins_kept_trans w4(4) by blast
      then have "raise_post a G P N (Some (Raised True)) (w4\<lparr>lock := 0\<rparr>)"
        using w4(2) unfolding raise_post_def by - (rule exI[of _ G4], rule exI[of _ D4], simp)
      moreover have "raise_global decide sig (Some a) (Some n) rsi w = Some (Some (Raised True), w4\<lparr>lock := 0\<rparr>)"
        using call Returns False c(3) l(1,3) w4(1,3) by simp
      ultimately show ?thesis by blast
    next
      case nx: True
      show ?thesis
      proof (cases vs2)
        case Nil
        then have "raise_global decide sig (Some a) (Some n) rsi w = Some (None, w3)" using call Returns nx c(3) l(1) by simp
        then show ?thesis using l(2,3) k3 by (auto simp: raise_post_def)
      next
        case (Cons m ms)
        have "length (after n (G2 a)) = length vs2" using after_split[of n us2 vs2] l(6) G2 by simp
        moreover have "length (after n (G a)) = length vs" using after_split[of n us vs] distG less.prems(4) by simp
        ultimately have lt: "length ms < length vs" using n2(2) Cons by simp
        obtain us3 where us3: "G3 a = us3 @ m # ms"
          using l(4) Cons that[of "us2 @ [n]"] that[of us2] by (elim disjE) simp_all
        obtain r w' where "raise_global decide sig (Some a) (Some m) rsi' w3 = Some (r, w')" "raise_post a G3 P N r w'"
          using less.hyps[OF lt l(2,3) less.prems(3) us3] by blast
        moreover have "raise_global decide sig (Some a) (Some n) rsi w = raise_global decide sig (Some a) (Some m) rsi' w3"
          using call Returns nx c(3) l(1) Cons by simp
        ultimately show ?thesis using raise_post_mono[OF k3] by auto
      qed
    qed
  qed
qed

end

text \<open>A previous handler that can be called: a function, or the default or ignore action.\<close>

definition callable :: "sigaction \<Rightarrow> bool" where
  "callable sa \<longleftrightarrow> (\<exists>f. sa_handler sa = User_Handler f) \<or>
     sa_flags sa AND SA_SIGINFO = 0 \<and> (sa_handler sa = SIG_DFL \<or> sa_handler sa = SIG_IGN)"

lemma invoke_sigaction_callable:
  assumes "callable sa"
  shows "\<exists>out w'. invoke_sigaction sa sig info ctx w = Some (out, w') \<and> (out = Killed \<or> same_registry w w')"
proof -
  have "(kernel w)(sig := sigaction_zero, sig := kernel w sig) = kernel w" by auto
  then show ?thesis
    using assms
    by (cases info; cases "sa_flags sa AND SA_SIGINFO = 0"; cases "refused w sig")
      (auto simp: callable_def invoke_sigaction_def call_sa_sigaction_def call_sa_handler_def host_sigaction_def
        same_registry_def Let_def split: sa_handler_t.splits)
qed

definition raise_settled :: "(addr \<Rightarrow> addr list) \<Rightarrow> (addr \<Rightarrow> nat) \<Rightarrow> (addr \<Rightarrow> nat) \<Rightarrow> raise_outcome \<Rightarrow> sig_world \<Rightarrow> bool" where
  "raise_settled G P N out w \<longleftrightarrow> out = Terminated \<or> lock w = 0 \<and> (\<exists>G' D'. pins_kept P N G G' \<and>
     (if out = Left_By_Decider then \<exists>a n. reg_inv w G' D' (P(a := Suc (P a))) (N(n := Suc (N n)))
      else reg_inv w G' D' P N))"

context decider_env
begin

lemma raise_from_registry_env:
  assumes inv: "reg_inv w G D P N" and l: "lock w = 0"
    and call: "\<And>a ci. signo_lookup (signo_to_sighandler_map w) sig = Some a \<Longrightarrow> infos w a = Some ci \<Longrightarrow> callable (old_handler ci)"
  shows "\<exists>out w'. raise_from_registry decide sig info ctx w = Some (out, w') \<and> raise_settled G P N out w'"
proof (cases "signo_lookup (signo_to_sighandler_map w) sig")
  case None
  then have "raise_from_registry decide sig info ctx w = Some (Raised False, w\<lparr>lock := 0\<rparr>)"
    using l by (simp add: raise_from_registry_def signo_map_get_is_end)
  then show ?thesis using inv by (auto simp: raise_settled_def intro: pins_kept_refl)
next
  case (Some a)
  obtain ci where a: "infos w a = Some ci" using reg_inv_lookup[OF inv Some] by blast
  let ?ci = "ci\<lparr>lifetime_refcount := lifetime_refcount ci + 1\<rparr>" and ?rsi = "prepare_rsi rsi_uninit sig info ctx"
  let ?P = "P(a := Suc (P a))"
  define w1 where "w1 = w\<lparr>lock := 1, infos := (infos w)(a \<mapsto> ?ci)\<rparr>"
  have inv1: "reg_inv w1 G D ?P N" "lock w1 = 1"
    using reg_inv_pin[of "w\<lparr>lock := 1\<rparr>" G D P N a ci ?ci "Suc (P a)"] inv a reg_inv_life(2)[OF inv a] by (simp_all add: w1_def)
  have fr: "l_front (global_handler ci) = first_ptr (G a) None"
    using lists_invD(1)[OF reg_inv_lists[OF inv] a] by (rule dll_front)
  obtain r w2 where r: "(if l_front (global_handler ci) \<noteq> None
      then raise_global decide sig (Some a) (l_front (global_handler ci)) ?rsi w1 else Some (None, w1)) = Some (r, w2)"
    "raise_post a G ?P N r w2"
  proof (cases "G a")
    case Nil
    then show ?thesis using that[of None w1] fr inv1 by (auto simp: raise_post_def intro: pins_kept_refl)
  next
    case (Cons n ns)
    then show ?thesis
      using raise_global_env[OF inv1(1,2), of a "[]" n ns sig ?rsi] that fr by auto
  qed
  have unf: "raise_from_registry decide sig info ctx w = (case r of Some out \<Rightarrow> Some (out, w2)
       | None \<Rightarrow> do {
           w \<leftarrow> sighandler_info_release (Some a) w2; w \<leftarrow> UNLOCK w;
           (out, w) \<leftarrow> invoke_sigaction (old_handler ci) sig info ctx w;
           Some (case out of Killed \<Rightarrow> Terminated | Invoked b \<Rightarrow> Raised True, w)
         })"
    unfolding raise_from_registry_handled[OF l Some a w1_def] r(1) by simp
  have Pm: "?P(a := ?P a - 1) = P" by auto
  show ?thesis
  proof (cases r)
    case (Some out)
    have "pins_kept ?P N G G' \<Longrightarrow> pins_kept P N G G'" for G' by (erule pins_kept_mono) auto
    then show ?thesis using unf Some r(2) unfolding raise_post_def raise_settled_def Pm by auto
  next
    case None
    obtain G2 D2 where i2: "reg_inv w2 G2 D2 ?P N" "lock w2 = 1" "pins_kept ?P N G G2"
      using r(2) None by (auto simp: raise_post_def)
    obtain w3 G3 D3 where w3: "sighandler_info_release (Some a) w2 = Some w3" "reg_inv w3 G3 D3 P N" "lock w3 = 1" "pins_kept P N G2 G3"
      using release_ok[OF i2(1) _ i2(2), of a] Pm by auto
    have "pins_kept P N G G2" using i2(3) by (rule pins_kept_mono) auto
    then have k: "pins_kept P N G G3" using pins_kept_trans w3(4) by blast
    obtain out w4 where w4: "invoke_sigaction (old_handler ci) sig info ctx (w3\<lparr>lock := 0\<rparr>) = Some (out, w4)"
      "out = Killed \<or> same_registry (w3\<lparr>lock := 0\<rparr>) w4"
      using invoke_sigaction_callable[OF call[OF \<open>signo_lookup _ sig = Some a\<close> a]] by blast
    have inv3: "reg_inv (w3\<lparr>lock := 0\<rparr>) G3 D3 P N" using w3(2) by simp
    have "raise_settled G P N (case out of Killed \<Rightarrow> Terminated | Invoked b \<Rightarrow> Raised True) w4"
      using w4(2) reg_inv_same[OF _ inv3] k
      by (cases out) (auto simp: raise_settled_def same_registry_def)
    then show ?thesis using unf None w3(1,3) w4(1) by simp
  qed
qed

end

section \<open>Deciders that install and uninstall\<close>

text \<open>
  A decider whose body installs signals and uninstalls handles it still holds, in any
  order, and then answers or leaves.
\<close>

datatype lib_action = Act_Install "sigset option" | Act_Uninstall addr

fun run_action :: "lib_action \<Rightarrow> sig_world \<Rightarrow> sig_world option" where
  "run_action (Act_Install S) w = map_option snd (siginstall native_tss [] S w)"
| "run_action (Act_Uninstall h) w =
     (if install_handles w h = None then Some w else map_option snd (siguninstall native_tss (Some h) w))"

fun run_actions :: "lib_action list \<Rightarrow> sig_world \<Rightarrow> sig_world option" where
  "run_actions [] w = Some w"
| "run_actions (act # acts) w = do { w \<leftarrow> run_action act w; run_actions acts w }"

definition scripted :: "(fnptr \<Rightarrow> lib_action list \<times> dec_outcome) \<Rightarrow> decide_fn" where
  "scripted prog f rsi w = do { w \<leftarrow> run_actions (fst (prog f)) w; Some (snd (prog f), rsi, w) }"

lemma run_action_ok:
  assumes inv: "reg_inv w G D P N" and l: "lock w = 0"
  shows "\<exists>w' G' D'. run_action act w = Some w' \<and> reg_inv w' G' D' P N \<and> lock w' = 0 \<and> pins_kept P N G G'"
proof (cases act)
  case (Act_Install S)
  obtain r w' G' D' where "siginstall native_tss [] S w = Some (r, w')" "lock w' = 0" "shrinks P G G'" "reg_inv w' G' D' P N"
    using native.siginstall_ok[OF inv l refl, of "[]" S] by blast
  then show ?thesis using Act_Install pins_kept_shrinks by fastforce
next
  case (Act_Uninstall h)
  show ?thesis
  proof (cases "install_handles w h")
    case None
    then show ?thesis using Act_Uninstall inv l by (auto intro: pins_kept_refl)
  next
    case (Some S)
    obtain w' G' D' where "siguninstall native_tss (Some h) w = Some (0, w')" "lock w' = 0" "shrinks P G G'" "reg_inv w' G' D' P N"
      using native.siguninstall_ok[OF inv l Some] by blast
    then show ?thesis using Act_Uninstall Some pins_kept_shrinks by fastforce
  qed
qed

lemma run_actions_ok:
  assumes "reg_inv w G D P N" "lock w = 0"
  shows "\<exists>w' G' D'. run_actions acts w = Some w' \<and> reg_inv w' G' D' P N \<and> lock w' = 0 \<and> pins_kept P N G G'"
  using assms
proof (induction acts arbitrary: w G D)
  case Nil
  then show ?case by (auto intro: pins_kept_refl)
next
  case (Cons act acts)
  obtain w1 G1 D1 where s: "run_action act w = Some w1" "reg_inv w1 G1 D1 P N" "lock w1 = 0" "pins_kept P N G G1"
    using run_action_ok[OF Cons.prems] by blast
  obtain w2 G2 D2 where "run_actions acts w1 = Some w2" "reg_inv w2 G2 D2 P N" "lock w2 = 0" "pins_kept P N G1 G2"
    using Cons.IH[OF s(2,3)] by blast
  then show ?case using s(1) pins_kept_trans[OF s(4)] by auto
qed

interpretation script: decider_env "scripted prog" for prog
proof
  fix w G D P N f rsi
  assume "reg_inv w G D P N" "lock w = 0"
  then obtain w' G' D' where "run_actions (fst (prog f)) w = Some w'" "reg_inv w' G' D' P N" "lock w' = 0" "pins_kept P N G G'"
    using run_actions_ok by blast
  then show "\<exists>out rsi' w' G' D'. scripted prog f rsi w = Some (out, rsi', w') \<and> reg_inv w' G' D' P N \<and> lock w' = 0
      \<and> pins_kept P N G G'"
    by (auto simp: scripted_def)
qed

lemma stdc_raise_scripted:
  assumes rel: "registry_rel w s" and sig: "1 \<le> sig" "sig < NSIG" "unguarded w sig"
    and call: "\<And>a ci. signo_lookup (signo_to_sighandler_map w) sig = Some a \<Longrightarrow> infos w a = Some ci \<Longrightarrow> callable (old_handler ci)"
  shows "\<exists>out w'. stdc_raise (scripted prog) sig info ctx w = Some (out, w')
    \<and> (out = Terminated \<or> lock w' = 0 \<and> (out = Left_By_Decider \<or> (\<exists>s'. registry_rel w' s')))"
proof -
  obtain G D where w: "lock w = 0" "reg_inv w G D (\<lambda>_. 0) (\<lambda>_. 0)" using rel by (auto simp: registry_rel_def)
  obtain out w' where r: "raise_from_registry (scripted prog) sig info ctx w = Some (out, w')"
    "raise_settled G (\<lambda>_. 0) (\<lambda>_. 0) out w'"
    using script.raise_from_registry_env[OF w(2,1), of sig] call by blast
  moreover have "\<exists>s'. registry_rel w' s'" if "out \<noteq> Terminated" "out \<noteq> Left_By_Decider"
    using r(2) that by (auto simp: raise_settled_def registry_rel_def)
  ultimately show ?thesis using stdc_raise_unguarded[OF sig(3,1,2)] by (auto simp: raise_settled_def)
qed

text \<open>
  C7 (termination). A raise whose deciders install and uninstall signals in any order, the
  raised one included, always ends: it returns with the registry consistent and the lock
  free, or a decider leaves it with the lock free, or the default action ends the process.
  The container and the node a raise is at stay allocated for as long as it needs them.
\<close>

theorem raise_survives_reentrant_installs:
  assumes rel: "registry_rel w s" and sig: "1 \<le> sig" "sig < NSIG" "unguarded w sig"
    and call: "\<forall>h sa. s sig = (Some h, sa) \<longrightarrow> callable (ah_previous h)"
  shows "\<exists>out w'. stdc_raise (scripted prog) sig info ctx w = Some (out, w')
    \<and> (out = Terminated \<or> lock w' = 0 \<and> (out = Left_By_Decider \<or> (\<exists>s'. registry_rel w' s')))"
proof (rule stdc_raise_scripted[OF rel sig])
  fix a ci
  assume a: "signo_lookup (signo_to_sighandler_map w) sig = Some a" "infos w a = Some ci"
  obtain G where "s = reg_state w G" using rel by (auto simp: registry_rel_def)
  then show "callable (old_handler ci)" using call reg_abs_Some[OF a, of G] by (simp add: reg_state_def handler_view_def)
qed

theorem raise_survives_reentrant_installs_witness:
  "\<exists>out w'. stdc_raise (scripted (\<lambda>f. ([Act_Uninstall 1, Act_Install (Some {10})], Returns sig_decision_resume_execution)))
      10 None None usr1_decider_world = Some (out, w')
    \<and> (out = Terminated \<or> lock w' = 0 \<and> (out = Left_By_Decider \<or> (\<exists>s'. registry_rel w' s')))"
proof -
  obtain \<nu> where rel: "registry_rel usr1_decider_world
      (create_effect (visited {10}) False 7 42 \<nu> (at_signals (visited {10}) inst (\<lambda>_. (None, sigaction_zero))))"
    using usr1_decider_world_handle by metis
  have "unguarded usr1_decider_world 10" by code_simp
  moreover have "visited {10} 10" by code_simp
  ultimately show ?thesis
    by (intro raise_survives_reentrant_installs[OF rel])
      (auto simp: create_effect_def at_signals_def NSIG_def callable_def sigaction_zero_def)
qed

section \<open>A decider that destroys another one after the last uninstall\<close>

text \<open>
  Two deciders for one signal; the second one, when asked, uninstalls the signal and then
  destroys the handle of the first one. The last uninstall takes the container out of the map while the
  raise keeps it alive, so \<^verbatim>\<open>signal_decider_destroy\<close> no longer finds the container and frees
  the first node without unlinking it from the container's list. The lemma says so of
  any node that a container still lists and that no raise is at.
\<close>

lemma destroy_frees_linked_node:
  assumes inv: "reg_inv w G D P N" and n: "slot (decider_handles w) p k = Some n" "N n = 0" and linked: "n \<in> set (G a)" and j: "sigismember g j"
  shows "\<exists>ci w'. infos w a = Some ci \<and> dll (nodes w) (global_handler ci) (G a)
    \<and> destroy_unlocked p g j k w = Some (Suc k, w') \<and> infos w' = infos w \<and> nodes w' = (nodes w)(n := None)"
proof -
  obtain ci where ci: "infos w a = Some ci" using reg_inv_lists[OF inv] linked by (cases "infos w a") (auto simp: lists_inv_def)
  obtain dh d where d: "decider_handles w p = Some dh" "k < length (dh_slots dh)" "nodes w n = Some d" "refcount d = 1 + int (N n)"
    by (rule reg_inv_slot[OF inv n(1)])
  have "destroy_unlocked p g j k w = Some (Suc k, w\<lparr>nodes := (nodes w)(n := None)\<rparr>)"
    using d n j by (simp add: destroy_unlocked_def slot_read_ok)
  then show ?thesis using ci lists_invD(1)[OF reg_inv_lists[OF inv] ci] by auto
qed

definition destroy_other_decider :: "ptr \<Rightarrow> ptr \<Rightarrow> decide_fn" where
  "destroy_other_decider installed other f rsi w =
     (if f = 2 then do {
        (r, w) \<leftarrow> siguninstall native_tss installed w;
        (r, w) \<leftarrow> signal_decider_destroy other w;
        Some (Returns sig_decision_resume_execution, rsi, w)
      } else Some (Returns sig_decision_next_decider, rsi, w))"

definition raise_with_destroyed_neighbour :: "bool \<Rightarrow> (raise_outcome \<times> sig_world) option" where
  "raise_with_destroyed_neighbour own = do {
     (ih, w) \<leftarrow> siginstall native_tss [] (Some {10}) sig_world_init;
     (ha, w) \<leftarrow> signal_decider_create (Some {10}) False (Some 1) 0 w;
     (hb, w) \<leftarrow> signal_decider_create (Some {10}) False (Some 2) 0 w;
     stdc_raise (destroy_other_decider ih (if own then hb else ha)) 10 None None w
   }"

text \<open>
  On this example: the decider may uninstall the signal it was called for and destroy its own
  handle, and the raise goes on to return true; but when it uninstalls the signal and destroys the
  handle of the other decider, the raise does not return: it releases the container, whose
  list still leads to the freed node.
\<close>

theorem destroying_neighbour_after_uninstall_faults:
  "Option.is_none (raise_with_destroyed_neighbour False)
   \<and> map_option fst (raise_with_destroyed_neighbour True) = Some (Raised True)"
  by (intro conjI; code_simp)

end
