(* ===== verification/Posix_Frames.thy ===== *)
theory Posix_Frames
  imports Raise_Reentrancy
begin

text \<open>
  The calling thread's guarded sections: which decider a raise asks, in which order, and where
  it ends; entering and leaving a section; the errors of a raise; abandoning a decider.
\<close>

section \<open>The walk over the frames\<close>

text \<open>What the decider of the frame \<open>fr\<close> is told; \<open>outer\<close> are the frames outside it.\<close>

definition frame_rsi :: "int \<Rightarrow> siginfo option \<Rightarrow> nat option \<Rightarrow> frame \<Rightarrow> frame list \<Rightarrow> stdc_siginfo" where
  "frame_rsi sig info ctx fr outer =
     (prepare_rsi rsi_uninit sig info ctx)\<lparr>si_value := fr_value fr, internal_local_decider := fr # outer\<rparr>"

lemma frame_rsi_value [simp]: "si_value (frame_rsi sig info ctx fr outer) = fr_value fr"
  by (simp add: frame_rsi_def)

text \<open>
  A frame claims the signal when it guards it and its decider answers that execution
  resumes, or asks for recovery and the frame has a recovery function.
\<close>

definition frame_claims :: "(fnptr \<Rightarrow> siginfo_value \<Rightarrow> sig_decision) \<Rightarrow> int \<Rightarrow> frame \<Rightarrow> bool" where
  "frame_claims ans sig fr \<longleftrightarrow> sigismember (fr_guarded fr) sig \<and>
     (case ans (fr_decider fr) (fr_value fr) of
        sig_decision_next_decider \<Rightarrow> False
      | sig_decision_resume_execution \<Rightarrow> True
      | sig_decision_call_recovery \<Rightarrow> fr_recovery fr \<noteq> None)"

definition frames_asked :: "(fnptr \<Rightarrow> siginfo_value \<Rightarrow> sig_decision) \<Rightarrow> int \<Rightarrow> frame list \<Rightarrow> event list" where
  "frames_asked ans sig frs = map (\<lambda>fr. Ev_Decider (fr_decider fr) sig (fr_value fr))
     (filter (\<lambda>fr. sigismember (fr_guarded fr) sig) (asked (frame_claims ans sig) frs))"

lemma frames_asked_simps [simp]:
  "frames_asked ans sig [] = []"
  "frames_asked ans sig (fr # frs) =
     (if sigismember (fr_guarded fr) sig then [Ev_Decider (fr_decider fr) sig (fr_value fr)] else [])
     @ (if frame_claims ans sig fr then [] else frames_asked ans sig frs)"
  by (simp_all add: frames_asked_def)

lemma walk_frames_answering:
  "walk_frames (answering (\<lambda>f rsi. ans f (si_value rsi))) sig info ctx frs w =
    (let w' = w\<lparr>events := events w @ frames_asked ans sig frs\<rparr> in
     case dropWhile (\<lambda>fr. \<not> frame_claims ans sig fr) frs of
       [] \<Rightarrow> Some (None, w')
     | fr # outer \<Rightarrow> Some (Some (if ans (fr_decider fr) (fr_value fr) = sig_decision_resume_execution
         then Raised True else Recover fr (frame_rsi sig info ctx fr outer)), w'))"
proof (induction frs arbitrary: w)
  case (Cons fr frs)
  let ?D = "answering (\<lambda>f rsi. ans f (si_value rsi))"
    and ?w = "w\<lparr>events := events w @ (if sigismember (fr_guarded fr) sig then [Ev_Decider (fr_decider fr) sig (fr_value fr)] else [])\<rparr>"
  have "walk_frames ?D sig info ctx (fr # frs) w =
    (if frame_claims ans sig fr
     then Some (Some (if ans (fr_decider fr) (fr_value fr) = sig_decision_resume_execution
         then Raised True else Recover fr (frame_rsi sig info ctx fr frs)), ?w)
     else walk_frames ?D sig info ctx frs ?w)"
    by (cases "ans (fr_decider fr) (fr_value fr)")
      (simp_all add: answering_def log_event_def frame_claims_def frame_rsi_def[symmetric] Let_def)
  then show ?case unfolding Cons.IH Let_def
    by (cases "frame_claims ans sig fr"; cases "dropWhile (\<lambda>fr. \<not> frame_claims ans sig fr) frs")
      (simp_all del: dropWhile_eq_Nil_conv dropWhile_eq_Cons_conv)
qed simp

lemma stdc_raise_frames:
  assumes "1 \<le> sig" "sig < NSIG" "tss w = Some frs"
  shows "stdc_raise decide sig info ctx w = do {
      (claimed, w) \<leftarrow> walk_frames decide sig info ctx frs w;
      (case claimed of Some out \<Rightarrow> Some (out, w) | None \<Rightarrow> raise_from_registry decide sig info ctx w) }"
  using assms by (simp add: stdc_raise_def sig_global_tss_state_init_def)

text \<open>
  C13 (functional). A raise asks the thread's guarded sections from the innermost outwards,
  only those whose set has the signal, and stops at the first that claims it: resuming makes
  the raise return true, recovery jumps to exactly that frame, with the information its
  decider was given. A request for recovery from a frame without a recovery function counts
  as passing. Only when no frame claims the signal is the registry asked.
\<close>

theorem raise_asks_frames_innermost_first:
  assumes "1 \<le> sig" "sig < NSIG" "tss w = Some frs"
  shows "stdc_raise (answering (\<lambda>f rsi. ans f (si_value rsi))) sig info ctx w =
    (let w' = w\<lparr>events := events w @ frames_asked ans sig frs\<rparr> in
     case dropWhile (\<lambda>fr. \<not> frame_claims ans sig fr) frs of
       [] \<Rightarrow> raise_from_registry (answering (\<lambda>f rsi. ans f (si_value rsi))) sig info ctx w'
     | fr # outer \<Rightarrow> Some (if ans (fr_decider fr) (fr_value fr) = sig_decision_resume_execution
         then Raised True else Recover fr (frame_rsi sig info ctx fr outer), w'))"
  unfolding stdc_raise_frames[OF assms] walk_frames_answering Let_def
  by (cases "dropWhile (\<lambda>fr. \<not> frame_claims ans sig fr) frs") (simp_all del: dropWhile_eq_Nil_conv dropWhile_eq_Cons_conv)

definition example_frame :: "nat \<Rightarrow> frame" where
  "example_frame n = \<lparr>fr_addr = n, fr_guarded = {11}, fr_recovery = if n = 1 then None else Some 5, fr_decider = 6, fr_value = of_nat n\<rparr>"

theorem raise_asks_frames_innermost_first_witness:
  "stdc_raise (answering (\<lambda>f rsi. sig_decision_call_recovery)) 11 None None
      (sig_world_init\<lparr>tss := Some [example_frame 1, example_frame 2]\<rparr>) =
    Some (Recover (example_frame 2) (frame_rsi 11 None None (example_frame 2) []),
      sig_world_init\<lparr>tss := Some [example_frame 1, example_frame 2], events := [Ev_Decider 6 11 1, Ev_Decider 6 11 2]\<rparr>)"
  using raise_asks_frames_innermost_first[of 11 "sig_world_init\<lparr>tss := Some [example_frame 1, example_frame 2]\<rparr>"
      "[example_frame 1, example_frame 2]" "\<lambda>_ _. sig_decision_call_recovery" None None]
  by (simp add: example_frame_def frame_claims_def sigismember_def NSIG_def sig_world_init_def)

section \<open>Errors and the unhandled case\<close>

text \<open>
  C32 (error). A raise for the number zero, for a number outside the host's range, or for a signal
  that no frame guards and no handler is installed for answers false without calling any
  decider or changing anything but the thread's own state object. When that object cannot be
  allocated the answer is false too, with \<^verbatim>\<open>errno\<close> set.
\<close>

theorem raise_unhandled_or_invalid:
  "(tss w = Some frs \<longrightarrow> sig < 1 \<or> NSIG \<le> sig \<longrightarrow> stdc_raise decide sig info ctx w = Some (Raised False, w))
   \<and> (tss w = Some frs \<longrightarrow> lock w = 0 \<longrightarrow> signo_lookup (signo_to_sighandler_map w) sig = None \<longrightarrow>
      (\<forall>fr \<in> set frs. \<not> sigismember (fr_guarded fr) sig) \<longrightarrow> stdc_raise decide sig info ctx w = Some (Raised False, w))
   \<and> (tss w = None \<longrightarrow> alloc_plan w = False # plan \<longrightarrow>
      stdc_raise decide sig info ctx w = Some (Raised False, w\<lparr>alloc_plan := plan, errno := ENOMEM\<rparr>))"
proof (intro conjI impI)
  assume w: "tss w = Some frs"
  show inv: "stdc_raise decide sig info ctx w = Some (Raised False, w)" if "sig < 1 \<or> NSIG \<le> sig"
    using that w by (auto simp: stdc_raise_def sig_global_tss_state_init_def)
  assume "lock w = 0" "signo_lookup (signo_to_sighandler_map w) sig = None"
    "\<forall>fr \<in> set frs. \<not> sigismember (fr_guarded fr) sig"
  moreover from this have "w\<lparr>lock := 0\<rparr> = w" by (cases w) simp
  ultimately have "1 \<le> sig \<Longrightarrow> sig < NSIG \<Longrightarrow> stdc_raise decide sig info ctx w = Some (Raised False, w)"
    using w by (simp add: stdc_raise_frames walk_frames_unguarded raise_from_registry_def signo_map_get_is_end)
  then show "stdc_raise decide sig info ctx w = Some (Raised False, w)" using inv by linarith
next
  assume "tss w = None" "alloc_plan w = False # plan"
  then show "stdc_raise decide sig info ctx w = Some (Raised False, w\<lparr>alloc_plan := plan, errno := ENOMEM\<rparr>)"
    by (simp add: stdc_raise_def sig_global_tss_state_init_def host_alloc_def Let_def ENOMEM_def)
qed

theorem raise_unhandled_or_invalid_witness:
  "stdc_raise (answering (\<lambda>_ _. sig_decision_next_decider)) 65 None None (sig_world_init\<lparr>tss := Some []\<rparr>)
     = Some (Raised False, sig_world_init\<lparr>tss := Some []\<rparr>)
   \<and> stdc_raise (answering (\<lambda>_ _. sig_decision_next_decider)) 10 None None (sig_world_init\<lparr>tss := Some []\<rparr>)
     = Some (Raised False, sig_world_init\<lparr>tss := Some []\<rparr>)
   \<and> stdc_raise (answering (\<lambda>_ _. sig_decision_next_decider)) 10 None None (sig_world_init\<lparr>alloc_plan := [False]\<rparr>)
     = Some (Raised False, sig_world_init\<lparr>alloc_plan := [], errno := ENOMEM\<rparr>)"
  using raise_unhandled_or_invalid[of "sig_world_init\<lparr>tss := Some []\<rparr>" "[]" 65]
    raise_unhandled_or_invalid[of "sig_world_init\<lparr>tss := Some []\<rparr>" "[]" 10]
    raise_unhandled_or_invalid[of "sig_world_init\<lparr>alloc_plan := [False]\<rparr>"]
  by (simp add: sig_world_init_def NSIG_def signo_lookup_empty)

section \<open>The previous disposition\<close>

lemma invoke_sigaction_uncallable: "\<not> callable sa \<Longrightarrow> invoke_sigaction sa sig info ctx w = None"
  by (cases "sa_handler sa"; cases info)
    (auto simp: callable_def invoke_sigaction_def call_sa_sigaction_def call_sa_handler_def)

text \<open>
  C33 (safety). The hand-off to the previous disposition is defined exactly when that
  disposition is a user function, or the default or ignore action without \<^verbatim>\<open>SA_SIGINFO\<close>;
  with the flag set, \<^verbatim>\<open>SIG_DFL\<close> and \<^verbatim>\<open>SIG_IGN\<close> are called as if they were functions. Whenever
  the process survives the hand-off, the dispositions and the registry are as before it.
\<close>

theorem invoke_sigaction_defined_iff:
  "(invoke_sigaction sa sig info ctx w \<noteq> None \<longleftrightarrow> callable sa)
   \<and> (\<forall>b w'. invoke_sigaction sa sig info ctx w = Some (Invoked b, w') \<longrightarrow> same_registry w w')"
proof (cases "callable sa")
  case True
  then show ?thesis using invoke_sigaction_callable[OF True, of sig info ctx w] by auto
next
  case False
  then show ?thesis by (simp add: invoke_sigaction_uncallable)
qed

theorem invoke_sigaction_defined_iff_witness:
  "invoke_sigaction \<lparr>sa_handler = User_Handler 3, sa_flags = 0\<rparr> 10 None None sig_world_init \<noteq> None
   \<and> invoke_sigaction \<lparr>sa_handler = SIG_DFL, sa_flags = SA_SIGINFO\<rparr> 10 None None sig_world_init = None"
proof (intro conjI)
  show "invoke_sigaction \<lparr>sa_handler = User_Handler 3, sa_flags = 0\<rparr> 10 None None sig_world_init \<noteq> None"
    using conjunct1[OF invoke_sigaction_defined_iff] by (simp add: callable_def)
  have "\<not> callable \<lparr>sa_handler = SIG_DFL, sa_flags = SA_SIGINFO\<rparr>" by (simp add: callable_def SA_SIGINFO_def)
  then show "invoke_sigaction \<lparr>sa_handler = SIG_DFL, sa_flags = SA_SIGINFO\<rparr> 10 None None sig_world_init = None"
    using conjunct1[OF invoke_sigaction_defined_iff] by blast
qed

section \<open>Guarded sections\<close>

lemma set_front_ok: "tss w \<noteq> None \<Longrightarrow> set_front frs w = Some (w\<lparr>tss := Some frs\<rparr>)"
  by (simp add: set_front_def)

text \<open>The frame that \<^verbatim>\<open>sigguarded\<close> links in, and the state in which the guarded function runs.\<close>

definition section_frame :: "sigset \<Rightarrow> fnptr option \<Rightarrow> fnptr \<Rightarrow> siginfo_value \<Rightarrow> sig_world \<Rightarrow> frame" where
  "section_frame S rf d v w =
     \<lparr>fr_addr = next_addr w, fr_guarded = S, fr_recovery = rf, fr_decider = d, fr_value = v\<rparr>"

definition section_world :: "sigset \<Rightarrow> fnptr option \<Rightarrow> fnptr \<Rightarrow> siginfo_value \<Rightarrow> frame list \<Rightarrow> sig_world \<Rightarrow> sig_world" where
  "section_world S rf d v old w = w\<lparr>next_addr := Suc (next_addr w), tss := Some (section_frame S rf d v w # old)\<rparr>"

lemma sigguarded_entered:
  assumes "tss w = Some old"
  shows "sigguarded (Some S) (Some body) recovery (Some d) v w = do {
      (out, w') \<leftarrow> body v (section_world S (map_option fst recovery) d v old w);
      (case out of
         Body_Value u \<Rightarrow> do { w' \<leftarrow> set_front old w'; Some (Guarded_Value u, w') }
       | Body_Jump a rsi \<Rightarrow>
           (if a = next_addr w
            then do { w' \<leftarrow> set_front old w'; (_, f) \<leftarrow> recovery; (u, w') \<leftarrow> f rsi w'; Some (Guarded_Value u, w') }
            else Some (Guarded_Jump a rsi, w'))
       | Body_Gone \<Rightarrow> Some (Guarded_Gone, w')) }"
  using assms by (simp add: sigguarded_def sig_global_tss_state_init_def set_front_ok section_world_def section_frame_def Let_def
      cong: body_outcome.case_cong)

text \<open>
  C29 (functional). Whatever the guarded function leaves as the thread's frame chain, and whether it
  returns a value or a jump arrives for this section, afterwards the chain is the one from
  before the section, and only then does the recovery function run; a jump for another section
  passes through, and the result is the function's or the recovery function's value.
\<close>

theorem sigguarded_restores_frames:
  assumes w: "tss w = Some old" and b: "body v (section_world S (Some rf) d v old w) = Some (out, w')" and live: "tss w' \<noteq> None"
  shows "sigguarded (Some S) (Some body) (Some (rf, f)) (Some d) v w =
    (case out of
       Body_Value u \<Rightarrow> Some (Guarded_Value u, w'\<lparr>tss := Some old\<rparr>)
     | Body_Jump a rsi \<Rightarrow> if a = next_addr w
         then map_option (map_prod Guarded_Value id) (f rsi (w'\<lparr>tss := Some old\<rparr>))
         else Some (Guarded_Jump a rsi, w')
     | Body_Gone \<Rightarrow> Some (Guarded_Gone, w'))"
  using b live
  by (cases out) (simp_all add: sigguarded_entered[OF w] set_front_ok map_option_case split: option.split prod.split)

theorem sigguarded_restores_frames_witness:
  "sigguarded (Some {11}) (Some (\<lambda>v w. Some (Body_Value (v + 1), w))) (Some (5, \<lambda>rsi w. Some (0, w))) (Some 6) 41
      (sig_world_init\<lparr>tss := Some []\<rparr>) = Some (Guarded_Value 42, sig_world_init\<lparr>next_addr := 2, tss := Some []\<rparr>)"
  using sigguarded_restores_frames[of "sig_world_init\<lparr>tss := Some []\<rparr>" "[]" "\<lambda>v w. Some (Body_Value (v + 1), w)"
    41 "{11}" 5 6 "Body_Value 42" "section_world {11} (Some 5) 6 41 [] (sig_world_init\<lparr>tss := Some []\<rparr>)" "\<lambda>rsi w. Some (0, w)"]
  by (simp add: section_world_def sig_world_init_def)

text \<open>A guarded function that raises a signal and returns what the raise answered.\<close>

definition raising_body :: "decide_fn \<Rightarrow> int \<Rightarrow> siginfo option \<Rightarrow> nat option
    \<Rightarrow> siginfo_value \<Rightarrow> sig_world \<Rightarrow> (body_outcome \<times> sig_world) option" where
  "raising_body decide sig info ctx v w = do {
     (out, w) \<leftarrow> stdc_raise decide sig info ctx w;
     Some (case out of Raised b \<Rightarrow> Body_Value (of_bool b) | Recover fr rsi \<Rightarrow> Body_Jump (fr_addr fr) rsi
       | Left_By_Decider \<Rightarrow> Body_Gone | Terminated \<Rightarrow> Body_Gone, w) }"

text \<open>
  C28 (functional). A signal raised inside a section that guards it, whose decider asks for
  recovery, comes back to that section and to no other: the recovery function gets the
  information the decider got, with the frame chain already restored, and its value is the
  value of the section.
\<close>

theorem raise_in_section_recovers:
  assumes w: "tss w = Some old" and sig: "sigismember S sig" and ans: "ans d v = sig_decision_call_recovery"
    and D: "D = answering (\<lambda>f rsi. ans f (si_value rsi))"
  shows "sigguarded (Some S) (Some (raising_body D sig info ctx)) (Some (rf, f)) (Some d) v w =
    map_option (map_prod Guarded_Value id)
      (f (frame_rsi sig info ctx (section_frame S (Some rf) d v w) old)
         (w\<lparr>next_addr := Suc (next_addr w), tss := Some old, events := events w @ [Ev_Decider d sig v]\<rparr>))"
proof -
  let ?fr = "section_frame S (Some rf) d v w" and ?w = "section_world S (Some rf) d v old w"
  have rng: "1 \<le> sig" "sig < NSIG" using sig by (auto simp: sigismember_def)
  have "frame_claims ans sig ?fr" using sig ans by (simp add: frame_claims_def section_frame_def)
  then have "walk_frames D sig info ctx (?fr # old) ?w = Some (Some (Recover ?fr (frame_rsi sig info ctx ?fr old)),
      ?w\<lparr>events := events w @ [Ev_Decider d sig v]\<rparr>)"
    using sig ans unfolding D walk_frames_answering by (simp add: section_frame_def section_world_def)
  then have "stdc_raise D sig info ctx ?w = Some (Recover ?fr (frame_rsi sig info ctx ?fr old),
      ?w\<lparr>events := events w @ [Ev_Decider d sig v]\<rparr>)"
    using stdc_raise_frames[OF rng, of ?w "?fr # old"] by (simp add: section_world_def)
  then have "raising_body D sig info ctx v ?w = Some (Body_Jump (next_addr w) (frame_rsi sig info ctx ?fr old),
      ?w\<lparr>events := events w @ [Ev_Decider d sig v]\<rparr>)"
    by (simp add: raising_body_def section_frame_def)
  moreover have "?w\<lparr>events := events w @ [Ev_Decider d sig v], tss := Some old\<rparr>
      = w\<lparr>next_addr := Suc (next_addr w), tss := Some old, events := events w @ [Ev_Decider d sig v]\<rparr>"
    by (cases w) (simp add: section_world_def)
  moreover have "tss ?w \<noteq> None" by (simp add: section_world_def)
  ultimately show ?thesis
    by (simp add: sigguarded_entered[OF w] set_front_ok map_option_case split: Option.bind_split option.split)
qed

theorem raise_in_section_recovers_witness:
  "sigguarded (Some {11}) (Some (raising_body (answering (\<lambda>f rsi. sig_decision_call_recovery)) 11 None None))
      (Some (5, \<lambda>rsi w. Some (si_value rsi + 1, w))) (Some 6) 41 (sig_world_init\<lparr>tss := Some []\<rparr>) =
    Some (Guarded_Value 42, sig_world_init\<lparr>next_addr := 2, tss := Some [], events := [Ev_Decider 6 11 41]\<rparr>)"
  using raise_in_section_recovers[of "sig_world_init\<lparr>tss := Some []\<rparr>" "[]" "{11}" 11 "\<lambda>_ _. sig_decision_call_recovery" 6 41 _ None None 5
      "\<lambda>rsi w. Some (si_value rsi + 1, w)", OF _ _ _ refl]
  by (simp add: sigismember_def NSIG_def sig_world_init_def section_frame_def)

text \<open>
  Error. A null set, guarded function or decider aborts before anything happens; when the
  thread's state cannot be allocated the guarded function is not called and the section
  answers the documented failure value.
\<close>

theorem sigguarded_refusals:
  "(S = None \<or> body = None \<or> d = None \<longrightarrow> sigguarded S body recovery d v w = Some (Guarded_Abort, w))
   \<and> (S \<noteq> None \<longrightarrow> body \<noteq> None \<longrightarrow> d \<noteq> None \<longrightarrow> tss w = None \<longrightarrow> alloc_plan w = False # plan \<longrightarrow>
     sigguarded S body recovery d v w = Some (Guarded_Value (- 99), w\<lparr>alloc_plan := plan, errno := ENOMEM\<rparr>))"
  by (auto simp: sigguarded_def sig_global_tss_state_init_def host_alloc_def Let_def sigguarded_failure_value_def)

theorem sigguarded_refusals_witness:
  "sigguarded (Some {11}) None None (Some 6) 0 sig_world_init = Some (Guarded_Abort, sig_world_init)
   \<and> sigguarded (Some {11}) (Some (\<lambda>v w. None)) None (Some 6) 0 (sig_world_init\<lparr>alloc_plan := [False]\<rparr>)
     = Some (Guarded_Value (- 99), sig_world_init\<lparr>alloc_plan := [], errno := ENOMEM\<rparr>)"
  using sigguarded_refusals[of "Some {11}" None "Some 6" None 0 sig_world_init]
    sigguarded_refusals[of "Some {11}" "Some (\<lambda>v w. None)" "Some 6" None 0 "sig_world_init\<lparr>alloc_plan := [False]\<rparr>" "[]"]
  by (simp add: sig_world_init_def)

section \<open>Abandoning a decider\<close>

text \<open>The state a decider runs in: its frame is the innermost one, or its node and container are live.\<close>

definition in_decider :: "stdc_siginfo \<Rightarrow> sig_world \<Rightarrow> bool" where
  "in_decider rsi w \<longleftrightarrow> lock w = 0 \<and> \<not> internal_decider_is_abandoned rsi
     \<and> (internal_local_decider rsi \<noteq> [] \<longrightarrow> tss w = Some (internal_local_decider rsi))
     \<and> (internal_sighandler rsi \<noteq> None \<longrightarrow> deref (infos w) (internal_sighandler rsi) \<noteq> None)
     \<and> (internal_global_decider rsi \<noteq> None \<longrightarrow> deref (nodes w) (internal_global_decider rsi) \<noteq> None)"

text \<open>The common part of abandoning and resuming: both reference counts move by \<open>\<delta>\<close>.\<close>

definition adjust_refs :: "int \<Rightarrow> stdc_siginfo \<Rightarrow> sig_world \<Rightarrow> sig_world option" where
  "adjust_refs \<delta> rsi w =
     (if internal_sighandler rsi \<noteq> None \<or> internal_global_decider rsi \<noteq> None
      then do {
        w \<leftarrow> LOCK w;
        w \<leftarrow> (if internal_sighandler rsi \<noteq> None
          then info_upd (internal_sighandler rsi) (\<lambda>inf. inf\<lparr>lifetime_refcount := lifetime_refcount inf + \<delta>\<rparr>) w
          else Some w);
        w \<leftarrow> (if internal_global_decider rsi \<noteq> None
          then node_upd (internal_global_decider rsi) (\<lambda>d. d\<lparr>refcount := refcount d + \<delta>\<rparr>) w
          else Some w);
        UNLOCK w
      }
      else Some w)"

lemma abandon_alt:
  assumes "\<not> internal_decider_is_abandoned rsi" "internal_local_decider rsi = [] \<or> tss w = Some (internal_local_decider rsi)"
  shows "sigdecider_abandon rsi w = do {
      w \<leftarrow> adjust_refs (- 1) rsi (if internal_local_decider rsi = [] then w else w\<lparr>tss := Some (tl (internal_local_decider rsi))\<rparr>);
      Some (rsi\<lparr>internal_decider_is_abandoned := True\<rparr>, w) }"
  using assms by (cases "internal_local_decider rsi"; cases "internal_sighandler rsi"; cases "internal_global_decider rsi")
    (simp_all add: sigdecider_abandon_def adjust_refs_def)

lemma resume_alt:
  assumes "internal_decider_is_abandoned rsi" "internal_local_decider rsi = [] \<or> tss w = Some (tl (internal_local_decider rsi))"
  shows "sigdecider_abandon_resume rsi w = do {
      w \<leftarrow> adjust_refs 1 rsi (if internal_local_decider rsi = [] then w else w\<lparr>tss := Some (internal_local_decider rsi)\<rparr>);
      Some (rsi\<lparr>internal_decider_is_abandoned := False\<rparr>, w) }"
  using assms by (cases "internal_local_decider rsi"; cases "internal_sighandler rsi"; cases "internal_global_decider rsi")
    (simp_all add: sigdecider_abandon_resume_def adjust_refs_def)

definition bump_info :: "int \<Rightarrow> ptr \<Rightarrow> sighandler_info heap \<Rightarrow> sighandler_info heap" where
  "bump_info \<delta> p I = (case p of None \<Rightarrow> I
     | Some a \<Rightarrow> I(a := map_option (\<lambda>ci. ci\<lparr>lifetime_refcount := lifetime_refcount ci + \<delta>\<rparr>) (I a)))"

definition bump_node :: "int \<Rightarrow> ptr \<Rightarrow> global_signal_decider_t heap \<Rightarrow> global_signal_decider_t heap" where
  "bump_node \<delta> q ns = (case q of None \<Rightarrow> ns
     | Some n \<Rightarrow> ns(n := map_option (\<lambda>d. d\<lparr>refcount := refcount d + \<delta>\<rparr>) (ns n)))"

lemma bump_back: "bump_info \<delta> p (bump_info (- \<delta>) p I) = I" "bump_node \<delta> q (bump_node (- \<delta>) q ns) = ns"
  by (auto simp: bump_info_def bump_node_def fun_eq_iff option.map_comp o_def map_option.identity split: option.split)

lemma bump_live: "bump_info \<delta> p I x = None \<longleftrightarrow> I x = None" "bump_node \<delta> q ns x = None \<longleftrightarrow> ns x = None"
  by (auto simp: bump_info_def bump_node_def split: option.split)

lemma info_upd_bump: "p = Some a \<Longrightarrow> infos w a \<noteq> None \<Longrightarrow>
    info_upd p (\<lambda>ci. ci\<lparr>lifetime_refcount := lifetime_refcount ci + \<delta>\<rparr>) w = Some (w\<lparr>infos := bump_info \<delta> p (infos w)\<rparr>)"
  by (auto simp: info_upd_def bump_info_def)

lemma node_upd_bump: "q = Some n \<Longrightarrow> nodes w n \<noteq> None \<Longrightarrow>
    node_upd q (\<lambda>d. d\<lparr>refcount := refcount d + \<delta>\<rparr>) w = Some (w\<lparr>nodes := bump_node \<delta> q (nodes w)\<rparr>)"
  by (auto simp: node_upd_def bump_node_def)

definition refs_live :: "stdc_siginfo \<Rightarrow> sig_world \<Rightarrow> bool" where
  "refs_live rsi w \<longleftrightarrow> lock w = 0 \<and> (\<forall>a. internal_sighandler rsi = Some a \<longrightarrow> infos w a \<noteq> None)
     \<and> (\<forall>n. internal_global_decider rsi = Some n \<longrightarrow> nodes w n \<noteq> None)"

lemma adjust_refs_ok:
  assumes "refs_live rsi w"
  shows "adjust_refs \<delta> rsi w = Some (w\<lparr>infos := bump_info \<delta> (internal_sighandler rsi) (infos w),
      nodes := bump_node \<delta> (internal_global_decider rsi) (nodes w)\<rparr>)"
proof -
  have l: "lock w = 0" using assms by (simp add: refs_live_def)
  have w: "w\<lparr>lock := 1, infos := I, nodes := ns, lock := 0\<rparr> = w\<lparr>infos := I, nodes := ns\<rparr>" for I ns
    using l by (cases w) simp
  have id: "w\<lparr>infos := infos w, nodes := nodes w\<rparr> = w" by (cases w) simp
  have "(if internal_sighandler rsi \<noteq> None
      then info_upd (internal_sighandler rsi) (\<lambda>ci. ci\<lparr>lifetime_refcount := lifetime_refcount ci + \<delta>\<rparr>) v else Some v)
    = Some (v\<lparr>infos := bump_info \<delta> (internal_sighandler rsi) (infos v)\<rparr>)" if "infos v = infos w" for v
    using info_upd_bump that assms by (cases "internal_sighandler rsi") (auto simp: refs_live_def bump_info_def)
  moreover have "(if internal_global_decider rsi \<noteq> None
      then node_upd (internal_global_decider rsi) (\<lambda>d. d\<lparr>refcount := refcount d + \<delta>\<rparr>) v else Some v)
    = Some (v\<lparr>nodes := bump_node \<delta> (internal_global_decider rsi) (nodes v)\<rparr>)" if "nodes v = nodes w" for v
    using node_upd_bump that assms by (cases "internal_global_decider rsi") (auto simp: refs_live_def bump_node_def)
  ultimately show ?thesis
    using l w id by (simp add: adjust_refs_def LOCK_def UNLOCK_def) (simp add: bump_info_def bump_node_def)
qed

text \<open>
  C30 (roundtrip). Abandoning a decider and resuming it gives back the state and the information
  of before, and both operations are idempotent.
\<close>

theorem abandon_resume_roundtrip:
  assumes "in_decider rsi w"
  shows "\<exists>rsi' w'. sigdecider_abandon rsi w = Some (rsi', w') \<and> sigdecider_abandon rsi' w' = Some (rsi', w')
    \<and> sigdecider_abandon_resume rsi' w' = Some (rsi, w) \<and> sigdecider_abandon_resume rsi w = Some (rsi, w)"
proof -
  define rsi' where "rsi' = rsi\<lparr>internal_decider_is_abandoned := True\<rparr>"
  define I where "I = bump_info (- 1) (internal_sighandler rsi) (infos w)"
  define ns where "ns = bump_node (- 1) (internal_global_decider rsi) (nodes w)"
  define t where "t = (if internal_local_decider rsi = [] then tss w else Some (tl (internal_local_decider rsi)))"
  define w' where "w' = w\<lparr>tss := t, infos := I, nodes := ns\<rparr>"
  have na: "\<not> internal_decider_is_abandoned rsi" and fr: "internal_local_decider rsi = [] \<or> tss w = Some (internal_local_decider rsi)"
    and live: "refs_live rsi w" using assms by (auto simp: in_decider_def refs_live_def)
  have wt: "(if internal_local_decider rsi = [] then w else w\<lparr>tss := Some (tl (internal_local_decider rsi))\<rparr>) = w\<lparr>tss := t\<rparr>"
    by (cases w) (simp add: t_def)
  have "refs_live rsi (w\<lparr>tss := t\<rparr>)" using live by (simp add: refs_live_def)
  then have a: "sigdecider_abandon rsi w = Some (rsi', w')"
    unfolding abandon_alt[OF na fr] wt by (simp add: adjust_refs_ok rsi'_def w'_def I_def ns_def)
  have ab: "internal_decider_is_abandoned rsi'" "internal_local_decider rsi' = internal_local_decider rsi"
    "rsi'\<lparr>internal_decider_is_abandoned := False\<rparr> = rsi" using na by (cases rsi; simp add: rsi'_def)+
  have w2: "(if internal_local_decider rsi' = [] then w' else w'\<lparr>tss := Some (internal_local_decider rsi')\<rparr>)
      = w\<lparr>infos := I, nodes := ns\<rparr>" using fr by (cases w) (auto simp: t_def w'_def ab)
  have "refs_live rsi' (w\<lparr>infos := I, nodes := ns\<rparr>)"
    using live by (auto simp: refs_live_def I_def ns_def rsi'_def bump_live)
  then have "adjust_refs 1 rsi' (w\<lparr>infos := I, nodes := ns\<rparr>) = Some w"
    by (cases w) (simp add: adjust_refs_ok I_def ns_def rsi'_def bump_back[of 1, simplified])
  then have "sigdecider_abandon_resume rsi' w' = Some (rsi, w)"
    using resume_alt[OF ab(1), of w'] w2 ab(3) by (simp add: w'_def t_def ab(2))
  moreover have "sigdecider_abandon rsi' w' = Some (rsi', w')" "sigdecider_abandon_resume rsi w = Some (rsi, w)"
    using na ab by (simp_all add: sigdecider_abandon_def sigdecider_abandon_resume_def)
  ultimately show ?thesis using a by blast
qed

theorem abandon_resume_roundtrip_witness:
  "\<exists>rsi' w'. let rsi = frame_rsi 11 None None (example_frame 2) []; w = sig_world_init\<lparr>tss := Some [example_frame 2]\<rparr> in
    sigdecider_abandon rsi w = Some (rsi', w') \<and> sigdecider_abandon rsi' w' = Some (rsi', w')
    \<and> sigdecider_abandon_resume rsi' w' = Some (rsi, w) \<and> sigdecider_abandon_resume rsi w = Some (rsi, w)"
  unfolding Let_def
  by (rule abandon_resume_roundtrip) (simp add: in_decider_def frame_rsi_def prepare_rsi_def sig_world_init_def)

end
