(* ===== verification/Library_Runs.thy ===== *)
theory Library_Runs
  imports Raise_Reentrancy
begin

text \<open>
  Whole runs of the library: any sequence of installs, uninstalls, creations and destructions
  of deciders and raises, from a fresh process on.
\<close>

section \<open>Calls and reachable states\<close>

text \<open>A process that has not used the library yet; its signal dispositions are arbitrary.\<close>

definition fresh_process :: "sig_world \<Rightarrow> bool" where
  "fresh_process w \<longleftrightarrow> lock w = 0 \<and> sighandlers_count w = 0 \<and> signo_to_sighandler_map w = signo_map_empty
     \<and> infos w = (\<lambda>_. None) \<and> nodes w = (\<lambda>_. None) \<and> install_handles w = (\<lambda>_. None) \<and> decider_handles w = (\<lambda>_. None)"

lemma registry_rel_fresh:
  assumes "fresh_process w"
  shows "registry_rel w (\<lambda>j. (None, kernel w j))"
proof (rule registry_relI)
  show "lock w = 0" using assms by (simp add: fresh_process_def)
  show "reg_inv w (\<lambda>_. []) (\<lambda>_. []) (\<lambda>_. 0) (\<lambda>_. 0)"
    using assms by (auto simp: fresh_process_def reg_inv_def reg_parts lists_inv_def disjoint_lists_def
        signo_lookup_empty signo_map_empty_wf installs_def owned_def slot_def)
  show "reg_state w (\<lambda>_. []) = (\<lambda>j. (None, kernel w j))"
    using assms by (simp add: fresh_process_def fun_eq_iff reg_state_def reg_abs_def registry_view_def signo_lookup_empty)
qed

datatype lib_call =
    Call_Install "int list" "sigset option"
  | Call_Uninstall addr
  | Call_Create "sigset option" bool "fnptr option" siginfo_value
  | Call_Destroy addr
  | Call_Raise "fnptr \<Rightarrow> lib_action list \<times> dec_outcome" int "siginfo option" "nat option"

text \<open>
  What the caller owes: a handle is live, a raised signal is a valid one that no frame guards,
  and its previous disposition can be called.
\<close>

fun admissible :: "sig_world \<Rightarrow> lib_call \<Rightarrow> bool" where
  "admissible w (Call_Install internal g) = True"
| "admissible w (Call_Uninstall a) = (install_handles w a \<noteq> None)"
| "admissible w (Call_Create g c f v) = True"
| "admissible w (Call_Destroy p) = (decider_handles w p \<noteq> None)"
| "admissible w (Call_Raise prog sig info ctx) = (1 \<le> sig \<and> sig < NSIG \<and> unguarded w sig
     \<and> (case signo_lookup (signo_to_sighandler_map w) sig of None \<Rightarrow> True
        | Some a \<Rightarrow> (case infos w a of None \<Rightarrow> True | Some ci \<Rightarrow> callable (old_handler ci))))"

text \<open>The flag of the result tells whether the calling thread goes on after the call.\<close>

definition goes_on :: "raise_outcome \<Rightarrow> bool" where
  "goes_on out \<longleftrightarrow> (\<exists>b. out = Raised b)"

fun run_call :: "lib_call \<Rightarrow> sig_world \<Rightarrow> (bool \<times> sig_world) option" where
  "run_call (Call_Install internal g) w = map_option (map_prod (\<lambda>_. True) id) (siginstall native_tss internal g w)"
| "run_call (Call_Uninstall a) w = map_option (map_prod (\<lambda>_. True) id) (siguninstall native_tss (Some a) w)"
| "run_call (Call_Create g c f v) w = map_option (map_prod (\<lambda>_. True) id) (signal_decider_create g c f v w)"
| "run_call (Call_Destroy p) w = map_option (map_prod (\<lambda>_. True) id) (signal_decider_destroy (Some p) w)"
| "run_call (Call_Raise prog sig info ctx) w = map_option (map_prod goes_on id) (stdc_raise (scripted prog) sig info ctx w)"

inductive reachable :: "sig_world \<Rightarrow> bool" where
  start: "fresh_process w \<Longrightarrow> reachable w"
| step: "reachable w \<Longrightarrow> admissible w c \<Longrightarrow> run_call c w = Some (True, w') \<Longrightarrow> reachable w'"

lemma registry_rel_errno: "registry_rel w s \<Longrightarrow> registry_rel (w\<lparr>errno := e\<rparr>) s"
  by (auto simp: registry_rel_def)

lemma signal_decider_create_any:
  assumes "registry_rel w s"
  shows "\<exists>r w'. signal_decider_create g c f v w = Some (r, w') \<and> (\<exists>s'. registry_rel w' s')"
proof (cases "g = None \<or> f = None \<or> guarded_signos (the g) = []")
  case True
  then show ?thesis using signal_decider_create_refused[OF True] registry_rel_errno[OF assms] by fastforce
next
  case False
  then obtain g' f' where "g = Some g'" "f = Some f'" "guarded_signos g' \<noteq> []" by auto
  then show ?thesis using signal_decider_create_rel[OF assms, of g' c f' v] by (fastforce split: option.splits)
qed

lemma run_call_ok:
  assumes rel: "registry_rel w s" and adm: "admissible w c"
  shows "\<exists>ok w'. run_call c w = Some (ok, w') \<and> (ok \<longrightarrow> (\<exists>s'. registry_rel w' s'))"
proof (cases c)
  case (Call_Install internal g)
  then show ?thesis using siginstall_rel[OF rel refl, of internal g] by (fastforce split: option.splits)
next
  case (Call_Uninstall a)
  then show ?thesis using siguninstall_rel[OF rel, of a] adm by fastforce
next
  case (Call_Create g cf f v)
  then show ?thesis using signal_decider_create_any[OF rel, of g cf f v] by auto
next
  case (Call_Destroy p)
  then show ?thesis using signal_decider_destroy_rel[OF rel, of p] adm by fastforce
next
  case (Call_Raise prog sig info ctx)
  then have "callable (old_handler ci)" if "signo_lookup (signo_to_sighandler_map w) sig = Some a" "infos w a = Some ci" for a ci
    using adm that by simp
  then show ?thesis using stdc_raise_scripted[OF rel, of sig prog info ctx] adm Call_Raise by (auto simp: goes_on_def)
qed

lemma reachable_rel: "reachable w \<Longrightarrow> \<exists>s. registry_rel w s"
proof (induction rule: reachable.induct)
  case (start w)
  then show ?case using registry_rel_fresh by blast
next
  case (step w c w')
  then show ?case using run_call_ok by fastforce
qed

text \<open>
  C1 (safety). From every reachable state, every admissible call of the library returns: no
  null or freed object is dereferenced, nothing is freed twice, no assertion fails and the lock is
  never taken twice, whichever allocations and host calls fail, also when the deciders that
  a raise calls install and uninstall signals themselves.
\<close>

theorem reachable_calls_return:
  assumes "reachable w" "admissible w c"
  shows "run_call c w \<noteq> None"
  using reachable_rel[OF assms(1)] run_call_ok assms(2) by fastforce

text \<open>
  C2 (invariant). In every reachable state the lock is free; every installed signal has
  exactly one live container, with a positive install count and no reference but the map's, whose
  disposition at the host is the library's handler; every live container belongs to an
  installed signal; and the count of handlers is the sum of the install counts.
\<close>

theorem reachable_consistent:
  assumes "reachable w"
  shows "lock w = 0
    \<and> (\<forall>k a. signo_lookup (signo_to_sighandler_map w) k = Some a \<longrightarrow> kernel w k = raw_sigaction
        \<and> (\<exists>ci. infos w a = Some ci \<and> install_count ci > 0 \<and> lifetime_refcount ci = 1)
        \<and> (\<forall>j. signo_lookup (signo_to_sighandler_map w) j = Some a \<longrightarrow> j = k))
    \<and> (\<forall>a ci. infos w a = Some ci \<longrightarrow> (\<exists>k. signo_lookup (signo_to_sighandler_map w) k = Some a))
    \<and> sighandlers_count w = (\<Sum>k \<in> {0..<NSIG}. installs (signo_to_sighandler_map w) (infos w) k)"
proof -
  obtain G D where w: "lock w = 0" "reg_inv w G D (\<lambda>_. 0) (\<lambda>_. 0)"
    using reachable_rel[OF assms] by (auto simp: registry_rel_def)
  then have inv: "map_inv (signo_to_sighandler_map w) (infos w)" "life_inv (signo_to_sighandler_map w) (infos w) (\<lambda>_. 0)"
    "count_inv (sighandlers_count w) (signo_to_sighandler_map w) (infos w)" "kernel_inv w"
    unfolding reg_inv_def by blast+
  have "(\<exists>ci. infos w a = Some ci \<and> install_count ci > 0 \<and> lifetime_refcount ci = 1)"
    if k: "signo_lookup (signo_to_sighandler_map w) k = Some a" for k a
  proof -
    obtain ci where ci: "infos w a = Some ci" "install_count ci > 0" using inv(1) k unfolding map_inv_def by blast
    moreover have "a \<in> ran (signo_lookup (signo_to_sighandler_map w))" using k by (auto simp: ran_def)
    ultimately show ?thesis using inv(2)[unfolded life_inv_def, THEN conjunct2, rule_format, OF ci(1)] by simp
  qed
  moreover have "\<exists>k. signo_lookup (signo_to_sighandler_map w) k = Some a" if "infos w a = Some ci" for a ci
    using inv(2) that unfolding life_inv_def ran_def by blast
  ultimately show ?thesis
    using w(1) inv(1,3,4) unfolding map_inv_def count_inv_def kernel_inv_def by blast
qed

lemma reachable_usr1_world: "reachable usr1_world"
proof -
  have "reachable (sig_world_init\<lparr>tss := Some []\<rparr>)" by (rule start) (simp add: fresh_process_def sig_world_init_def)
  moreover have "run_call (Call_Install [] (Some {10})) (sig_world_init\<lparr>tss := Some []\<rparr>) = Some (True, usr1_world)"
    by (simp add: usr1_installed)
  ultimately show ?thesis using reachable.step[of _ "Call_Install [] (Some {10})"] by simp
qed

theorem reachable_calls_return_witness:
  "reachable usr1_world \<and> run_call (Call_Uninstall 1) usr1_world \<noteq> None"
  using reachable_usr1_world reachable_calls_return[OF reachable_usr1_world, of "Call_Uninstall 1"]
  by (simp add: usr1_installed)

theorem reachable_consistent_witness: "reachable usr1_world \<and> lock usr1_world = 0"
  using reachable_usr1_world conjunct1[OF reachable_consistent[OF reachable_usr1_world]] by blast

section \<open>Runs that give everything back\<close>

text \<open>How many live handles of \<^verbatim>\<open>siginstall\<close> hold the signal \<open>k\<close>.\<close>

definition held :: "sigset heap \<Rightarrow> int \<Rightarrow> nat" where
  "held H k = card {a. \<exists>S. H a = Some S \<and> visited S k}"

lemma held_insert:
  assumes "finite (dom H)" "H a = None"
  shows "held (H(a \<mapsto> S)) k = held H k + of_bool (visited S k)"
proof -
  let ?A = "{b. \<exists>S. H b = Some S \<and> visited S k}"
  have f: "finite ?A" "a \<notin> ?A" using assms by (auto intro: finite_subset[of _ "dom H"])
  have "{b. \<exists>T. (H(a \<mapsto> S)) b = Some T \<and> visited T k} = (if visited S k then insert a ?A else ?A)" using assms(2) by auto
  then show ?thesis using f by (simp add: held_def)
qed

lemma held_remove:
  assumes "finite (dom H)" "H a = Some S"
  shows "held H k = held (H(a := None)) k + of_bool (visited S k)"
proof -
  have "H = (H(a := None))(a \<mapsto> S)" using assms(2) by auto
  moreover have "finite (dom (H(a := None)))" using assms(1) by simp
  ultimately show ?thesis using held_insert[of "H(a := None)" a S k] by simp
qed

text \<open>The account of a signal: installs match the live handles, the first disposition is remembered.\<close>

fun account :: "sigaction \<Rightarrow> nat \<Rightarrow> signal_state \<Rightarrow> bool" where
  "account sa0 n (None, sa) \<longleftrightarrow> n = 0 \<and> sa = sa0"
| "account sa0 n (Some h, sa) \<longleftrightarrow> ah_installs h = int n \<and> n > 0 \<and> ah_previous h = sa0"

lemma account_inst: "account sa0 n s \<Longrightarrow> account sa0 (Suc n) (inst s)"
  by (cases s rule: inst.cases) auto

lemma account_uninst: "account sa0 (Suc n) s \<Longrightarrow> account sa0 n (uninst s)"
  by (cases s rule: uninst.cases) auto

lemma account_drop: "account sa0 n (drop_nodes Q s) = account sa0 n s"
  by (cases s rule: inst.cases) auto

lemma account_add: "account sa0 n (add_decider c x s) = account sa0 n s"
  by (cases s rule: inst.cases) auto

definition balanced :: "(int \<Rightarrow> sigaction) \<Rightarrow> sig_world \<Rightarrow> bool" where
  "balanced sa0 w \<longleftrightarrow> finite (dom (install_handles w)) \<and> (\<exists>s. registry_rel w s \<and> (\<forall>k. account (sa0 k) (held (install_handles w) k) (s k)))"

fun quiet_call :: "lib_call \<Rightarrow> bool" where
  "quiet_call (Call_Raise prog sig info ctx) = False"
| "quiet_call _ = True"

lemma run_call_balanced:
  assumes bal: "balanced sa0 w" and adm: "admissible w c" "quiet_call c" and r: "run_call c w = Some (ok, w')"
  shows "balanced sa0 w'"
proof -
  obtain s where fin: "finite (dom (install_handles w))" and rel: "registry_rel w s"
    and acc: "\<And>k. account (sa0 k) (held (install_handles w) k) (s k)" using bal by (auto simp: balanced_def)
  show ?thesis
  proof (cases c)
    case (Call_Install internal g)
    let ?S = "siginstall_set internal g"
    obtain p where p: "siginstall native_tss internal g w = Some (p, w')" using r Call_Install by auto
    have e: "case p of Some a \<Rightarrow> install_handles w a = None \<and> install_handles w' = (install_handles w)(a \<mapsto> ?S)
           \<and> registry_rel w' (at_signals (visited ?S) inst s)
       | None \<Rightarrow> install_handles w' = install_handles w \<and> registry_rel w' s"
      using siginstall_rel[OF rel refl, of internal g] p by auto
    show ?thesis
    proof (cases p)
      case None
      then show ?thesis using e fin acc by (auto simp: balanced_def)
    next
      case (Some a)
      then have "account (sa0 k) (held (install_handles w') k) (at_signals (visited ?S) inst s k)" for k
        using e acc[of k] account_inst[OF acc[of k]] held_insert[OF fin, of a ?S k] by (auto simp: at_signals_def)
      then show ?thesis using e Some fin by (auto simp: balanced_def)
    qed
  next
    case (Call_Uninstall a)
    then obtain S where S: "install_handles w a = Some S" using adm by auto
    have e: "install_handles w' = (install_handles w)(a := None)" "registry_rel w' (at_signals (visited S) uninst s)"
      using siguninstall_rel[OF rel S] r Call_Uninstall by auto
    have "account (sa0 k) (held (install_handles w') k) (at_signals (visited S) uninst s k)" for k
      using acc[of k] held_remove[OF fin S, of k] account_uninst[of "sa0 k" "held (install_handles w') k" "s k"] e(1) by (auto simp: at_signals_def)
    then show ?thesis using e fin by (auto simp: balanced_def)
  next
    case (Call_Create g cf f v)
    show ?thesis
    proof (cases "g = None \<or> f = None \<or> guarded_signos (the g) = []")
      case True
      then have "w' = w\<lparr>errno := EINVAL\<rparr>" using signal_decider_create_refused[OF True] r Call_Create by auto
      then show ?thesis using registry_rel_errno[OF rel] fin acc by (auto simp: balanced_def)
    next
      case False
      then obtain g' f' where g: "g = Some g'" "f = Some f'" "guarded_signos g' \<noteq> []" by auto
      obtain p where p: "signal_decider_create (Some g') cf (Some f') v w = Some (p, w')" using r Call_Create g by auto
      have e: "install_handles w' = install_handles w" "registry_rel w' s \<or> (\<exists>\<nu>. registry_rel w' (create_effect (visited g') cf f' v \<nu> s))"
        using signal_decider_create_rel[OF rel g(3), of cf f' v] p by (auto split: option.splits)
      have "account (sa0 k) (held (install_handles w) k) (create_effect (visited g') cf f' v \<nu> s k)" for k \<nu>
        using acc[of k] by (simp add: create_effect_def account_add)
      then show ?thesis using e fin acc by (auto simp: balanced_def)
    qed
  next
    case (Call_Destroy p)
    then obtain dh where dh: "decider_handles w p = Some dh" using adm by auto
    let ?Q = "\<lambda>m. m \<in> handle_nodes (decider_handles w) p"
    have "install_handles w' = install_handles w" "registry_rel w' (drop_nodes ?Q \<circ> s)"
      using signal_decider_destroy_rel[OF rel dh] r Call_Destroy by auto
    moreover have "account (sa0 k) (held (install_handles w) k) ((drop_nodes ?Q \<circ> s) k)" for k
      using acc[of k] by (simp add: account_drop)
    ultimately show ?thesis using fin unfolding balanced_def by metis
  next
    case (Call_Raise prog sig info ctx)
    then show ?thesis using adm by simp
  qed
qed

fun run_calls :: "lib_call list \<Rightarrow> sig_world \<Rightarrow> sig_world option" where
  "run_calls [] w = Some w"
| "run_calls (c # cs) w = (if admissible w c then (case run_call c w of Some (True, w') \<Rightarrow> run_calls cs w' | _ \<Rightarrow> None) else None)"

lemma run_calls_balanced:
  "balanced sa0 w \<Longrightarrow> list_all quiet_call cs \<Longrightarrow> run_calls cs w = Some w' \<Longrightarrow> balanced sa0 w'"
  by (induction cs arbitrary: w) (auto split: if_splits option.splits bool.splits dest: run_call_balanced)

lemma balanced_empty:
  assumes bal: "balanced sa0 w" and H: "install_handles w = (\<lambda>_. None)" "decider_handles w = (\<lambda>_. None)"
  shows "infos w = (\<lambda>_. None)" "nodes w = (\<lambda>_. None)" "kernel w = sa0"
    "\<forall>k. signo_lookup (signo_to_sighandler_map w) k = None" "sighandlers_count w = 0"
proof -
  obtain s where rel: "registry_rel w s" and acc: "\<And>k. account (sa0 k) 0 (s k)" using bal H(1) by (auto simp: balanced_def held_def)
  obtain G D where inv: "reg_inv w G D (\<lambda>_. 0) (\<lambda>_. 0)" and s: "s = reg_state w G" using rel by (auto simp: registry_rel_def)
  have none: "s k = (None, sa0 k)" for k using acc[of k] by (cases "s k" rule: inst.cases) auto
  show "kernel w = sa0" using none by (auto simp: s reg_state_def fun_eq_iff)
  show m: "\<forall>k. signo_lookup (signo_to_sighandler_map w) k = None"
  proof
    fix k
    have "reg_abs w G k = None" using none[of k] by (simp add: s reg_state_def)
    then show "signo_lookup (signo_to_sighandler_map w) k = None"
      using reg_inv_lookup[OF inv, of k] reg_abs_Some by (cases "signo_lookup (signo_to_sighandler_map w) k") fastforce+
  qed
  show i: "infos w = (\<lambda>_. None)"
  proof
    fix a
    show "infos w a = None"
    proof (rule ccontr)
      assume "infos w a \<noteq> None"
      then have "a \<in> ran (signo_lookup (signo_to_sighandler_map w))" using inv unfolding reg_inv_def life_inv_def by auto
      then show False using m by (simp add: ran_def)
    qed
  qed
  show "nodes w = (\<lambda>_. None)"
  proof
    fix n
    show "nodes w n = None"
    proof (rule ccontr)
      assume "nodes w n \<noteq> None"
      moreover have "\<not> owned (decider_handles w) n" by (simp add: owned_def slot_def H(2))
      ultimately have "listed D n" using inv unfolding reg_inv_def own_inv_def by auto
      then show False using lists_inv_live(2)[OF reg_inv_lists[OF inv]] i unfolding listed_def by fastforce
    qed
  qed
  show "sighandlers_count w = 0" using inv m unfolding reg_inv_def count_inv_def by (simp add: installs_def)
qed

text \<open>
  C3 (invariant). After any sequence of installs, uninstalls, creations and destructions, with any
  of them failing, if no handle is left then nothing is left: no container and no
  decider node is still allocated, no signal has a handler, and every signal has the disposition
  it had before the library was first used.
\<close>

theorem balanced_runs_leave_nothing:
  assumes "fresh_process w0" "list_all quiet_call cs" "run_calls cs w0 = Some w"
    "install_handles w = (\<lambda>_. None)" "decider_handles w = (\<lambda>_. None)"
  shows "infos w = (\<lambda>_. None) \<and> nodes w = (\<lambda>_. None) \<and> kernel w = kernel w0
    \<and> (\<forall>k. signo_lookup (signo_to_sighandler_map w) k = None) \<and> sighandlers_count w = 0"
proof -
  have "balanced (kernel w0) w0"
    using registry_rel_fresh[OF assms(1)] assms(1) by (auto simp: balanced_def held_def fresh_process_def)
  from balanced_empty[OF run_calls_balanced[OF this assms(2,3)] assms(4,5)] show ?thesis by blast
qed

theorem balanced_runs_leave_nothing_witness:
  "\<exists>w. run_calls [Call_Install [] (Some {10}), Call_Uninstall 1] (sig_world_init\<lparr>tss := Some []\<rparr>) = Some w \<and> infos w = (\<lambda>_. None)"
proof -
  let ?w0 = "sig_world_init\<lparr>tss := Some []\<rparr>" and ?cs = "[Call_Install [] (Some {10}), Call_Uninstall 1]"
  have f: "fresh_process ?w0" by (simp add: fresh_process_def sig_world_init_def)
  obtain w where w: "siguninstall native_tss (Some 1) usr1_world = Some (0, w)" "decider_handles w = decider_handles usr1_world"
    "install_handles w = (install_handles usr1_world)(1 := None)"
    using siguninstall_rel[OF usr1_world_rel, of 1 "{10}"] by (auto simp: usr1_installed)
  then have r: "run_calls ?cs ?w0 = Some w" by (simp add: usr1_installed)
  have h: "install_handles w = (\<lambda>_. None)" "decider_handles w = (\<lambda>_. None)" using w(2,3) by (simp_all add: usr1_installed)
  show ?thesis using balanced_runs_leave_nothing[OF f _ r h] r by simp
qed

end
