(* ===== verification/Call_Sections.thy ===== *)
theory Call_Sections
  imports Library_Runs
begin

text \<open>
  The calls of the registry cut at their critical sections. Between an \<^verbatim>\<open>UNLOCK\<close> and the next
  \<^verbatim>\<open>LOCK\<close> other threads may run, so that a call in progress is described by what its thread
  keeps in local variables: which decider of which container a raise is in, which signals an install has
  still to visit, how much of a handle is filled. \<open>begin_call\<close>, \<open>raise_answer\<close> and \<open>proceed\<close> run
  one section each. Run one after the other without interruption the sections are the calls of
  \<open>Registry\<close> and \<open>Posix_Raise\<close>.
\<close>

section \<open>Calls in progress\<close>

text \<open>
  The local variables of \<^verbatim>\<open>stdc_raise\<close> that live across the call of a decider: the signal, the
  caller's information and context, the container \<^verbatim>\<open>item\<close>, the copy \<^verbatim>\<open>sa\<close> of its previous
  disposition and the information \<^verbatim>\<open>rsi\<close> handed to the deciders.
\<close>

record raise_call =
  rc_signo :: int
  rc_info :: "siginfo option"
  rc_context :: "nat option"
  rc_item :: ptr
  rc_sa :: sigaction
  rc_rsi :: stdc_siginfo

text \<open>
  Where a call is between two sections: in the decider of a node, on the way to the previous
  handler, in the loops of \<^verbatim>\<open>siginstall\<close>, of its roll-back, of \<^verbatim>\<open>siguninstall\<close>, of
  \<^verbatim>\<open>signal_decider_create\<close> and of \<^verbatim>\<open>signal_decider_destroy\<close> with the signal numbers still to
  visit. A destruction that undoes a failed creation carries the \<^verbatim>\<open>errno\<close> to restore.
\<close>

datatype activity =
    is_Deciding: Deciding raise_call ptr fnptr
  | Passing_On raise_call
  | Installing addr sigset "int list"
  | Rolling_Back addr sigset "int list" int
  | Uninstalling addr sigset "int list"
  | Creating addr sigset bool fnptr siginfo_value "int list" nat
  | Destroying addr sigset "int list" nat "int option"

datatype call_result = R_Raise raise_outcome | R_Ptr ptr | R_Int int

type_synonym progress = "call_result + activity"

section \<open>The sections of a raise\<close>

text \<open>The head of the loop over the deciders: pin the node, unlock, call its decider.\<close>

definition ask_node :: "raise_call \<Rightarrow> ptr \<Rightarrow> sig_world \<Rightarrow> (progress \<times> sig_world) option" where
  "ask_node rc current w = do {
     c \<leftarrow> deref (nodes w) current;
     w \<leftarrow> node_upd current (\<lambda>d. d\<lparr>refcount := refcount d + 1\<rparr>) w;
     w \<leftarrow> UNLOCK w;
     c' \<leftarrow> deref (nodes w) current;
     let rsi = (rc_rsi rc)\<lparr>si_value := dvalue c, internal_sighandler := rc_item rc, internal_global_decider := current\<rparr>;
     Some (Inr (Deciding (rc\<lparr>rc_rsi := rsi\<rparr>) current (decider c')),
       log_event (Ev_Decider (decider c') (rc_signo rc) (dvalue c)) w)
   }"

text \<open>No decider is left: the raise gives its reference back before it calls the previous handler.\<close>

definition stop_asking :: "raise_call \<Rightarrow> sig_world \<Rightarrow> (progress \<times> sig_world) option" where
  "stop_asking rc w = do {
     w \<leftarrow> sighandler_info_release (rc_item rc) w;
     w \<leftarrow> UNLOCK w;
     Some (Inr (Passing_On rc), w)
   }"

text \<open>From the first \<^verbatim>\<open>LOCK\<close> on, after the frames of the thread have been asked.\<close>

definition raise_enter :: "int \<Rightarrow> siginfo option \<Rightarrow> nat option \<Rightarrow> sig_world \<Rightarrow> (progress \<times> sig_world) option" where
  "raise_enter sig info context w = do {
     w \<leftarrow> LOCK w;
     let it = signo_map_get (signo_to_sighandler_map w) sig;
     (if signo_map_is_end it
      then do { w \<leftarrow> UNLOCK w; Some (Inl (R_Raise (Raised False)), w) }
      else do {
        let item = itr_val it;
        inf \<leftarrow> deref (infos w) item;
        let rc = \<lparr>rc_signo = sig, rc_info = info, rc_context = context, rc_item = item,
          rc_sa = old_handler inf, rc_rsi = prepare_rsi rsi_uninit sig info context\<rparr>;
        w \<leftarrow> info_upd item (\<lambda>inf. inf\<lparr>lifetime_refcount := lifetime_refcount inf + 1\<rparr>) w;
        inf \<leftarrow> deref (infos w) item;
        (if l_front (global_handler inf) \<noteq> None
         then ask_node rc (l_front (global_handler inf)) w
         else stop_asking rc w)
      })
   }"

text \<open>After a decider has returned.\<close>

definition raise_answer ::
  "raise_call \<Rightarrow> ptr \<Rightarrow> sig_decision \<Rightarrow> stdc_siginfo \<Rightarrow> sig_world \<Rightarrow> (progress \<times> sig_world) option" where
  "raise_answer rc current res rsi w = do {
     w \<leftarrow> LOCK w;
     (current, w) \<leftarrow> leave_node (rc_item rc) current w;
     (if res \<noteq> sig_decision_next_decider
      then do {
        w \<leftarrow> sighandler_info_release (rc_item rc) w;
        w \<leftarrow> UNLOCK w;
        Some (Inl (R_Raise (Raised True)), w)
      }
      else if current \<noteq> None then ask_node (rc\<lparr>rc_rsi := rsi\<rparr>) current w
      else stop_asking (rc\<lparr>rc_rsi := rsi\<rparr>) w)
   }"

section \<open>The sections of every call\<close>

datatype request =
    Req_Raise int "siginfo option" "nat option"
  | Req_Install "int list" "sigset option"
  | Req_Uninstall ptr
  | Req_Create "sigset option" bool "fnptr option" siginfo_value
  | Req_Destroy ptr

text \<open>Up to the first section: arguments, allocation of the handle.\<close>

fun begin_install :: "int list \<Rightarrow> sigset option \<Rightarrow> sig_world \<Rightarrow> (progress \<times> sig_world) option" where
  "begin_install internal guarded w =
     (case host_alloc w of
        (None, w) \<Rightarrow> Some (Inl (R_Ptr None), w)
      | (Some a, w) \<Rightarrow>
          (let ret = siginstall_set internal guarded
           in Some (Inr (Installing a ret [1..NSIG - 1]), w\<lparr>install_handles := (install_handles w)(a \<mapsto> ret)\<rparr>)))"

fun begin_uninstall :: "ptr \<Rightarrow> sig_world \<Rightarrow> (progress \<times> sig_world) option" where
  "begin_uninstall ss w =
     (case ss of None \<Rightarrow> Some (Inl (R_Int (-1)), w\<lparr>errno := EINVAL\<rparr>)
      | Some a \<Rightarrow> do { S \<leftarrow> deref (install_handles w) ss; Some (Inr (Uninstalling a S [1..NSIG - 1]), w) })"

fun begin_create ::
  "sigset option \<Rightarrow> bool \<Rightarrow> fnptr option \<Rightarrow> siginfo_value \<Rightarrow> sig_world \<Rightarrow> (progress \<times> sig_world) option" where
  "begin_create guarded callfirst f v w =
     (case guarded of
        None \<Rightarrow> Some (Inl (R_Ptr None), w\<lparr>errno := EINVAL\<rparr>)
      | Some g \<Rightarrow>
          (let signo_count = length (guarded_signos g)
           in if signo_count = 0 \<or> f = None then Some (Inl (R_Ptr None), w\<lparr>errno := EINVAL\<rparr>)
           else (case host_alloc w of
             (None, w) \<Rightarrow> Some (Inl (R_Ptr None), w)
           | (Some a, w) \<Rightarrow> Some (Inr (Creating a g callfirst (the f) v [1..NSIG - 1] 0),
               w\<lparr>decider_handles := (decider_handles w)(a \<mapsto>
                 \<lparr>dh_guarded = g, dh_slots = replicate (signo_count + 1) None\<rparr>)\<rparr>))))"

fun begin_destroy :: "ptr \<Rightarrow> sig_world \<Rightarrow> (progress \<times> sig_world) option" where
  "begin_destroy p w =
     (case p of None \<Rightarrow> Some (Inl (R_Int (-1)), w\<lparr>errno := EINVAL\<rparr>)
      | Some a \<Rightarrow> do { dh \<leftarrow> decider_handles w a; Some (Inr (Destroying a (dh_guarded dh) [1..NSIG - 1] 0 None), w) })"

fun begin_call :: "request \<Rightarrow> sig_world \<Rightarrow> (progress \<times> sig_world) option" where
  "begin_call (Req_Raise sig info context) w = raise_enter sig info context w"
| "begin_call (Req_Install internal guarded) w = begin_install internal guarded w"
| "begin_call (Req_Uninstall ss) w = begin_uninstall ss w"
| "begin_call (Req_Create guarded callfirst f v) w = begin_create guarded callfirst f v w"
| "begin_call (Req_Destroy p) w = begin_destroy p w"

text \<open>
  One round of each loop, and what follows the loop. A round that skips its signal number
  touches nothing shared.
\<close>

fun install_section :: "addr \<Rightarrow> sigset \<Rightarrow> int list \<Rightarrow> sig_world \<Rightarrow> (progress \<times> sig_world) option" where
  "install_section a S [] w = Some (Inl (R_Ptr (Some a)), w)"
| "install_section a S (k # ks) w =
     (if visited S k
      then do {
        (ok, w) \<leftarrow> install_sighandler native_tss k w;
        Some (Inr (if ok then Installing a S ks else Rolling_Back a S [1..k - 1] (errno w)), w)
      }
      else Some (Inr (Installing a S ks), w))"

fun rollback_section :: "addr \<Rightarrow> sigset \<Rightarrow> int list \<Rightarrow> int \<Rightarrow> sig_world \<Rightarrow> (progress \<times> sig_world) option" where
  "rollback_section a S [] errcode w = do {
     h \<leftarrow> free_cell (install_handles w) a;
     Some (Inl (R_Ptr None), w\<lparr>install_handles := h, errno := errcode\<rparr>)
   }"
| "rollback_section a S (k # ks) errcode w =
     (if visited S k
      then do {
        (ok, w) \<leftarrow> uninstall_sighandler native_tss k w;
        Some (Inr (Rolling_Back a S ks errcode), w)
      }
      else Some (Inr (Rolling_Back a S ks errcode), w))"

fun uninstall_section :: "addr \<Rightarrow> sigset \<Rightarrow> int list \<Rightarrow> sig_world \<Rightarrow> (progress \<times> sig_world) option" where
  "uninstall_section a S [] w = do {
     h \<leftarrow> free_cell (install_handles w) a;
     Some (Inl (R_Int 0), w\<lparr>install_handles := h\<rparr>)
   }"
| "uninstall_section a S (k # ks) w =
     (if visited S k
      then do {
        (ok, w) \<leftarrow> uninstall_sighandler native_tss k w;
        Some (if ok then Inr (Uninstalling a S ks) else Inl (R_Int (-1)), w)
      }
      else Some (Inr (Uninstalling a S ks), w))"

fun create_section ::
  "addr \<Rightarrow> sigset \<Rightarrow> bool \<Rightarrow> fnptr \<Rightarrow> siginfo_value \<Rightarrow> int list \<Rightarrow> nat \<Rightarrow> sig_world \<Rightarrow> (progress \<times> sig_world) option" where
  "create_section p g callfirst f v [] k w = Some (Inl (R_Ptr (Some p)), w)"
| "create_section p g callfirst f v (j # js) k w =
     (if visited g j
      then do {
        (ok, w) \<leftarrow> create_each p g callfirst f v [j] k w;
        (if ok then Some (Inr (Creating p g callfirst f v js (k + 1)), w)
         else do {
           dh \<leftarrow> decider_handles w p;
           Some (Inr (Destroying p (dh_guarded dh) [1..NSIG - 1] 0 (Some (errno w))), w)
         })
      }
      else Some (Inr (Creating p g callfirst f v js k), w))"

fun destroy_section ::
  "addr \<Rightarrow> sigset \<Rightarrow> int list \<Rightarrow> nat \<Rightarrow> int option \<Rightarrow> sig_world \<Rightarrow> (progress \<times> sig_world) option" where
  "destroy_section p g [] k undo w = do {
     h \<leftarrow> free_cell (decider_handles w) p;
     Some (case undo of
         None \<Rightarrow> (Inl (R_Int 0), w\<lparr>decider_handles := h\<rparr>)
       | Some errcode \<Rightarrow> (Inl (R_Ptr None), w\<lparr>decider_handles := h, errno := errcode\<rparr>))
   }"
| "destroy_section p g (j # js) k undo w =
     (if skipped_signo j then Some (Inr (Destroying p g js k undo), w)
      else do {
        (k, w) \<leftarrow> destroy_round p g j k w;
        Some (Inr (Destroying p g js k undo), w)
      })"

text \<open>The call of the previous handler, with the outcome of the raise.\<close>

fun previous_section :: "raise_call \<Rightarrow> sig_world \<Rightarrow> (progress \<times> sig_world) option" where
  "previous_section rc w = do {
     (out, w) \<leftarrow> invoke_sigaction (rc_sa rc) (rc_signo rc) (rc_info rc) (rc_context rc) w;
     Some (Inl (R_Raise (case out of Killed \<Rightarrow> Terminated | Invoked b \<Rightarrow> Raised True)), w)
   }"

text \<open>The next section of a call that is not inside a decider.\<close>

fun proceed :: "activity \<Rightarrow> sig_world \<Rightarrow> (progress \<times> sig_world) option" where
  "proceed (Deciding rc current f) w = None"
| "proceed (Passing_On rc) w = previous_section rc w"
| "proceed (Installing a S ks) w = install_section a S ks w"
| "proceed (Rolling_Back a S ks errcode) w = rollback_section a S ks errcode w"
| "proceed (Uninstalling a S ks) w = uninstall_section a S ks w"
| "proceed (Creating p g callfirst f v js k) w = create_section p g callfirst f v js k w"
| "proceed (Destroying p g js k undo) w = destroy_section p g js k undo w"

section \<open>A call that runs alone\<close>

text \<open>
  A call whose sections follow each other without interruption; the deciders of a raise are
  those of \<open>Posix_Raise\<close>.
\<close>

partial_function (option) alone :: "decide_fn \<Rightarrow> progress \<Rightarrow> sig_world \<Rightarrow> (call_result \<times> sig_world) option" where
  "alone decide q w =
     (case q of Inl r \<Rightarrow> Some (r, w)
      | Inr x \<Rightarrow> (case x of
          Deciding rc current f \<Rightarrow> do {
            (out, rsi, w) \<leftarrow> decide f (rc_rsi rc) w;
            (case out of Leaves \<Rightarrow> Some (R_Raise Left_By_Decider, w)
             | Returns res \<Rightarrow> do { (q, w) \<leftarrow> raise_answer rc current res rsi w; alone decide q w })
          }
        | _ \<Rightarrow> do { (q, w) \<leftarrow> proceed x w; alone decide q w }))"

lemma alone_Inl [simp]: "alone decide (Inl r) w = Some (r, w)"
  by (simp add: alone.simps)

lemma alone_Deciding: "alone decide (Inr (Deciding rc current f)) w = do {
    (out, rsi, w) \<leftarrow> decide f (rc_rsi rc) w;
    (case out of Leaves \<Rightarrow> Some (R_Raise Left_By_Decider, w)
     | Returns res \<Rightarrow> do { (q, w) \<leftarrow> raise_answer rc current res rsi w; alone decide q w })
  }"
  by (simp add: alone.simps)

lemma alone_proceed: "\<not> is_Deciding x \<Longrightarrow>
    alone decide (Inr x) w = do { (q, w) \<leftarrow> proceed x w; alone decide q w }"
  by (subst alone.simps) (cases x; simp)

lemma not_visited: "\<not> visited S k \<Longrightarrow> install_each B S (k # ks) w = install_each B S ks w"
  "\<not> visited S k \<Longrightarrow> rollback_each B S (k # ks) w = rollback_each B S ks w"
  "\<not> visited S k \<Longrightarrow> uninstall_each B S (k # ks) w = uninstall_each B S ks w"
  "\<not> visited S k \<Longrightarrow> create_each p S c f v (k # ks) i w = create_each p S c f v ks i w"
  by (auto simp: visited_def)

lemma alone_rollback: "alone decide (Inr (Rolling_Back a S ks e)) w = do {
    w \<leftarrow> rollback_each native_tss S ks w;
    h \<leftarrow> free_cell (install_handles w) a;
    Some (R_Ptr None, w\<lparr>install_handles := h, errno := e\<rparr>)
  }"
proof (induction ks arbitrary: w)
  case Nil
  show ?case by (subst alone_proceed) (auto split: bind_splits)
next
  case (Cons k ks)
  show ?case
    by (subst alone_proceed) (auto simp: Cons.IH not_visited visited_def split: bind_splits)
qed


lemma alone_install: "alone decide (Inr (Installing a S ks)) w = do {
    (failed, w) \<leftarrow> install_each native_tss S ks w;
    (case failed of None \<Rightarrow> Some (R_Ptr (Some a), w)
     | Some k \<Rightarrow> do {
         let e = errno w;
         w \<leftarrow> rollback_each native_tss S [1..k - 1] w;
         h \<leftarrow> free_cell (install_handles w) a;
         Some (R_Ptr None, w\<lparr>install_handles := h, errno := e\<rparr>)
       })
  }"
proof (induction ks arbitrary: w)
  case Nil
  show ?case by (subst alone_proceed) simp_all
next
  case (Cons k ks)
  show ?case
    by (subst alone_proceed) (auto simp: Cons.IH alone_rollback not_visited visited_def Let_def split: bind_splits)
qed

lemma alone_uninstall: "alone decide (Inr (Uninstalling a S ks)) w = do {
    (ok, w) \<leftarrow> uninstall_each native_tss S ks w;
    (if \<not> ok then Some (R_Int (-1), w)
     else do { h \<leftarrow> free_cell (install_handles w) a; Some (R_Int 0, w\<lparr>install_handles := h\<rparr>) })
  }"
proof (induction ks arbitrary: w)
  case Nil
  show ?case by (subst alone_proceed) (auto split: bind_splits)
next
  case (Cons k ks)
  show ?case
    by (subst alone_proceed) (auto simp: Cons.IH not_visited visited_def split: bind_splits)
qed

lemma alone_destroy: "alone decide (Inr (Destroying p g js k undo)) w = do {
    w \<leftarrow> destroy_each p g js k w;
    h \<leftarrow> free_cell (decider_handles w) p;
    Some (case undo of None \<Rightarrow> (R_Int 0, w\<lparr>decider_handles := h\<rparr>)
      | Some e \<Rightarrow> (R_Ptr None, w\<lparr>decider_handles := h, errno := e\<rparr>))
  }"
proof (induction js arbitrary: w k)
  case Nil
  show ?case by (subst alone_proceed) (auto split: bind_splits option.splits)
next
  case (Cons j js)
  show ?case
    unfolding destroy_each_round by (subst alone_proceed) (auto simp: Cons.IH split: bind_splits)
qed

lemma create_each_Cons: "visited g j \<Longrightarrow> create_each p g c f v (j # js) k w = do {
    (ok, w) \<leftarrow> create_each p g c f v [j] k w;
    (if ok then create_each p g c f v js (k + 1) w else Some (False, w))
  }"
  by (auto simp: visited_def Let_def split: bind_splits prod.splits option.splits)

lemma alone_create: "alone decide (Inr (Creating p g c f v js k)) w = do {
    (ok, w) \<leftarrow> create_each p g c f v js k w;
    (if ok then Some (R_Ptr (Some p), w)
     else do {
       let e = errno w;
       (r, w) \<leftarrow> signal_decider_destroy (Some p) w;
       Some (R_Ptr None, w\<lparr>errno := e\<rparr>)
     })
  }"
proof (induction js arbitrary: w k)
  case Nil
  show ?case by (subst alone_proceed) simp_all
next
  case (Cons j js)
  show ?case
  proof (cases "visited g j")
    case True
    show ?thesis
      by (subst alone_proceed, simp, subst create_each_Cons[OF True])
        (auto simp: Cons.IH True Let_def alone_destroy signal_decider_destroy_def split: bind_splits)
  next
    case False
    then show ?thesis by (subst alone_proceed) (simp_all add: Cons.IH not_visited del: create_each.simps)
  qed
qed


text \<open>The end of a raise that no decider claimed, and of one that asked a last decider.\<close>

definition pass_on :: "raise_call \<Rightarrow> sig_world \<Rightarrow> (call_result \<times> sig_world) option" where
  "pass_on rc w = do {
     w \<leftarrow> sighandler_info_release (rc_item rc) w;
     w \<leftarrow> UNLOCK w;
     (out, w) \<leftarrow> invoke_sigaction (rc_sa rc) (rc_signo rc) (rc_info rc) (rc_context rc) w;
     Some (R_Raise (case out of Killed \<Rightarrow> Terminated | Invoked b \<Rightarrow> Raised True), w)
   }"

lemma alone_stop: "do { (q, w) \<leftarrow> stop_asking rc w; alone decide q w } = pass_on rc w"
  by (auto simp: stop_asking_def pass_on_def alone_proceed split: bind_splits)

lemma pass_on_rsi [simp]: "pass_on (rc\<lparr>rc_rsi := r\<rparr>) = pass_on rc"
  by (simp add: pass_on_def fun_eq_iff)

lemma alone_ask:
  "do { (q, w) \<leftarrow> ask_node rc current w; alone decide q w } = do {
     c \<leftarrow> deref (nodes w) current;
     w \<leftarrow> node_upd current (\<lambda>d. d\<lparr>refcount := refcount d + 1\<rparr>) w;
     w \<leftarrow> UNLOCK w;
     c' \<leftarrow> deref (nodes w) current;
     (out, rsi, w) \<leftarrow> decide (decider c') ((rc_rsi rc)\<lparr>si_value := dvalue c, internal_sighandler := rc_item rc, internal_global_decider := current\<rparr>)
       (log_event (Ev_Decider (decider c') (rc_signo rc) (dvalue c)) w);
     (case out of Leaves \<Rightarrow> Some (R_Raise Left_By_Decider, w)
      | Returns res \<Rightarrow> do {
          w \<leftarrow> LOCK w;
          (current', w) \<leftarrow> leave_node (rc_item rc) current w;
          (if res \<noteq> sig_decision_next_decider
           then do { w \<leftarrow> sighandler_info_release (rc_item rc) w; w \<leftarrow> UNLOCK w; Some (R_Raise (Raised True), w) }
           else if current' \<noteq> None then do { (q, w) \<leftarrow> ask_node (rc\<lparr>rc_rsi := rsi\<rparr>) current' w; alone decide q w }
           else pass_on rc w)
        })
   }"
proof -
  have "do { (q, w) \<leftarrow> raise_answer (rc\<lparr>rc_rsi := r\<rparr>) current res rsi w; alone decide q w } = do {
          w \<leftarrow> LOCK w;
          (current', w) \<leftarrow> leave_node (rc_item rc) current w;
          (if res \<noteq> sig_decision_next_decider
           then do { w \<leftarrow> sighandler_info_release (rc_item rc) w; w \<leftarrow> UNLOCK w; Some (R_Raise (Raised True), w) }
           else if current' \<noteq> None then do { (q, w) \<leftarrow> ask_node (rc\<lparr>rc_rsi := rsi\<rparr>) current' w; alone decide q w }
           else pass_on rc w)
        }" for r res rsi w
    using alone_stop[of "rc\<lparr>rc_rsi := rsi\<rparr>" _ decide]
    by (auto simp: raise_answer_def split: bind_splits)
  then show ?thesis
    by (simp add: ask_node_def alone_Deciding Let_def split_def cong: dec_outcome.case_cong)
qed


text \<open>
  The loop of \<^verbatim>\<open>stdc_raise\<close> from the call of a decider on, to be compared with the sections that follow.
\<close>

definition raise_rest :: "decide_fn \<Rightarrow> int \<Rightarrow> ptr \<Rightarrow> stdc_siginfo \<Rightarrow> ptr \<Rightarrow> fnptr \<Rightarrow> sig_world \<Rightarrow> (raise_outcome option \<times> sig_world) option" where
  "raise_rest decide sig item rsi current f w = do {
     (out, rsi, w) \<leftarrow> decide f rsi w;
     (case out of Leaves \<Rightarrow> Some (Some Left_By_Decider, w)
      | Returns res \<Rightarrow> do {
          w \<leftarrow> LOCK w;
          (current', w) \<leftarrow> leave_node item current w;
          (if res \<noteq> sig_decision_next_decider
           then do { w \<leftarrow> sighandler_info_release item w; w \<leftarrow> UNLOCK w; Some (Some (Raised True), w) }
           else if current' \<noteq> None then raise_global decide sig item current' rsi w
           else Some (None, w))
        })
   }"

definition raise_end :: "raise_call \<Rightarrow> raise_outcome option \<times> sig_world \<Rightarrow> (call_result \<times> sig_world) option" where
  "raise_end rc r = (case fst r of Some out \<Rightarrow> Some (R_Raise out, snd r) | None \<Rightarrow> pass_on rc (snd r))"

lemma raise_global_ask:
  "raise_global decide (rc_signo rc) (rc_item rc) current (rc_rsi rc) w = do {
     (q, w) \<leftarrow> ask_node rc current w;
     (case q of Inr (Deciding rc current f) \<Rightarrow> raise_rest decide (rc_signo rc) (rc_item rc) (rc_rsi rc) current f w | _ \<Rightarrow> None)
   }"
  by (subst raise_global_leave) (simp add: ask_node_def raise_rest_def Let_def)

lemma raise_end_rsi [simp]: "raise_end (rc\<lparr>rc_rsi := r\<rparr>) = raise_end rc"
  by (simp add: raise_end_def fun_eq_iff split: option.split)


definition previous_end :: "raise_call \<Rightarrow> sig_world \<Rightarrow> (call_result \<times> sig_world) option" where
  "previous_end rc w = do {
     (out, w) \<leftarrow> invoke_sigaction (rc_sa rc) (rc_signo rc) (rc_info rc) (rc_context rc) w;
     Some (R_Raise (case out of Killed \<Rightarrow> Terminated | Invoked b \<Rightarrow> Raised True), w)
   }"

text \<open>What the sections of a raise, run alone from any point on, come to.\<close>

definition alone_spec :: "decide_fn \<Rightarrow> progress \<Rightarrow> sig_world \<Rightarrow> call_result \<times> sig_world \<Rightarrow> bool" where
  "alone_spec decide q w y \<longleftrightarrow> (\<forall>r. q = Inl r \<longrightarrow> y = (r, w))
     \<and> (\<forall>rc. q = Inr (Passing_On rc) \<longrightarrow> previous_end rc w = Some y)
     \<and> (\<forall>rc n f. q = Inr (Deciding rc n f) \<longrightarrow>
          raise_rest decide (rc_signo rc) (rc_item rc) (rc_rsi rc) n f w \<bind> raise_end rc = Some y)"

lemma alone_spec_ask:
  assumes "ask_node rc n w = Some (q, w')" "alone_spec decide q w' y"
  shows "raise_global decide (rc_signo rc) (rc_item rc) n (rc_rsi rc) w \<bind> raise_end rc = Some y"
  using assms unfolding raise_global_ask alone_spec_def by (auto simp: ask_node_def Let_def bind_eq_Some_conv)

lemma alone_spec_stop:
  assumes "stop_asking rc w = Some (q, w')" "alone_spec decide q w' y"
  shows "pass_on rc w = Some y"
  using assms by (auto simp: stop_asking_def pass_on_def previous_end_def alone_spec_def bind_eq_Some_conv)

lemma alone_spec_answer:
  assumes "raise_answer rc current res rsi w1 = Some (q, w')" "alone_spec decide q w' y"
    and d: "decide f (rc_rsi rc) w = Some (Returns res, rsi, w1)"
  shows "raise_rest decide (rc_signo rc) (rc_item rc) (rc_rsi rc) current f w \<bind> raise_end rc = Some y"
proof -
  obtain w2 n w3 where w3: "LOCK w1 = Some w2" "leave_node (rc_item rc) current w2 = Some (n, w3)"
    using assms(1) by (auto simp: raise_answer_def bind_eq_Some_conv)
  consider "res \<noteq> sig_decision_next_decider" | "res = sig_decision_next_decider" "n \<noteq> None"
    | "res = sig_decision_next_decider" "n = None" by blast
  then show ?thesis
  proof cases
    case 1
    then show ?thesis using assms w3
      by (auto simp: raise_answer_def raise_rest_def raise_end_def alone_spec_def bind_eq_Some_conv)
  next
    case 2
    then have "raise_global decide (rc_signo rc) (rc_item rc) n rsi w3 \<bind> raise_end rc = Some y"
      using assms(1,2) w3 alone_spec_ask[of "rc\<lparr>rc_rsi := rsi\<rparr>" n w3 q w'] by (simp add: raise_answer_def)
    with 2 w3 d show ?thesis by (simp add: raise_rest_def)
  next
    case 3
    then have "pass_on rc w3 = Some y"
      using assms(1,2) w3 alone_spec_stop[of "rc\<lparr>rc_rsi := rsi\<rparr>" w3 q w'] by (simp add: raise_answer_def)
    with 3 w3 d show ?thesis by (simp add: raise_rest_def raise_end_def)
  qed
qed

lemma alone_meets_spec:
  assumes "alone decide q w = Some y"
  shows "alone_spec decide q w y"
proof (rule alone.raw_induct[where P = alone_spec, OF _ assms], goal_cases)
  case (1 al decide q w y)
  have "raise_rest decide (rc_signo rc) (rc_item rc) (rc_rsi rc) n f w \<bind> raise_end rc = Some y"
    if q: "q = Inr (Deciding rc n f)" for rc n f
  proof -
    obtain out rsi w1 where d: "decide f (rc_rsi rc) w = Some (out, rsi, w1)"
      and al: "(case out of Leaves \<Rightarrow> Some (R_Raise Left_By_Decider, w1)
           | Returns res \<Rightarrow> do { (q, w) \<leftarrow> raise_answer rc n res rsi w1; al decide q w }) = Some y"
      using 1(2) q by (auto simp: bind_eq_Some_conv)
    show ?thesis
    proof (cases out)
      case Leaves
      then show ?thesis using d al by (simp add: raise_rest_def raise_end_def)
    next
      case (Returns res)
      then obtain q' w' where "raise_answer rc n res rsi w1 = Some (q', w')" "al decide q' w' = Some y"
        using al by (auto simp: bind_eq_Some_conv)
      then show ?thesis using alone_spec_answer[OF _ 1(1)] d Returns by blast
    qed
  qed
  moreover have "previous_end rc w = Some y" if "q = Inr (Passing_On rc)" for rc
    using 1(2) that 1(1)[of decide "Inl _" _ y] by (fastforce simp: previous_end_def alone_spec_def bind_eq_Some_conv)
  moreover have "y = (r, w)" if "q = Inl r" for r
    using 1(2) that by simp
  ultimately show ?case by (simp add: alone_spec_def)
qed

lemma raise_refines_alone:
  assumes "raise_global decide sig item current rsi w = Some y"
  shows "\<forall>rc :: raise_call. rc_signo rc = sig \<and> rc_item rc = item \<and> rc_rsi rc = rsi \<longrightarrow>
    do { (q, w) \<leftarrow> ask_node rc current w; alone decide q w } = raise_end rc y"
proof (rule raise_global.raw_induct[OF _ assms(1)], goal_cases)
  case (1 rg decide sig item current rsi w y)
  have IH: "rg decide sig item current rsi w = Some y \<Longrightarrow> rc_signo rc = sig \<Longrightarrow> rc_item rc = item \<Longrightarrow> rc_rsi rc = rsi \<Longrightarrow>
    do { (q, w) \<leftarrow> ask_node rc current w; alone decide q w } = raise_end rc y" for current rsi w and rc :: raise_call
    using 1(1) by blast
  show ?case
  proof (intro allI impI, elim conjE)
    fix rc :: raise_call assume rc: "rc_signo rc = sig" "rc_item rc = item" "rc_rsi rc = rsi"
    have "do {
       c \<leftarrow> deref (nodes w) current;
       w \<leftarrow> node_upd current (\<lambda>d. d\<lparr>refcount := refcount d + 1\<rparr>) w;
       w \<leftarrow> UNLOCK w;
       c' \<leftarrow> deref (nodes w) current;
       (out, rsi, w) \<leftarrow> decide (decider c') (rsi\<lparr>si_value := dvalue c, internal_sighandler := item, internal_global_decider := current\<rparr>)
         (log_event (Ev_Decider (decider c') sig (dvalue c)) w);
       (case out of Leaves \<Rightarrow> Some (Some Left_By_Decider, w)
        | Returns res \<Rightarrow> do {
            w \<leftarrow> LOCK w;
            (current', w) \<leftarrow> leave_node item current w;
            (if res \<noteq> sig_decision_next_decider
             then do { w \<leftarrow> sighandler_info_release item w; w \<leftarrow> UNLOCK w; Some (Some (Raised True), w) }
             else if current' \<noteq> None then rg decide sig item current' rsi w
             else Some (None, w))
          })
     } = Some y"
      using 1(2) by (simp add: leave_node_def Let_def cong: dec_outcome.case_cong)
    then obtain c w1 w2 c' out r w3 where b: "deref (nodes w) current = Some c"
        "node_upd current (\<lambda>d. d\<lparr>refcount := refcount d + 1\<rparr>) w = Some w1" "UNLOCK w1 = Some w2" "deref (nodes w2) current = Some c'"
        "decide (decider c') (rsi\<lparr>si_value := dvalue c, internal_sighandler := item, internal_global_decider := current\<rparr>)
         (log_event (Ev_Decider (decider c') sig (dvalue c)) w2) = Some (out, r, w3)"
        "(case out of Leaves \<Rightarrow> Some (Some Left_By_Decider, w3)
        | Returns res \<Rightarrow> do {
            w \<leftarrow> LOCK w3;
            (current', w) \<leftarrow> leave_node item current w;
            (if res \<noteq> sig_decision_next_decider
             then do { w \<leftarrow> sighandler_info_release item w; w \<leftarrow> UNLOCK w; Some (Some (Raised True), w) }
             else if current' \<noteq> None then rg decide sig item current' r w
             else Some (None, w))
          }) = Some y"
      by (auto simp: bind_eq_Some_conv)
    show "do { (q, w) \<leftarrow> ask_node rc current w; alone decide q w } = raise_end rc y"
    proof (cases out)
      case Leaves
      then show ?thesis using b rc by (subst alone_ask) (auto simp: raise_end_def)
    next
      case (Returns res)
      obtain w4 n w5 where w5: "LOCK w3 = Some w4" "leave_node item current w4 = Some (n, w5)"
        using b(6) Returns by (auto simp: bind_eq_Some_conv)
      have "do { (q, w) \<leftarrow> ask_node (rc\<lparr>rc_rsi := r\<rparr>) n w5; alone decide q w } = raise_end rc y"
        if "res = sig_decision_next_decider" "n \<noteq> None"
        using IH[of n r w5 "rc\<lparr>rc_rsi := r\<rparr>"] rc b(6) Returns w5 that by simp
      then show ?thesis using b rc Returns w5
        by (subst alone_ask) (auto simp: raise_end_def bind_eq_Some_conv split: if_splits)
    qed
  qed
qed


lemma raise_sections:
  "do { (q, w) \<leftarrow> ask_node rc current w; alone decide q w } =
   raise_global decide (rc_signo rc) (rc_item rc) current (rc_rsi rc) w \<bind> raise_end rc"
proof (cases "raise_global decide (rc_signo rc) (rc_item rc) current (rc_rsi rc) w")
  case (Some y)
  then show ?thesis using raise_refines_alone[OF Some] by simp
next
  case None
  have "do { (q, w) \<leftarrow> ask_node rc current w; alone decide q w } \<noteq> Some y" for y
  proof
    assume "do { (q, w) \<leftarrow> ask_node rc current w; alone decide q w } = Some y"
    then obtain q w' where "ask_node rc current w = Some (q, w')" "alone decide q w' = Some y"
      by (auto simp: bind_eq_Some_conv)
    then show False using alone_spec_ask[OF _ alone_meets_spec, of rc current w q w' decide y] None by simp
  qed
  then have "do { (q, w) \<leftarrow> ask_node rc current w; alone decide q w } = None" by (metis not_None_eq)
  then show ?thesis using None by simp
qed

lemma raise_alone:
  "do { (q, w) \<leftarrow> raise_enter sig info ctx w; alone decide q w } =
   map_option (map_prod R_Raise id) (raise_from_registry decide sig info ctx w)"
  using raise_sections alone_stop
  by (auto simp: raise_enter_def raise_from_registry_def Let_def raise_end_def pass_on_def split: bind_splits option.splits)

lemma install_alone:
  "do { (q, w) \<leftarrow> begin_call (Req_Install internal g) w; alone decide q w } =
   map_option (map_prod R_Ptr id) (siginstall native_tss internal g w)"
  by (auto simp: siginstall_def alone_install Let_def split: prod.splits option.splits bind_splits)

lemma uninstall_alone:
  "do { (q, w) \<leftarrow> begin_call (Req_Uninstall h) w; alone decide q w } =
   map_option (map_prod R_Int id) (siguninstall native_tss h w)"
  by (auto simp: siguninstall_def alone_uninstall Let_def split: prod.splits option.splits bind_splits)

lemma create_alone:
  "do { (q, w) \<leftarrow> begin_call (Req_Create g c f v) w; alone decide q w } =
   map_option (map_prod R_Ptr id) (signal_decider_create g c f v w)"
  by (auto simp: signal_decider_create_def alone_create Let_def split: prod.splits option.splits bind_splits)


lemma destroy_alone:
  "do { (q, w) \<leftarrow> begin_call (Req_Destroy p) w; alone decide q w } =
   map_option (map_prod R_Int id) (signal_decider_destroy p w)"
  by (auto simp: signal_decider_destroy_def alone_destroy split: option.splits bind_splits)

section \<open>The sections are the calls\<close>

text \<open>
  C6 (equivalence). Running the sections of a call one after the other, without interruption, is
  the call: for a raise with any deciders, for installing, uninstalling, creating and destroying, on every
  path, faults and endless loops included. So what the threads of an interleaving do is, for
  one thread alone, what the sequential functions do.
\<close>

theorem sections_are_the_calls:
  "do { (q, w) \<leftarrow> begin_call (Req_Raise sig info ctx) w; alone decide q w } =
     map_option (map_prod R_Raise id) (raise_from_registry decide sig info ctx w)
   \<and> do { (q, w) \<leftarrow> begin_call (Req_Install internal S) w; alone decide q w } =
     map_option (map_prod R_Ptr id) (siginstall native_tss internal S w)
   \<and> do { (q, w) \<leftarrow> begin_call (Req_Uninstall h) w; alone decide q w } =
     map_option (map_prod R_Int id) (siguninstall native_tss h w)
   \<and> do { (q, w) \<leftarrow> begin_call (Req_Create S c f v) w; alone decide q w } =
     map_option (map_prod R_Ptr id) (signal_decider_create S c f v w)
   \<and> do { (q, w) \<leftarrow> begin_call (Req_Destroy h) w; alone decide q w } =
     map_option (map_prod R_Int id) (signal_decider_destroy h w)"
  using raise_alone install_alone uninstall_alone create_alone destroy_alone by simp

end
