(* ===== verification/Concurrent_Calls.thy ===== *)
theory Concurrent_Calls
  imports Call_Sections "HOL-Library.Multiset"
begin

text \<open>
  Any number of threads that raise, install, uninstall, create and destroy at the same time. One step is
  one critical section of one thread, which is what the lock makes of any finer interleaving
  (\<open>Spin_Lock\<close>). A thread has a stack of calls: a decider, or a signal that arrives outside the
  critical sections, may start another call on top. A decider that never returns stays on the stack
  for ever.

  Each thread has its own \<^verbatim>\<open>errno\<close>; the frames of a thread are its own and have been asked before
  \<open>raise_enter\<close>. The call of the previous handler, with the dispositions it sets and restores for the
  default action, is one step.
\<close>

section \<open>Threads\<close>

record lib_thread =
  activities :: "activity list"
  t_errno :: int

record process =
  mem :: sig_world
  lib_threads :: "lib_thread list"
  alive :: bool

datatype move = Begin request | Answer sig_decision stdc_siginfo | Continue

text \<open>
  What the environment decides: a call starts, the decider on top of the stack returns an answer with the
  information as it left it, or the call on top goes on with its next section.
\<close>

fun run_move :: "move \<Rightarrow> activity list \<Rightarrow> sig_world \<Rightarrow> (progress \<times> activity list \<times> sig_world) option" where
  "run_move (Begin r) xs w = do { (q, w) \<leftarrow> begin_call r w; Some (q, xs, w) }"
| "run_move (Answer res rsi) (Deciding rc n f # xs) w = do { (q, w) \<leftarrow> raise_answer rc n res rsi w; Some (q, xs, w) }"
| "run_move (Answer res rsi) xs w = None"
| "run_move Continue (x # xs) w = do { (q, w) \<leftarrow> proceed x w; Some (q, xs, w) }"
| "run_move Continue [] w = None"

fun pending :: "progress \<Rightarrow> activity list" where
  "pending (Inl r) = []"
| "pending (Inr x) = [x]"

text \<open>A step of thread \<open>i\<close>; the process is not alive after the default action has ended it.\<close>

definition step_thread :: "nat \<Rightarrow> move \<Rightarrow> process \<Rightarrow> process option" where
  "step_thread i mv p = (let t = lib_threads p ! i in do {
     (q, xs, w) \<leftarrow> run_move mv (activities t) ((mem p)\<lparr>errno := t_errno t\<rparr>);
     Some \<lparr>mem = w, lib_threads = (lib_threads p)[i := \<lparr>activities = pending q @ xs, t_errno = errno w\<rparr>],
       alive = (q \<noteq> Inl (R_Raise Terminated))\<rparr>
   })"

section \<open>Which steps may happen\<close>

text \<open>The handle that a call in progress fills or empties.\<close>

fun busy :: "activity \<Rightarrow> addr option" where
  "busy (Deciding rc n f) = None"
| "busy (Passing_On rc) = None"
| "busy (Installing a S ks) = Some a"
| "busy (Rolling_Back a S ks e) = Some a"
| "busy (Uninstalling a S ks) = Some a"
| "busy (Creating a g c f v js k) = Some a"
| "busy (Destroying a g js k undo) = Some a"

definition in_progress :: "process \<Rightarrow> activity list" where
  "in_progress p = concat (map activities (lib_threads p))"

definition previous_callable :: "sig_world \<Rightarrow> int \<Rightarrow> bool" where
  "previous_callable w sig \<longleftrightarrow> (case signo_lookup (signo_to_sighandler_map w) sig of None \<Rightarrow> True
     | Some a \<Rightarrow> (case infos w a of None \<Rightarrow> True | Some ci \<Rightarrow> callable (old_handler ci)))"

text \<open>
  A round of \<^verbatim>\<open>signal_decider_destroy\<close> for a signal whose slot has a node: the signal is in the map
  and its container holds the node, or a raise is in the node's decider. This leaves out every
  round for a signal that has been uninstalled since, because its node is then handled after
  \<^verbatim>\<open>UNLOCK\<close>, outside any section, and every round whose node is not in the container that the
  signal has now. Among them is the case that goes wrong: the node is still linked in a container
  that only a raise keeps alive, and is freed (\<open>destroy_frees_linked_node\<close> and
  \<open>destroying_neighbour_after_uninstall_faults\<close> of \<open>Raise_Reentrancy\<close>). A caller cannot test this
  condition; with no raise in flight the rounds it leaves out are harmless, which
  \<open>signal_decider_destroy_refines\<close> of \<open>Registry_Deciders\<close> covers.
\<close>

definition destroy_ready :: "sig_world \<Rightarrow> addr \<Rightarrow> sigset \<Rightarrow> int \<Rightarrow> nat \<Rightarrow> bool" where
  "destroy_ready w p g j k \<longleftrightarrow> \<not> visited g j \<or> (case slot (decider_handles w) p k of None \<Rightarrow> True
     | Some n \<Rightarrow> (case signo_lookup (signo_to_sighandler_map w) j of None \<Rightarrow> False
         | Some a \<Rightarrow> sighandler_info_has_decider (Some a) (Some n) w = Some True
             \<or> (case nodes w n of None \<Rightarrow> False | Some d \<Rightarrow> refcount d > 1)))"

text \<open>
  What the callers owe: handles are live and not in use by another call, and the previous
  disposition of a raised signal can be called.
\<close>

fun allowed :: "move \<Rightarrow> activity list \<Rightarrow> process \<Rightarrow> bool" where
  "allowed (Begin (Req_Raise sig info ctx)) xs p = previous_callable (mem p) sig"
| "allowed (Begin (Req_Install internal g)) xs p = True"
| "allowed (Begin (Req_Uninstall None)) xs p = True"
| "allowed (Begin (Req_Uninstall (Some h))) xs p =
     (install_handles (mem p) h \<noteq> None \<and> Some h \<notin> set (map busy (in_progress p)))"
| "allowed (Begin (Req_Create g c f v)) xs p = True"
| "allowed (Begin (Req_Destroy None)) xs p = True"
| "allowed (Begin (Req_Destroy (Some h))) xs p =
     (decider_handles (mem p) h \<noteq> None \<and> Some h \<notin> set (map busy (in_progress p)))"
| "allowed (Answer res rsi) (Deciding rc n f # xs) p = True"
| "allowed Continue (Passing_On rc # xs) p = True"
| "allowed Continue (Installing a S ks # xs) p = True"
| "allowed Continue (Rolling_Back a S ks e # xs) p = True"
| "allowed Continue (Uninstalling a S ks # xs) p = True"
| "allowed Continue (Creating a g c f v js k # xs) p = True"
| "allowed Continue (Destroying a g [] k undo # xs) p = True"
| "allowed Continue (Destroying a g (j # js) k undo # xs) p = destroy_ready (mem p) a g j k"
| "allowed mv xs p = False"

definition enabled :: "nat \<Rightarrow> move \<Rightarrow> process \<Rightarrow> bool" where
  "enabled i mv p \<longleftrightarrow> alive p \<and> i < length (lib_threads p) \<and> allowed mv (activities (lib_threads p ! i)) p"

definition idle_process :: "nat \<Rightarrow> sig_world \<Rightarrow> process" where
  "idle_process n w = \<lparr>mem = w, lib_threads = replicate n \<lparr>activities = [], t_errno = 0\<rparr>, alive = True\<rparr>"

text \<open>Any interleaving, from any state that a sequence of calls can have reached before the threads start.\<close>

inductive interleaved :: "process \<Rightarrow> bool" where
  start_threads: "reachable w \<Longrightarrow> interleaved (idle_process n w)"
| step_one: "interleaved p \<Longrightarrow> enabled i mv p \<Longrightarrow> step_thread i mv p = Some p' \<Longrightarrow> interleaved p'"

section \<open>What holds between the sections\<close>

text \<open>The container and the node that a call holds a reference on.\<close>

fun act_item :: "activity \<Rightarrow> ptr" where
  "act_item (Deciding rc n f) = rc_item rc"
| "act_item x = None"

fun act_node :: "activity \<Rightarrow> ptr" where
  "act_node (Deciding rc n f) = n"
| "act_node x = None"

definition pins :: "activity multiset \<Rightarrow> addr \<Rightarrow> nat" where
  "pins M a = size (filter_mset (\<lambda>x. act_item x = Some a) M)"

definition askers :: "activity multiset \<Rightarrow> addr \<Rightarrow> nat" where
  "askers M n = size (filter_mset (\<lambda>x. act_node x = Some n) M)"

lemma pins_add: "pins (add_mset x M) = (case act_item x of None \<Rightarrow> pins M | Some a \<Rightarrow> (pins M)(a := Suc (pins M a)))"
  by (auto simp: pins_def fun_eq_iff split: option.split)

lemma askers_add: "askers (add_mset x M) = (case act_node x of None \<Rightarrow> askers M | Some n \<Rightarrow> (askers M)(n := Suc (askers M n)))"
  by (auto simp: askers_def fun_eq_iff split: option.split)

text \<open>A raise is at a node of the chain of its container, and each call finds its own handle as it left it.\<close>

fun placed :: "(addr \<Rightarrow> addr list) \<Rightarrow> activity \<Rightarrow> bool" where
  "placed G (Deciding rc n f) = (\<exists>a m. rc_item rc = Some a \<and> n = Some m \<and> m \<in> set (G a))"
| "placed G x = True"

fun holds :: "sig_world \<Rightarrow> activity \<Rightarrow> bool" where
  "holds w (Deciding rc n f) = callable (rc_sa rc)"
| "holds w (Passing_On rc) = callable (rc_sa rc)"
| "holds w (Installing a S ks) = (install_handles w a = Some S \<and> (\<forall>k \<in> set ks. signo_valid k))"
| "holds w (Rolling_Back a S ks e) = (install_handles w a = Some S)"
| "holds w (Uninstalling a S ks) = (install_handles w a = Some S)"
| "holds w (Creating a g c f v js k) = (\<exists>dh us. decider_handles w a = Some dh \<and> dh_guarded dh = g
     \<and> guarded_signos g = us @ filter (visited g) js \<and> k = length us
     \<and> (\<forall>i \<ge> k. slot (decider_handles w) a i = None))"
| "holds w (Destroying a g js k undo) = (\<exists>dh us. decider_handles w a = Some dh \<and> dh_guarded dh = g
     \<and> guarded_signos g = us @ filter (visited g) js \<and> k = length us
     \<and> (\<forall>i < k. slot (decider_handles w) a i = None))"

text \<open>No two calls work on the same handle.\<close>

definition apart :: "activity multiset \<Rightarrow> bool" where
  "apart M \<longleftrightarrow> (\<forall>x y M'. M = add_mset x (add_mset y M') \<longrightarrow> busy x = busy y \<longrightarrow> busy x = None)"

lemma apart_add: "apart (add_mset x M) \<longleftrightarrow> apart M \<and> (\<forall>y \<in># M. busy x = busy y \<longrightarrow> busy x = None)"
proof
  assume a: "apart (add_mset x M)"
  have "busy x = None" if y: "y \<in># M" "busy x = busy y" for y
    using a multi_member_split[OF y(1)] y(2) unfolding apart_def by blast
  moreover have "apart M"
    using a unfolding apart_def by (metis add_mset_commute)
  ultimately show "apart M \<and> (\<forall>y \<in># M. busy x = busy y \<longrightarrow> busy x = None)" by blast
next
  assume a: "apart M \<and> (\<forall>y \<in># M. busy x = busy y \<longrightarrow> busy x = None)"
  show "apart (add_mset x M)" unfolding apart_def
  proof (intro allI impI)
    fix u v M' assume e: "add_mset x M = add_mset u (add_mset v M')" "busy u = busy v"
    show "busy u = None"
    proof (cases "u = x")
      case True
      then show ?thesis using a e by auto
    next
      case False
      then obtain K where "M = add_mset u K" "add_mset v M' = add_mset x K"
        using e(1) by (auto simp: add_eq_conv_ex)
      then show ?thesis using a e(2) unfolding apart_def
        by (metis add_eq_conv_ex union_single_eq_member)
    qed
  qed
qed

text \<open>
  The invariant between the sections: that of the registry, with as many references on each
  container and node as there are raises that hold it.
\<close>

definition conc_inv :: "sig_world \<Rightarrow> activity multiset \<Rightarrow> bool" where
  "conc_inv w M \<longleftrightarrow> lock w = 0 \<and> (\<exists>G D. reg_inv w G D (pins M) (askers M) \<and> (\<forall>x \<in># M. placed G x))
     \<and> (\<forall>x \<in># M. holds w x) \<and> apart M"

text \<open>What the sections of other threads leave alone: the nodes at which raises are.\<close>

definition stays :: "(addr \<Rightarrow> nat) \<Rightarrow> (addr \<Rightarrow> nat) \<Rightarrow> (addr \<Rightarrow> addr list) \<Rightarrow> (addr \<Rightarrow> addr list) \<Rightarrow> bool" where
  "stays P N G G' \<longleftrightarrow> (\<forall>b m. P b > 0 \<longrightarrow> N m > 0 \<longrightarrow> m \<in> set (G b) \<longrightarrow> m \<in> set (G' b))"

lemma stays_pins_kept: "pins_kept P N G G' \<Longrightarrow> stays P N G G'"
  by (auto simp: stays_def pins_kept_def)

lemma placed_stays:
  assumes "x \<in># M" "placed G x" "stays (pins M) (askers M) G G'"
  shows "placed G' x"
proof (cases x)
  case (Deciding rc n f)
  then obtain a m where a: "rc_item rc = Some a" "n = Some m" "m \<in> set (G a)" using assms(2) by auto
  have "x \<in># filter_mset (\<lambda>x. act_item x = Some a) M" "x \<in># filter_mset (\<lambda>x. act_node x = Some m) M"
    using assms(1) a Deciding by simp_all
  then have "pins M a > 0" "askers M m > 0" unfolding pins_def askers_def by (metis empty_not_add_mset multi_member_split nonempty_has_size)+
  then show ?thesis using assms(3) a Deciding by (auto simp: stays_def)
qed (use assms(2) in auto)

lemma holds_kept:
  assumes "holds w x" "\<And>h. busy x = Some h \<Longrightarrow> install_handles w' h = install_handles w h \<and> decider_handles w' h = decider_handles w h"
  shows "holds w' x"
proof (cases x)
  case (Creating a g c f v js k)
  then have "slot (decider_handles w') a = slot (decider_handles w) a" "decider_handles w' a = decider_handles w a"
    using assms(2)[of a] by (auto simp: slot_def fun_eq_iff)
  then show ?thesis using assms(1) Creating by simp
next
  case (Destroying a g js k undo)
  then have "slot (decider_handles w') a = slot (decider_handles w) a" "decider_handles w' a = decider_handles w a"
    using assms(2)[of a] by (auto simp: slot_def fun_eq_iff)
  then show ?thesis using assms(1) Destroying by simp
qed (use assms in auto)


subsection \<open>Sections of a raise\<close>

lemma holds_handles_same: "handles_same w w' \<Longrightarrow> holds w x \<Longrightarrow> holds w' x"
  by (rule holds_kept) (simp_all add: handles_same_def)

lemma stop_asking_ok:
  assumes "reg_inv w G D P N" "P a > 0" "lock w = 1" "rc_item rc = Some a"
  shows "\<exists>w' G' D'. stop_asking rc w = Some (Inr (Passing_On rc), w') \<and> reg_inv w' G' D' (P(a := P a - 1)) N
    \<and> lock w' = 0 \<and> handles_same w w' \<and> pins_kept (P(a := P a - 1)) N G G'"
proof -
  obtain w1 G' D' where "sighandler_info_release (Some a) w = Some w1" "reg_inv w1 G' D' (P(a := P a - 1)) N"
    "lock w1 = 1" "handles_same w w1" "pins_kept (P(a := P a - 1)) N G G'"
    using release_ok[OF assms(1-3)] by blast
  then show ?thesis using assms(4)
    by - (rule exI[of _ "w1\<lparr>lock := 0\<rparr>"], rule exI[of _ G'], rule exI[of _ D'], simp add: stop_asking_def handles_same_def)
qed

lemma ask_node_ok:
  assumes inv: "reg_inv w G D P N" and n: "n \<in> set (G a)" and l: "lock w = 1"
  shows "\<exists>rsi f w'. ask_node rc (Some n) w = Some (Inr (Deciding (rc\<lparr>rc_rsi := rsi\<rparr>) (Some n) f), w')
    \<and> reg_inv w' G D P (N(n := Suc (N n))) \<and> lock w' = 0 \<and> handles_same w w'"
proof -
  obtain d where d: "nodes w n = Some d" using lists_inv_live(1)[OF reg_inv_lists[OF inv], of n a] n by auto
  show ?thesis using reg_inv_pin_node[OF inv n d] d l
    by (simp add: ask_node_def Let_def log_event_def handles_same_def) (rule exI, rule refl)
qed

abbreviation pend :: "progress \<Rightarrow> activity multiset" where
  "pend q \<equiv> mset (pending q)"

lemma conc_invI:
  assumes "lock w = 0" "reg_inv w G D (pins M) (askers M)" "\<forall>x \<in># M. placed G x" "\<forall>x \<in># M. holds w x" "apart M"
  shows "conc_inv w M"
  using assms by (auto simp: conc_inv_def)

lemma conc_inv_pass:
  assumes "reg_inv w G D ((pins M)(a := Suc (pins M a))) (askers M)" "lock w = 1" "rc_item rc = Some a"
    and M: "\<forall>x \<in># M. placed G x" "\<forall>x \<in># M. holds w x" "apart M" and sa: "callable (rc_sa rc)"
  shows "\<exists>q w'. stop_asking rc w = Some (q, w') \<and> conc_inv w' (M + pend q)"
proof -
  obtain w' G' D' where r: "stop_asking rc w = Some (Inr (Passing_On rc), w')" "reg_inv w' G' D' (pins M) (askers M)"
    "lock w' = 0" "handles_same w w'" "pins_kept (pins M) (askers M) G G'"
    using stop_asking_ok[OF assms(1) _ assms(2,3)] by auto
  have "conc_inv w' (add_mset (Passing_On rc) M)"
    by (rule conc_invI[OF r(3), of G' D'])
      (use r M sa placed_stays[OF _ _ stays_pins_kept[OF r(5)]] holds_handles_same[OF r(4)] in \<open>auto simp: pins_add askers_add apart_add\<close>)
  with r(1) show ?thesis by auto
qed

lemma conc_inv_ask:
  assumes "reg_inv w G D ((pins M)(a := Suc (pins M a))) (askers M)" "lock w = 1" "rc_item rc = Some a" "n \<in> set (G a)"
    and M: "\<forall>x \<in># M. placed G x" "\<forall>x \<in># M. holds w x" "apart M" and sa: "callable (rc_sa rc)"
  shows "\<exists>q w'. ask_node rc (Some n) w = Some (q, w') \<and> conc_inv w' (M + pend q)"
proof -
  obtain rsi f w' where r: "ask_node rc (Some n) w = Some (Inr (Deciding (rc\<lparr>rc_rsi := rsi\<rparr>) (Some n) f), w')"
    "reg_inv w' G D ((pins M)(a := Suc (pins M a))) ((askers M)(n := Suc (askers M n)))" "lock w' = 0" "handles_same w w'"
    using ask_node_ok[OF assms(1,4,2), of rc] by blast
  have "conc_inv w' (add_mset (Deciding (rc\<lparr>rc_rsi := rsi\<rparr>) (Some n) f) M)"
    by (rule conc_invI[OF r(3), of G D])
      (use r assms M sa holds_handles_same[OF r(4)] in \<open>auto simp: pins_add askers_add apart_add\<close>)
  with r(1) show ?thesis by auto
qed

lemma raise_enter_ok:
  assumes c: "conc_inv w M" and call: "previous_callable w sig"
  shows "\<exists>q w'. raise_enter sig info ctx w = Some (q, w') \<and> conc_inv w' (M + pend q)"
proof -
  obtain G D where inv: "reg_inv w G D (pins M) (askers M)" and M: "\<forall>x \<in># M. placed G x" "\<forall>x \<in># M. holds w x" "apart M"
    and l: "lock w = 0"
    using c by (auto simp: conc_inv_def)
  show ?thesis
  proof (cases "signo_lookup (signo_to_sighandler_map w) sig")
    case None
    have "w\<lparr>lock := 0\<rparr> = w" using l by (cases w) simp
    then have "conc_inv (w\<lparr>lock := 0\<rparr>) M" using c by (simp only:)
    then show ?thesis using None l by (simp add: raise_enter_def signo_map_get_is_end Let_def)
  next
    case (Some a)
    obtain ci where a: "infos w a = Some ci" using reg_inv_lookup[OF inv Some] by blast
    let ?ci = "ci\<lparr>lifetime_refcount := lifetime_refcount ci + 1\<rparr>"
    define rc where "rc = \<lparr>rc_signo = sig, rc_info = info, rc_context = ctx, rc_item = Some a,
          rc_sa = old_handler ci, rc_rsi = prepare_rsi rsi_uninit sig info ctx\<rparr>"
    define w1 where "w1 = w\<lparr>lock := 1, infos := (infos w)(a \<mapsto> ?ci)\<rparr>"
    have inv1: "reg_inv w1 G D ((pins M)(a := Suc (pins M a))) (askers M)" "lock w1 = 1"
      using reg_inv_pin[of "w\<lparr>lock := 1\<rparr>" G D "pins M" "askers M" a ci ?ci "Suc (pins M a)"] inv a reg_inv_life(2)[OF inv a]
      by (simp_all add: w1_def)
    have h1: "\<forall>x \<in># M. holds w1 x" using M(2) holds_handles_same[of w w1] by (auto simp: w1_def handles_same_def)
    have fr: "l_front (global_handler ci) = first_ptr (G a) None"
      using lists_invD(1)[OF reg_inv_lists[OF inv] a] by (rule dll_front)
    have rc: "rc_item rc = Some a" "callable (rc_sa rc)" using call Some a by (simp_all add: rc_def previous_callable_def)
    have e: "raise_enter sig info ctx w = (if first_ptr (G a) None \<noteq> None then ask_node rc (first_ptr (G a) None) w1 else stop_asking rc w1)"
      using l Some a fr by (simp add: raise_enter_def signo_map_get_is_end signo_map_get_Some[OF Some] Let_def rc_def w1_def)
    show ?thesis
    proof (cases "G a")
      case Nil
      then show ?thesis using e conc_inv_pass[OF inv1 rc(1) M(1) h1 M(3) rc(2)] by simp
    next
      case (Cons n ns)
      then show ?thesis using e conc_inv_ask[OF inv1 rc(1) _ M(1) h1 M(3) rc(2), of n] by simp
    qed
  qed
qed

lemma raise_answer_ok:
  assumes c: "conc_inv w (add_mset (Deciding rc cur f) M)"
  shows "\<exists>q w'. raise_answer rc cur res rsi w = Some (q, w') \<and> conc_inv w' (M + pend q)"
proof -
  obtain G D a n where inv: "reg_inv w G D (pins (add_mset (Deciding rc cur f) M)) (askers (add_mset (Deciding rc cur f) M))"
    and M: "\<forall>x \<in># M. placed G x" "\<forall>x \<in># M. holds w x" "apart M" and l: "lock w = 0"
    and rc: "rc_item rc = Some a" "cur = Some n" "n \<in> set (G a)" "callable (rc_sa rc)"
    using c by (auto simp: conc_inv_def apart_add)
  let ?P = "(pins M)(a := Suc (pins M a))"
  obtain us vs where Ga: "G a = us @ n # vs" using split_list[OF rc(3)] by blast
  have inv1: "reg_inv (w\<lparr>lock := 1\<rparr>) G D ?P ((askers M)(n := Suc (askers M n)))"
    using inv rc by (simp add: pins_add askers_add)
  obtain w1 G1 D1 where v: "leave_node (Some a) (Some n) (w\<lparr>lock := 1\<rparr>) = Some (first_ptr vs None, w1)"
    "reg_inv w1 G1 D1 ?P (askers M)" "lock w1 = 1" "G1 a = us @ n # vs \<or> G1 a = us @ vs" "pins_kept ?P (askers M) G G1"
    using leave_node_ok[OF inv1 Ga] by auto
  have k: "pins_kept (pins M) (askers M) G G1" by (rule pins_kept_mono[OF v(5)]) auto
  have hs: "handles_same w w1" using leave_node_handles[OF v(1)] by (simp add: handles_same_def)
  have M1: "\<forall>x \<in># M. placed G1 x" "\<forall>x \<in># M. holds w1 x"
    using M placed_stays[OF _ _ stays_pins_kept[OF k]] holds_handles_same[OF hs] by blast+
  have e: "raise_answer rc cur res rsi w = (if res \<noteq> sig_decision_next_decider
      then do { w \<leftarrow> sighandler_info_release (Some a) w1; w \<leftarrow> UNLOCK w; Some (Inl (R_Raise (Raised True)), w) }
      else if first_ptr vs None \<noteq> None then ask_node (rc\<lparr>rc_rsi := rsi\<rparr>) (first_ptr vs None) w1
      else stop_asking (rc\<lparr>rc_rsi := rsi\<rparr>) w1)"
    using l rc v(1) by (simp add: raise_answer_def)
  consider "res \<noteq> sig_decision_next_decider" | "res = sig_decision_next_decider" "vs = []"
    | m ms where "res = sig_decision_next_decider" "vs = m # ms" by (cases vs) auto
  then show ?thesis
  proof cases
    case 1
    obtain w2 G2 D2 where r: "sighandler_info_release (Some a) w1 = Some w2" "reg_inv w2 G2 D2 (pins M) (askers M)"
      "lock w2 = 1" "handles_same w1 w2" "pins_kept (pins M) (askers M) G1 G2"
      using release_ok[OF v(2) _ v(3), of a] by auto
    have hs2: "handles_same w1 (w2\<lparr>lock := 0\<rparr>)" using r(4) by (simp add: handles_same_def)
    have "conc_inv (w2\<lparr>lock := 0\<rparr>) M"
      by (rule conc_invI[of _ G2 D2])
        (use r M(3) M1 placed_stays[OF _ _ stays_pins_kept[OF r(5)]] holds_handles_same[OF hs2] in auto)
    then show ?thesis using e 1 r(1,3) by auto
  next
    case 2
    then show ?thesis using e conc_inv_pass[OF v(2,3) _ M1 M(3), of "rc\<lparr>rc_rsi := rsi\<rparr>"] rc by simp
  next
    case 3
    then have "m \<in> set (G1 a)" using v(4) by auto
    then show ?thesis using 3 e conc_inv_ask[OF v(2,3) _ _ M1 M(3), of "rc\<lparr>rc_rsi := rsi\<rparr>" m] rc by simp
  qed
qed


subsection \<open>Sections of the other calls\<close>


text \<open>Calls other than raises hold no reference, only their handle.\<close>

lemma conc_inv_quiet: "\<not> is_Deciding x \<Longrightarrow>
    conc_inv w (add_mset x M) \<longleftrightarrow> conc_inv w M \<and> holds w x \<and> (\<forall>y \<in># M. busy x = busy y \<longrightarrow> busy x = None)"
  by (cases x) (auto simp: conc_inv_def pins_add askers_add apart_add)

lemma conc_inv_kept:
  assumes c: "conc_inv w M" and w': "lock w' = 0"
    and run: "\<And>G D. reg_inv w G D (pins M) (askers M) \<Longrightarrow>
      \<exists>G' D'. reg_inv w' G' D' (pins M) (askers M) \<and> stays (pins M) (askers M) G G'"
    and own: "\<And>x h. x \<in># M \<Longrightarrow> busy x = Some h \<Longrightarrow>
      install_handles w' h = install_handles w h \<and> decider_handles w' h = decider_handles w h"
  shows "conc_inv w' M"
proof -
  obtain G D where inv: "reg_inv w G D (pins M) (askers M)" "\<forall>x \<in># M. placed G x" "\<forall>x \<in># M. holds w x" "apart M"
    using c by (auto simp: conc_inv_def)
  obtain G' D' where r: "reg_inv w' G' D' (pins M) (askers M)" "stays (pins M) (askers M) G G'" using run[OF inv(1)] by blast
  show ?thesis
    by (rule conc_invI[OF w' r(1)]) (use placed_stays[OF _ _ r(2)] inv holds_kept own in blast)+
qed

lemma stays_refl [simp]: "stays P N G G"
  by (simp add: stays_def)

lemma conc_inv_same_lists:
  assumes "conc_inv w M" "lock w' = 0" "\<And>G D. reg_inv w G D (pins M) (askers M) \<Longrightarrow> reg_inv w' G D (pins M) (askers M)"
    "\<And>x h. x \<in># M \<Longrightarrow> busy x = Some h \<Longrightarrow> install_handles w' h = install_handles w h \<and> decider_handles w' h = decider_handles w h"
  shows "conc_inv w' M"
  by (rule conc_inv_kept[OF assms(1,2)]) (use assms(3) stays_refl in blast, fact assms(4))

lemma conc_inv_regs: "conc_inv w M \<Longrightarrow> \<exists>G D. reg_inv w G D (pins M) (askers M)"
  by (auto simp: conc_inv_def)

lemma conc_inv_lock: "conc_inv w M \<Longrightarrow> lock w = 0"
  by (simp add: conc_inv_def)

lemma conc_inv_irrelevant [simp]: "conc_inv (w\<lparr>errno := e\<rparr>) M = conc_inv w M"
proof -
  have "holds (w\<lparr>errno := e\<rparr>) x = holds w x" for x by (cases x) auto
  then show ?thesis by (simp add: conc_inv_def)
qed

lemma conc_inv_install_one:
  assumes c: "conc_inv w M" and k: "signo_valid k"
  shows "\<exists>ok w'. install_sighandler native_tss k w = Some (ok, w') \<and> install_handles w' = install_handles w \<and> conc_inv w' M"
proof -
  note l = conc_inv_lock[OF c]
  obtain G D where inv: "reg_inv w G D (pins M) (askers M)" using conc_inv_regs[OF c] by blast
  obtain ok w' where r: "install_sighandler native_tss k w = Some (ok, w')" "handles_kept w w'"
    using native.install_step[OF inv l k] by blast
  have "reg_inv w' G D (pins M) (askers M)" if "reg_inv w G D (pins M) (askers M)" for G D
    using native.install_step[OF that l k] r(1) by auto
  then have "conc_inv w' M"
    by (intro conc_inv_same_lists[OF c]) (use r(2) l in \<open>auto simp: handles_kept_def\<close>)
  with r show ?thesis by (auto simp: handles_kept_def)
qed

lemma conc_inv_uninstall_one:
  assumes c: "conc_inv w M"
  shows "\<exists>w'. uninstall_sighandler native_tss k w = Some (True, w') \<and> install_handles w' = install_handles w \<and> conc_inv w' M"
proof -
  note l = conc_inv_lock[OF c]
  obtain G D where inv: "reg_inv w G D (pins M) (askers M)" using conc_inv_regs[OF c] by blast
  obtain w' where r: "uninstall_sighandler native_tss k w = Some (True, w')" "handles_kept w w'"
    using native.uninstall_step[OF inv l] by blast
  have "\<exists>G' D'. reg_inv w' G' D' (pins M) (askers M) \<and> stays (pins M) (askers M) G G'" if i: "reg_inv w G D (pins M) (askers M)" for G D
  proof -
    obtain w'' G' D' where "uninstall_sighandler native_tss k w = Some (True, w'')" "reg_inv w'' G' D' (pins M) (askers M)" "shrinks (pins M) G G'"
      using native.uninstall_step[OF i l] by blast
    then show ?thesis using r(1) stays_pins_kept[OF pins_kept_shrinks] by auto
  qed
  then have "conc_inv w' M"
    by (intro conc_inv_kept[OF c]) (use r(2) l in \<open>auto simp: handles_kept_def\<close>)
  with r show ?thesis by (auto simp: handles_kept_def)
qed

lemma conc_inv_set_handle:
  assumes c: "conc_inv w M" and a: "\<forall>x \<in># M. busy x \<noteq> Some a" and h: "h = None \<or> a < next_addr w"
  shows "conc_inv (w\<lparr>install_handles := (install_handles w)(a := h)\<rparr>) M"
  by (rule conc_inv_same_lists[OF c]) (use conc_inv_lock[OF c] reg_inv_install_handles[OF _ h] a in auto)

lemma conc_inv_alloc:
  assumes c: "conc_inv w M" and al: "host_alloc w = (p, w')"
  shows "conc_inv w' M"
  by (rule conc_inv_same_lists[OF c])
    (use conc_inv_lock[OF c] host_alloc_same[OF al] reg_inv_same[OF host_alloc_same[OF al]] in \<open>auto simp: same_registry_def\<close>)

lemma busy_live:
  assumes c: "conc_inv w M" and x: "x \<in># M" "busy x = Some a"
  shows "a < next_addr w"
proof -
  obtain G D where inv: "reg_inv w G D (pins M) (askers M)" using conc_inv_regs[OF c] by blast
  have "holds w x" using c x(1) by (auto simp: conc_inv_def)
  then have "install_handles w a \<noteq> None \<or> decider_handles w a \<noteq> None" using x(2) by (cases x) auto
  then show ?thesis using inv unfolding reg_inv_def fresh_inv_def by (metis not_le)
qed

lemma conc_inv_free_handle:
  assumes c: "conc_inv w (add_mset x M)" and x: "\<not> is_Deciding x" "busy x = Some a"
    and a: "install_handles w a = Some S"
  shows "free_cell (install_handles w) a = Some ((install_handles w)(a := None))"
    "conc_inv (w\<lparr>install_handles := (install_handles w)(a := None)\<rparr>) M"
proof -
  have "conc_inv w M" "\<forall>y \<in># M. busy y \<noteq> Some a" using c x by (auto simp: conc_inv_quiet)
  then show "conc_inv (w\<lparr>install_handles := (install_handles w)(a := None)\<rparr>) M" by (rule conc_inv_set_handle) simp
qed (use a in simp)

lemma stays_old:
  assumes "without (\<lambda>m. (x :: addr) \<le> m) G' = G"
  shows "stays P N G G'"
  unfolding stays_def assms[symmetric] without_def by auto

lemma conc_inv_create_one:
  assumes c: "conc_inv w (add_mset (Creating p g cf f v (j # js) k) M)" and vis: "visited g j"
  shows "\<exists>ok w'. create_each p g cf f v [j] k w = Some (ok, w') \<and> conc_inv w' M
    \<and> (\<exists>dh. decider_handles w' p = Some dh \<and> dh_guarded dh = g) \<and> (\<forall>i \<ge> Suc k. slot (decider_handles w') p i = None)"
proof -
  have c': "conc_inv w M" and ap: "\<forall>y \<in># M. busy y \<noteq> Some p" using c by (auto simp: conc_inv_quiet)
  obtain dh us where h: "decider_handles w p = Some dh" "dh_guarded dh = g" "guarded_signos g = us @ j # filter (visited g) js"
    "k = length us" "\<forall>i \<ge> k. slot (decider_handles w) p i = None"
    using c vis by (auto simp: conc_inv_quiet)
  note l = conc_inv_lock[OF c']
  have one: "\<exists>ok w' G'. create_each p g cf f v [j] k w = Some (ok, w') \<and> reg_inv w' G' D P N \<and> stays P N G G'
      \<and> lock w' = 0 \<and> install_handles w' = install_handles w \<and> (\<forall>h. h \<noteq> p \<longrightarrow> decider_handles w' h = decider_handles w h)
      \<and> (\<exists>dh'. decider_handles w' p = Some dh' \<and> dh_guarded dh' = g) \<and> (\<forall>i \<ge> Suc k. slot (decider_handles w') p i = None)"
    if inv: "reg_inv w G D P N" for G D P N
  proof -
    obtain ok w' G' \<nu> where r: "\<forall>js. create_each p g cf f v (j # js) k w = (if ok then create_each p g cf f v js (Suc k) w' else Some (False, w'))"
      "reg_inv w' G' D P N" "created p (\<lambda>i. ok \<and> i = j) cf f v \<nu> w G w' G'"
      "\<exists>dh'. decider_handles w' p = Some dh' \<and> dh_guarded dh' = g" "\<forall>i \<ge> Suc k. slot (decider_handles w') p i = None"
      using create_one[OF inv l h(1), unfolded h(2), OF _ _ h(5) vis, of cf f v] h(3,4) by (simp del: create_each.simps) blast
    have "create_each p g cf f v [j] k w = Some (ok, w')" using r(1) by (cases ok) simp_all
    moreover have "lock w' = 0" "install_handles w' = install_handles w" "\<forall>h. h \<noteq> p \<longrightarrow> decider_handles w' h = decider_handles w h"
      "stays P N G G'"
      using r(3) l stays_old[of "next_addr w" G' G P N] by (simp_all add: created_def)
    ultimately show ?thesis using r(2,4,5) by blast
  qed
  obtain G D where "reg_inv w G D (pins M) (askers M)" using conc_inv_regs[OF c'] by blast
  then obtain ok w' where w': "create_each p g cf f v [j] k w = Some (ok, w')" "lock w' = 0" "install_handles w' = install_handles w"
    "\<forall>h. h \<noteq> p \<longrightarrow> decider_handles w' h = decider_handles w h"
    "\<exists>dh'. decider_handles w' p = Some dh' \<and> dh_guarded dh' = g" "\<forall>i \<ge> Suc k. slot (decider_handles w') p i = None"
    using one by blast
  have "conc_inv w' M"
  proof (rule conc_inv_kept[OF c' w'(2)])
    show "\<exists>G' D'. reg_inv w' G' D' (pins M) (askers M) \<and> stays (pins M) (askers M) G G'" if "reg_inv w G D (pins M) (askers M)" for G D
      using one[OF that] w'(1) by auto
  qed (use w'(3,4) ap in metis)
  with w'(1,5,6) show ?thesis by blast
qed

lemma conc_inv_pass_on:
  assumes c: "conc_inv w (add_mset (Passing_On rc) M)"
  shows "\<exists>r w'. proceed (Passing_On rc) w = Some (Inl r, w') \<and> (r \<noteq> R_Raise Terminated \<longrightarrow> conc_inv w' M)"
proof -
  have c': "conc_inv w M" and sa: "callable (rc_sa rc)" using c by (auto simp: conc_inv_quiet)
  obtain out w' where r: "invoke_sigaction (rc_sa rc) (rc_signo rc) (rc_info rc) (rc_context rc) w = Some (out, w')"
    "out = Killed \<or> same_registry w w'" using invoke_sigaction_callable[OF sa] by blast
  have "conc_inv w' M" if "same_registry w w'"
    by (rule conc_inv_same_lists[OF c']) (use that conc_inv_lock[OF c'] reg_inv_same[OF that] in \<open>auto simp: same_registry_def\<close>)
  then show ?thesis using r by (cases out) auto
qed


subsection \<open>Steps of the threads\<close>

definition result_inv :: "progress \<Rightarrow> sig_world \<Rightarrow> activity multiset \<Rightarrow> bool" where
  "result_inv q w M \<longleftrightarrow> (q \<noteq> Inl (R_Raise Terminated) \<longrightarrow> conc_inv w (pend q + M))"

lemma result_inv_Inr: "result_inv (Inr x) w M = conc_inv w (add_mset x M)"
  by (simp add: result_inv_def)

lemma proceed_installing:
  assumes c: "conc_inv w (add_mset (Installing a S ks) M)"
  shows "\<exists>q w'. proceed (Installing a S ks) w = Some (q, w') \<and> result_inv q w' M"
proof -
  have M: "conc_inv w M" "install_handles w a = Some S" "\<forall>k \<in> set ks. signo_valid k" "\<forall>y \<in># M. busy y \<noteq> Some a"
    using c by (auto simp: conc_inv_quiet)
  show ?thesis
  proof (cases ks)
    case Nil
    then show ?thesis using M(1) by (simp add: result_inv_def)
  next
    case (Cons k ks')
    show ?thesis
    proof (cases "visited S k")
      case True
      obtain ok w' where "install_sighandler native_tss k w = Some (ok, w')" "install_handles w' = install_handles w" "conc_inv w' M"
        using conc_inv_install_one[OF M(1), of k] M(3) Cons by auto
      then show ?thesis using M True Cons by (auto simp: result_inv_Inr conc_inv_quiet)
    qed (use M Cons in \<open>auto simp: result_inv_Inr conc_inv_quiet\<close>)
  qed
qed

lemma proceed_rolling_back:
  assumes c: "conc_inv w (add_mset (Rolling_Back a S ks e) M)"
  shows "\<exists>q w'. proceed (Rolling_Back a S ks e) w = Some (q, w') \<and> result_inv q w' M"
proof -
  have M: "conc_inv w M" "install_handles w a = Some S" "\<forall>y \<in># M. busy y \<noteq> Some a"
    using c by (auto simp: conc_inv_quiet)
  show ?thesis
  proof (cases ks)
    case Nil
    have "conc_inv (w\<lparr>install_handles := (install_handles w)(a := None), errno := e\<rparr>) M"
      using conc_inv_free_handle(2)[OF c] M(2) conc_inv_irrelevant[where w = "w\<lparr>install_handles := (install_handles w)(a := None)\<rparr>" and e = e] by simp
    then show ?thesis using M(2) Nil by (simp add: result_inv_def)
  next
    case (Cons k ks')
    show ?thesis
    proof (cases "visited S k")
      case True
      obtain w' where "uninstall_sighandler native_tss k w = Some (True, w')" "install_handles w' = install_handles w" "conc_inv w' M"
        using conc_inv_uninstall_one[OF M(1), of k] by auto
      then show ?thesis using M True Cons by (auto simp: result_inv_Inr conc_inv_quiet)
    qed (use M Cons in \<open>auto simp: result_inv_Inr conc_inv_quiet\<close>)
  qed
qed

lemma proceed_uninstalling:
  assumes c: "conc_inv w (add_mset (Uninstalling a S ks) M)"
  shows "\<exists>q w'. proceed (Uninstalling a S ks) w = Some (q, w') \<and> result_inv q w' M"
proof -
  have M: "conc_inv w M" "install_handles w a = Some S" "\<forall>y \<in># M. busy y \<noteq> Some a"
    using c by (auto simp: conc_inv_quiet)
  show ?thesis
  proof (cases ks)
    case Nil
    then show ?thesis using conc_inv_free_handle(2)[OF c] M(2) by (simp add: result_inv_def)
  next
    case (Cons k ks')
    show ?thesis
    proof (cases "visited S k")
      case True
      obtain w' where "uninstall_sighandler native_tss k w = Some (True, w')" "install_handles w' = install_handles w" "conc_inv w' M"
        using conc_inv_uninstall_one[OF M(1), of k] by auto
      then show ?thesis using M True Cons by (auto simp: result_inv_Inr conc_inv_quiet)
    qed (use M Cons in \<open>auto simp: result_inv_Inr conc_inv_quiet\<close>)
  qed
qed

lemma proceed_creating:
  assumes c: "conc_inv w (add_mset (Creating p g cf f v js k) M)"
  shows "\<exists>q w'. proceed (Creating p g cf f v js k) w = Some (q, w') \<and> result_inv q w' M"
proof (cases js)
  case Nil
  then show ?thesis using c by (simp add: result_inv_def conc_inv_quiet)
next
  case (Cons j js')
  have ap: "\<forall>y \<in># M. busy y \<noteq> Some p" using c by (auto simp: conc_inv_quiet)
  show ?thesis
  proof (cases "visited g j")
    case True
    obtain ok w' dh where r: "create_each p g cf f v [j] k w = Some (ok, w')" "conc_inv w' M"
      "decider_handles w' p = Some dh" "dh_guarded dh = g" "\<forall>i \<ge> Suc k. slot (decider_handles w') p i = None"
      using conc_inv_create_one[OF c[unfolded Cons] True] by blast
    obtain us where us: "guarded_signos g = us @ j # filter (visited g) js'" "k = length us"
      using c True Cons by (auto simp: conc_inv_quiet)
    have "holds w' (Creating p g cf f v js' (k + 1))"
      using r(3-5) us exI[of "\<lambda>vs. guarded_signos g = vs @ filter (visited g) js' \<and> Suc k = length vs" "us @ [j]"] by auto
    moreover have "holds w' (Destroying p g [1..NSIG - 1] 0 undo)" for undo
      using r(3,4) by (auto simp: guarded_signos_visited)
    ultimately show ?thesis using r Cons True ap
      by (cases ok) (auto simp: result_inv_Inr conc_inv_quiet simp del: create_each.simps holds.simps)
  next
    case False
    then show ?thesis using c Cons by (auto simp: result_inv_Inr conc_inv_quiet)
  qed
qed

lemma destroy_ready_lists:
  assumes inv: "reg_inv w G D P N" and n: "slot (decider_handles w) p k = Some n" and vis: "visited g j"
  shows "destroy_ready w p g j k \<longleftrightarrow> (\<exists>a. signo_lookup (signo_to_sighandler_map w) j = Some a \<and> (n \<in> set (G a) \<or> N n > 0))"
proof -
  have "owned (decider_handles w) n" using n by (auto simp: owned_def)
  then obtain d where d: "nodes w n = Some d" "refcount d = 1 + int (N n)"
    using inv unfolding reg_inv_def own_inv_def by (cases "nodes w n") auto
  have "sighandler_info_has_decider (Some a) (Some n) w = Some (n \<in> set (G a))"
    if a: "signo_lookup (signo_to_sighandler_map w) j = Some a" for a
  proof -
    obtain ci where "infos w a = Some ci" using reg_inv_lookup[OF inv a] by blast
    then show ?thesis using has_decider_ok lists_invD(1)[OF reg_inv_lists[OF inv]] by blast
  qed
  then show ?thesis using n vis d by (auto simp: destroy_ready_def split: option.split)
qed

lemma conc_inv_destroy_skip:
  assumes c: "conc_inv w M" and j: "\<not> sigismember g j"
  shows "\<exists>w'. destroy_round p g j k w = Some (k, w') \<and> conc_inv w' M \<and> decider_handles w' = decider_handles w"
proof -
  note l = conc_inv_lock[OF c]
  have one: "\<exists>w' D'. destroy_round p g j k w = Some (k, w') \<and> reg_inv w' G D' P N \<and> lock w' = 0
      \<and> install_handles w' = install_handles w \<and> decider_handles w' = decider_handles w"
    if inv: "reg_inv w G D P N" for G D P N
  proof -
    obtain w' D' where r: "destroy_round p g j k w = Some (k, w')" "outer_same w w'" "decider_handles w' = decider_handles w"
      "reg_inv (w'\<lparr>decider_handles := decider_handles w\<rparr>) G D' P N"
      using destroy_round_skip[where w = w and H = "decider_handles w" and G = G and D = D and P = P and N = N and g = g and j = j and p = p and k = k] inv l j by auto
    have "reg_inv w' G D' P N" using r(4) unfolding r(3)[symmetric] by simp
    then show ?thesis using r(1-3) l by (auto simp: outer_same_def)
  qed
  obtain G D where "reg_inv w G D (pins M) (askers M)" using conc_inv_regs[OF c] by blast
  then obtain w' where w': "destroy_round p g j k w = Some (k, w')" "lock w' = 0" "install_handles w' = install_handles w"
    "decider_handles w' = decider_handles w" using one by blast
  have "conc_inv w' M"
  proof (rule conc_inv_kept[OF c w'(2)])
    show "\<exists>G' D'. reg_inv w' G' D' (pins M) (askers M) \<and> stays (pins M) (askers M) G G'" if "reg_inv w G D (pins M) (askers M)" for G D
      using one[OF that] w'(1) stays_refl by fastforce
  qed (use w' in simp)
  with w' show ?thesis by blast
qed

lemma conc_inv_destroy_one:
  assumes c: "conc_inv w (add_mset (Destroying p g (j # js) k undo) M)" and rd: "destroy_ready w p g j k" and vis: "visited g j"
  shows "\<exists>w'. destroy_round p g j k w = Some (Suc k, w') \<and> conc_inv w' (add_mset (Destroying p g js (Suc k) undo) M)"
proof -
  have c': "conc_inv w M" and ap: "\<forall>y \<in># M. busy y \<noteq> Some p" using c by (auto simp: conc_inv_quiet)
  note l = conc_inv_lock[OF c']
  obtain dh us where h: "decider_handles w p = Some dh" "dh_guarded dh = g" "guarded_signos g = us @ j # filter (visited g) js"
    "k = length us" "\<forall>i < k. slot (decider_handles w) p i = None"
    using c vis by (auto simp: conc_inv_quiet)
  let ?H = "set_slot (decider_handles w) p k None"
  have one: "\<exists>w' G' D'. destroy_round p g j k w = Some (Suc k, w') \<and> reg_inv w' G' D' P N \<and> stays P N G G'
      \<and> lock w' = 0 \<and> install_handles w' = install_handles w \<and> decider_handles w' = ?H \<and> k < length (dh_slots dh)"
    if inv: "reg_inv w G D P N" for G D P N
  proof -
    have k: "k < length (dh_slots dh)" using inv h unfolding reg_inv_def home_inv_def by auto
    have safe: "b \<in> ran (signo_lookup (signo_to_sighandler_map w)) \<or> N n > 0"
      if "slot (decider_handles w) p k = Some n" "n \<in> set (G b)" for n b
      using destroy_ready_lists[OF inv that(1) vis] rd disjoint_listsD(2)[OF lists_inv_disjoint[OF reg_inv_lists[OF inv]] that(2)]
      by (auto simp: ran_def)
    obtain w' D' where r: "destroy_round p g j k w = Some (Suc k, w')" "outer_same w w'"
      "decider_handles w' = decider_handles w \<and> signo_lookup (signo_to_sighandler_map w) j = None \<or> decider_handles w' = ?H"
      "reg_inv (w'\<lparr>decider_handles := ?H\<rparr>) (without (slot_dead (decider_handles w) p k N) G) D' P N"
      using destroy_round_visit[where w = w and H = "decider_handles w" and G = G and D = D and P = P and N = N and g = g and j = j
          and p = p and dh = dh and k = k and dhH = dh] inv l vis h k safe by (auto simp: visited_def nth_append)
    have "decider_handles w' = ?H"
    proof (cases "slot (decider_handles w) p k")
      case None
      then show ?thesis using r(3) set_slot_None_idem[of "decider_handles w" p dh k] h(1) by auto
    next
      case (Some n)
      then show ?thesis using r(3) destroy_ready_lists[OF inv Some vis] rd by auto
    qed
    moreover have "reg_inv w' (without (slot_dead (decider_handles w) p k N) G) D' P N"
      using r(4) unfolding calculation[symmetric] by simp
    moreover have "stays P N G (without (slot_dead (decider_handles w) p k N) G)"
      by (auto simp: stays_def without_def slot_dead_def)
    ultimately show ?thesis using r(1,2) l k unfolding outer_same_def by metis
  qed
  obtain G D where "reg_inv w G D (pins M) (askers M)" using conc_inv_regs[OF c'] by blast
  then obtain w' where w': "destroy_round p g j k w = Some (Suc k, w')" "lock w' = 0" "install_handles w' = install_handles w"
    "decider_handles w' = ?H" "k < length (dh_slots dh)" using one by blast
  have others: "decider_handles w' x = decider_handles w x" if "x \<noteq> p" for x using that h(1) by (simp add: w'(4) set_slot_def)
  have "conc_inv w' M"
  proof (rule conc_inv_kept[OF c' w'(2)])
    show "\<exists>G' D'. reg_inv w' G' D' (pins M) (askers M) \<and> stays (pins M) (askers M) G G'" if "reg_inv w G D (pins M) (askers M)" for G D
      using one[OF that] w'(1) by auto
  qed (use w'(3) others ap in metis)
  moreover have "slot (decider_handles w') p i = None" if "i < Suc k" for i
    using that h(5) by (simp add: w'(4) slot_set_slot[of "decider_handles w" p dh k, OF h(1) w'(5)])
  then have "holds w' (Destroying p g js (Suc k) undo)"
    using h(1-4) exI[of "\<lambda>vs. guarded_signos g = vs @ filter (visited g) js \<and> Suc k = length vs" "us @ [j]"]
    by (auto simp: w'(4) set_slot_def)
  ultimately show ?thesis using w'(1) ap by (auto simp: conc_inv_quiet)
qed

lemma conc_inv_drop_handle:
  assumes c: "conc_inv w (add_mset (Destroying p g [] k undo) M)"
  shows "conc_inv (w\<lparr>decider_handles := (decider_handles w)(p := None)\<rparr>) M"
proof -
  have c': "conc_inv w M" and ap: "\<forall>y \<in># M. busy y \<noteq> Some p" using c by (auto simp: conc_inv_quiet)
  obtain dh where h: "decider_handles w p = Some dh" "dh_guarded dh = g" "k = length (guarded_signos g)"
    "\<forall>i < k. slot (decider_handles w) p i = None"
    using c by (auto simp: conc_inv_quiet)
  have "reg_inv (w\<lparr>decider_handles := (decider_handles w)(p := None)\<rparr>) G D P N" if inv: "reg_inv w G D P N" for G D P N
  proof -
    have "i < k" if "slot (decider_handles w) p i = Some n" for i n
      using inv h(1-3) that unfolding reg_inv_def home_inv_def by blast
    then have "slot (decider_handles w) p i = None" for i using h(4) by (metis not_None_eq)
    then show ?thesis using reg_inv_drop_handle[where w = w and H = "decider_handles w" and p = p] inv by simp
  qed
  then show ?thesis
    by (intro conc_inv_same_lists[OF c']) (use conc_inv_lock[OF c'] ap in auto)
qed

lemma proceed_destroying:
  assumes c: "conc_inv w (add_mset (Destroying p g js k undo) M)"
    and rd: "\<And>j js'. js = j # js' \<Longrightarrow> destroy_ready w p g j k"
  shows "\<exists>q w'. proceed (Destroying p g js k undo) w = Some (q, w') \<and> result_inv q w' M"
proof (cases js)
  case Nil
  obtain dh where "decider_handles w p = Some dh" using c by (auto simp: conc_inv_quiet)
  moreover have "conc_inv (w\<lparr>decider_handles := (decider_handles w)(p := None), errno := e\<rparr>) M" for e
    using conc_inv_drop_handle[OF c[unfolded Nil]]
      conc_inv_irrelevant[where w = "w\<lparr>decider_handles := (decider_handles w)(p := None)\<rparr>" and e = e] by simp
  ultimately show ?thesis using Nil conc_inv_drop_handle[OF c[unfolded Nil]]
    by (cases undo) (simp_all add: result_inv_def)
next
  case (Cons j js')
  note cj = c[unfolded Cons]
  have c': "conc_inv w M" and ap: "\<forall>y \<in># M. busy y \<noteq> Some p" using c by (auto simp: conc_inv_quiet)
  consider "skipped_signo j" | "\<not> skipped_signo j" "\<not> sigismember g j" | "\<not> skipped_signo j" "visited g j" by (auto simp: visited_def)
  then show ?thesis
  proof cases
    case 1
    then have "\<not> visited g j" by (simp add: visited_def)
    then show ?thesis using cj Cons 1 by (auto simp: result_inv_Inr conc_inv_quiet)
  next
    case 2
    then have nv: "\<not> visited g j" by (simp add: visited_def)
    obtain w' where w': "destroy_round p g j k w = Some (k, w')" "conc_inv w' M" "decider_handles w' = decider_handles w"
      using conc_inv_destroy_skip[OF c' 2(2)] by blast
    then show ?thesis using cj Cons 2 nv by (auto simp: result_inv_Inr conc_inv_quiet)
  next
    case 3
    then show ?thesis using conc_inv_destroy_one[OF cj rd[OF Cons] 3(2)] Cons by (auto simp: result_inv_Inr)
  qed
qed

lemma proceed_ok:
  assumes c: "conc_inv w (add_mset x M)" and x: "\<not> is_Deciding x"
    and rd: "\<And>a g j js k undo. x = Destroying a g (j # js) k undo \<Longrightarrow> destroy_ready w a g j k"
  shows "\<exists>q w'. proceed x w = Some (q, w') \<and> result_inv q w' M"
proof (cases x)
  case (Passing_On rc)
  then show ?thesis using conc_inv_pass_on[of w rc M] c by (auto simp: result_inv_def)
next
  case (Creating a g cf f v js k)
  then show ?thesis using proceed_creating c by blast
next
  case (Destroying a g js k undo)
  have "conc_inv w (add_mset (Destroying a g js k undo) M)" using c Destroying by simp
  then show ?thesis unfolding Destroying by (rule proceed_destroying) (use rd Destroying in simp)
next
  case (Installing a S ks)
  then show ?thesis using proceed_installing c by blast
next
  case (Rolling_Back a S ks e)
  then show ?thesis using proceed_rolling_back c by blast
next
  case (Uninstalling a S ks)
  then show ?thesis using proceed_uninstalling c by blast
qed (use x in simp)

lemma begin_create_ok:
  assumes c: "conc_inv w M" and al: "host_alloc w = (Some a, w')"
  shows "conc_inv (w'\<lparr>decider_handles := (decider_handles w')(a \<mapsto>
    \<lparr>dh_guarded = g, dh_slots = replicate (Suc (length (guarded_signos g))) None\<rparr>)\<rparr>)
    (add_mset (Creating a g cf f v [1..NSIG - 1] 0) M)"
proof -
  note c' = conc_inv_alloc[OF c al]
  note w' = host_alloc_Some[OF al]
  let ?w = "w'\<lparr>decider_handles := (decider_handles w')(a \<mapsto>
    \<lparr>dh_guarded = g, dh_slots = replicate (Suc (length (guarded_signos g))) None\<rparr>)\<rparr>"
  obtain G D where inv: "reg_inv w G D (pins M) (askers M)" using conc_inv_regs[OF c] by blast
  have a: "decider_handles w' a = None" "a < next_addr w'" "a = next_addr w" using w' reg_inv_fresh[OF inv] by simp_all
  have nb: "\<forall>y \<in># M. busy y \<noteq> Some a" using busy_live[OF c] a(3) by fastforce
  have "conc_inv ?w M"
    by (rule conc_inv_same_lists[OF c']) (use conc_inv_lock[OF c'] reg_inv_new_handle(1)[OF _ a(1,2)] nb in auto)
  moreover have "slot (decider_handles ?w) a i = None" for i
    using reg_inv_new_handle(2)[of w' _ _ _ _ a g a i] conc_inv_regs[OF c'] a by (auto simp: slot_def)
  then have "holds ?w (Creating a g cf f v [1..NSIG - 1] 0)"
    by (auto simp: guarded_signos_visited)
  ultimately show ?thesis using nb by (auto simp: conc_inv_quiet)
qed

lemma begin_install_ok:
  assumes c: "conc_inv w M" and al: "host_alloc w = (Some a, w')"
  shows "conc_inv (w'\<lparr>install_handles := (install_handles w')(a \<mapsto> S)\<rparr>) (add_mset (Installing a S [1..NSIG - 1]) M)"
proof -
  note w' = host_alloc_Some[OF al]
  have nb: "\<forall>y \<in># M. busy y \<noteq> Some a" using busy_live[OF c] w' by fastforce
  have "conc_inv (w'\<lparr>install_handles := (install_handles w')(a \<mapsto> S)\<rparr>) M"
    by (rule conc_inv_set_handle[OF conc_inv_alloc[OF c al] nb]) (simp add: w')
  moreover have "\<forall>k \<in> set [1..NSIG - 1]. signo_valid k" by auto
  ultimately show ?thesis using nb by (auto simp: conc_inv_quiet)
qed

lemma begin_ok:
  assumes c: "conc_inv w M"
    and ok: "\<And>sig info ctx. r = Req_Raise sig info ctx \<Longrightarrow> previous_callable w sig"
      "\<And>h. r = Req_Uninstall (Some h) \<Longrightarrow> install_handles w h \<noteq> None \<and> (\<forall>x \<in># M. busy x \<noteq> Some h)"
      "\<And>h. r = Req_Destroy (Some h) \<Longrightarrow> decider_handles w h \<noteq> None \<and> (\<forall>x \<in># M. busy x \<noteq> Some h)"
  shows "\<exists>q w'. begin_call r w = Some (q, w') \<and> result_inv q w' M"
proof (cases r)
  case (Req_Raise sig info ctx)
  then obtain q w' where "raise_enter sig info ctx w = Some (q, w')" "conc_inv w' (M + pend q)"
    using raise_enter_ok[OF c ok(1), of sig info ctx] by blast
  then show ?thesis using Req_Raise by (auto simp: result_inv_def union_commute)
next
  case (Req_Install internal g)
  then show ?thesis using begin_install_ok[OF c] conc_inv_alloc[OF c]
    by (cases "host_alloc w"; cases "fst (host_alloc w)") (auto simp: result_inv_def Let_def)
next
  case (Req_Uninstall h)
  then show ?thesis using c ok(2)[of "the h"] by (cases h) (force simp: result_inv_def conc_inv_quiet)+
next
  case (Req_Create g cf f v)
  then show ?thesis using begin_create_ok[OF c] conc_inv_alloc[OF c] c
    by (cases g; cases "host_alloc w"; cases "fst (host_alloc w)") (auto simp: result_inv_def Let_def)
next
  case (Req_Destroy h)
  then show ?thesis using c ok(3)[of "the h"] by (cases h) (force simp: result_inv_def conc_inv_quiet guarded_signos_visited)+
qed

lemma mset_in_progress:
  assumes "i < length ts"
  shows "mset (concat (map activities (ts[i := t]))) + mset (activities (ts ! i)) = mset (concat (map activities ts)) + mset (activities t)"
proof -
  have e: "concat (map activities ts) = concat (map activities (take i ts)) @ activities (ts ! i) @ concat (map activities (drop (Suc i) ts))"
    using arg_cong[OF id_take_nth_drop[OF assms], of "\<lambda>l. concat (map activities l)"] by simp
  show ?thesis unfolding e upd_conv_take_nth_drop[OF assms] by (simp add: ac_simps)
qed


lemma previous_callable_errno [simp]: "previous_callable (w\<lparr>errno := e\<rparr>) sig = previous_callable w sig"
  by (simp add: previous_callable_def split: option.split)

lemma destroy_ready_errno:
  assumes c: "conc_inv w M"
  shows "destroy_ready (w\<lparr>errno := e\<rparr>) p g j k = destroy_ready w p g j k"
proof (cases "slot (decider_handles w) p k")
  case None
  then show ?thesis by (simp add: destroy_ready_def)
next
  case (Some n)
  obtain G D where inv: "reg_inv w G D (pins M) (askers M)" using conc_inv_regs[OF c] by blast
  show ?thesis
  proof (cases "visited g j")
    case True
    then show ?thesis
      using destroy_ready_lists[OF inv Some True] destroy_ready_lists[of "w\<lparr>errno := e\<rparr>" G D "pins M" "askers M" p k n g j] inv Some by simp
  qed (simp add: destroy_ready_def)
qed

lemma allowed_BeginD:
  assumes "allowed (Begin r) xs p"
  shows "r = Req_Raise sig info ctx \<Longrightarrow> previous_callable (mem p) sig"
    "r = Req_Uninstall (Some h) \<Longrightarrow> install_handles (mem p) h \<noteq> None \<and> (\<forall>x \<in> set (in_progress p). busy x \<noteq> Some h)"
    "r = Req_Destroy (Some h) \<Longrightarrow> decider_handles (mem p) h \<noteq> None \<and> (\<forall>x \<in> set (in_progress p). busy x \<noteq> Some h)"
  using assms by force+

lemma allowed_ContinueD:
  assumes "allowed Continue xs p"
  obtains x ys where "xs = x # ys" "\<not> is_Deciding x"
    "\<And>a g j js k undo. x = Destroying a g (j # js) k undo \<Longrightarrow> destroy_ready (mem p) a g j k"
  using assms by (cases "(Continue, xs, p)" rule: allowed.cases) auto

lemma run_move_ok:
  assumes c: "conc_inv w (mset xs + M)" and w: "w = (mem p)\<lparr>errno := e\<rparr>" and M: "mset (in_progress p) = mset xs + M"
    and al: "allowed mv xs p"
  shows "\<exists>q ys w'. run_move mv xs w = Some (q, ys, w') \<and> result_inv q w' (mset ys + M)"
proof (cases mv)
  case (Begin r)
  note al' = allowed_BeginD[OF al[unfolded Begin]]
  have "set (in_progress p) = set_mset (mset xs + M)" using M by (metis set_mset_mset)
  then have "\<exists>q w'. begin_call r w = Some (q, w') \<and> result_inv q w' (mset xs + M)"
    using al' by (intro begin_ok[OF c]) (auto simp: w)
  then show ?thesis using Begin by auto
next
  case (Answer res rsi)
  then obtain rc n f ys where xs: "xs = Deciding rc n f # ys"
    using al by (cases "(mv, xs, p)" rule: allowed.cases) auto
  then obtain q w' where "raise_answer rc n res rsi w = Some (q, w')" "conc_inv w' (mset ys + M + pend q)"
    using raise_answer_ok[of w rc n f "mset ys + M" res rsi] c by auto
  then show ?thesis using Answer xs by (auto simp: result_inv_def ac_simps)
next
  case Continue
  obtain x ys where xs: "xs = x # ys" "\<not> is_Deciding x"
    "\<And>a g j js k undo. x = Destroying a g (j # js) k undo \<Longrightarrow> destroy_ready w a g j k"
    using allowed_ContinueD[OF al[unfolded Continue]] destroy_ready_errno[of "mem p" "mset xs + M" e] c by (auto simp: w)
  then obtain q w' where "proceed x w = Some (q, w')" "result_inv q w' (mset ys + M)"
    using proceed_ok[of w x "mset ys + M"] c by auto
  then show ?thesis using Continue xs(1) by auto
qed

lemma step_thread_ok:
  assumes c: "conc_inv (mem p) (mset (in_progress p))" and en: "enabled i mv p"
  shows "\<exists>p'. step_thread i mv p = Some p' \<and> (alive p' \<longrightarrow> conc_inv (mem p') (mset (in_progress p')))"
proof -
  let ?t = "lib_threads p ! i"
  have i: "i < length (lib_threads p)" and al: "allowed mv (activities ?t) p" using en by (simp_all add: enabled_def)
  have "activities ?t \<in> set (map activities (lib_threads p))" using i by simp
  define M where "M = mset (in_progress p) - mset (activities ?t)"
  have M: "mset (in_progress p) = mset (activities ?t) + M"
  proof -
    have "mset (activities ?t) \<subseteq># mset (in_progress p)"
      using mset_in_progress[OF i, of "\<lparr>activities = [], t_errno = 0\<rparr>"] unfolding in_progress_def
      by (metis mset_subset_eq_add_right add.right_neutral lib_thread.select_convs(1) mset.simps(1))
    then show ?thesis by (simp add: M_def)
  qed
  obtain q ys w' where r: "run_move mv (activities ?t) ((mem p)\<lparr>errno := t_errno ?t\<rparr>) = Some (q, ys, w')" "result_inv q w' (mset ys + M)"
    using run_move_ok[OF _ refl M al, of "t_errno ?t"] c M by auto
  define p' where "p' = \<lparr>mem = w', lib_threads = (lib_threads p)[i := \<lparr>activities = pending q @ ys, t_errno = errno w'\<rparr>],
    alive = (q \<noteq> Inl (R_Raise Terminated))\<rparr>"
  have "mset (in_progress p') + mset (activities ?t) = mset (activities ?t) + M + mset (pending q @ ys)"
    using mset_in_progress[OF i, of "\<lparr>activities = pending q @ ys, t_errno = errno w'\<rparr>"] M
    by (simp add: in_progress_def p'_def)
  then have ip: "mset (in_progress p') = pend q + (mset ys + M)"
    by (simp add: ac_simps)
  have "alive p' \<longrightarrow> conc_inv (mem p') (mset (in_progress p'))"
    using r(2) unfolding result_inv_def ip by (simp add: p'_def)
  moreover have "step_thread i mv p = Some p'" using r(1) by (simp add: step_thread_def Let_def p'_def)
  ultimately show ?thesis by blast
qed

lemma interleaved_inv: "interleaved p \<Longrightarrow> alive p \<Longrightarrow> conc_inv (mem p) (mset (in_progress p))"
proof (induction rule: interleaved.induct)
  case (start_threads w n)
  obtain G D where "lock w = 0" "reg_inv w G D (\<lambda>_. 0) (\<lambda>_. 0)"
    using reachable_rel[OF start_threads(1)] by (auto simp: registry_rel_def)
  moreover have "pins {#} = (\<lambda>_. 0)" "askers {#} = (\<lambda>_. 0)" by (simp_all add: pins_def askers_def fun_eq_iff)
  moreover have "in_progress (idle_process n w) = []" by (simp add: in_progress_def idle_process_def)
  moreover have "apart {#}" by (simp add: apart_def)
  ultimately show ?case by (auto simp: conc_inv_def idle_process_def)
next
  case (step_one p i mv p')
  then have "alive p" by (simp add: enabled_def)
  then show ?case using step_thread_ok[OF step_one.IH step_one.hyps(2)] step_one by auto
qed

section \<open>Safety of every interleaving\<close>

text \<open>
  C4 (safety). In every interleaving of any number of threads that raise, install, uninstall,
  create and destroy, also from within deciders, every section that may run returns: no freed or null
  object is dereferenced, nothing is freed twice, no assertion fails, the lock is not taken
  twice, and it is free again after the section, unless the default action has ended the process.
  Rounds of a destruction for which \<open>destroy_ready\<close> does not hold are not covered.
\<close>

theorem interleaved_calls_safe:
  assumes "interleaved p" "enabled i mv p"
  shows "\<exists>p'. step_thread i mv p = Some p' \<and> (alive p' \<longrightarrow> lock (mem p') = 0)"
proof -
  have "alive p" using assms(2) by (simp add: enabled_def)
  then show ?thesis using step_thread_ok[OF interleaved_inv[OF assms(1)] assms(2)] conc_inv_lock by blast
qed

text \<open>
  C5 (invariant). Between the sections of any interleaving: the container and the node of every raise that is
  inside a decider are allocated; the reference count of a container is the number of raises inside
  its deciders, plus one while its signal is installed; that of a node is the number of raises in
  its decider, plus one while a handle owns it; and when no call is in progress the registry is as
  consistent as after a sequence of calls, with no reference left behind.
\<close>

theorem interleaved_references:
  assumes "interleaved p" "alive p"
  shows "(\<forall>rc n f. Deciding rc n f \<in> set (in_progress p) \<longrightarrow> (\<exists>a m ci d. rc_item rc = Some a \<and> n = Some m
        \<and> infos (mem p) a = Some ci \<and> nodes (mem p) m = Some d))
    \<and> (\<forall>a ci. infos (mem p) a = Some ci \<longrightarrow> lifetime_refcount ci =
        of_bool (\<exists>k. signo_lookup (signo_to_sighandler_map (mem p)) k = Some a)
        + int (length (filter (\<lambda>x. act_item x = Some a) (in_progress p))))
    \<and> (\<forall>n d. nodes (mem p) n = Some d \<longrightarrow> refcount d = of_bool (owned (decider_handles (mem p)) n)
        + int (length (filter (\<lambda>x. act_node x = Some n) (in_progress p))))
    \<and> (in_progress p = [] \<longrightarrow> (\<exists>s. registry_rel (mem p) s))"
proof -
  let ?M = "mset (in_progress p)"
  have pn: "pins ?M a = length (filter (\<lambda>x. act_item x = Some a) (in_progress p))"
    "askers ?M a = length (filter (\<lambda>x. act_node x = Some a) (in_progress p))" for a
    unfolding pins_def askers_def by (simp_all flip: mset_filter)
  obtain G D where c: "lock (mem p) = 0" "reg_inv (mem p) G D (pins ?M) (askers ?M)" "\<forall>x \<in> set (in_progress p). placed G x"
    using interleaved_inv[OF assms] by (auto simp: conc_inv_def)
  have "\<exists>a m ci d. rc_item rc = Some a \<and> n = Some m \<and> infos (mem p) a = Some ci \<and> nodes (mem p) m = Some d"
    if d: "Deciding rc n f \<in> set (in_progress p)" for rc n f
  proof -
    obtain a m where "rc_item rc = Some a" "n = Some m" "m \<in> set (G a)" using c(3) d by fastforce
    then show ?thesis using lists_inv_live[OF reg_inv_lists[OF c(2)], of m a] by auto
  qed
  moreover have "lifetime_refcount ci = of_bool (\<exists>k. signo_lookup (signo_to_sighandler_map (mem p)) k = Some a)
        + int (length (filter (\<lambda>x. act_item x = Some a) (in_progress p)))" if "infos (mem p) a = Some ci" for a ci
    using reg_inv_life(1)[OF c(2) that] by (simp add: pn ran_def)
  moreover have "refcount d = of_bool (owned (decider_handles (mem p)) n) + int (length (filter (\<lambda>x. act_node x = Some n) (in_progress p)))"
    if "nodes (mem p) n = Some d" for n d
    using c(2) that by (auto simp: reg_inv_def own_inv_def pn)
  moreover have "\<exists>s. registry_rel (mem p) s" if "in_progress p = []"
  proof -
    have "pins ?M = (\<lambda>_. 0)" "askers ?M = (\<lambda>_. 0)" using that by (simp_all add: pins_def askers_def fun_eq_iff)
    then show ?thesis using c(1,2) by (auto simp: registry_rel_def)
  qed
  ultimately show ?thesis by blast
qed


lemma callable_code [code]:
  "callable sa = (case sa_handler sa of User_Handler f \<Rightarrow> True | Raw_Signal_Handler \<Rightarrow> False
     | _ \<Rightarrow> sa_flags sa AND SA_SIGINFO = 0)"
  by (auto simp: callable_def split: sa_handler_t.split)

lemma reachable_usr1_decider_world: "reachable usr1_decider_world"
proof -
  have "signal_decider_create (Some {10}) False (Some 7) 42 usr1_world = Some (Some 3, usr1_decider_world)"
    using usr1_decider_created by (auto simp: usr1_decider_world_def)
  then have "run_call (Call_Create (Some {10}) False (Some 7) 42) usr1_world = Some (True, usr1_decider_world)" by simp
  then show ?thesis using reachable.step[OF reachable_usr1_world, of "Call_Create (Some {10}) False (Some 7) 42"] by simp
qed

section \<open>A raise overtaken by an uninstall\<close>

text \<open>
  Two threads: the first one raises SIGUSR1 and is in the decider when the second one starts to
  uninstall the handle that installed the signal.
\<close>

fun run_moves :: "(nat \<times> move) list \<Rightarrow> process \<Rightarrow> process option" where
  "run_moves [] p = Some p"
| "run_moves ((i, mv) # ms) p = do { assert_that (enabled i mv p); p \<leftarrow> step_thread i mv p; run_moves ms p }"

lemma run_moves_interleaved: "run_moves ms p = Some p' \<Longrightarrow> interleaved p \<Longrightarrow> interleaved p'"
  by (induction ms p rule: run_moves.induct) (auto simp: bind_eq_Some_conv intro: step_one)

definition raise_then_uninstall :: "(nat \<times> move) list" where
  "raise_then_uninstall = (0, Begin (Req_Raise 10 None None)) # (1, Begin (Req_Uninstall (Some 1))) # replicate 10 (1, Continue)"

definition overtaken :: process where
  "overtaken = the (run_moves raise_then_uninstall (idle_process 2 usr1_decider_world))"

lemma overtaken_runs: "run_moves raise_then_uninstall (idle_process 2 usr1_decider_world) \<noteq> None"
  by code_simp

lemma overtaken_interleaved: "interleaved overtaken"
  using run_moves_interleaved[OF _ start_threads[OF reachable_usr1_decider_world]] overtaken_runs
  by (auto simp: overtaken_def)

theorem interleaved_calls_safe_witness:
  "enabled 0 (Answer sig_decision_next_decider rsi_uninit) overtaken
   \<and> (\<exists>p'. step_thread 0 (Answer sig_decision_next_decider rsi_uninit) overtaken = Some p' \<and> (alive p' \<longrightarrow> lock (mem p') = 0))"
proof -
  have "enabled 0 (Answer sig_decision_next_decider rsi_uninit) overtaken" by code_simp
  with interleaved_calls_safe[OF overtaken_interleaved this] show ?thesis by simp
qed

theorem interleaved_references_witness:
  "\<exists>ci. infos (mem overtaken) 2 = Some ci \<and> lifetime_refcount ci = 1 \<and> signo_lookup (signo_to_sighandler_map (mem overtaken)) 10 = None"
proof -
  have a: "alive overtaken" "infos (mem overtaken) 2 \<noteq> None" "length (filter (\<lambda>x. act_item x = Some 2) (in_progress overtaken)) = 1"
    "list_all (\<lambda>k. signo_lookup (signo_to_sighandler_map (mem overtaken)) k \<noteq> Some 2) [0..NSIG - 1]"
    "signo_lookup (signo_to_sighandler_map (mem overtaken)) 10 = None"
    by code_simp+
  have "signo_lookup (signo_to_sighandler_map (mem overtaken)) k \<noteq> Some 2" for k
    using a(4) signo_lookup_valid[of _ k 2] by (auto simp: list_all_iff)
  then show ?thesis
    using interleaved_references[OF overtaken_interleaved a(1)] a(2,3,5) by auto
qed

end
