(* ===== verification/Verstable.thy ===== *)
theory Verstable
  imports Signals_Prelude
begin

unbundle bit_operations_syntax

text \<open>
  The hash table of \<^verbatim>\<open>detail/impl/verstable.h\<close>, which maps thread ids to thread-local
  values, and signal numbers to containers where \<^verbatim>\<open>NSIG >= 1024\<close>. Buckets and metadata are
  the two arrays of the allocation: a bucket that was never written is \<^term>\<open>None\<close>, the
  metadata carry four excess elements, and with no buckets they are the one-element
  placeholder. Reading or writing outside an array, or reading an unwritten bucket, is a
  fault. The template's \<^verbatim>\<open>HASH_FN\<close> is an argument; its \<^verbatim>\<open>CMPR_FN\<close> is equality, as in
  both instances of the library, and neither has destructors or a context.
\<close>

section \<open>Metadata\<close>

definition VT_EMPTY :: "16 word" where "VT_EMPTY = 0x0000"
definition VT_HASH_FRAG_MASK :: "16 word" where "VT_HASH_FRAG_MASK = 0xF000"
definition VT_IN_HOME_BUCKET_MASK :: "16 word" where "VT_IN_HOME_BUCKET_MASK = 0x0800"
definition VT_DISPLACEMENT_MASK :: "16 word" where "VT_DISPLACEMENT_MASK = 0x07FF"

definition vt_hashfrag :: "64 word \<Rightarrow> 16 word" where
  "vt_hashfrag hash = ucast (drop_bit 48 hash) AND VT_HASH_FRAG_MASK"

text \<open>The displacement is a \<^verbatim>\<open>uint16_t\<close>; the sum stays far below the range of \<^verbatim>\<open>size_t\<close>.\<close>

definition vt_quadratic :: "16 word \<Rightarrow> nat" where
  "vt_quadratic displacement = (unat displacement * unat displacement + unat displacement) div 2"

definition VT_MIN_NONZERO_BUCKET_COUNT :: nat where "VT_MIN_NONZERO_BUCKET_COUNT = 8"
definition SIZE_MAX :: "64 word" where "SIZE_MAX = - 1"

text \<open>The portable form, on the four 16-bit elements of the 64-bit value in memory order.\<close>

definition vt_first_nonzero_uint16 :: "16 word list \<Rightarrow> nat" where
  "vt_first_nonzero_uint16 val =
     (let result = (if val ! 0 = 0 \<and> val ! 1 = 0 then 2 else 0)
      in if val ! result = 0 then result + 1 else result)"

text \<open>
  The forms with compiler intrinsics, on the 64-bit value, by the byte order of the machine:
  \<^verbatim>\<open>__builtin_ctzll\<close> and \<^verbatim>\<open>_BitScanForward64\<close> find the lowest one bit, \<^verbatim>\<open>__builtin_clzll\<close> and
  \<^verbatim>\<open>_BitScanReverse64\<close> the highest; at zero all of them give nothing.
\<close>

function ctz_from :: "64 word \<Rightarrow> nat \<Rightarrow> nat option" where
  "ctz_from val n = (if n < 64 then if bit val n then Some n else ctz_from val (n + 1) else None)"
  by pat_completeness auto
termination by (relation "measure (\<lambda>(val, n). 64 - n)") auto

declare ctz_from.simps [simp del]

fun highest_below :: "64 word \<Rightarrow> nat \<Rightarrow> nat option" where
  "highest_below val 0 = None"
| "highest_below val (Suc n) = (if bit val n then Some n else highest_below val n)"

definition vt_first_nonzero_uint16_gnuc :: "bool \<Rightarrow> 64 word \<Rightarrow> nat option" where
  "vt_first_nonzero_uint16_gnuc little_endian val =
     (if little_endian then map_option (\<lambda>ctz. ctz div 16) (ctz_from val 0)
      else map_option (\<lambda>n. (63 - n) div 16) (highest_below val 64))"

definition vt_first_nonzero_uint16_msvc :: "bool \<Rightarrow> 64 word \<Rightarrow> nat option" where
  "vt_first_nonzero_uint16_msvc little_endian val = do {
     result \<leftarrow> (if little_endian then ctz_from val 0
       else do { result \<leftarrow> highest_below val 64; Some (63 - result) });
     Some (result div 16)
   }"

definition vt_hash_integer :: "64 word \<Rightarrow> 64 word" where
  "vt_hash_integer key =
     (let key = key XOR drop_bit 23 key;
          key = key * 0x2127599bf4325c37
      in key XOR drop_bit 47 key)"

definition vt_cmpr_integer :: "64 word \<Rightarrow> 64 word \<Rightarrow> bool" where
  "vt_cmpr_integer key_1 key_2 \<longleftrightarrow> key_1 = key_2"

text \<open>Strings are given by their characters before the terminating null.\<close>

fun hash_string_from :: "64 word \<Rightarrow> 8 word list \<Rightarrow> 64 word" where
  "hash_string_from hash [] = hash"
| "hash_string_from hash (c # cs) = hash_string_from ((ucast c XOR hash) * 0x100000001b3) cs"

definition vt_hash_string :: "8 word list \<Rightarrow> 64 word" where
  "vt_hash_string key = hash_string_from 0xcbf29ce484222325 key"

definition vt_cmpr_string :: "8 word list \<Rightarrow> 8 word list \<Rightarrow> bool" where
  "vt_cmpr_string key_1 key_2 \<longleftrightarrow> key_1 = key_2"

section \<open>Tables and iterators\<close>

record ('k, 'v) vt_table =
  key_count :: nat
  buckets_mask :: nat
  buckets :: "('k \<times> 'v) option list"
  metadata :: "16 word list"

text \<open>Pointers into the two arrays are indices; the null pointer is \<^term>\<open>None\<close>.\<close>

record vt_itr =
  data :: "nat option"
  metadatum :: "nat option"
  metadata_end :: "nat option"
  home_bucket :: "64 word"

text \<open>
  The allocator: the outcome of the coming allocations (an exhausted plan means that they
  all succeed) and the number of live allocations.
\<close>

record vt_heap =
  plan :: "bool list"
  live :: int

definition MALLOC_FN :: "vt_heap \<Rightarrow> bool \<times> vt_heap" where
  "MALLOC_FN a =
     (if plan a = [] \<or> hd (plan a) then (True, a\<lparr>plan := tl (plan a), live := live a + 1\<rparr>)
      else (False, a\<lparr>plan := tl (plan a)\<rparr>))"

definition FREE_FN :: "vt_heap \<Rightarrow> vt_heap" where
  "FREE_FN a = a\<lparr>live := live a - 1\<rparr>"

definition rd :: "'a list \<Rightarrow> nat \<Rightarrow> 'a option" where
  "rd xs i = (if i < length xs then Some (xs ! i) else None)"

definition bucket_at :: "('k, 'v) vt_table \<Rightarrow> nat \<Rightarrow> ('k \<times> 'v) option" where
  "bucket_at t i = do { b \<leftarrow> rd (buckets t) i; b }"

definition set_metadatum :: "nat \<Rightarrow> 16 word \<Rightarrow> ('k, 'v) vt_table \<Rightarrow> ('k, 'v) vt_table option" where
  "set_metadatum i v t = do {
     assert_that (i < length (metadata t));
     Some (t\<lparr>metadata := (metadata t)[i := v]\<rparr>)
   }"

definition set_bucket :: "nat \<Rightarrow> 'k \<times> 'v \<Rightarrow> ('k, 'v) vt_table \<Rightarrow> ('k, 'v) vt_table option" where
  "set_bucket i b t = do {
     assert_that (i < length (buckets t));
     Some (t\<lparr>buckets := (buckets t)[i := Some b]\<rparr>)
   }"

definition vt_init :: "('k, 'v) vt_table" where
  "vt_init = \<lparr>key_count = 0, buckets_mask = 0, buckets = [], metadata = [VT_EMPTY]\<rparr>"

definition vt_metadata_offset :: "nat \<Rightarrow> ('k, 'v) vt_table \<Rightarrow> nat" where
  "vt_metadata_offset sizeof_bucket t = ((buckets_mask t + 1) * sizeof_bucket + 2 - 1) div 2 * 2"

definition vt_total_alloc_size :: "nat \<Rightarrow> ('k, 'v) vt_table \<Rightarrow> nat" where
  "vt_total_alloc_size sizeof_bucket t =
     vt_metadata_offset sizeof_bucket t + (buckets_mask t + 1 + 4) * 2"

definition vt_init_clone :: "('k, 'v) vt_table \<Rightarrow> vt_heap \<Rightarrow> bool \<times> ('k, 'v) vt_table option \<times> vt_heap" where
  "vt_init_clone source a =
     (if buckets_mask source = 0
      then (True, Some \<lparr>key_count = key_count source, buckets_mask = 0, buckets = [], metadata = [VT_EMPTY]\<rparr>, a)
      else (case MALLOC_FN a of
          (False, a) \<Rightarrow> (False, None, a)
        | (True, a) \<Rightarrow> (True, Some \<lparr>key_count = key_count source, buckets_mask = buckets_mask source,
            buckets = buckets source, metadata = metadata source\<rparr>, a)))"

definition vt_size :: "('k, 'v) vt_table \<Rightarrow> nat" where
  "vt_size t = key_count t"

definition vt_bucket_count :: "('k, 'v) vt_table \<Rightarrow> nat" where
  "vt_bucket_count t = buckets_mask t + (if buckets_mask t \<noteq> 0 then 1 else 0)"

definition vt_is_end :: "vt_itr \<Rightarrow> bool" where
  "vt_is_end itr \<longleftrightarrow> metadatum itr = metadata_end itr"

definition vt_end_itr :: vt_itr where
  "vt_end_itr = \<lparr>data = None, metadatum = None, metadata_end = None, home_bucket = 0\<rparr>"

definition itr_to :: "('k, 'v) vt_table \<Rightarrow> nat \<Rightarrow> nat \<Rightarrow> vt_itr" where
  "itr_to t bucket home =
     \<lparr>data = Some bucket, metadatum = Some bucket, metadata_end = Some (buckets_mask t + 1), home_bucket = of_nat home\<rparr>"

text \<open>
  The test \<^verbatim>\<open>n > count * MAX_LOAD\<close> with \<^verbatim>\<open>MAX_LOAD\<close> 0.9. The counts are powers of two, so
  the product is exact up to the rounding of 0.9 itself, which is far smaller than the distance
  of 0.9 times a power of two from the next integer: the comparison is the one on integers.
\<close>

definition exceeds_max_load :: "nat \<Rightarrow> nat \<Rightarrow> bool" where
  "exceeds_max_load n count \<longleftrightarrow> 10 * n > 9 * count"

section \<open>Searching for room\<close>

definition displacement_at :: "('k, 'v) vt_table \<Rightarrow> nat \<Rightarrow> 16 word option" where
  "displacement_at t i = do { m \<leftarrow> rd (metadata t) i; Some (m AND VT_DISPLACEMENT_MASK) }"

partial_function (option) find_first_empty_from ::
  "('k, 'v) vt_table \<Rightarrow> nat \<Rightarrow> 16 word \<Rightarrow> nat \<Rightarrow> (nat \<times> 16 word) option option" where
  "find_first_empty_from t home displacement linear_displacement = do {
     let empty_bucket = (home + linear_displacement) AND buckets_mask t;
     m \<leftarrow> rd (metadata t) empty_bucket;
     (if m = VT_EMPTY then Some (Some (empty_bucket, displacement))
      else (let displacement = displacement + 1
            in if displacement = VT_DISPLACEMENT_MASK then Some None
            else find_first_empty_from t home displacement (linear_displacement + unat displacement)))
   }"

definition vt_find_first_empty :: "('k, 'v) vt_table \<Rightarrow> nat \<Rightarrow> (nat \<times> 16 word) option option" where
  "vt_find_first_empty t home = find_first_empty_from t home 1 1"

partial_function (option) find_insert_location_from ::
  "('k, 'v) vt_table \<Rightarrow> nat \<Rightarrow> 16 word \<Rightarrow> nat \<Rightarrow> nat option" where
  "find_insert_location_from t home displacement_to_empty candidate = do {
     displacement \<leftarrow> displacement_at t candidate;
     (if displacement > displacement_to_empty then Some candidate
      else find_insert_location_from t home displacement_to_empty
        ((home + vt_quadratic displacement) AND buckets_mask t))
   }"

definition vt_find_insert_location_in_chain :: "('k, 'v) vt_table \<Rightarrow> nat \<Rightarrow> 16 word \<Rightarrow> nat option" where
  "vt_find_insert_location_in_chain t home displacement_to_empty =
     find_insert_location_from t home displacement_to_empty home"

text \<open>The loop that \<^verbatim>\<open>_evict\<close> and case 2 of \<^verbatim>\<open>_erase_itr_raw\<close> share: the key before \<open>bucket\<close>.\<close>

partial_function (option) find_prev_from :: "('k, 'v) vt_table \<Rightarrow> nat \<Rightarrow> nat \<Rightarrow> nat \<Rightarrow> nat option" where
  "find_prev_from t home bucket prev = do {
     displacement \<leftarrow> displacement_at t prev;
     let next_bucket = (home + vt_quadratic displacement) AND buckets_mask t;
     (if next_bucket = bucket then Some prev else find_prev_from t home bucket next_bucket)
   }"

definition with_displacement :: "16 word \<Rightarrow> 16 word \<Rightarrow> 16 word" where
  "with_displacement m d = (m AND NOT VT_DISPLACEMENT_MASK) OR d"

definition home_of :: "('k \<Rightarrow> 64 word) \<Rightarrow> ('k, 'v) vt_table \<Rightarrow> 'k \<Rightarrow> nat" where
  "home_of HASH_FN t key = unat (HASH_FN key AND of_nat (buckets_mask t))"

definition vt_evict ::
  "('k \<Rightarrow> 64 word) \<Rightarrow> nat \<Rightarrow> ('k, 'v) vt_table \<Rightarrow> (bool \<times> ('k, 'v) vt_table) option" where
  "vt_evict HASH_FN bucket t = do {
     b \<leftarrow> bucket_at t bucket;
     let home = home_of HASH_FN t (fst b);
     prev \<leftarrow> find_prev_from t home bucket home;
     mp \<leftarrow> rd (metadata t) prev;
     mb \<leftarrow> rd (metadata t) bucket;
     t \<leftarrow> set_metadatum prev (with_displacement mp (mb AND VT_DISPLACEMENT_MASK)) t;
     found \<leftarrow> vt_find_first_empty t home;
     (case found of
        None \<Rightarrow> Some (False, t)
      | Some (empty_bucket, displacement) \<Rightarrow> do {
          prev \<leftarrow> vt_find_insert_location_in_chain t home displacement;
          t \<leftarrow> set_bucket empty_bucket b t;
          mb \<leftarrow> rd (metadata t) bucket;
          mp \<leftarrow> rd (metadata t) prev;
          t \<leftarrow> set_metadatum empty_bucket ((mb AND VT_HASH_FRAG_MASK) OR (mp AND VT_DISPLACEMENT_MASK)) t;
          mp \<leftarrow> rd (metadata t) prev;
          t \<leftarrow> set_metadatum prev (with_displacement mp displacement) t;
          Some (True, t)
        })
   }"

section \<open>Inserting\<close>

text \<open>The search of the existing chain: the bucket with the key, or nothing at the end.\<close>

partial_function (option) chain_lookup ::
  "('k, 'v) vt_table \<Rightarrow> 'k \<Rightarrow> 16 word \<Rightarrow> nat \<Rightarrow> nat \<Rightarrow> nat option option" where
  "chain_lookup t key hashfrag home bucket = do {
     m \<leftarrow> rd (metadata t) bucket;
     hit \<leftarrow> (if m AND VT_HASH_FRAG_MASK = hashfrag
       then do { b \<leftarrow> bucket_at t bucket; Some (fst b = key) }
       else Some False);
     (if hit then Some (Some bucket)
      else (let displacement = m AND VT_DISPLACEMENT_MASK
            in if displacement = VT_DISPLACEMENT_MASK then Some None
            else chain_lookup t key hashfrag home
              ((home + vt_quadratic displacement) AND buckets_mask t)))
   }"

definition vt_insert_raw ::
  "('k \<Rightarrow> 64 word) \<Rightarrow> 'k \<Rightarrow> 'v \<Rightarrow> bool \<Rightarrow> bool \<Rightarrow> ('k, 'v) vt_table \<Rightarrow> (vt_itr \<times> ('k, 'v) vt_table) option" where
  "vt_insert_raw HASH_FN key val unique replace t = do {
     let hashfrag = vt_hashfrag (HASH_FN key);
     let home = home_of HASH_FN t key;
     m \<leftarrow> rd (metadata t) home;
     (if m AND VT_IN_HOME_BUCKET_MASK = 0
      then if exceeds_max_load (key_count t + 1) (vt_bucket_count t) then Some (vt_end_itr, t)
      else do {
        (ok, t) \<leftarrow> (if m \<noteq> VT_EMPTY then vt_evict HASH_FN home t else Some (True, t));
        (if \<not> ok then Some (vt_end_itr, t)
         else do {
           t \<leftarrow> set_bucket home (key, val) t;
           t \<leftarrow> set_metadatum home (hashfrag OR VT_IN_HOME_BUCKET_MASK OR VT_DISPLACEMENT_MASK) t;
           let t = t\<lparr>key_count := key_count t + 1\<rparr>;
           Some (itr_to t home home, t)
         })
      }
      else do {
        existing \<leftarrow> (if unique then Some None else chain_lookup t key hashfrag home home);
        (case existing of
           Some bucket \<Rightarrow> do {
             t \<leftarrow> (if replace then set_bucket bucket (key, val) t else Some t);
             Some (itr_to t bucket home, t)
           }
         | None \<Rightarrow>
             if exceeds_max_load (key_count t + 1) (vt_bucket_count t) then Some (vt_end_itr, t)
             else do {
               found \<leftarrow> vt_find_first_empty t home;
               (case found of
                  None \<Rightarrow> Some (vt_end_itr, t)
                | Some (empty_bucket, displacement) \<Rightarrow> do {
                    prev \<leftarrow> vt_find_insert_location_in_chain t home displacement;
                    t \<leftarrow> set_bucket empty_bucket (key, val) t;
                    mp \<leftarrow> rd (metadata t) prev;
                    t \<leftarrow> set_metadatum empty_bucket (hashfrag OR (mp AND VT_DISPLACEMENT_MASK)) t;
                    mp \<leftarrow> rd (metadata t) prev;
                    t \<leftarrow> set_metadatum prev (with_displacement mp displacement) t;
                    let t = t\<lparr>key_count := key_count t + 1\<rparr>;
                    Some (itr_to t empty_bucket home, t)
                  })
             })
      })
   }"

text \<open>The copying loop of \<^verbatim>\<open>_rehash\<close>: it stops at the first key that finds no place.\<close>

fun reinsert_from ::
  "('k \<Rightarrow> 64 word) \<Rightarrow> ('k, 'v) vt_table \<Rightarrow> nat list \<Rightarrow> ('k, 'v) vt_table \<Rightarrow> ('k, 'v) vt_table option" where
  "reinsert_from HASH_FN t [] new_table = Some new_table"
| "reinsert_from HASH_FN t (bucket # rest) new_table = do {
     m \<leftarrow> rd (metadata t) bucket;
     (if m \<noteq> VT_EMPTY
      then do {
        b \<leftarrow> bucket_at t bucket;
        (itr, new_table) \<leftarrow> vt_insert_raw HASH_FN (fst b) (snd b) True False new_table;
        (if vt_is_end itr then Some new_table else reinsert_from HASH_FN t rest new_table)
      }
      else reinsert_from HASH_FN t rest new_table)
   }"

definition fresh_table :: "nat \<Rightarrow> ('k, 'v) vt_table" where
  "fresh_table bucket_count = \<lparr>key_count = 0, buckets_mask = bucket_count - 1,
     buckets = replicate bucket_count None, metadata = (replicate (bucket_count + 4) 0)[bucket_count := 1]\<rparr>"

partial_function (option) vt_rehash ::
  "('k \<Rightarrow> 64 word) \<Rightarrow> nat \<Rightarrow> ('k, 'v) vt_table \<Rightarrow> vt_heap \<Rightarrow> (bool \<times> ('k, 'v) vt_table \<times> vt_heap) option" where
  "vt_rehash HASH_FN bucket_count t a =
     (case MALLOC_FN a of (allocation, a) \<Rightarrow>
        if \<not> allocation then Some (False, t, a)
        else do {
          new_table \<leftarrow> reinsert_from HASH_FN t [0..<vt_bucket_count t] (fresh_table bucket_count);
          (if key_count new_table < key_count t
           then vt_rehash HASH_FN (bucket_count * 2) t (FREE_FN a)
           else Some (True, new_table, if buckets_mask t \<noteq> 0 then FREE_FN a else a))
        })"

definition grown_bucket_count :: "('k, 'v) vt_table \<Rightarrow> nat" where
  "grown_bucket_count t = (if buckets_mask t \<noteq> 0 then vt_bucket_count t * 2 else VT_MIN_NONZERO_BUCKET_COUNT)"

text \<open>
  \<^verbatim>\<open>_insert\<close> (\<open>replace\<close>) and \<^verbatim>\<open>_get_or_insert\<close> (not \<open>replace\<close>) are the same loop around
  \<^verbatim>\<open>_insert_raw\<close>.
\<close>

partial_function (option) insert_loop ::
  "('k \<Rightarrow> 64 word) \<Rightarrow> 'k \<Rightarrow> 'v \<Rightarrow> bool \<Rightarrow> ('k, 'v) vt_table \<Rightarrow> vt_heap
     \<Rightarrow> (vt_itr \<times> ('k, 'v) vt_table \<times> vt_heap) option" where
  "insert_loop HASH_FN key val replace t a = do {
     (itr, t) \<leftarrow> vt_insert_raw HASH_FN key val False replace t;
     (if \<not> vt_is_end itr then Some (itr, t, a)
      else do {
        (ok, t, a) \<leftarrow> vt_rehash HASH_FN (grown_bucket_count t) t a;
        (if \<not> ok then Some (itr, t, a) else insert_loop HASH_FN key val replace t a)
      })
   }"

definition vt_insert ::
  "('k \<Rightarrow> 64 word) \<Rightarrow> 'k \<Rightarrow> 'v \<Rightarrow> ('k, 'v) vt_table \<Rightarrow> vt_heap \<Rightarrow> (vt_itr \<times> ('k, 'v) vt_table \<times> vt_heap) option" where
  "vt_insert HASH_FN key val t a = insert_loop HASH_FN key val True t a"

definition vt_get_or_insert ::
  "('k \<Rightarrow> 64 word) \<Rightarrow> 'k \<Rightarrow> 'v \<Rightarrow> ('k, 'v) vt_table \<Rightarrow> vt_heap \<Rightarrow> (vt_itr \<times> ('k, 'v) vt_table \<times> vt_heap) option" where
  "vt_get_or_insert HASH_FN key val t a = insert_loop HASH_FN key val False t a"

section \<open>Looking up and erasing\<close>

definition vt_get :: "('k \<Rightarrow> 64 word) \<Rightarrow> ('k, 'v) vt_table \<Rightarrow> 'k \<Rightarrow> vt_itr option" where
  "vt_get HASH_FN t key = do {
     let home = home_of HASH_FN t key;
     m \<leftarrow> rd (metadata t) home;
     (if m AND VT_IN_HOME_BUCKET_MASK = 0 then Some vt_end_itr
      else do {
        r \<leftarrow> chain_lookup t key (vt_hashfrag (HASH_FN key)) home home;
        Some (case r of Some bucket \<Rightarrow> itr_to t bucket home | None \<Rightarrow> vt_end_itr)
      })
   }"

text \<open>Case 3 of \<^verbatim>\<open>_erase_itr_raw\<close>: the last key of the chain and the one before it.\<close>

partial_function (option) find_last_from :: "('k, 'v) vt_table \<Rightarrow> nat \<Rightarrow> nat \<Rightarrow> (nat \<times> nat) option" where
  "find_last_from t home bucket = do {
     displacement \<leftarrow> displacement_at t bucket;
     let prev = bucket;
     let bucket = (home + vt_quadratic displacement) AND buckets_mask t;
     m \<leftarrow> rd (metadata t) bucket;
     (if m AND VT_DISPLACEMENT_MASK = VT_DISPLACEMENT_MASK then Some (prev, bucket)
      else find_last_from t home bucket)
   }"

text \<open>The chain of the key at an iterator: the iterator carries it, or it is found out lazily.\<close>

definition erase_home ::
  "('k \<Rightarrow> 64 word) \<Rightarrow> vt_itr \<Rightarrow> nat \<Rightarrow> 16 word \<Rightarrow> ('k, 'v) vt_table \<Rightarrow> nat option" where
  "erase_home HASH_FN itr itr_bucket m t =
     (if home_bucket itr = SIZE_MAX
      then if m AND VT_IN_HOME_BUCKET_MASK \<noteq> 0 then Some itr_bucket
      else do { b \<leftarrow> bucket_at t itr_bucket; Some (home_of HASH_FN t (fst b)) }
      else Some (unat (home_bucket itr)))"

definition vt_erase_itr_raw ::
  "('k \<Rightarrow> 64 word) \<Rightarrow> vt_itr \<Rightarrow> ('k, 'v) vt_table \<Rightarrow> (bool \<times> ('k, 'v) vt_table) option" where
  "vt_erase_itr_raw HASH_FN itr t = do {
     let t = t\<lparr>key_count := key_count t - 1\<rparr>;
     itr_bucket \<leftarrow> metadatum itr;
     m \<leftarrow> rd (metadata t) itr_bucket;
     (if m AND VT_IN_HOME_BUCKET_MASK \<noteq> 0 \<and> m AND VT_DISPLACEMENT_MASK = VT_DISPLACEMENT_MASK
      then do { t \<leftarrow> set_metadatum itr_bucket VT_EMPTY t; Some (True, t) }
      else do {
        home \<leftarrow> erase_home HASH_FN itr itr_bucket m t;
        (if m AND VT_DISPLACEMENT_MASK = VT_DISPLACEMENT_MASK
         then do {
           bucket \<leftarrow> find_prev_from t home itr_bucket home;
           mp \<leftarrow> rd (metadata t) bucket;
           t \<leftarrow> set_metadatum bucket (mp OR VT_DISPLACEMENT_MASK) t;
           t \<leftarrow> set_metadatum itr_bucket VT_EMPTY t;
           Some (True, t)
         }
         else do {
           (prev, bucket) \<leftarrow> find_last_from t home itr_bucket;
           b \<leftarrow> bucket_at t bucket;
           t \<leftarrow> set_bucket itr_bucket b t;
           mi \<leftarrow> rd (metadata t) itr_bucket;
           mb \<leftarrow> rd (metadata t) bucket;
           t \<leftarrow> set_metadatum itr_bucket ((mi AND NOT VT_HASH_FRAG_MASK) OR (mb AND VT_HASH_FRAG_MASK)) t;
           mp \<leftarrow> rd (metadata t) prev;
           t \<leftarrow> set_metadatum prev (mp OR VT_DISPLACEMENT_MASK) t;
           t \<leftarrow> set_metadatum bucket VT_EMPTY t;
           Some (\<not> bucket > itr_bucket, t)
         })
      })
   }"

definition vt_erase ::
  "('k \<Rightarrow> 64 word) \<Rightarrow> 'k \<Rightarrow> ('k, 'v) vt_table \<Rightarrow> (bool \<times> ('k, 'v) vt_table) option" where
  "vt_erase HASH_FN key t = do {
     itr \<leftarrow> vt_get HASH_FN t key;
     (if vt_is_end itr then Some (False, t)
      else do { (adv, t) \<leftarrow> vt_erase_itr_raw HASH_FN itr t; Some (True, t) })
   }"

section \<open>Iterating\<close>

partial_function (option) vt_fast_forward :: "16 word list \<Rightarrow> vt_itr \<Rightarrow> vt_itr option" where
  "vt_fast_forward md itr = do {
     i \<leftarrow> metadatum itr;
     d \<leftarrow> data itr;
     assert_that (i + 4 \<le> length md);
     let val = take 4 (drop i md);
     (if val \<noteq> [0, 0, 0, 0]
      then (let offset = vt_first_nonzero_uint16 val
            in Some (itr\<lparr>data := Some (d + offset), metadatum := Some (i + offset), home_bucket := SIZE_MAX\<rparr>))
      else vt_fast_forward md (itr\<lparr>data := Some (d + 4), metadatum := Some (i + 4)\<rparr>))
   }"

definition vt_next :: "('k, 'v) vt_table \<Rightarrow> vt_itr \<Rightarrow> vt_itr option" where
  "vt_next t itr = do {
     d \<leftarrow> data itr;
     i \<leftarrow> metadatum itr;
     vt_fast_forward (metadata t) (itr\<lparr>data := Some (d + 1), metadatum := Some (i + 1)\<rparr>)
   }"

definition vt_first :: "('k, 'v) vt_table \<Rightarrow> vt_itr option" where
  "vt_first t =
     (if key_count t = 0 then Some vt_end_itr
      else vt_fast_forward (metadata t)
        \<lparr>data = Some 0, metadatum = Some 0, metadata_end = Some (buckets_mask t + 1), home_bucket = SIZE_MAX\<rparr>)"

definition vt_erase_itr ::
  "('k \<Rightarrow> 64 word) \<Rightarrow> vt_itr \<Rightarrow> ('k, 'v) vt_table \<Rightarrow> (vt_itr \<times> ('k, 'v) vt_table) option" where
  "vt_erase_itr HASH_FN itr t = do {
     (adv, t) \<leftarrow> vt_erase_itr_raw HASH_FN itr t;
     (if adv then do { itr \<leftarrow> vt_next t itr; Some (itr, t) } else Some (itr, t))
   }"

section \<open>Sizing and clearing\<close>

function min_bucket_count_from :: "nat \<Rightarrow> nat \<Rightarrow> nat" where
  "min_bucket_count_from n bucket_count =
     (if bucket_count > 0 \<and> exceeds_max_load n bucket_count
      then min_bucket_count_from n (bucket_count * 2) else bucket_count)"
  by pat_completeness auto
termination
  by (relation "measure (\<lambda>(n, bucket_count). 10 * n - 9 * bucket_count)") (auto simp: exceeds_max_load_def)

definition vt_min_bucket_count_for_size :: "nat \<Rightarrow> nat" where
  "vt_min_bucket_count_for_size n =
     (if n = 0 then 0 else min_bucket_count_from n VT_MIN_NONZERO_BUCKET_COUNT)"

definition vt_reserve ::
  "('k \<Rightarrow> 64 word) \<Rightarrow> nat \<Rightarrow> ('k, 'v) vt_table \<Rightarrow> vt_heap \<Rightarrow> (bool \<times> ('k, 'v) vt_table \<times> vt_heap) option" where
  "vt_reserve HASH_FN n t a =
     (let bucket_count = vt_min_bucket_count_for_size n
      in if bucket_count \<le> vt_bucket_count t then Some (True, t, a)
      else vt_rehash HASH_FN bucket_count t a)"

definition vt_shrink ::
  "('k \<Rightarrow> 64 word) \<Rightarrow> ('k, 'v) vt_table \<Rightarrow> vt_heap \<Rightarrow> (bool \<times> ('k, 'v) vt_table \<times> vt_heap) option" where
  "vt_shrink HASH_FN t a =
     (let bucket_count = vt_min_bucket_count_for_size (key_count t)
      in if bucket_count = vt_bucket_count t then Some (True, t, a)
      else if bucket_count = 0
      then Some (True, t\<lparr>buckets_mask := 0, buckets := [], metadata := [VT_EMPTY]\<rparr>, FREE_FN a)
      else vt_rehash HASH_FN bucket_count t a)"

definition vt_clear :: "('k, 'v) vt_table \<Rightarrow> ('k, 'v) vt_table" where
  "vt_clear t =
     (if key_count t = 0 then t
      else t\<lparr>metadata := replicate (vt_bucket_count t) VT_EMPTY @ drop (vt_bucket_count t) (metadata t),
           key_count := 0\<rparr>)"

definition vt_cleanup :: "('k, 'v) vt_table \<Rightarrow> vt_heap \<Rightarrow> ('k, 'v) vt_table \<times> vt_heap" where
  "vt_cleanup t a = (if buckets_mask t = 0 then (t, a) else (vt_init, FREE_FN a))"

declare find_first_empty_from.simps [code] find_insert_location_from.simps [code] find_prev_from.simps [code]
  chain_lookup.simps [code] vt_rehash.simps [code] insert_loop.simps [code] find_last_from.simps [code]
  vt_fast_forward.simps [code]

end
