(* ===== verification/Verstable_Chains.thy ===== *)
theory Verstable_Chains
  imports Verstable
begin

unbundle bit_operations_syntax

text \<open>
  The chains of the hash table: how a metadatum splits into hash fragment, home flag and
  displacement, why triangular probing reaches every bucket, the invariant \<open>chains_inv\<close> of the
  chains that displacements thread through the buckets (with a set of floating buckets for the
  states in the middle of an operation), how linking and unlinking a bucket keep it, and what
  the loops along a chain return.
\<close>

section \<open>Metadata words\<close>

lemma bit_vt_masks [simp]:
  "bit VT_DISPLACEMENT_MASK n \<longleftrightarrow> n < 11"
  "bit VT_IN_HOME_BUCKET_MASK n \<longleftrightarrow> n = 11"
  "bit VT_HASH_FRAG_MASK n \<longleftrightarrow> 12 \<le> n \<and> n < 16"
proof -
  have d: "VT_DISPLACEMENT_MASK = mask 11" by (simp add: VT_DISPLACEMENT_MASK_def mask_eq_exp_minus_1)
  have h: "VT_IN_HOME_BUCKET_MASK = 2 ^ 11" by (simp add: VT_IN_HOME_BUCKET_MASK_def)
  have f: "VT_HASH_FRAG_MASK = push_bit 12 (mask 4)" by (simp add: VT_HASH_FRAG_MASK_def mask_eq_exp_minus_1 push_bit_eq_mult)
  show "bit VT_DISPLACEMENT_MASK n \<longleftrightarrow> n < 11" by (auto simp: d bit_simps)
  show "bit VT_IN_HOME_BUCKET_MASK n \<longleftrightarrow> n = 11" unfolding h bit_exp_iff by auto
  show "bit VT_HASH_FRAG_MASK n \<longleftrightarrow> 12 \<le> n \<and> n < 16" by (auto simp: f bit_simps)
qed

definition meta :: "16 word \<Rightarrow> bool \<Rightarrow> nat \<Rightarrow> 16 word" where
  "meta f h d = f OR (if h then VT_IN_HOME_BUCKET_MASK else 0) OR of_nat d"

definition is_frag :: "16 word \<Rightarrow> bool" where
  "is_frag f \<longleftrightarrow> f AND VT_HASH_FRAG_MASK = f"

lemma bit_frag: "is_frag f \<Longrightarrow> bit f n \<Longrightarrow> 12 \<le> n \<and> n < 16"
  unfolding is_frag_def by (metis bit_and_iff bit_vt_masks(3))

lemma bit_displacement: "d < 2048 \<Longrightarrow> bit (of_nat d :: 16 word) n \<longleftrightarrow> n < 11 \<and> bit d n"
proof -
  assume "d < 2048"
  then have "take_bit 11 d = d" by (simp add: take_bit_nat_eq_self)
  then have "bit d n \<Longrightarrow> n < 11" by (metis bit_take_bit_iff)
  then show ?thesis by (auto simp: bit_simps)
qed

lemma unat_displacement: "d < 2048 \<Longrightarrow> unat (of_nat d :: 16 word) = d"
  by (simp add: unat_of_nat take_bit_nat_eq_self)

lemma is_frag_vt_hashfrag [simp]: "is_frag (vt_hashfrag x)"
  by (simp add: is_frag_def vt_hashfrag_def and.assoc)

lemma meta_bits:
  assumes "is_frag f" "d < 2048"
  shows "bit (meta f h d) n \<longleftrightarrow> n < 16 \<and> (if n < 11 then bit d n else if n = 11 then h else bit f n)"
  using bit_frag[OF assms(1), of n] bit_displacement[OF assms(2), of n] bit_imp_le_length[of f n]
  by (auto simp: meta_def bit_simps)

lemma meta_fields:
  assumes "is_frag f" "d < 2048"
  shows "meta f h d AND VT_HASH_FRAG_MASK = f"
    and "meta f h d AND VT_IN_HOME_BUCKET_MASK = 0 \<longleftrightarrow> \<not> h"
    and "meta f h d AND VT_DISPLACEMENT_MASK = of_nat d"
    and "meta f h d OR VT_DISPLACEMENT_MASK = meta f h 2047"
    and "d' < 2048 \<Longrightarrow> with_displacement (meta f h d) (of_nat d') = meta f h d'"
    and "is_frag f' \<Longrightarrow> (meta f h d AND NOT VT_HASH_FRAG_MASK) OR f' = meta f' h d"
proof -
  note mb = meta_bits[OF assms]
  have b11: "bit (2047 :: nat) n \<longleftrightarrow> n < 11" for n
    using bit_mask_iff[of 11 n, where 'a = nat] by (simp add: mask_eq_exp_minus_1)
  show "meta f h d AND VT_HASH_FRAG_MASK = f"
  proof (rule bit_word_eqI)
    show "bit (meta f h d AND VT_HASH_FRAG_MASK) n = bit f n" for n
      using bit_frag[OF assms(1), of n] by (auto simp: mb bit_simps)
  qed
  show "meta f h d AND VT_DISPLACEMENT_MASK = of_nat d"
    by (rule bit_word_eqI) (use bit_displacement[OF assms(2)] in \<open>auto simp: mb bit_simps\<close>)
  have "bit (meta f h d AND VT_IN_HOME_BUCKET_MASK) n \<longleftrightarrow> n = 11 \<and> h" for n by (auto simp: mb bit_simps)
  then show "meta f h d AND VT_IN_HOME_BUCKET_MASK = 0 \<longleftrightarrow> \<not> h" by (metis bit_0_eq bot_apply bot_bool_def bit_eq_iff)
  show "meta f h d OR VT_DISPLACEMENT_MASK = meta f h 2047"
    by (rule bit_word_eqI) (auto simp: mb meta_bits[OF assms(1)] b11 bit_simps)
  show "with_displacement (meta f h d) (of_nat d') = meta f h d'" if "d' < 2048"
  proof (rule bit_word_eqI)
    show "bit (with_displacement (meta f h d) (of_nat d')) n = bit (meta f h d') n" for n
      using bit_displacement[OF that, of n] by (auto simp: with_displacement_def mb meta_bits[OF assms(1) that] bit_simps)
  qed
  show "(meta f h d AND NOT VT_HASH_FRAG_MASK) OR f' = meta f' h d" if "is_frag f'"
  proof (rule bit_word_eqI)
    show "bit ((meta f h d AND NOT VT_HASH_FRAG_MASK) OR f') n = bit (meta f' h d) n" if "n < LENGTH(16)" for n
      using bit_frag[OF \<open>is_frag f'\<close>, of n] that by (auto simp: mb meta_bits[OF \<open>is_frag f'\<close> assms(2)] bit_simps)
  qed
qed

lemma meta_more:
  assumes "is_frag f" "d < 2048"
  shows "unat (meta f h d AND VT_DISPLACEMENT_MASK) = d"
    and "meta f h d AND VT_DISPLACEMENT_MASK = VT_DISPLACEMENT_MASK \<longleftrightarrow> d = 2047"
    and "d > 0 \<Longrightarrow> meta f h d \<noteq> VT_EMPTY"
    and "f OR VT_IN_HOME_BUCKET_MASK OR VT_DISPLACEMENT_MASK = meta f True 2047"
    and "f OR of_nat d = meta f False d"
proof -
  show u: "unat (meta f h d AND VT_DISPLACEMENT_MASK) = d" by (simp add: meta_fields[OF assms] unat_displacement assms(2))
  have "VT_DISPLACEMENT_MASK = of_nat 2047" by (simp add: VT_DISPLACEMENT_MASK_def)
  then show "meta f h d AND VT_DISPLACEMENT_MASK = VT_DISPLACEMENT_MASK \<longleftrightarrow> d = 2047"
    using unat_displacement[OF assms(2)] unat_displacement[of 2047] by (auto simp: meta_fields(3)[OF assms])
  show "d > 0 \<Longrightarrow> meta f h d \<noteq> VT_EMPTY" using u by (auto simp: VT_EMPTY_def)
  show "f OR VT_IN_HOME_BUCKET_MASK OR VT_DISPLACEMENT_MASK = meta f True 2047" by (simp add: meta_def VT_DISPLACEMENT_MASK_def)
  show "f OR of_nat d = meta f False d" by (simp add: meta_def)
qed

section \<open>Quadratic probing\<close>

text \<open>The triangular numbers, and the buckets that a chain's displacements lead to.\<close>

definition tri :: "nat \<Rightarrow> nat" where
  "tri d = (d * d + d) div 2"

definition pos :: "nat \<Rightarrow> nat \<Rightarrow> nat \<Rightarrow> nat" where
  "pos k h d = (h + tri d) mod 2 ^ k"

lemma vt_quadratic_tri: "vt_quadratic d = tri (unat d)"
  by (simp add: vt_quadratic_def tri_def)

lemma vt_quadratic_of_nat [simp]: "d < 2048 \<Longrightarrow> vt_quadratic (of_nat d) = tri d"
  by (simp add: vt_quadratic_tri unat_displacement)

lemma of_nat16_less: "d < 2048 \<Longrightarrow> e < 2048 \<Longrightarrow> (of_nat d :: 16 word) < of_nat e \<longleftrightarrow> d < e"
  by (simp add: word_less_nat_alt unat_displacement)

lemma of_nat16_eq: "d < 2048 \<Longrightarrow> e < 2048 \<Longrightarrow> (of_nat d :: 16 word) = of_nat e \<longleftrightarrow> d = e"
  using unat_displacement by metis

lemma and_mask_nat: "(x :: nat) AND (2 ^ k - 1) = x mod 2 ^ k"
  by (simp add: take_bit_eq_mod[symmetric] take_bit_eq_mask mask_eq_exp_minus_1)

lemma tri_double: "2 * tri d = d * d + d"
  by (simp add: tri_def)

lemma tri_Suc: "tri (Suc d) = tri d + Suc d"
  using tri_double[of d] tri_double[of "Suc d"] by simp

lemma tri_0 [simp]: "tri 0 = 0" "tri 1 = 1" "tri (Suc 0) = 1"
  by (simp_all add: tri_def)

lemma pos_0 [simp]: "h < 2 ^ k \<Longrightarrow> pos k h 0 = h"
  by (simp add: pos_def)

lemma pos_less [simp]: "pos k h d < 2 ^ k"
  by (simp add: pos_def)

lemma pos_neq [simp]: "pos k h d \<noteq> 2 ^ k" "2 ^ k \<noteq> pos k h d"
  by (metis pos_less less_irrefl)+

text \<open>Distinct displacements below the bucket count lead to distinct buckets.\<close>

lemma pos_inj_aux:
  assumes "d < d'" "d' < 2 ^ k"
  shows "pos k h d \<noteq> pos k h d'"
proof
  assume "pos k h d = pos k h d'"
  then have "int (h + tri d') mod 2 ^ k = int (h + tri d) mod 2 ^ k"
    unfolding pos_def by (metis of_nat_mod of_nat_numeral of_nat_power)
  then have "2 ^ k dvd (int (h + tri d') - int (h + tri d))" by (rule mod_eq_dvd_iff[THEN iffD1])
  then have "2 * 2 ^ k dvd 2 * (int (tri d') - int (tri d))" by (intro mult_dvd_mono) simp_all
  moreover have "2 * (int (tri d') - int (tri d)) = (int d' - int d) * (int d' + int d + 1)"
    using arg_cong[OF tri_double[of d], of int] arg_cong[OF tri_double[of d'], of int] by (simp add: algebra_simps)
  ultimately have dv: "2 ^ Suc k dvd (int d' - int d) * (int d' + int d + 1)" by simp
  have cop: "coprime (2 ^ Suc k :: int) x" if "odd x" for x using that by (simp add: coprime_power_left_iff coprime_commute)
  show False
  proof (cases "even (int d' - int d)")
    case True
    then have "odd (int d' + int d + 1)" by presburger
    then have "2 ^ Suc k dvd int d' - int d" using dv cop coprime_dvd_mult_left_iff by blast
    then have "2 ^ Suc k \<le> int d' - int d" using assms(1) zdvd_imp_le by simp
    moreover have "int d' < 2 ^ k" using assms(2) by (metis of_nat_less_iff of_nat_numeral of_nat_power)
    ultimately show False by simp
  next
    case False
    then have "2 ^ Suc k dvd int d' + int d + 1" using dv cop coprime_dvd_mult_right_iff by blast
    then have "2 ^ Suc k \<le> int d' + int d + 1" by (rule zdvd_imp_le) simp
    moreover have "int d' + 1 \<le> 2 ^ k" using assms(2) by (metis add1_zle_eq of_nat_less_iff of_nat_numeral of_nat_power)
    moreover have "int d + 1 < 2 ^ k" using assms(1) calculation(2) by simp
    ultimately show False by simp
  qed
qed

lemma pos_inj: "d < 2 ^ k \<Longrightarrow> d' < 2 ^ k \<Longrightarrow> pos k h d = pos k h d' \<longleftrightarrow> d = d'"
  using pos_inj_aux[of d d' k h] pos_inj_aux[of d' d k h] by (cases d d' rule: linorder_cases) auto

text \<open>Probing visits every bucket.\<close>

lemma pos_surj: "i < 2 ^ k \<Longrightarrow> \<exists>d < 2 ^ k. pos k h d = i"
proof -
  assume i: "i < 2 ^ k"
  have "inj_on (pos k h) {..<2 ^ k}" using pos_inj by (auto simp: inj_on_def)
  then have "card (pos k h ` {..<2 ^ k}) = 2 ^ k" by (simp add: card_image)
  moreover have "pos k h ` {..<2 ^ k} \<subseteq> {..<2 ^ k}" by auto
  ultimately have "pos k h ` {..<2 ^ k} = {..<2 ^ k}" by (metis card_lessThan card_subset_eq finite_lessThan)
  then show ?thesis using i by (metis image_iff lessThan_iff)
qed

section \<open>Chains\<close>

definition next_disp :: "nat list \<Rightarrow> nat" where
  "next_disp vs = (case vs of [] \<Rightarrow> 2047 | v # _ \<Rightarrow> v)"

lemma next_disp_simps [simp]: "next_disp [] = 2047" "next_disp (v # vs) = v"
  by (simp_all add: next_disp_def)

definition cells :: "nat \<Rightarrow> nat \<Rightarrow> nat list \<Rightarrow> nat set" where
  "cells k h xs = pos k h ` set xs"

definition links_ok :: "nat \<Rightarrow> 16 word list \<Rightarrow> nat \<Rightarrow> nat list \<Rightarrow> bool" where
  "links_ok k md h xs \<longleftrightarrow> (\<forall>us d vs. xs = us @ d # vs \<longrightarrow> (\<exists>f. is_frag f \<and> md ! pos k h d = meta f (d = 0) (next_disp vs)))"

definition shape_ok :: "nat \<Rightarrow> nat list \<Rightarrow> bool" where
  "shape_ok k xs \<longleftrightarrow> sorted_wrt (<) xs \<and> (xs = [] \<or> hd xs = 0) \<and> (\<forall>d \<in> set xs. d < 2 ^ k \<and> d < 2047)"

definition occupied :: "nat \<Rightarrow> 16 word list \<Rightarrow> nat set" where
  "occupied k md = {i. i < 2 ^ k \<and> md ! i \<noteq> VT_EMPTY}"

definition chains_inv :: "nat \<Rightarrow> 16 word list \<Rightarrow> (nat \<Rightarrow> nat list) \<Rightarrow> nat set \<Rightarrow> bool" where
  "chains_inv k md C F \<longleftrightarrow> length md = 2 ^ k + 4 \<and> md ! (2 ^ k) \<noteq> VT_EMPTY
     \<and> (\<forall>h < 2 ^ k. shape_ok k (C h) \<and> links_ok k md h (C h))
     \<and> (\<forall>h < 2 ^ k. \<forall>h' < 2 ^ k. h \<noteq> h' \<longrightarrow> cells k h (C h) \<inter> cells k h' (C h') = {})
     \<and> (\<forall>h < 2 ^ k. cells k h (C h) \<inter> F = {})
     \<and> occupied k md = (\<Union>h < 2 ^ k. cells k h (C h)) \<union> F"

lemma cells_simps [simp]: "cells k h [] = {}" "cells k h (x # xs) = insert (pos k h x) (cells k h xs)"
  "cells k h (xs @ ys) = cells k h xs \<union> cells k h ys"
  by (auto simp: cells_def)

lemma cells_less: "i \<in> cells k h xs \<Longrightarrow> i < 2 ^ k"
  by (auto simp: cells_def)

lemma chains_invD:
  assumes "chains_inv k md C F"
  shows "length md = 2 ^ k + 4" "md ! (2 ^ k) \<noteq> VT_EMPTY"
    "h < 2 ^ k \<Longrightarrow> shape_ok k (C h)" "h < 2 ^ k \<Longrightarrow> links_ok k md h (C h)"
    "h < 2 ^ k \<Longrightarrow> h' < 2 ^ k \<Longrightarrow> i \<in> cells k h (C h) \<Longrightarrow> i \<in> cells k h' (C h') \<Longrightarrow> h' = h"
    "h < 2 ^ k \<Longrightarrow> i \<in> cells k h (C h) \<Longrightarrow> i \<notin> F"
    "occupied k md = (\<Union>h < 2 ^ k. cells k h (C h)) \<union> F"
  using assms unfolding chains_inv_def by blast+

lemma links_ok_cong: "(\<And>i. i \<in> cells k h xs \<Longrightarrow> md' ! i = md ! i) \<Longrightarrow> links_ok k md h xs \<Longrightarrow> links_ok k md' h xs"
  unfolding links_ok_def by (metis cells_def image_eqI in_set_conv_decomp)

lemma links_okD:
  assumes "links_ok k md h (us @ d # vs)"
  shows "\<exists>f. is_frag f \<and> md ! pos k h d = meta f (d = 0) (next_disp vs)"
  using assms unfolding links_ok_def by blast

lemma shape_okD:
  assumes "shape_ok k (us @ d # vs)"
  shows "d < 2 ^ k" "d < 2047" "next_disp vs < 2048" "next_disp vs > d" "us \<noteq> [] \<longleftrightarrow> d \<noteq> 0" "\<forall>x \<in> set us. x < d" "\<forall>x \<in> set vs. d < x"
  using assms by (cases vs; cases us; auto simp: shape_ok_def sorted_wrt_append)+

text \<open>The general step: one chain and the set of floating buckets change.\<close>

lemma chains_inv_upd:
  assumes inv: "chains_inv k md C F" and h: "h < 2 ^ k"
    and len: "length md' = length md" "md' ! (2 ^ k) = md ! (2 ^ k)"
    and same: "\<And>h' i. h' < 2 ^ k \<Longrightarrow> h' \<noteq> h \<Longrightarrow> i \<in> cells k h' (C h') \<Longrightarrow> md' ! i = md ! i"
    and ok: "shape_ok k xs" "links_ok k md' h xs"
    and disj: "\<And>h' i. h' < 2 ^ k \<Longrightarrow> h' \<noteq> h \<Longrightarrow> i \<in> cells k h' (C h') \<Longrightarrow> i \<notin> cells k h xs \<and> i \<notin> F'"
    and xF: "cells k h xs \<inter> F' = {}"
    and occ: "occupied k md' = (\<Union>h' \<in> {..<2 ^ k} - {h}. cells k h' (C h')) \<union> cells k h xs \<union> F'"
  shows "chains_inv k md' (C(h := xs)) F'"
proof -
  note d = chains_invD[OF inv]
  have "links_ok k md' h' (C h')" if "h' < 2 ^ k" "h' \<noteq> h" for h'
    using links_ok_cong[of k h' "C h'" md' md] same[OF that] d(4)[OF that(1)] by blast
  moreover have "occupied k md' = (\<Union>h' < 2 ^ k. cells k h' ((C(h := xs)) h')) \<union> F'"
    unfolding occ using h by (auto split: if_splits)
  moreover have "cells k h1 ((C(h := xs)) h1) \<inter> cells k h2 ((C(h := xs)) h2) = {}" if "h1 < 2 ^ k" "h2 < 2 ^ k" "h1 \<noteq> h2" for h1 h2
    using that d(5)[OF that(1,2)] disj by (auto split: if_splits)
  ultimately show ?thesis
    unfolding chains_inv_def using d(1,2,3) len ok disj xF h by auto
qed

lemma occupied_upd: "i < length md \<Longrightarrow> i < 2 ^ k \<Longrightarrow>
    occupied k (md[i := v]) = (if v = VT_EMPTY then occupied k md - {i} else insert i (occupied k md))"
  by (auto simp: occupied_def nth_list_update split: if_splits)

lemma occupied_split:
  assumes "chains_inv k md C F" "h < 2 ^ k"
  shows "occupied k md = (\<Union>h' \<in> {..<2 ^ k} - {h}. cells k h' (C h')) \<union> cells k h (C h) \<union> F"
  using chains_invD(7)[OF assms(1)] assms(2) by auto

lemma cell_in_chain:
  assumes inv: "chains_inv k md C F" and i: "i \<in> occupied k md" "i \<notin> F"
  shows "\<exists>h us d vs. h < 2 ^ k \<and> C h = us @ d # vs \<and> i = pos k h d"
  using chains_invD(7)[OF inv] i unfolding cells_def by (auto simp: in_set_conv_decomp) blast

text \<open>A new chain in a bucket that is empty or floats.\<close>

lemma chains_inv_new:
  assumes inv: "chains_inv k md C F" and h: "h < 2 ^ k" and free: "h \<notin> (\<Union>h' < 2 ^ k. cells k h' (C h'))" and f: "is_frag f"
  shows "chains_inv k (md[h := meta f True 2047]) (C(h := [0])) (F - {h})"
proof -
  note d = chains_invD[OF inv]
  have e: "C h = []"
  proof (rule ccontr)
    assume "C h \<noteq> []"
    then obtain xs where "C h = 0 # xs" using d(3)[OF h] by (cases "C h") (auto simp: shape_ok_def)
    then have "h \<in> cells k h (C h)" using h by simp
    then show False using free h by blast
  qed
  show ?thesis
  proof (rule chains_inv_upd[OF inv h])
    show "links_ok k (md[h := meta f True 2047]) h [0]"
      using h f d(1) by (auto simp: links_ok_def Cons_eq_append_conv)
    show "occupied k (md[h := meta f True 2047]) = (\<Union>h' \<in> {..<2 ^ k} - {h}. cells k h' (C h')) \<union> cells k h [0] \<union> (F - {h})"
      using h d(1) meta_more(3)[OF f, of 2047 True] occupied_split[OF inv h] e by (auto simp: occupied_upd)
    show "md[h := meta f True 2047] ! i = md ! i" if "h' < 2 ^ k" "h' \<noteq> h" "i \<in> cells k h' (C h')" for h' i
      using free that by (intro nth_list_update_neq) blast
    show "i \<notin> cells k h [0] \<and> i \<notin> F - {h}" if "h' < 2 ^ k" "h' \<noteq> h" "i \<in> cells k h' (C h')" for h' i
      using d(6)[OF that(1,3)] free that h by auto
  qed (use h in \<open>auto simp: shape_ok_def\<close>)
qed

lemma pos_inj_shape:
  assumes "shape_ok k xs" "a \<in> set xs" "b < 2 ^ k"
  shows "pos k h a = pos k h b \<longleftrightarrow> a = b"
  using assms pos_inj by (auto simp: shape_ok_def)

text \<open>Linking a new key into a chain, between two neighbours by displacement.\<close>

lemma chains_inv_link:
  assumes inv: "chains_inv k md C F" and h: "h < 2 ^ k" and C: "C h = us @ p # vs"
    and d: "p < d" "d < next_disp vs" "d < 2 ^ k" "d < 2047" and e: "pos k h d \<notin> occupied k md" and f: "is_frag f"
    and md': "md' = (md[pos k h d := meta f False (next_disp vs)])[pos k h p := with_displacement (md ! pos k h p) (of_nat d)]"
  shows "chains_inv k md' (C(h := us @ p # d # vs)) F"
proof -
  note dd = chains_invD[OF inv]
  have sh: "shape_ok k (us @ p # vs)" using dd(3)[OF h] C by simp
  note shd = shape_okD[OF sh]
  have vsd: "\<forall>x \<in> set vs. d < x" using d(2) sh by (cases vs) (auto simp: shape_ok_def sorted_wrt_append)
  have sh': "shape_ok k (us @ p # d # vs)" using sh d(1,3,4) vsd shd(6) by (cases us) (auto simp: shape_ok_def sorted_wrt_append)
  obtain fp where fp: "is_frag fp" "md ! pos k h p = meta fp (p = 0) (next_disp vs)"
    using links_okD dd(4)[OF h] C by metis
  have mp: "with_displacement (md ! pos k h p) (of_nat d) = meta fp (p = 0) d"
    using meta_fields(5)[OF fp(1) shd(3), of d] fp(2) d(4) by simp
  have pd: "pos k h p \<noteq> pos k h d" using pos_inj[OF shd(1) d(3)] d(1) by auto
  have l: "pos k h d < length md" "pos k h p < length md" using dd(1) by (simp_all add: trans_less_add1)
  have ne: "\<And>m. pos k h d \<noteq> 2 ^ k" "\<And>m. pos k h p \<noteq> 2 ^ k" by (metis pos_less less_irrefl)+
  have occ: "occupied k md' = insert (pos k h d) (occupied k md)"
  proof -
    have "pos k h p \<in> occupied k md" using occupied_split[OF inv h] C by auto
    moreover have "meta f False (next_disp vs) \<noteq> VT_EMPTY" using meta_more(3)[OF f shd(3)] shd(4) by simp
    moreover have "meta fp (p = 0) d \<noteq> VT_EMPTY" using meta_more(3)[OF fp(1), of d] d by simp
    ultimately show ?thesis unfolding md' mp using l by (subst occupied_upd; simp add: occupied_upd insert_absorb)
  qed
  have links: "links_ok k md' h (us @ p # d # vs)"
    unfolding links_ok_def
  proof (intro allI impI)
    fix us' x vs'
    assume eq: "us @ p # d # vs = us' @ x # vs'"
    have x: "x < 2 ^ k" using sh' eq by (auto simp: shape_ok_def)
    consider "x = d" "vs' = vs" | "x = p" "vs' = d # vs" | "x \<noteq> d" "x \<noteq> p" "\<exists>us''. us @ p # vs = us'' @ x # vs' \<or> (\<exists>ws. us = us' @ x # ws \<and> vs' = ws @ p # d # vs)"
      using eq sh' by (auto simp: shape_ok_def sorted_wrt_append append_eq_append_conv2 append_eq_Cons_conv Cons_eq_append_conv)
    then show "\<exists>f. is_frag f \<and> md' ! pos k h x = meta f (x = 0) (next_disp vs')"
    proof cases
      case 1
      then show ?thesis using f l pd d(1) by (auto simp: md' nth_list_update)
    next
      case 2
      then show ?thesis using fp l pd mp by (auto simp: md')
    next
      case 3
      have "md' ! pos k h x = md ! pos k h x"
        using 3(1,2) pos_inj[OF d(3) x] pos_inj[OF shd(1) x] by (simp add: md')
      moreover have "\<exists>us2 vs2. C h = us2 @ x # vs2 \<and> next_disp vs2 = next_disp vs'"
        using 3(3) unfolding C by (elim exE disjE conjE) (auto, metis append_Cons append_assoc next_disp_def append_self_conv2 list.case_eq_if list.sel(1) hd_append2 append_is_Nil_conv list.distinct(1))
      ultimately show ?thesis using dd(4)[OF h] unfolding links_ok_def by metis
    qed
  qed
  show ?thesis
  proof (rule chains_inv_upd[OF inv h _ _ _ sh' links])
    show "md' ! i = md ! i" if "h' < 2 ^ k" "h' \<noteq> h" "i \<in> cells k h' (C h')" for h' i
    proof -
      have "i \<noteq> pos k h p" using dd(5)[OF h that(1), of i] C that by auto
      moreover have "i \<in> occupied k md" using occupied_split[OF inv that(1)] that by auto
      moreover from this have "i \<noteq> pos k h d" using e by blast
      ultimately show ?thesis by (simp add: md')
    qed
    show "i \<notin> cells k h (us @ p # d # vs) \<and> i \<notin> F" if "h' < 2 ^ k" "h' \<noteq> h" "i \<in> cells k h' (C h')" for h' i
    proof -
      have "i \<in> occupied k md" using occupied_split[OF inv that(1)] that by auto
      then show ?thesis using dd(5)[OF h that(1), of i] dd(6)[OF that(1,3)] that C e by auto
    qed
    show "cells k h (us @ p # d # vs) \<inter> F = {}" using dd(6)[OF h] C e occupied_split[OF inv h] by auto
    show "occupied k md' = (\<Union>h' \<in> {..<2 ^ k} - {h}. cells k h' (C h')) \<union> cells k h (us @ p # d # vs) \<union> F"
      unfolding occ occupied_split[OF inv h] C by auto
  qed (use ne in \<open>simp_all add: md'\<close>)
qed

text \<open>Taking a key that is not the first one out of its chain: its bucket floats.\<close>

lemma chains_inv_unlink:
  assumes inv: "chains_inv k md C F" and h: "h < 2 ^ k" and C: "C h = us @ p # d # vs"
    and md': "md' = md[pos k h p := with_displacement (md ! pos k h p) (of_nat (next_disp vs))]"
  shows "chains_inv k md' (C(h := us @ p # vs)) (insert (pos k h d) F)"
proof -
  note dd = chains_invD[OF inv]
  have sh: "shape_ok k (us @ p # d # vs)" using dd(3)[OF h] C by simp
  note shp = shape_okD[OF sh] and shd = shape_okD[of k "us @ [p]" d vs, simplified, OF sh]
  have sh': "shape_ok k (us @ p # vs)" using sh by (cases us) (auto simp: shape_ok_def sorted_wrt_append)
  obtain fp where fp: "is_frag fp" "md ! pos k h p = meta fp (p = 0) d"
    using links_okD[of k md h us p "d # vs"] dd(4)[OF h] C by auto
  have mp: "with_displacement (md ! pos k h p) (of_nat (next_disp vs)) = meta fp (p = 0) (next_disp vs)"
    using meta_fields(5)[OF fp(1), of d "next_disp vs"] fp(2) shd(2,3) by simp
  have pd: "pos k h p \<noteq> pos k h d" using pos_inj[OF shp(1) shd(1)] shp(4) by auto
  have l: "pos k h p < length md" using dd(1) by (simp add: trans_less_add1)
  have ne: "pos k h p \<noteq> 2 ^ k" by (metis pos_less less_irrefl)
  have dpos: "pos k h d \<notin> cells k h (us @ p # vs)"
  proof
    assume "pos k h d \<in> cells k h (us @ p # vs)"
    then obtain x where "x \<in> set (us @ p # vs)" "pos k h d = pos k h x" unfolding cells_def by blast
    then have "d \<in> set (us @ p # vs)" using pos_inj_shape[OF sh', of x d h] shd(1) by auto
    then show False using sh by (auto simp: shape_ok_def sorted_wrt_append)
  qed
  have occ: "occupied k md' = occupied k md"
  proof -
    have "pos k h p \<in> occupied k md" using occupied_split[OF inv h] C by auto
    moreover have "meta fp (p = 0) (next_disp vs) \<noteq> VT_EMPTY" using meta_more(3)[OF fp(1) shd(3)] shd(4) by simp
    ultimately show ?thesis unfolding md' mp using l by (simp add: occupied_upd insert_absorb)
  qed
  have links: "links_ok k md' h (us @ p # vs)"
    unfolding links_ok_def
  proof (intro allI impI)
    fix us' x vs'
    assume eq: "us @ p # vs = us' @ x # vs'"
    have x: "x < 2 ^ k" using sh' eq by (auto simp: shape_ok_def)
    consider "x = p" "vs' = vs" | "x \<noteq> p" "\<exists>ws. vs = ws @ x # vs'" | "x \<noteq> p" "\<exists>ws. us = us' @ x # ws \<and> vs' = ws @ p # vs"
      using eq sh' by (auto simp: shape_ok_def sorted_wrt_append append_eq_append_conv2 append_eq_Cons_conv Cons_eq_append_conv)
    then show "\<exists>f. is_frag f \<and> md' ! pos k h x = meta f (x = 0) (next_disp vs')"
    proof cases
      case 1
      then show ?thesis using fp l mp by (auto simp: md')
    next
      case 2
      then obtain ws where "C h = (us @ p # d # ws) @ x # vs'" using C by auto
      then have "\<exists>f. is_frag f \<and> md ! pos k h x = meta f (x = 0) (next_disp vs')" using dd(4)[OF h] links_okD by metis
      then show ?thesis using 2(1) pos_inj[OF shp(1) x] by (simp add: md')
    next
      case 3
      then obtain ws where "C h = us' @ x # ws @ p # d # vs" "vs' = ws @ p # vs" using C by auto
      then have "\<exists>f. is_frag f \<and> md ! pos k h x = meta f (x = 0) (next_disp (ws @ p # d # vs))" "next_disp vs' = next_disp (ws @ p # d # vs)"
        using dd(4)[OF h] links_okD[of k md h us' x "ws @ p # d # vs"] by (auto, cases ws, auto)
      then show ?thesis using 3(1) pos_inj[OF shp(1) x] by (simp add: md')
    qed
  qed
  show ?thesis
  proof (rule chains_inv_upd[OF inv h _ _ _ sh' links])
    show "md' ! i = md ! i" if "h' < 2 ^ k" "h' \<noteq> h" "i \<in> cells k h' (C h')" for h' i
      using dd(5)[OF h that(1), of i] C that l by (auto simp: md' nth_list_update)
    show "i \<notin> cells k h (us @ p # vs) \<and> i \<notin> insert (pos k h d) F" if "h' < 2 ^ k" "h' \<noteq> h" "i \<in> cells k h' (C h')" for h' i
      using dd(5)[OF h that(1), of i] dd(6)[OF that(1,3)] that C by auto
    show "cells k h (us @ p # vs) \<inter> insert (pos k h d) F = {}" using dd(6)[OF h] C dpos by auto
    show "occupied k md' = (\<Union>h' \<in> {..<2 ^ k} - {h}. cells k h' (C h')) \<union> cells k h (us @ p # vs) \<union> insert (pos k h d) F"
      unfolding occ occupied_split[OF inv h] C by auto
  qed (use ne in \<open>simp_all add: md'\<close>)
qed

lemma chains_inv_unlink_only:
  assumes inv: "chains_inv k md C F" and h: "h < 2 ^ k" and C: "C h = [0]"
  shows "chains_inv k md (C(h := [])) (insert h F)"
proof -
  note dd = chains_invD[OF inv]
  show ?thesis
  proof (rule chains_inv_upd[OF inv h])
    show "i \<notin> cells k h [] \<and> i \<notin> insert h F" if "h' < 2 ^ k" "h' \<noteq> h" "i \<in> cells k h' (C h')" for h' i
      using dd(5)[OF h that(1), of i] dd(6)[OF that(1,3)] that C h by auto
    show "occupied k md = (\<Union>h' \<in> {..<2 ^ k} - {h}. cells k h' (C h')) \<union> cells k h [] \<union> insert h F"
      unfolding occupied_split[OF inv h] C using h by auto
  qed (simp_all add: shape_ok_def links_ok_def)
qed

lemma chains_inv_drop:
  assumes inv: "chains_inv k md C F" and b: "b \<in> F"
  shows "chains_inv k (md[b := VT_EMPTY]) C (F - {b})"
proof -
  note dd = chains_invD[OF inv]
  have bk: "b < 2 ^ k" using dd(7) b by (auto simp: occupied_def)
  then have l: "b < length md" using dd(1) by simp
  have nc: "b \<notin> cells k h (C h)" if "h < 2 ^ k" for h using dd(6)[OF that] b by blast
  have "links_ok k (md[b := VT_EMPTY]) h (C h)" if "h < 2 ^ k" for h
    by (rule links_ok_cong[OF _ dd(4)[OF that]]) (use nc[OF that] l in \<open>auto simp: nth_list_update\<close>)
  moreover have "occupied k (md[b := VT_EMPTY]) = (\<Union>h < 2 ^ k. cells k h (C h)) \<union> (F - {b})"
    using occupied_upd[OF l bk] dd(7) nc by auto
  ultimately show ?thesis using dd bk unfolding chains_inv_def by auto
qed

text \<open>Changing the hash fragment of a bucket.\<close>

lemma chains_inv_frag:
  assumes inv: "chains_inv k md C F" and h: "h < 2 ^ k" and C: "C h = us @ d # vs" and f: "is_frag f"
  shows "chains_inv k (md[pos k h d := (md ! pos k h d AND NOT VT_HASH_FRAG_MASK) OR f]) C F"
proof -
  note dd = chains_invD[OF inv]
  let ?i = "pos k h d" and ?md = "md[pos k h d := (md ! pos k h d AND NOT VT_HASH_FRAG_MASK) OR f]"
  have sh: "shape_ok k (us @ d # vs)" using dd(3)[OF h] C by simp
  note shd = shape_okD[OF sh]
  obtain g where g: "is_frag g" "md ! ?i = meta g (d = 0) (next_disp vs)" using links_okD dd(4)[OF h] C by metis
  have m: "(md ! ?i AND NOT VT_HASH_FRAG_MASK) OR f = meta f (d = 0) (next_disp vs)"
    using meta_fields(6)[OF g(1) shd(3) f] g(2) by simp
  have l: "?i < length md" using dd(1) by (simp add: trans_less_add1)
  have links: "links_ok k ?md h (C h)"
    unfolding links_ok_def
  proof (intro allI impI)
    fix us' x vs'
    assume eq: "C h = us' @ x # vs'"
    have x: "x < 2 ^ k" using shape_okD(1)[of k us' x vs'] dd(3)[OF h] eq by simp
    show "\<exists>f. is_frag f \<and> ?md ! pos k h x = meta f (x = 0) (next_disp vs')"
    proof (cases "x = d")
      case True
      have "distinct (us @ d # vs)" using sh unfolding shape_ok_def strict_sorted_iff by blast
      then have "vs' = vs" using eq True C by (metis append_Cons_eq_iff distinct.simps(2) distinct_append not_distinct_conv_prefix disjoint_iff list.set_intros(1))
      then show ?thesis using True m f l by auto
    next
      case False
      then show ?thesis using links_okD[of k md h us' x vs'] dd(4)[OF h] eq pos_inj[OF shd(1) x] by simp
    qed
  qed
  have "chains_inv k ?md (C(h := C h)) F"
  proof (rule chains_inv_upd[OF inv h _ _ _ dd(3)[OF h] links])
    show "?md ! i = md ! i" if "h' < 2 ^ k" "h' \<noteq> h" "i \<in> cells k h' (C h')" for h' i
      using dd(5)[OF h that(1), of i] C that l by (auto simp: nth_list_update)
    show "i \<notin> cells k h (C h) \<and> i \<notin> F" if "h' < 2 ^ k" "h' \<noteq> h" "i \<in> cells k h' (C h')" for h' i
      using dd(5)[OF h that(1), of i] dd(6)[OF that(1,3)] that by auto
    show "cells k h (C h) \<inter> F = {}" using dd(6)[OF h] by auto
    have "?i \<in> occupied k md" using occupied_split[OF inv h] C by auto
    moreover have "meta f (d = 0) (next_disp vs) \<noteq> VT_EMPTY" using meta_more(3)[OF f shd(3)] shd(4) by simp
    ultimately have "occupied k ?md = occupied k md" unfolding m using l by (simp add: occupied_upd insert_absorb)
    then show "occupied k ?md = (\<Union>h' \<in> {..<2 ^ k} - {h}. cells k h' (C h')) \<union> cells k h (C h) \<union> F"
      using occupied_split[OF inv h] by simp
  qed simp_all
  then show ?thesis by simp
qed

section \<open>The loops on a table\<close>

definition vt_shape :: "nat \<Rightarrow> ('k, 'v) vt_table \<Rightarrow> bool" where
  "vt_shape k t \<longleftrightarrow> buckets_mask t = 2 ^ k - 1 \<and> 0 < k \<and> k < 64 \<and> length (buckets t) = 2 ^ k"

lemma rd_simp [simp]: "i < length xs \<Longrightarrow> rd xs i = Some (xs ! i)"
  by (simp add: rd_def)

lemma probe_pos: "vt_shape k t \<Longrightarrow> (h + tri d) AND buckets_mask t = pos k h d"
  using and_mask_nat[of "h + tri d" k] by (simp add: vt_shape_def pos_def)

lemma probe_and: "vt_shape k t \<Longrightarrow> n AND buckets_mask t = n mod 2 ^ k"
  using and_mask_nat[of n k] by (simp add: vt_shape_def)

lemma md_pos_less [simp]: "chains_inv k md C F \<Longrightarrow> pos k h d < length md"
  by (simp add: chains_invD(1) trans_less_add1)

text \<open>What a chain cell holds.\<close>

lemma cell_meta:
  assumes inv: "chains_inv k md C F" and h: "h < 2 ^ k" and C: "C h = us @ d # vs"
  obtains f where "is_frag f" "md ! pos k h d = meta f (d = 0) (next_disp vs)" "next_disp vs < 2048" "d < next_disp vs" "d < 2 ^ k"
  using links_okD[of k md h us d vs] shape_okD[of k us d vs] chains_invD(3,4)[OF inv h] C by metis

lemma displacement_at_cell:
  assumes "chains_inv k (metadata t) C F" "h < 2 ^ k" "C h = us @ d # vs"
  shows "displacement_at t (pos k h d) = Some (of_nat (next_disp vs))" "next_disp vs < 2048"
proof -
  obtain f where f: "is_frag f" "metadata t ! pos k h d = meta f (d = 0) (next_disp vs)" "next_disp vs < 2048"
    using cell_meta[OF assms] by metis
  then show "displacement_at t (pos k h d) = Some (of_nat (next_disp vs))" "next_disp vs < 2048"
    using meta_fields(3)[OF f(1,3)] md_pos_less[OF assms(1)] by (simp_all add: displacement_at_def)
qed

lemma last_cell_iff:
  assumes "chains_inv k md C F" "h < 2 ^ k" "C h = us @ d # vs"
  shows "md ! pos k h d AND VT_DISPLACEMENT_MASK = VT_DISPLACEMENT_MASK \<longleftrightarrow> vs = []"
proof -
  obtain f where f: "is_frag f" "md ! pos k h d = meta f (d = 0) (next_disp vs)" "next_disp vs < 2048"
    using cell_meta[OF assms] by metis
  have "next_disp vs = 2047 \<longleftrightarrow> vs = []"
    using chains_invD(3)[OF assms(1,2)] assms(3) by (cases vs) (auto simp: shape_ok_def)
  then show ?thesis using meta_more(2)[OF f(1,3), of "d = 0"] f(2) by simp
qed

lemma home_flag_iff:
  assumes "chains_inv k md C F" "h < 2 ^ k" "C h = us @ d # vs"
  shows "md ! pos k h d AND VT_IN_HOME_BUCKET_MASK = 0 \<longleftrightarrow> d \<noteq> 0"
  using cell_meta[OF assms] by (metis meta_fields(2))

lemma find_insert_location_from_ok:
  assumes t: "vt_shape k t" and inv: "chains_inv k (metadata t) C F" and h: "h < 2 ^ k"
    and C: "C h = us @ d # vs" and e: "d < e" "e \<notin> set vs" "e < 2047"
  shows "\<exists>us' p vs'. C h = us' @ p # vs' \<and> p < e \<and> e < next_disp vs' \<and> find_insert_location_from t h (of_nat e) (pos k h d) = Some (pos k h p)"
  using C e
proof (induction vs arbitrary: us d)
  case Nil
  have "find_insert_location_from t h (of_nat e) (pos k h d) = Some (pos k h d)"
    using Nil.prems of_nat16_less[of e 2047]
    by (subst find_insert_location_from.simps) (simp add: displacement_at_cell[OF inv h Nil.prems(1)])
  then show ?case using Nil.prems by - (rule exI[of _ us], rule exI[of _ d], rule exI[of _ "[]"], simp)
next
  case (Cons v vs)
  note disp = displacement_at_cell[OF inv h Cons.prems(1)]
  show ?case
  proof (cases "v > e")
    case True
    then have "find_insert_location_from t h (of_nat e) (pos k h d) = Some (pos k h d)"
      using disp(2) Cons.prems(4) by (subst find_insert_location_from.simps) (simp add: disp of_nat16_less)
    then show ?thesis using Cons.prems(1,2) True
      by - (rule exI[of _ us], rule exI[of _ d], rule exI[of _ "v # vs"], simp)
  next
    case False
    then have "C h = (us @ [d]) @ v # vs" "v < e" "e \<notin> set vs" using Cons.prems by auto
    from Cons.IH[OF this Cons.prems(4)] show ?thesis
      using False disp(2) Cons.prems(4)
      by (subst find_insert_location_from.simps) (simp add: disp probe_pos[OF t] of_nat16_less)
  qed
qed

lemma find_prev_from_ok:
  assumes t: "vt_shape k t" and inv: "chains_inv k (metadata t) C F" and h: "h < 2 ^ k"
    and C: "C h = us @ ws @ p # d # vs"
  shows "find_prev_from t h (pos k h d) (pos k h (hd (ws @ [p]))) = Some (pos k h p)"
  using C
proof (induction ws arbitrary: us)
  case Nil
  then show ?case
    using displacement_at_cell[OF inv h, of us p "d # vs"]
    by (subst find_prev_from.simps) (simp add: probe_pos[OF t])
next
  case (Cons w ws)
  define y where "y = hd (ws @ [p])"
  have C': "C h = us @ w # ws @ p # d # vs" "C h = (us @ [w]) @ ws @ p # d # vs" using Cons.prems by auto
  have nd: "next_disp (ws @ p # d # vs) = y" by (cases ws) (simp_all add: y_def)
  have sh: "shape_ok k (us @ w # ws @ p # d # vs)" using chains_invD(3)[OF inv h] C'(1) by simp
  have "y \<noteq> d" "y < 2 ^ k" "d < 2 ^ k" using sh by (cases ws; auto simp: y_def shape_ok_def sorted_wrt_append)+
  then have "pos k h y \<noteq> pos k h d" using pos_inj by metis
  then show ?case
    using displacement_at_cell[OF inv h C'(1)] Cons.IH[OF C'(2)] unfolding nd y_def[symmetric]
    by (subst find_prev_from.simps) (simp add: probe_pos[OF t])
qed

lemma find_last_from_ok:
  assumes t: "vt_shape k t" and inv: "chains_inv k (metadata t) C F" and h: "h < 2 ^ k"
    and C: "C h = us @ d # vs" "vs \<noteq> []"
  shows "\<exists>ws p z. d # vs = ws @ [p, z] \<and> find_last_from t h (pos k h d) = Some (pos k h p, pos k h z)"
  using C
proof (induction vs arbitrary: us d)
  case Nil
  then show ?case by simp
next
  case (Cons v vs)
  note disp = displacement_at_cell[OF inv h Cons.prems(1)]
  have C': "C h = (us @ [d]) @ v # vs" using Cons.prems by auto
  note last = last_cell_iff[OF inv h C']
  show ?case
  proof (cases "vs = []")
    case True
    then show ?thesis using last md_pos_less[OF inv, of h v] disp(2)
      by (subst find_last_from.simps) (auto simp: disp(1) probe_pos[OF t] intro!: exI[of _ "[]"])
  next
    case False
    from Cons.IH[OF C' this] obtain ws p z where "v # vs = ws @ [p, z]" "find_last_from t h (pos k h v) = Some (pos k h p, pos k h z)" by blast
    moreover have "find_last_from t h (pos k h d) = find_last_from t h (pos k h v)"
      using last False md_pos_less[OF inv, of h v] disp(2)
      by (subst find_last_from.simps) (simp add: disp(1) probe_pos[OF t])
    ultimately show ?thesis by (intro exI[of _ "d # ws"]) auto
  qed
qed

lemma find_first_empty_from_ok:
  assumes mask: "buckets_mask t = 2 ^ k - 1" and len: "2 ^ k \<le> length (metadata t)" and d: "1 \<le> d" "d < 2047"
  shows "(\<exists>e. d \<le> e \<and> e < 2047 \<and> pos k h e \<notin> occupied k (metadata t)
        \<and> (\<forall>x. d \<le> x \<longrightarrow> x < e \<longrightarrow> pos k h x \<in> occupied k (metadata t))
        \<and> find_first_empty_from t h (of_nat d) (tri d) = Some (Some (pos k h e, of_nat e)))
    \<or> (\<forall>x. d \<le> x \<longrightarrow> x < 2047 \<longrightarrow> pos k h x \<in> occupied k (metadata t)) \<and> find_first_empty_from t h (of_nat d) (tri d) = Some None"
  using d
proof (induction "2047 - d" arbitrary: d)
  case 0
  then show ?case by simp
next
  case (Suc n)
  have md: "metadata t ! pos k h d = VT_EMPTY \<longleftrightarrow> pos k h d \<notin> occupied k (metadata t)" by (simp add: occupied_def)
  have p: "(h + tri d) AND buckets_mask t = pos k h d" "pos k h d < length (metadata t)"
    using mask and_mask_nat[of "h + tri d" k] order_less_le_trans[OF pos_less len] by (simp_all add: pos_def)
  have nx: "(of_nat d :: 16 word) + 1 = of_nat (Suc d)" "(of_nat (Suc d) :: 16 word) = VT_DISPLACEMENT_MASK \<longleftrightarrow> Suc d = 2047"
    "unat (of_nat (Suc d) :: 16 word) = Suc d"
    using Suc.prems of_nat16_eq[of "Suc d" 2047] by (simp_all add: VT_DISPLACEMENT_MASK_def unat_displacement del: of_nat_Suc) simp
  have unf: "find_first_empty_from t h (of_nat d) (tri d) =
    (if pos k h d \<notin> occupied k (metadata t) then Some (Some (pos k h d, of_nat d))
     else if Suc d = 2047 then Some None else find_first_empty_from t h (of_nat (Suc d)) (tri (Suc d)))"
    by (subst find_first_empty_from.simps)
      (simp add: p md tri_Suc nx Let_def del: of_nat_Suc)
  show ?case
  proof (cases "pos k h d \<notin> occupied k (metadata t) \<or> Suc d = 2047")
    case True
    then show ?thesis unfolding unf using Suc.prems by (auto intro!: exI[of _ d] simp: less_Suc_eq_le dest!: le_antisym)
  next
    case False
    then have "Suc d < 2047" "n = 2047 - Suc d" using Suc by auto
    from Suc.hyps(1)[OF this(2) _ this(1)]
    have IH: "(\<exists>e. Suc d \<le> e \<and> e < 2047 \<and> pos k h e \<notin> occupied k (metadata t)
        \<and> (\<forall>x. Suc d \<le> x \<longrightarrow> x < e \<longrightarrow> pos k h x \<in> occupied k (metadata t))
        \<and> find_first_empty_from t h (of_nat (Suc d)) (tri (Suc d)) = Some (Some (pos k h e, of_nat e)))
      \<or> (\<forall>x. Suc d \<le> x \<longrightarrow> x < 2047 \<longrightarrow> pos k h x \<in> occupied k (metadata t)) \<and> find_first_empty_from t h (of_nat (Suc d)) (tri (Suc d)) = Some None"
      by simp
    have unf': "find_first_empty_from t h (of_nat d) (tri d) = find_first_empty_from t h (of_nat (Suc d)) (tri (Suc d))"
      and occ: "pos k h d \<in> occupied k (metadata t)"
      unfolding unf using False by auto
    have all: "\<forall>x. d \<le> x \<longrightarrow> x < e \<longrightarrow> pos k h x \<in> occupied k (metadata t)"
      if "\<forall>x. Suc d \<le> x \<longrightarrow> x < e \<longrightarrow> pos k h x \<in> occupied k (metadata t)" for e
      using that occ by (metis le_neq_implies_less Suc_leI)
    from IH consider (found) e where "Suc d \<le> e" "e < 2047" "pos k h e \<notin> occupied k (metadata t)"
        "\<forall>x. Suc d \<le> x \<longrightarrow> x < e \<longrightarrow> pos k h x \<in> occupied k (metadata t)"
        "find_first_empty_from t h (of_nat (Suc d)) (tri (Suc d)) = Some (Some (pos k h e, of_nat e))"
      | (full) "\<forall>x. Suc d \<le> x \<longrightarrow> x < 2047 \<longrightarrow> pos k h x \<in> occupied k (metadata t)"
        "find_first_empty_from t h (of_nat (Suc d)) (tri (Suc d)) = Some None" by blast
    then show ?thesis
    proof cases
      case found
      then show ?thesis unfolding unf' using all[OF found(4)] by (intro disjI1 exI[of _ e]) simp
    next
      case full
      then show ?thesis unfolding unf' using all[OF full(1)] by simp
    qed
  qed
qed

end
