(* ===== verification/Verstable_Table.thy ===== *)
theory Verstable_Table
  imports Verstable_Chains
begin

unbundle bit_operations_syntax

text \<open>
  The invariant of a table (\<open>vt_inv\<close>, \<open>vt_ok\<close>: the chains hold the keys of their home bucket,
  with their hash fragments, each key once, counted), its contents as a map (\<open>vt_map\<close>), and the
  steps that operations are made of: searching a chain, linking a key, evicting one.
\<close>

section \<open>The table invariant\<close>

definition home_in :: "('k \<Rightarrow> 64 word) \<Rightarrow> nat \<Rightarrow> 'k \<Rightarrow> nat" where
  "home_in HASH_FN k key = unat (HASH_FN key) mod 2 ^ k"

lemma home_in_less [simp]: "home_in HASH_FN k key < 2 ^ k"
  by (simp add: home_in_def)

lemma home_of_home_in:
  assumes "vt_shape k t"
  shows "home_of HASH_FN t key = home_in HASH_FN k key"
proof -
  have k: "k < 64" "buckets_mask t = 2 ^ k - 1" using assms by (simp_all add: vt_shape_def)
  have "(of_nat (2 ^ k - 1) :: 64 word) = mask k" by (simp add: mask_eq_exp_minus_1 of_nat_diff)
  then have "HASH_FN key AND of_nat (buckets_mask t) = take_bit k (HASH_FN key)" by (simp add: k take_bit_eq_mask)
  then show ?thesis unfolding home_of_def home_in_def
    by (simp only: unsigned_take_bit_eq) (simp add: take_bit_eq_mod)
qed

text \<open>The key and value stored in a bucket.\<close>

definition cell_ok :: "('k \<Rightarrow> 64 word) \<Rightarrow> nat \<Rightarrow> ('k, 'v) vt_table \<Rightarrow> nat \<Rightarrow> nat \<Rightarrow> bool" where
  "cell_ok HASH_FN k t h i \<longleftrightarrow> (\<exists>key v. buckets t ! i = Some (key, v) \<and> home_in HASH_FN k key = h
     \<and> metadata t ! i AND VT_HASH_FRAG_MASK = vt_hashfrag (HASH_FN key))"

definition vt_inv :: "('k \<Rightarrow> 64 word) \<Rightarrow> nat \<Rightarrow> ('k, 'v) vt_table \<Rightarrow> (nat \<Rightarrow> nat list) \<Rightarrow> nat set \<Rightarrow> bool" where
  "vt_inv HASH_FN k t C F \<longleftrightarrow> vt_shape k t \<and> chains_inv k (metadata t) C F
     \<and> (\<forall>h < 2 ^ k. \<forall>i \<in> cells k h (C h). cell_ok HASH_FN k t h i)"

text \<open>The contents: key and value of every occupied bucket.\<close>

definition cont :: "('k, 'v) vt_table \<Rightarrow> nat \<Rightarrow> ('k \<times> 'v) option" where
  "cont t i = (if i < length (buckets t) \<and> metadata t ! i \<noteq> VT_EMPTY then buckets t ! i else None)"

definition keys_once :: "(nat \<Rightarrow> ('k \<times> 'v) option) \<Rightarrow> bool" where
  "keys_once c \<longleftrightarrow> (\<forall>i j key v v'. c i = Some (key, v) \<longrightarrow> c j = Some (key, v') \<longrightarrow> i = j)"

definition vt_entries :: "('k, 'v) vt_table \<Rightarrow> ('k \<times> 'v) list" where
  "vt_entries t = List.map_filter (cont t) [0..<length (buckets t)]"

definition vt_map :: "('k, 'v) vt_table \<Rightarrow> 'k \<rightharpoonup> 'v" where
  "vt_map t = map_of (vt_entries t)"

lemma cont_bound: "cont t i = Some b \<Longrightarrow> i < length (buckets t)"
  by (auto simp: cont_def split: if_splits)

lemma set_vt_entries: "set (vt_entries t) = {b. \<exists>i. cont t i = Some b}"
  using cont_bound by (force simp: vt_entries_def map_filter_def)

lemma vt_map_Some:
  assumes "keys_once (cont t)"
  shows "vt_map t key = Some v \<longleftrightarrow> (\<exists>i. cont t i = Some (key, v))"
proof
  assume "vt_map t key = Some v"
  then show "\<exists>i. cont t i = Some (key, v)" using map_of_SomeD[of "vt_entries t" key v] by (simp add: vt_map_def set_vt_entries)
next
  assume r: "\<exists>i. cont t i = Some (key, v)"
  then have "vt_map t key \<noteq> None" unfolding vt_map_def map_of_eq_None_iff using set_vt_entries[of t] by force
  then obtain v' where v': "vt_map t key = Some v'" by auto
  then have "\<exists>i. cont t i = Some (key, v')" using map_of_SomeD[of "vt_entries t" key v'] by (simp add: vt_map_def set_vt_entries)
  then show "vt_map t key = Some v" using r assms v' unfolding keys_once_def by (metis option.inject prod.inject)
qed

lemma vt_map_None: "keys_once (cont t) \<Longrightarrow> vt_map t key = None \<longleftrightarrow> (\<forall>i v. cont t i \<noteq> Some (key, v))"
  by (metis vt_map_Some not_None_eq)

lemma vt_map_eqI:
  assumes "keys_once (cont t)" "\<And>key v. m key = Some v \<longleftrightarrow> (\<exists>i. cont t i = Some (key, v))"
  shows "vt_map t = m"
proof
  fix key
  show "vt_map t key = m key"
    using assms(2)[of key] vt_map_Some[OF assms(1), of key] by (metis not_None_eq)
qed

definition vt_counted :: "nat \<Rightarrow> ('k, 'v) vt_table \<Rightarrow> bool" where
  "vt_counted k t \<longleftrightarrow> key_count t = card (occupied k (metadata t)) \<and> keys_once (cont t)"

lemma vt_invD:
  assumes "vt_inv HASH_FN k t C F"
  shows "vt_shape k t" "chains_inv k (metadata t) C F" "\<And>h i. h < 2 ^ k \<Longrightarrow> i \<in> cells k h (C h) \<Longrightarrow> cell_ok HASH_FN k t h i"
    "length (buckets t) = 2 ^ k" "length (metadata t) = 2 ^ k + 4" "buckets_mask t = 2 ^ k - 1" "0 < k"
  using assms chains_invD(1) by (auto simp: vt_inv_def vt_shape_def)

lemma cont_cell:
  assumes inv: "vt_inv HASH_FN k t C F" and h: "h < 2 ^ k" and i: "i \<in> cells k h (C h)"
  obtains key v where "cont t i = Some (key, v)" "buckets t ! i = Some (key, v)" "home_in HASH_FN k key = h"
    "metadata t ! i AND VT_HASH_FRAG_MASK = vt_hashfrag (HASH_FN key)" "bucket_at t i = Some (key, v)"
proof -
  note d = vt_invD[OF inv]
  have o: "i \<in> occupied k (metadata t)" using occupied_split[OF d(2) h] i by blast
  then have "i < 2 ^ k" "metadata t ! i \<noteq> VT_EMPTY" by (auto simp: occupied_def)
  then show ?thesis using d(3)[OF h i] d(4) that by (auto simp: cell_ok_def cont_def bucket_at_def)
qed

lemma cont_in_chain:
  assumes inv: "vt_inv HASH_FN k t C {}" and c: "cont t i = Some (key, v)"
  obtains us d vs where "C (home_in HASH_FN k key) = us @ d # vs" "i = pos k (home_in HASH_FN k key) d"
proof -
  note d = vt_invD[OF inv]
  have "i \<in> occupied k (metadata t)" using c d(4) by (auto simp: cont_def occupied_def split: if_splits)
  from cell_in_chain[OF d(2) this] obtain h us x vs where h: "h < 2 ^ k" "C h = us @ x # vs" "i = pos k h x" by blast
  then have "i \<in> cells k h (C h)" by simp
  then have "home_in HASH_FN k key = h" using cont_cell[OF inv h(1)] c by (metis option.inject prod.inject)
  then show ?thesis using h that by auto
qed

section \<open>Lookup\<close>

lemma chain_lookup_ok:
  assumes inv: "vt_inv HASH_FN k t C F" and h: "h = home_in HASH_FN k key" and C: "C h = us @ d # vs"
  shows "chain_lookup t key (vt_hashfrag (HASH_FN key)) h (pos k h d) =
    Some (case find (\<lambda>x. map_option fst (cont t (pos k h x)) = Some key) (d # vs) of None \<Rightarrow> None | Some x \<Rightarrow> Some (pos k h x))"
  using C
proof (induction vs arbitrary: us d)
  case (Nil us d)
  note di = vt_invD[OF inv]
  have hk: "h < 2 ^ k" by (simp add: h)
  have ic: "pos k h d \<in> cells k h (C h)" using Nil by simp
  obtain key' v where c: "cont t (pos k h d) = Some (key', v)" "metadata t ! pos k h d AND VT_HASH_FRAG_MASK = vt_hashfrag (HASH_FN key')"
    "bucket_at t (pos k h d) = Some (key', v)" using cont_cell[OF inv hk ic] by metis
  have "metadata t ! pos k h d AND VT_DISPLACEMENT_MASK = VT_DISPLACEMENT_MASK" using last_cell_iff[OF di(2) hk Nil] by simp
  then show ?case using c md_pos_less[OF di(2)] by (subst chain_lookup.simps) auto
next
  case (Cons v vs)
  note di = vt_invD[OF inv]
  have hk: "h < 2 ^ k" by (simp add: h)
  have ic: "pos k h d \<in> cells k h (C h)" using Cons.prems by simp
  obtain key' v' where c: "cont t (pos k h d) = Some (key', v')" "metadata t ! pos k h d AND VT_HASH_FRAG_MASK = vt_hashfrag (HASH_FN key')"
    "bucket_at t (pos k h d) = Some (key', v')" using cont_cell[OF inv hk ic] by metis
  have "metadata t ! pos k h d AND VT_DISPLACEMENT_MASK \<noteq> VT_DISPLACEMENT_MASK" using last_cell_iff[OF di(2) hk Cons.prems] by simp
  moreover have "unat (metadata t ! pos k h d AND VT_DISPLACEMENT_MASK) = v"
    using displacement_at_cell[OF di(2) hk Cons.prems] md_pos_less[OF di(2)] by (simp add: displacement_at_def unat_displacement)
  moreover have "chain_lookup t key (vt_hashfrag (HASH_FN key)) h (pos k h v) =
    Some (case find (\<lambda>x. map_option fst (cont t (pos k h x)) = Some key) (v # vs) of None \<Rightarrow> None | Some x \<Rightarrow> Some (pos k h x))"
    using Cons.IH[of "us @ [d]" v] Cons.prems by simp
  ultimately show ?case using c md_pos_less[OF di(2)] by (subst chain_lookup.simps) (auto simp: probe_pos[OF di(1)] vt_quadratic_tri)
qed

text \<open>A home bucket whose flag is unset starts no chain.\<close>

lemma home_flag_home:
  assumes inv: "vt_inv HASH_FN k t C {}" and h: "h < 2 ^ k"
  shows "metadata t ! h AND VT_IN_HOME_BUCKET_MASK = 0 \<longleftrightarrow> C h = []"
proof (cases "C h")
  case Nil
  show ?thesis
  proof (cases "h \<in> occupied k (metadata t)")
    case True
    then obtain g us d vs where g: "g < 2 ^ k" "C g = us @ d # vs" "h = pos k g d" using cell_in_chain[OF vt_invD(2)[OF inv] True] by blast
    have "d \<noteq> 0" using g Nil by (cases "d = 0") auto
    then show ?thesis using home_flag_iff[OF vt_invD(2)[OF inv] g(1,2)] g(3) Nil by simp
  next
    case False
    then show ?thesis using h Nil by (simp add: occupied_def VT_EMPTY_def)
  qed
next
  case (Cons x xs)
  then have "x = 0" using chains_invD(3)[OF vt_invD(2)[OF inv] h] by (simp add: shape_ok_def)
  then show ?thesis using home_flag_iff[OF vt_invD(2)[OF inv] h, of "[]" x xs] Cons h by simp
qed

definition found_at :: "('k \<Rightarrow> 64 word) \<Rightarrow> nat \<Rightarrow> ('k, 'v) vt_table \<Rightarrow> 'k \<Rightarrow> nat option \<Rightarrow> bool" where
  "found_at HASH_FN k t key r \<longleftrightarrow> (case r of None \<Rightarrow> \<forall>i v. cont t i \<noteq> Some (key, v) | Some i \<Rightarrow> \<exists>v. cont t i = Some (key, v))"

lemma lookup_found:
  assumes inv: "vt_inv HASH_FN k t C {}" and h: "h = home_in HASH_FN k key" and ne: "C h \<noteq> []"
  shows "\<exists>r. chain_lookup t key (vt_hashfrag (HASH_FN key)) h h = Some r \<and> found_at HASH_FN k t key r"
proof -
  have hk: "h < 2 ^ k" by (simp add: h)
  obtain vs where C: "C h = [] @ 0 # vs"
    using chains_invD(3)[OF vt_invD(2)[OF inv] hk] ne by (cases "C h") (auto simp: shape_ok_def)
  let ?f = "find (\<lambda>x. map_option fst (cont t (pos k h x)) = Some key) (0 # vs)"
  have l: "chain_lookup t key (vt_hashfrag (HASH_FN key)) h h = Some (case ?f of None \<Rightarrow> None | Some x \<Rightarrow> Some (pos k h x))"
    using chain_lookup_ok[OF inv h C] hk by simp
  have "found_at HASH_FN k t key (case ?f of None \<Rightarrow> None | Some x \<Rightarrow> Some (pos k h x))"
  proof (cases ?f)
    case None
    have "cont t i \<noteq> Some (key, v)" for i v
    proof
      assume c: "cont t i = Some (key, v)"
      then obtain us d ws where "C h = us @ d # ws" "i = pos k h d" using cont_in_chain[OF inv] h by metis
      then show False using None c C by (auto simp: find_None_iff)
    qed
    then show ?thesis using None by (simp add: found_at_def)
  next
    case (Some x)
    then have "map_option fst (cont t (pos k h x)) = Some key" unfolding find_Some_iff by blast
    then show ?thesis unfolding Some by (auto simp: found_at_def)
  qed
  then show ?thesis using l by blast
qed

lemma vt_get_ok:
  assumes inv: "vt_inv HASH_FN k t C {}"
  shows "\<exists>r. vt_get HASH_FN t key = Some (case r of None \<Rightarrow> vt_end_itr | Some i \<Rightarrow> itr_to t i (home_in HASH_FN k key)) \<and> found_at HASH_FN k t key r"
proof -
  let ?h = "home_in HASH_FN k key"
  note d = vt_invD[OF inv]
  have hk: "?h < 2 ^ k" by simp
  have rd: "rd (metadata t) ?h = Some (metadata t ! ?h)" using d(5) by (simp add: trans_less_add1)
  show ?thesis
  proof (cases "C ?h = []")
    case True
    have "cont t i \<noteq> Some (key, v)" for i v
      using cont_in_chain[OF inv, of i key v] True by (metis append_is_Nil_conv list.distinct(1))
    then show ?thesis using rd home_flag_home[OF inv hk] True
      by (intro exI[of _ None]) (simp add: vt_get_def home_of_home_in[OF d(1)] found_at_def)
  next
    case False
    obtain r where r: "chain_lookup t key (vt_hashfrag (HASH_FN key)) ?h ?h = Some r" "found_at HASH_FN k t key r"
      using lookup_found[OF inv refl False] by blast
    then show ?thesis using rd home_flag_home[OF inv hk] False
      by (intro exI[of _ r]) (simp add: vt_get_def home_of_home_in[OF d(1)] split: option.split)
  qed
qed

section \<open>Inserting into a chain\<close>

lemma frag_with_displacement: "d < 2048 \<Longrightarrow> with_displacement m (of_nat d) AND VT_HASH_FRAG_MASK = m AND VT_HASH_FRAG_MASK"
proof (rule bit_word_eqI)
  fix n
  assume "d < 2048"
  then show "bit (with_displacement m (of_nat d) AND VT_HASH_FRAG_MASK) n = bit (m AND VT_HASH_FRAG_MASK) n"
    using bit_displacement[of d n] by (auto simp: with_displacement_def bit_simps)
qed

lemma frag_AND [simp]: "is_frag (m AND VT_HASH_FRAG_MASK)"
  by (simp add: is_frag_def and.assoc)

lemma cell_ok_cong:
  "buckets t' ! i = buckets t ! i \<Longrightarrow> metadata t' ! i AND VT_HASH_FRAG_MASK = metadata t ! i AND VT_HASH_FRAG_MASK \<Longrightarrow>
    cell_ok HASH_FN k t' h i = cell_ok HASH_FN k t h i"
  by (simp add: cell_ok_def)

lemma link_effect:
  assumes inv: "vt_inv HASH_FN k t C F" and g: "g = home_in HASH_FN k key" and C: "C g \<noteq> []"
    and e: "1 \<le> e" "e < 2047" "e < 2 ^ k" "pos k g e \<notin> occupied k (metadata t)"
  shows "\<exists>prev C'. vt_find_insert_location_in_chain t g (of_nat e) = Some prev \<and> prev < length (metadata t) \<and> prev \<noteq> pos k g e
    \<and> vt_inv HASH_FN k (t\<lparr>buckets := (buckets t)[pos k g e := Some (key, v)],
        metadata := ((metadata t)[pos k g e := vt_hashfrag (HASH_FN key) OR (metadata t ! prev AND VT_DISPLACEMENT_MASK)])
          [prev := with_displacement (metadata t ! prev) (of_nat e)]\<rparr>) C' F
    \<and> (\<forall>h. h \<noteq> g \<longrightarrow> C' h = C h) \<and> C' g \<noteq> [] \<and> prev \<in> occupied k (metadata t)
    \<and> with_displacement (metadata t ! prev) (of_nat e) \<noteq> VT_EMPTY
    \<and> vt_hashfrag (HASH_FN key) OR (metadata t ! prev AND VT_DISPLACEMENT_MASK) \<noteq> VT_EMPTY"
proof -
  note di = vt_invD[OF inv]
  let ?f = "vt_hashfrag (HASH_FN key)" and ?md = "metadata t" and ?e = "pos k g e"
  have gk: "g < 2 ^ k" by (simp add: g)
  obtain vs where C0: "C g = [] @ 0 # vs"
    using chains_invD(3)[OF di(2) gk] C by (cases "C g") (auto simp: shape_ok_def)
  have ne: "e \<notin> set vs"
  proof
    assume "e \<in> set vs"
    then have "?e \<in> cells k g (C g)" using C0 by (auto simp: cells_def)
    then show False using e(4) occupied_split[OF di(2) gk] by blast
  qed
  obtain us p vs' where p: "C g = us @ p # vs'" "p < e" "e < next_disp vs'" "find_insert_location_from t g (of_nat e) (pos k g 0) = Some (pos k g p)"
    using find_insert_location_from_ok[OF di(1,2) gk C0 _ ne e(2)] e(1) by auto
  let ?p = "pos k g p"
  obtain fp where fp: "is_frag fp" "?md ! ?p = meta fp (p = 0) (next_disp vs')" "next_disp vs' < 2048" "p < 2 ^ k"
    using cell_meta[OF di(2) gk p(1)] by metis
  have m1: "?f OR (?md ! ?p AND VT_DISPLACEMENT_MASK) = meta ?f False (next_disp vs')"
    using meta_fields(3)[OF fp(1,3)] meta_more(5)[OF is_frag_vt_hashfrag fp(3)] fp(2) by simp
  let ?md' = "(?md[?e := ?f OR (?md ! ?p AND VT_DISPLACEMENT_MASK)])[?p := with_displacement (?md ! ?p) (of_nat e)]"
  let ?t' = "t\<lparr>buckets := (buckets t)[?e := Some (key, v)], metadata := ?md'\<rparr>"
  have pe: "?p \<noteq> ?e" using pos_inj[OF fp(4) e(3)] p(2) by auto
  have ch: "chains_inv k ?md' (C(g := us @ p # e # vs')) F"
    using chains_inv_link[OF di(2) gk p(1,2,3) e(3,2,4) is_frag_vt_hashfrag refl] unfolding m1 .
  have cells': "cells k h ((C(g := us @ p # e # vs')) h) = (if h = g then insert ?e (cells k g (C g)) else cells k h (C h))" for h
    using p(1) by auto
  have ok: "cell_ok HASH_FN k ?t' h i" if hi: "h < 2 ^ k" "i \<in> cells k h ((C(g := us @ p # e # vs')) h)" for h i
  proof (cases "i = ?e")
    case True
    have "h = g"
    proof (rule ccontr)
      assume "h \<noteq> g"
      then have "?e \<in> cells k h (C h)" using hi True cells'[of h] by (simp only: if_False)
      then show False using e(4) occupied_split[OF di(2) hi(1)] by blast
    qed
    then show ?thesis using True pe di(4) md_pos_less[OF di(2)] fp(3)
      by (auto simp: cell_ok_def g[symmetric] m1 meta_fields(1)[OF is_frag_vt_hashfrag])
  next
    case False
    then have i: "i \<in> cells k h (C h)" using hi(2) cells'[of h] by (auto split: if_splits)
    have "?md' ! i AND VT_HASH_FRAG_MASK = ?md ! i AND VT_HASH_FRAG_MASK"
    proof (cases "i = ?p")
      case True
      then show ?thesis using md_pos_less[OF di(2)] frag_with_displacement e(2) by simp
    qed (use False in simp)
    then have "cell_ok HASH_FN k ?t' h i = cell_ok HASH_FN k t h i" using False by (intro cell_ok_cong) simp_all
    then show ?thesis using di(3)[OF hi(1) i] by simp
  qed
  have "vt_inv HASH_FN k ?t' (C(g := us @ p # e # vs')) F"
    using ch ok di(1) unfolding vt_inv_def by (simp add: vt_shape_def)
  moreover have "with_displacement (?md ! ?p) (of_nat e) \<noteq> VT_EMPTY"
    using meta_fields(5)[OF fp(1,3), of e] meta_more(3)[OF fp(1), of e] fp(2) e by auto
  moreover have "meta ?f False (next_disp vs') \<noteq> VT_EMPTY" using meta_more(3)[OF is_frag_vt_hashfrag fp(3)] p(3) by simp
  moreover have "?p \<in> occupied k ?md" using occupied_split[OF di(2) gk] p(1) by auto
  ultimately show ?thesis
    using p(4) gk pe md_pos_less[OF di(2)] m1
    by (intro exI[of _ ?p] exI[of _ "C(g := us @ p # e # vs')"]) (auto simp: vt_find_insert_location_in_chain_def)
qed

text \<open>Room for a new key: with one empty bucket the first one found is within the bucket count.\<close>

lemma first_empty_cases:
  assumes inv: "vt_inv HASH_FN k t C F" and g: "g < 2 ^ k" "g \<in> occupied k (metadata t)" and room: "card (occupied k (metadata t)) < 2 ^ k"
  shows "vt_find_first_empty t g = Some None \<and> \<not> (k \<le> 11 \<and> card (occupied k (metadata t)) + 2 \<le> 2 ^ k)
    \<or> (\<exists>e. 1 \<le> e \<and> e < 2047 \<and> e < 2 ^ k \<and> pos k g e \<notin> occupied k (metadata t) \<and> vt_find_first_empty t g = Some (Some (pos k g e, of_nat e)))"
proof -
  note di = vt_invD[OF inv]
  let ?occ = "occupied k (metadata t)"
  have sub: "?occ \<subseteq> {..<2 ^ k}" by (auto simp: occupied_def)
  have ex: "\<exists>d < 2 ^ k. 1 \<le> d \<and> pos k g d = i" if i: "i < 2 ^ k" "i \<notin> ?occ" for i
  proof -
    obtain d where d: "d < 2 ^ k" "pos k g d = i" using pos_surj[OF i(1)] by blast
    then have "d \<noteq> 0" using i(2) g by (cases "d = 0") auto
    then show ?thesis using d by (intro exI[of _ d]) simp
  qed
  have "?occ \<noteq> {..<2 ^ k}" using room by (metis card_lessThan less_irrefl)
  then obtain i where "i < 2 ^ k" "i \<notin> ?occ" using sub by blast
  then obtain d0 where d0: "d0 < 2 ^ k" "1 \<le> d0" "pos k g d0 \<notin> ?occ" using ex by blast
  have two: "\<exists>d. 1 \<le> d \<and> d < 2 ^ k - 1 \<and> pos k g d \<notin> ?occ" if c: "card ?occ + 2 \<le> 2 ^ k"
  proof (rule ccontr)
    assume none: "\<not> ?thesis"
    have "{..<2 ^ k} - {pos k g (2 ^ k - 1)} \<subseteq> ?occ"
    proof
      fix i
      assume i: "i \<in> {..<2 ^ k} - {pos k g (2 ^ k - 1)}"
      show "i \<in> ?occ"
      proof (rule ccontr)
        assume "i \<notin> ?occ"
        then obtain d where d: "d < 2 ^ k" "1 \<le> d" "pos k g d = i" using ex i by blast
        then have "d \<noteq> 2 ^ k - 1" using i by auto
        then show False using d none \<open>i \<notin> ?occ\<close> by auto
      qed
    qed
    then have "card ({..<2 ^ k} - {pos k g (2 ^ k - 1)}) \<le> card ?occ" using sub by (intro card_mono) (auto intro: finite_subset)
    then show False using c by simp
  qed
  have shape: "buckets_mask t = 2 ^ k - 1" "2 ^ k \<le> length (metadata t)" using di(1,5) by (simp_all add: vt_shape_def)
  from find_first_empty_from_ok[OF shape, of 1 g] consider
    (found) e where "1 \<le> e" "e < 2047" "pos k g e \<notin> ?occ" "\<forall>x. 1 \<le> x \<longrightarrow> x < e \<longrightarrow> pos k g x \<in> ?occ"
      "vt_find_first_empty t g = Some (Some (pos k g e, of_nat e))"
    | (full) "\<forall>x. 1 \<le> x \<longrightarrow> x < 2047 \<longrightarrow> pos k g x \<in> ?occ" "vt_find_first_empty t g = Some None"
    by (auto simp: vt_find_first_empty_def)
  then show ?thesis
  proof cases
    case found
    have "e \<le> d0" using found(4) d0(2,3) by (meson not_le)
    then show ?thesis using found d0(1) by auto
  next
    case full
    have "\<not> (k \<le> 11 \<and> card ?occ + 2 \<le> 2 ^ k)"
    proof
      assume c: "k \<le> 11 \<and> card ?occ + 2 \<le> 2 ^ k"
      then obtain d where d: "1 \<le> d" "d < 2 ^ k - 1" "pos k g d \<notin> ?occ" using two by blast
      have "(2 :: nat) ^ k \<le> 2 ^ 11" using c by (intro power_increasing) auto
      then show False using full(1) d by auto
    qed
    then show ?thesis using full by blast
  qed
qed

section \<open>Evicting\<close>

lemma evict_ok:
  assumes inv: "vt_inv HASH_FN k t C {}" and b: "b < 2 ^ k" "b \<in> occupied k (metadata t)" "C b = []"
    and room: "card (occupied k (metadata t)) < 2 ^ k"
  shows "\<exists>ok t' C'. vt_evict HASH_FN b t = Some (ok, t') \<and> vt_inv HASH_FN k t' C' {b} \<and> C' b = [] \<and> key_count t' = key_count t
    \<and> (if ok then \<exists>e. e < 2 ^ k \<and> e \<notin> occupied k (metadata t) \<and> occupied k (metadata t') = insert e (occupied k (metadata t))
          \<and> buckets t' = (buckets t)[e := buckets t ! b]
       else occupied k (metadata t') = occupied k (metadata t) \<and> buckets t' = buckets t
         \<and> \<not> (k \<le> 11 \<and> card (occupied k (metadata t)) + 2 \<le> 2 ^ k))"
proof -
  note di = vt_invD[OF inv]
  let ?md = "metadata t" and ?occ = "occupied k (metadata t)"
  obtain g xs d vs where g: "g < 2 ^ k" "C g = xs @ d # vs" "b = pos k g d" using cell_in_chain[OF di(2) b(2)] by blast
  have gb: "g \<noteq> b" using g(2) b(3) by auto
  then have "d \<noteq> 0" using g(1,3) by (cases "d = 0") auto
  then obtain us p where xs: "xs = us @ [p]"
    using shape_okD(5)[of k xs d vs] chains_invD(3)[OF di(2) g(1)] g(2) by (cases xs rule: rev_cases) auto
  have C: "C g = [] @ us @ p # d # vs" "C g = us @ p # d # vs" using g(2) xs by auto
  have bc: "b \<in> cells k g (C g)" using g by simp
  obtain key v where kv: "buckets t ! b = Some (key, v)" "home_in HASH_FN k key = g" "bucket_at t b = Some (key, v)"
      "?md ! b AND VT_HASH_FRAG_MASK = vt_hashfrag (HASH_FN key)"
    using cont_cell[OF inv g(1) bc] by metis
  have home: "home_of HASH_FN t key = g" using home_of_home_in[OF di(1)] kv(2) by simp
  have hd: "hd (us @ [p]) = 0" using chains_invD(3)[OF di(2) g(1)] C(2) by (cases us) (auto simp: shape_ok_def)
  have prev: "find_prev_from t g b g = Some (pos k g p)"
    using find_prev_from_ok[OF di(1,2) g(1) C(1)] g(1,3) hd by simp
  obtain fb where fb: "is_frag fb" "?md ! b = meta fb (d = 0) (next_disp vs)" "next_disp vs < 2048" "d < 2 ^ k" "d < next_disp vs"
    using cell_meta[OF di(2) g(1), of "us @ [p]" d vs] C(2) g(3) by auto
  obtain fp where fp: "p < 2 ^ k" "p < d" using shape_okD[of k us p "d # vs"] chains_invD(3)[OF di(2) g(1)] C(2) by auto
  define t1 where "t1 = t\<lparr>metadata := ?md[pos k g p := with_displacement (?md ! pos k g p) (of_nat (next_disp vs))]\<rparr>"
  have ch1: "chains_inv k (metadata t1) (C(g := us @ p # vs)) {b}"
    using chains_inv_unlink[OF di(2) g(1) C(2) refl] g(3) by (simp add: t1_def)
  have occ1: "occupied k (metadata t1) = ?occ"
  proof -
    have "(\<Union>h \<in> {..<2 ^ k} - {g}. cells k h ((C(g := us @ p # vs)) h)) = (\<Union>h \<in> {..<2 ^ k} - {g}. cells k h (C h))" by auto
    then show ?thesis using occupied_split[OF ch1 g(1)] occupied_split[OF di(2) g(1)] C(2) g(3) by auto
  qed
  have cok1: "cell_ok HASH_FN k t1 h i" if "h < 2 ^ k" "i \<in> cells k h ((C(g := us @ p # vs)) h)" for h i
  proof -
    have "i \<in> cells k h (C h)" using that C(2) by (auto split: if_splits)
    moreover have "metadata t1 ! i AND VT_HASH_FRAG_MASK = ?md ! i AND VT_HASH_FRAG_MASK"
      using frag_with_displacement[OF fb(3)] md_pos_less[OF di(2)] by (cases "i = pos k g p") (simp_all add: t1_def)
    ultimately show ?thesis using di(3)[OF that(1)] cell_ok_cong[of t1 i t] by (simp add: t1_def)
  qed
  have inv1: "vt_inv HASH_FN k t1 (C(g := us @ p # vs)) {b}"
    using ch1 cok1 di(1) by (auto simp: vt_inv_def vt_shape_def t1_def)
  have pb: "pos k g p \<noteq> b" using pos_inj[OF fp(1) fb(4)] fp(2) g(3) by auto
  have mb1: "metadata t1 ! b = ?md ! b" using pb by (simp add: t1_def)
  have l: "b < length ?md" "pos k g p < length ?md" "b < length (metadata t1)" using di(5) b(1) md_pos_less[OF di(2)] by (simp_all add: t1_def)
  have unf: "vt_evict HASH_FN b t = do {
      found \<leftarrow> vt_find_first_empty t1 g;
      (case found of
        None \<Rightarrow> Some (False, t1)
      | Some (e, displacement) \<Rightarrow> do {
          prev \<leftarrow> vt_find_insert_location_in_chain t1 g displacement;
          t \<leftarrow> set_bucket e (key, v) t1;
          mb \<leftarrow> rd (metadata t) b;
          mp \<leftarrow> rd (metadata t) prev;
          t \<leftarrow> set_metadatum e ((mb AND VT_HASH_FRAG_MASK) OR (mp AND VT_DISPLACEMENT_MASK)) t;
          mp \<leftarrow> rd (metadata t) prev;
          t \<leftarrow> set_metadatum prev (with_displacement mp displacement) t;
          Some (True, t)
        }) }"
    using kv(3) home prev l fb(2) meta_fields(3)[OF fb(1,3), of "d = 0"]
    by (simp add: vt_evict_def set_metadatum_def t1_def Let_def)
  have gocc: "g \<in> occupied k (metadata t1)"
  proof -
    have "g \<in> cells k g (C g)" using C(2) hd g(1) by (cases us) auto
    then show ?thesis using occ1 occupied_split[OF di(2) g(1)] by blast
  qed
  from first_empty_cases[OF inv1 g(1) gocc] room occ1 consider
    (full) "vt_find_first_empty t1 g = Some None" "\<not> (k \<le> 11 \<and> card ?occ + 2 \<le> 2 ^ k)"
    | (found) e where "1 \<le> e" "e < 2047" "e < 2 ^ k" "pos k g e \<notin> ?occ" "vt_find_first_empty t1 g = Some (Some (pos k g e, of_nat e))"
    by auto
  then show ?thesis
  proof cases
    case full
    then show ?thesis using unf inv1 occ1 b(3) gb
      by (intro exI[of _ False] exI[of _ t1] exI[of _ "C(g := us @ p # vs)"]) (simp add: t1_def)
  next
    case found
    let ?e = "pos k g e"
    have ne: "(C(g := us @ p # vs)) g \<noteq> []" by simp
    obtain prev C' where pr: "vt_find_insert_location_in_chain t1 g (of_nat e) = Some prev" "prev < length (metadata t1)" "prev \<noteq> ?e"
      "vt_inv HASH_FN k (t1\<lparr>buckets := (buckets t1)[?e := Some (key, v)],
        metadata := ((metadata t1)[?e := vt_hashfrag (HASH_FN key) OR (metadata t1 ! prev AND VT_DISPLACEMENT_MASK)])
          [prev := with_displacement (metadata t1 ! prev) (of_nat e)]\<rparr>) C' {b}"
      "\<forall>h. h \<noteq> g \<longrightarrow> C' h = (C(g := us @ p # vs)) h" "prev \<in> ?occ"
      "with_displacement (metadata t1 ! prev) (of_nat e) \<noteq> VT_EMPTY"
      "vt_hashfrag (HASH_FN key) OR (metadata t1 ! prev AND VT_DISPLACEMENT_MASK) \<noteq> VT_EMPTY"
      using link_effect[OF inv1 kv(2)[symmetric] ne found(1,2,3) found(4)[folded occ1], of v] unfolding occ1 by blast
    let ?t' = "t1\<lparr>buckets := (buckets t1)[?e := Some (key, v)],
        metadata := ((metadata t1)[?e := vt_hashfrag (HASH_FN key) OR (metadata t1 ! prev AND VT_DISPLACEMENT_MASK)])
          [prev := with_displacement (metadata t1 ! prev) (of_nat e)]\<rparr>"
    have el: "?e < length (buckets t1)" "?e < length (metadata t1)" using di(4) md_pos_less[OF ch1] by (simp_all add: t1_def)
    have ev: "vt_evict HASH_FN b t = Some (True, ?t')"
      using unf found(5) pr(1,2,3) l(3) el kv(4) mb1
      by (simp add: set_bucket_def set_metadatum_def nth_list_update)
    have pk: "prev < 2 ^ k" using pr(6) by (auto simp: occupied_def)
    have "occupied k (metadata ?t') = insert ?e ?occ"
      using pr(2,6,7,8) pk el(2) occ1 by (simp add: occupied_upd insert_absorb insert_commute)
    then show ?thesis using ev pr(4,5) gb b(3) found(4) kv(1)
      by (intro exI[of _ True] exI[of _ ?t'] exI[of _ C']) (auto simp: t1_def intro!: exI[of _ ?e])
  qed
qed

section \<open>Contents under updates\<close>

lemma keys_once_insert:
  "keys_once c \<Longrightarrow> (\<And>i v. c i \<noteq> Some (key, v)) \<Longrightarrow> keys_once (c(e \<mapsto> (key, val)))"
  unfolding keys_once_def by (auto split: if_splits)

lemma keys_once_replace:
  "keys_once c \<Longrightarrow> c i = Some (key, v) \<Longrightarrow> keys_once (c(i \<mapsto> (key, val)))"
  unfolding keys_once_def by (auto split: if_splits)

lemma keys_once_remove: "keys_once c \<Longrightarrow> keys_once (c(i := None))"
  unfolding keys_once_def by (auto split: if_splits)

lemma keys_once_move: "keys_once c \<Longrightarrow> c e = None \<Longrightarrow> b \<noteq> e \<Longrightarrow> keys_once (c(e := c b, b := None))"
  unfolding keys_once_def by (auto split: if_splits)

lemma ex_upd: "(\<exists>i. (c(e \<mapsto> x)) i = Some y) \<longleftrightarrow> y = x \<or> (\<exists>i. i \<noteq> e \<and> c i = Some y)"
  by (metis fun_upd_apply option.inject)

lemma vt_map_insert:
  assumes k: "keys_once (cont t)" and fresh: "\<And>i v. cont t i \<noteq> Some (key, v)" and c: "cont t' = c(e \<mapsto> (key, val))" "c e = None"
    and same: "\<And>p. (\<exists>i. c i = Some p) \<longleftrightarrow> (\<exists>i. cont t i = Some p)" and kc: "keys_once c"
  shows "keys_once (cont t')" "vt_map t' = (vt_map t)(key \<mapsto> val)"
proof -
  have f: "\<And>i v. c i \<noteq> Some (key, v)" using same fresh by metis
  show k': "keys_once (cont t')" using keys_once_insert[OF kc f] c(1) by metis
  show "vt_map t' = (vt_map t)(key \<mapsto> val)"
  proof (rule vt_map_eqI[OF k'])
    fix key' v
    have "(\<exists>i. cont t' i = Some (key', v)) \<longleftrightarrow> (key', v) = (key, val) \<or> (\<exists>i. cont t i = Some (key', v))"
      unfolding c(1) ex_upd using c(2) same by (metis option.distinct(1))
    then show "((vt_map t)(key \<mapsto> val)) key' = Some v \<longleftrightarrow> (\<exists>i. cont t' i = Some (key', v))"
      using vt_map_Some[OF k, of key' v] fresh by auto
  qed
qed

lemma vt_map_replace:
  assumes k: "keys_once (cont t)" and c: "cont t i = Some (key, v)" "cont t' = (cont t)(i \<mapsto> (key, val))"
  shows "keys_once (cont t')" "vt_map t' = (vt_map t)(key \<mapsto> val)"
proof -
  show k': "keys_once (cont t')" using keys_once_replace[OF k c(1)] c(2) by metis
  show "vt_map t' = (vt_map t)(key \<mapsto> val)"
  proof (rule vt_map_eqI[OF k'])
    fix key' v'
    have "(\<exists>j. cont t' j = Some (key', v')) \<longleftrightarrow> (key', v') = (key, val) \<or> key' \<noteq> key \<and> (\<exists>j. cont t j = Some (key', v'))"
      unfolding c(2) ex_upd using c(1) k unfolding keys_once_def by (metis option.inject prod.inject)
    then show "((vt_map t)(key \<mapsto> val)) key' = Some v' \<longleftrightarrow> (\<exists>j. cont t' j = Some (key', v'))"
      using vt_map_Some[OF k, of key' v'] by auto
  qed
qed

lemma vt_map_remove:
  assumes k: "keys_once (cont t)" and c: "cont t i = Some (key, v)" "keys_once (cont t')"
    and same: "\<And>p. (\<exists>j. cont t' j = Some p) \<longleftrightarrow> (\<exists>j. j \<noteq> i \<and> cont t j = Some p)"
  shows "vt_map t' = (vt_map t)(key := None)"
proof (rule vt_map_eqI[OF c(2)])
  fix key' v'
  have "(\<exists>j. cont t' j = Some (key', v')) \<longleftrightarrow> key' \<noteq> key \<and> (\<exists>j. cont t j = Some (key', v'))"
    unfolding same using c(1) k unfolding keys_once_def by (metis option.inject prod.inject)
  then show "((vt_map t)(key := None)) key' = Some v' \<longleftrightarrow> (\<exists>j. cont t' j = Some (key', v'))"
    using vt_map_Some[OF k, of key' v'] by auto
qed

text \<open>How contents change with an update of a bucket and its metadatum.\<close>

lemma cont_upd:
  assumes "vt_shape k t" "i < 2 ^ k" "length (metadata t) = 2 ^ k + 4" "buckets t' = (buckets t)[i := Some p]"
    "occupied k (metadata t') = insert i (occupied k (metadata t))"
  shows "cont t' = (cont t)(i \<mapsto> p)"
proof
  fix j
  have "j < 2 ^ k \<Longrightarrow> j \<noteq> i \<Longrightarrow> metadata t' ! j = VT_EMPTY \<longleftrightarrow> metadata t ! j = VT_EMPTY" "metadata t' ! i \<noteq> VT_EMPTY"
    using assms(5) by (auto simp: occupied_def set_eq_iff)
  then show "cont t' j = ((cont t)(i \<mapsto> p)) j" using assms(1,2,4) by (auto simp: cont_def vt_shape_def)
qed

section \<open>Inserting\<close>

definition vt_ok :: "('k \<Rightarrow> 64 word) \<Rightarrow> nat \<Rightarrow> ('k, 'v) vt_table \<Rightarrow> bool" where
  "vt_ok HASH_FN k t \<longleftrightarrow> 3 \<le> k \<and> k \<le> 11 \<and> (\<exists>C. vt_inv HASH_FN k t C {}) \<and> vt_counted k t"

lemma vt_bucket_count_shape: "vt_shape k t \<Longrightarrow> vt_bucket_count t = 2 ^ k"
  using one_less_power[of "2 :: nat" k] by (simp add: vt_shape_def vt_bucket_count_def)

lemma room_left:
  assumes "3 \<le> k" "\<not> exceeds_max_load (n + 1) (2 ^ k)"
  shows "n + 2 \<le> (2 :: nat) ^ k"
proof -
  have "(2 :: nat) ^ 3 \<le> 2 ^ k" using assms(1) by (intro power_increasing) auto
  then show ?thesis using assms(2) by (simp add: exceeds_max_load_def)
qed

lemma vt_counted_add:
  assumes "vt_counted k t" "i \<notin> occupied k (metadata t)" "occupied k (metadata t') = insert i (occupied k (metadata t))"
    "key_count t' = key_count t + 1" "keys_once (cont t')"
  shows "vt_counted k t'"
proof -
  have "finite (occupied k (metadata t))" by (auto simp: occupied_def)
  then show ?thesis using assms by (simp add: vt_counted_def)
qed

lemma vt_insert_new_home:
  assumes inv: "vt_inv HASH_FN k t C F" and h: "h = home_in HASH_FN k key" and free: "h \<notin> (\<Union>h' < 2 ^ k. cells k h' (C h'))"
  shows "vt_inv HASH_FN k (t\<lparr>buckets := (buckets t)[h := Some (key, val)],
      metadata := (metadata t)[h := vt_hashfrag (HASH_FN key) OR VT_IN_HOME_BUCKET_MASK OR VT_DISPLACEMENT_MASK],
      key_count := n\<rparr>) (C(h := [0])) (F - {h})" (is "vt_inv HASH_FN k ?t' _ _")
    and "occupied k ((metadata t)[h := vt_hashfrag (HASH_FN key) OR VT_IN_HOME_BUCKET_MASK OR VT_DISPLACEMENT_MASK])
      = insert h (occupied k (metadata t))"
proof -
  note di = vt_invD[OF inv]
  have hk: "h < 2 ^ k" by (simp add: h)
  let ?f = "vt_hashfrag (HASH_FN key)"
  note m = meta_more(4)[OF is_frag_vt_hashfrag, of 0, simplified, of "HASH_FN key"]
  have ne: "meta ?f True 2047 \<noteq> VT_EMPTY" using meta_more(3)[OF is_frag_vt_hashfrag, of 2047] by simp
  show "occupied k ((metadata t)[h := ?f OR VT_IN_HOME_BUCKET_MASK OR VT_DISPLACEMENT_MASK]) = insert h (occupied k (metadata t))"
    using hk di(5) ne unfolding m by (simp add: occupied_upd)
  have "cell_ok HASH_FN k ?t' h' i" if hi: "h' < 2 ^ k" "i \<in> cells k h' ((C(h := [0])) h')" for h' i
  proof (cases "h' = h")
    case True
    then have "i = h" using hi hk by simp
    then show ?thesis using True hk di(4,5) unfolding m
      by (auto simp: cell_ok_def h[symmetric] meta_fields(1)[OF is_frag_vt_hashfrag])
  next
    case False
    then have i: "i \<in> cells k h' (C h')" using hi by simp
    then have "i \<noteq> h" using free hi(1) by blast
    then have "cell_ok HASH_FN k ?t' h' i = cell_ok HASH_FN k t h' i" by (intro cell_ok_cong) simp_all
    then show ?thesis using di(3)[OF hi(1) i] by simp
  qed
  then show "vt_inv HASH_FN k ?t' (C(h := [0])) (F - {h})"
    using chains_inv_new[OF di(2) hk free is_frag_vt_hashfrag[of "HASH_FN key"]] di(1) unfolding m
    by (simp add: vt_inv_def vt_shape_def)
qed

definition raw_result :: "('k \<Rightarrow> 64 word) \<Rightarrow> nat \<Rightarrow> 'k \<Rightarrow> 'v \<Rightarrow> bool \<Rightarrow> ('k, 'v) vt_table \<Rightarrow> vt_itr \<Rightarrow> ('k, 'v) vt_table \<Rightarrow> bool" where
  "raw_result HASH_FN k key val replace t itr t' \<longleftrightarrow>
     vt_ok HASH_FN k t' \<and> (\<exists>i. itr = itr_to t' i (home_in HASH_FN k key) \<and> cont t' i = Some (key, the (vt_map t' key)))
     \<and> (case vt_map t key of
          Some v \<Rightarrow> vt_map t' = (vt_map t)(key \<mapsto> if replace then val else v) \<and> key_count t' = key_count t
        | None \<Rightarrow> vt_map t' = (vt_map t)(key \<mapsto> val) \<and> key_count t' = key_count t + 1)"

end
