(* ===== verification/Verstable_Insert.thy ===== *)
theory Verstable_Insert
  imports Verstable_Table
begin

unbundle bit_operations_syntax

text \<open>
  Inserting: the three ways a key is placed, rehashing, and the loop that grows the table.
  Up to 2048 buckets the displacement limit of 2047 is never met, so that an insertion into a
  table below its maximum load cannot fail; all facts are stated for tables of that size.
\<close>

lemma vt_okD:
  assumes "vt_ok HASH_FN k t"
  shows "\<exists>C. vt_inv HASH_FN k t C {}" "3 \<le> k" "k \<le> 11" "key_count t = card (occupied k (metadata t))" "keys_once (cont t)" "vt_shape k t"
    "length (metadata t) = 2 ^ k + 4" "length (buckets t) = 2 ^ k"
  using assms vt_invD by (auto simp: vt_ok_def vt_counted_def)

lemma vt_okI:
  assumes "vt_inv HASH_FN k t C {}" "3 \<le> k" "k \<le> 11" "vt_counted k t"
  shows "vt_ok HASH_FN k t"
  using assms by (auto simp: vt_ok_def)

lemma itr_to_not_end [simp]: "vt_shape k t \<Longrightarrow> i < 2 ^ k \<Longrightarrow> \<not> vt_is_end (itr_to t i h)"
  by (auto simp: vt_is_end_def itr_to_def vt_shape_def)

lemma vt_end_itr_is_end [simp]: "vt_is_end vt_end_itr"
  by (simp add: vt_is_end_def vt_end_itr_def)

lemma cont_not_occupied: "i \<notin> occupied k (metadata t) \<Longrightarrow> length (buckets t) = 2 ^ k \<Longrightarrow> cont t i = None"
  by (auto simp: occupied_def cont_def)

lemma raw_resultI:
  assumes "vt_ok HASH_FN k t'" "vt_map t key = None" "cont t' i = Some (key, val)" "vt_map t' = (vt_map t)(key \<mapsto> val)"
    "key_count t' = key_count t + 1"
  shows "raw_result HASH_FN k key val replace t (itr_to t' i (home_in HASH_FN k key)) t'"
  using assms by (auto simp: raw_result_def)

lemma ex_move:
  assumes "c e = None"
  shows "(\<exists>i. (c(e := c h, h := None)) i = Some p) \<longleftrightarrow> (\<exists>i. c i = Some p)"
proof (cases "e = h")
  case True
  then show ?thesis using assms by (simp add: fun_upd_idem)
next
  case False
  show ?thesis
  proof
    assume "\<exists>i. c i = Some p"
    then obtain i where i: "c i = Some p" by blast
    then have "i \<noteq> e" using assms by auto
    then show "\<exists>i. (c(e := c h, h := None)) i = Some p"
      using i False by (cases "i = h") (auto intro: exI[of _ e] exI[of _ i])
  qed (auto split: if_splits)
qed

text \<open>A key whose home bucket starts no chain: the bucket is freed first when another chain uses it.\<close>

lemma insert_home_ok:
  assumes ok: "vt_ok HASH_FN k t" and inv: "vt_inv HASH_FN k t C {}" and C: "C (home_in HASH_FN k key) = []"
    and room: "\<not> exceeds_max_load (key_count t + 1) (2 ^ k)"
  shows "\<exists>t'. vt_insert_raw HASH_FN key val unique replace t = Some (itr_to t' (home_in HASH_FN k key) (home_in HASH_FN k key), t')
    \<and> raw_result HASH_FN k key val replace t (itr_to t' (home_in HASH_FN k key) (home_in HASH_FN k key)) t'"
proof -
  note d = vt_okD[OF ok] and di = vt_invD[OF inv]
  let ?h = "home_in HASH_FN k key" and ?occ = "occupied k (metadata t)" and ?f = "vt_hashfrag (HASH_FN key) OR VT_IN_HOME_BUCKET_MASK OR VT_DISPLACEMENT_MASK"
  have hk: "?h < 2 ^ k" by simp
  have fresh: "cont t i \<noteq> Some (key, v)" for i v
    using cont_in_chain[OF inv, of i key v] C by (metis append_is_Nil_conv list.distinct(1))
  have none: "vt_map t key = None" using fresh vt_map_None[OF d(5)] by blast
  have lt: "card ?occ + 2 \<le> 2 ^ k" using room_left[OF d(2) room] d(4) by simp
  let ?step = "if metadata t ! ?h \<noteq> VT_EMPTY then vt_evict HASH_FN ?h t else Some (True, t)"
  have hnot: "?h \<notin> (\<Union>h' < 2 ^ k. cells k h' (C' h'))" if "chains_inv k md C' F" "?h \<in> F \<or> ?h \<notin> occupied k md" for md C' F
    using chains_invD(6)[OF that(1)] chains_invD(7)[OF that(1)] that(2) by blast
  have "\<exists>t1 C1 F1 e. ?step = Some (True, t1) \<and> vt_inv HASH_FN k t1 C1 F1 \<and> F1 - {?h} = {} \<and> key_count t1 = key_count t
      \<and> ?h \<notin> (\<Union>h' < 2 ^ k. cells k h' (C1 h')) \<and> e \<notin> ?occ \<and> insert ?h (occupied k (metadata t1)) = insert e ?occ
      \<and> (e = ?h \<and> t1 = t \<or> e \<noteq> ?h \<and> e < 2 ^ k \<and> buckets t1 = (buckets t)[e := buckets t ! ?h])"
  proof (cases "?h \<in> ?occ")
    case False
    then have "?step = Some (True, t)" by (simp add: occupied_def)
    then show ?thesis using inv False hnot[OF di(2)] by - (rule exI[of _ t], rule exI[of _ C], rule exI[of _ "{}"], rule exI[of _ ?h], simp)
  next
    case True
    have "card ?occ < 2 ^ k" using lt by simp
    from evict_ok[OF inv hk True C this] d(3) lt obtain t1 C1 e where e: "vt_evict HASH_FN ?h t = Some (True, t1)" "vt_inv HASH_FN k t1 C1 {?h}"
      "key_count t1 = key_count t" "e < 2 ^ k" "e \<notin> ?occ" "occupied k (metadata t1) = insert e ?occ" "buckets t1 = (buckets t)[e := buckets t ! ?h]"
      by (metis (full_types))
    have "?step = Some (True, t1)" using e(1) True by (simp add: occupied_def)
    then show ?thesis using e True hnot[OF vt_invD(2)[OF e(2)]]
      by - (rule exI[of _ t1], rule exI[of _ C1], rule exI[of _ "{?h}"], rule exI[of _ e], auto)
  qed
  then obtain t1 C1 F1 e where s: "?step = Some (True, t1)" "vt_inv HASH_FN k t1 C1 F1" "F1 - {?h} = {}" "key_count t1 = key_count t"
      "?h \<notin> (\<Union>h' < 2 ^ k. cells k h' (C1 h'))" "e \<notin> ?occ" "insert ?h (occupied k (metadata t1)) = insert e ?occ"
      "e = ?h \<and> t1 = t \<or> e \<noteq> ?h \<and> e < 2 ^ k \<and> buckets t1 = (buckets t)[e := buckets t ! ?h]"
    by (elim exE conjE) (rule that)
  define t' where "t' = t1\<lparr>buckets := (buckets t1)[?h := Some (key, val)], metadata := (metadata t1)[?h := ?f], key_count := key_count t1 + 1\<rparr>"
  note d1 = vt_invD[OF s(2)]
  have inv': "vt_inv HASH_FN k t' (C1(?h := [0])) {}"
    using vt_insert_new_home(1)[OF s(2) refl s(5), where val = val and n = "key_count t1 + 1"] s(3) by (simp add: t'_def)
  have occ': "occupied k (metadata t') = insert e ?occ"
    using vt_insert_new_home(2)[OF s(2) refl s(5)] s(7) by (simp add: t'_def)
  define c where "c = (cont t)(e := cont t ?h, ?h := None)"
  have ce: "cont t e = None" using cont_not_occupied[OF s(6) di(4)] .
  have kc: "keys_once c" unfolding c_def using keys_once_move[OF d(5) ce, of ?h] keys_once_remove[OF d(5)] ce by (cases "e = ?h") auto
  have c': "cont t' = c(?h \<mapsto> (key, val))"
  proof
    fix j
    have o: "j < 2 ^ k \<Longrightarrow> metadata t' ! j = VT_EMPTY \<longleftrightarrow> j \<noteq> e \<and> metadata t ! j = VT_EMPTY" for j
      using occ' by (auto simp: occupied_def set_eq_iff)
    have h': "metadata t' ! ?h \<noteq> VT_EMPTY" using occ' s(7) hk by (auto simp: occupied_def set_eq_iff)
    have "e \<noteq> ?h \<Longrightarrow> metadata t ! ?h \<noteq> VT_EMPTY" using h' o[OF hk] by blast
    then show "cont t' j = (c(?h \<mapsto> (key, val))) j" using s(8) o[of j] di(4) h'
      by (auto simp: cont_def c_def t'_def nth_list_update)
  qed
  have same: "(\<exists>i. c i = Some p) \<longleftrightarrow> (\<exists>i. cont t i = Some p)" for p
    unfolding c_def by (rule ex_move[of "cont t", OF ce])
  have ch: "c ?h = None" by (simp add: c_def)
  note m = vt_map_insert[OF d(5) fresh c' ch same kc]
  have "vt_counted k t'" using s(6) occ' vt_okD(4)[OF ok] s(4) m(1) by (intro vt_counted_add[of k t e t']) (auto simp: vt_counted_def t'_def d(5))
  then have ok': "vt_ok HASH_FN k t'" using vt_okI[OF inv' d(2,3)] by blast
  have flag: "metadata t ! ?h AND VT_IN_HOME_BUCKET_MASK = 0" using home_flag_home[OF inv hk] C by simp
  have run: "vt_insert_raw HASH_FN key val unique replace t = Some (itr_to t' ?h ?h, t')"
    using flag s(1) room d1(4,5) di(5) trans_less_add1[OF hk, of 4]
    unfolding vt_insert_raw_def t'_def
    by (simp add: Let_def home_of_home_in[OF di(1)] vt_bucket_count_shape[OF di(1)] set_bucket_def set_metadatum_def)
  have "cont t' ?h = Some (key, val)" by (simp add: c')
  from raw_resultI[OF ok' none this m(2)] s(4) run show ?thesis by (auto simp: t'_def)
qed

text \<open>A new key joins the chain of its home bucket.\<close>

lemma insert_link_ok:
  assumes ok: "vt_ok HASH_FN k t" and inv: "vt_inv HASH_FN k t C {}" and C: "C (home_in HASH_FN k key) \<noteq> []"
    and none: "vt_map t key = None" and room: "\<not> exceeds_max_load (key_count t + 1) (2 ^ k)"
    and ex: "(if unique then Some None else chain_lookup t key (vt_hashfrag (HASH_FN key)) (home_in HASH_FN k key) (home_in HASH_FN k key)) = Some None"
  shows "\<exists>i t'. vt_insert_raw HASH_FN key val unique replace t = Some (itr_to t' i (home_in HASH_FN k key), t') \<and> i < 2 ^ k
    \<and> raw_result HASH_FN k key val replace t (itr_to t' i (home_in HASH_FN k key)) t'"
proof -
  note d = vt_okD[OF ok] and di = vt_invD[OF inv]
  let ?h = "home_in HASH_FN k key" and ?occ = "occupied k (metadata t)"
  have hk: "?h < 2 ^ k" by simp
  have fresh: "cont t i \<noteq> Some (key, v)" for i v using none vt_map_None[OF d(5)] by blast
  have lt: "card ?occ + 2 \<le> 2 ^ k" using room_left[OF d(2) room] d(4) by simp
  have ho: "?h \<in> ?occ"
  proof -
    obtain vs where "C ?h = 0 # vs" using chains_invD(3)[OF di(2) hk] C by (cases "C ?h") (auto simp: shape_ok_def)
    then show ?thesis using occupied_split[OF di(2) hk] by auto
  qed
  obtain e where e: "1 \<le> e" "e < 2047" "e < 2 ^ k" "pos k ?h e \<notin> ?occ" "vt_find_first_empty t ?h = Some (Some (pos k ?h e, of_nat e))"
    using first_empty_cases[OF inv hk ho] lt d(3) by auto
  let ?e = "pos k ?h e"
  obtain prev C' where pr: "vt_find_insert_location_in_chain t ?h (of_nat e) = Some prev" "prev < length (metadata t)" "prev \<noteq> ?e"
    "vt_inv HASH_FN k (t\<lparr>buckets := (buckets t)[?e := Some (key, val)],
        metadata := ((metadata t)[?e := vt_hashfrag (HASH_FN key) OR (metadata t ! prev AND VT_DISPLACEMENT_MASK)])
          [prev := with_displacement (metadata t ! prev) (of_nat e)]\<rparr>) C' {}"
    "prev \<in> ?occ" "with_displacement (metadata t ! prev) (of_nat e) \<noteq> VT_EMPTY"
    "vt_hashfrag (HASH_FN key) OR (metadata t ! prev AND VT_DISPLACEMENT_MASK) \<noteq> VT_EMPTY"
    using link_effect[OF inv refl C e(1-4), of val] by (elim exE conjE) (rule that)
  define t' where "t' = t\<lparr>buckets := (buckets t)[?e := Some (key, val)],
        metadata := ((metadata t)[?e := vt_hashfrag (HASH_FN key) OR (metadata t ! prev AND VT_DISPLACEMENT_MASK)])
          [prev := with_displacement (metadata t ! prev) (of_nat e)], key_count := key_count t + 1\<rparr>"
  have inv': "vt_inv HASH_FN k t' C' {}" using pr(4) by (simp add: t'_def vt_inv_def vt_shape_def cell_ok_def)
  have pk: "prev < 2 ^ k" using pr(5) by (auto simp: occupied_def)
  have el: "?e < length (metadata t)" "?e < length (buckets t)" using md_pos_less[OF di(2)] di(4) by simp_all
  have occ': "occupied k (metadata t') = insert ?e ?occ"
    using pr(2,5,6,7) pk el by (simp add: t'_def occupied_upd insert_absorb insert_commute)
  have c': "cont t' = (cont t)(?e \<mapsto> (key, val))"
    using cont_upd[OF di(1) _ di(5), of ?e t' "(key, val)"] occ' by (simp add: t'_def)
  have ce: "cont t ?e = None" using cont_not_occupied[OF e(4) di(4)] .
  note m = vt_map_insert[OF d(5) fresh c' ce refl d(5)]
  have "vt_counted k t'" using e(4) occ' d(4,5) m(1) by (intro vt_counted_add[of k t ?e t']) (auto simp: vt_counted_def t'_def)
  then have ok': "vt_ok HASH_FN k t'" using vt_okI[OF inv' d(2,3)] by blast
  have flag: "metadata t ! ?h AND VT_IN_HOME_BUCKET_MASK \<noteq> 0" using home_flag_home[OF inv hk] C by simp
  have run: "vt_insert_raw HASH_FN key val unique replace t = Some (itr_to t' ?e ?h, t')"
    using flag room el pr(1,2,3) e(5) di(5) trans_less_add1[OF hk, of 4] ex
    unfolding vt_insert_raw_def t'_def
    by (simp add: Let_def home_of_home_in[OF di(1)] vt_bucket_count_shape[OF di(1)] set_bucket_def set_metadatum_def)
  have "cont t' ?e = Some (key, val)" by (simp add: c')
  from raw_resultI[OF ok' none this m(2)] run show ?thesis
    by - (rule exI[of _ ?e], rule exI[of _ t'], simp add: t'_def)
qed

text \<open>A key that the table holds: its value is replaced where that is asked for.\<close>

lemma insert_found_ok:
  assumes ok: "vt_ok HASH_FN k t" and inv: "vt_inv HASH_FN k t C {}" and c: "cont t i = Some (key, v)"
    and l: "chain_lookup t key (vt_hashfrag (HASH_FN key)) (home_in HASH_FN k key) (home_in HASH_FN k key) = Some (Some i)"
  shows "\<exists>t'. vt_insert_raw HASH_FN key val False replace t = Some (itr_to t' i (home_in HASH_FN k key), t') \<and> i < 2 ^ k
    \<and> raw_result HASH_FN k key val replace t (itr_to t' i (home_in HASH_FN k key)) t'"
proof -
  note d = vt_okD[OF ok] and di = vt_invD[OF inv]
  let ?h = "home_in HASH_FN k key" and ?occ = "occupied k (metadata t)"
  have hk: "?h < 2 ^ k" by simp
  have ib: "i < 2 ^ k" "metadata t ! i \<noteq> VT_EMPTY" "buckets t ! i = Some (key, v)"
    using c di(4) by (auto simp: cont_def split: if_splits)
  obtain us x vs where x: "C ?h = us @ x # vs" "i = pos k ?h x" using cont_in_chain[OF inv c] by metis
  have mv: "vt_map t key = Some v" using vt_map_Some[OF d(5)] c by blast
  define t' where "t' = (if replace then t\<lparr>buckets := (buckets t)[i := Some (key, val)]\<rparr> else t)"
  have cell: "cell_ok HASH_FN k t' h j" if "h < 2 ^ k" "j \<in> cells k h (C h)" for h j
  proof (cases "j = i")
    case True
    have "cell_ok HASH_FN k t h i" using di(3)[OF that] True by simp
    then show ?thesis using True ib di(4) unfolding cell_ok_def t'_def by auto
  next
    case False
    then have "cell_ok HASH_FN k t' h j = cell_ok HASH_FN k t h j" by (intro cell_ok_cong) (simp_all add: t'_def)
    then show ?thesis using di(3)[OF that] by simp
  qed
  have inv': "vt_inv HASH_FN k t' C {}" using cell di(1,2) unfolding vt_inv_def by (simp add: t'_def vt_shape_def)
  have c': "cont t' = (cont t)(i \<mapsto> (key, if replace then val else v))"
    using ib di(4) c by (auto simp: cont_def t'_def fun_eq_iff)
  note m = vt_map_replace[OF d(5) c c']
  have "vt_counted k t'" using d(4) m(1) by (simp add: vt_counted_def t'_def)
  then have ok': "vt_ok HASH_FN k t'" using vt_okI[OF inv' d(2,3)] by blast
  have "metadata t ! ?h AND VT_IN_HOME_BUCKET_MASK \<noteq> 0" using home_flag_home[OF inv hk] x by simp
  then have run: "vt_insert_raw HASH_FN key val False replace t = Some (itr_to t' i ?h, t')"
    using l ib di(4,5) trans_less_add1[OF hk, of 4] unfolding vt_insert_raw_def t'_def
    by (simp add: Let_def home_of_home_in[OF di(1)] set_bucket_def)
  have "cont t' i = Some (key, the (vt_map t' key))" by (simp add: c' m(2))
  then have "raw_result HASH_FN k key val replace t (itr_to t' i ?h) t'"
    using ok' mv m(2) by (auto simp: raw_result_def t'_def)
  then show ?thesis using run ib(1) by blast
qed

lemma insert_raw_ok:
  assumes ok: "vt_ok HASH_FN k t" and uniq: "unique \<Longrightarrow> vt_map t key = None"
  shows "\<exists>itr t'. vt_insert_raw HASH_FN key val unique replace t = Some (itr, t')
    \<and> (\<not> vt_is_end itr \<and> raw_result HASH_FN k key val replace t itr t'
       \<or> itr = vt_end_itr \<and> t' = t \<and> vt_map t key = None \<and> exceeds_max_load (key_count t + 1) (2 ^ k))"
proof -
  obtain C where inv: "vt_inv HASH_FN k t C {}" using vt_okD(1)[OF ok] by blast
  note d = vt_okD[OF ok] and di = vt_invD[OF inv]
  let ?h = "home_in HASH_FN k key"
  have hk: "?h < 2 ^ k" by simp
  have end_sh: "\<not> vt_is_end (itr_to t' i ?h)" if "raw_result HASH_FN k key val replace t (itr_to t' i ?h) t'" "i < 2 ^ k" for t' i
    using that vt_okD(6)[of HASH_FN k t'] by (auto simp: raw_result_def)
  let ?full = "exceeds_max_load (key_count t + 1) (2 ^ k)"
  have rd: "rd (metadata t) ?h = Some (metadata t ! ?h)" using trans_less_add1[OF hk, of 4] di(5) by simp
  show ?thesis
  proof (cases "C ?h = []")
    case True
    have none: "vt_map t key = None"
      using cont_in_chain[OF inv, of _ key] True vt_map_None[OF d(5)] by (metis append_is_Nil_conv list.distinct(1))
    show ?thesis
    proof (cases ?full)
      case full: True
      have "vt_insert_raw HASH_FN key val unique replace t = Some (vt_end_itr, t)"
        using full home_flag_home[OF inv hk] True rd
        by (simp add: vt_insert_raw_def Let_def home_of_home_in[OF di(1)] vt_bucket_count_shape[OF di(1)])
      then show ?thesis using full none by simp
    next
      case False
      from insert_home_ok[OF ok inv True this] end_sh hk show ?thesis by blast
    qed
  next
    case False
    let ?ex = "if unique then Some None else chain_lookup t key (vt_hashfrag (HASH_FN key)) ?h ?h"
    from lookup_found[OF inv refl False] uniq consider
        (found) i v where "cont t i = Some (key, v)" "chain_lookup t key (vt_hashfrag (HASH_FN key)) ?h ?h = Some (Some i)" "\<not> unique"
      | (none) "vt_map t key = None" "?ex = Some None"
      using vt_map_None[OF d(5)] by (auto simp: found_at_def split: option.splits) metis+
    then show ?thesis
    proof cases
      case found
      from insert_found_ok[OF ok inv found(1,2)] found(3) end_sh show ?thesis by (metis (full_types))
    next
      case none
      show ?thesis
      proof (cases ?full)
        case full: True
        have "vt_insert_raw HASH_FN key val unique replace t = Some (vt_end_itr, t)"
          using full home_flag_home[OF inv hk] False rd none(2)
          by (simp add: vt_insert_raw_def Let_def home_of_home_in[OF di(1)] vt_bucket_count_shape[OF di(1)])
        then show ?thesis using full none by simp
      next
        case room: False
        from insert_link_ok[OF ok inv False none(1) room none(2)] end_sh show ?thesis by blast
      qed
    qed
  qed
qed

section \<open>Rehashing\<close>

lemma fresh_md: "i < 2 ^ k \<Longrightarrow> metadata (fresh_table (2 ^ k)) ! i = VT_EMPTY"
  by (simp add: fresh_table_def VT_EMPTY_def nth_list_update)

lemma fresh_table_ok:
  assumes "3 \<le> k" "k \<le> 11"
  shows "vt_ok HASH_FN k (fresh_table (2 ^ k) :: ('k, 'v) vt_table)" "vt_map (fresh_table (2 ^ k) :: ('k, 'v) vt_table) = Map.empty"
proof -
  let ?t = "fresh_table (2 ^ k) :: ('k, 'v) vt_table"
  have occ: "occupied k (metadata ?t) = {}" by (auto simp: occupied_def fresh_md)
  have c: "cont ?t = (\<lambda>_. None)" by (auto simp: cont_def fresh_table_def nth_list_update)
  have sh: "vt_shape k ?t" using assms by (simp add: vt_shape_def fresh_table_def)
  have "chains_inv k (metadata ?t) (\<lambda>_. []) {}"
    using occ by (auto simp: chains_inv_def shape_ok_def links_ok_def fresh_table_def VT_EMPTY_def nth_list_update)
  then have "vt_inv HASH_FN k ?t (\<lambda>_. []) {}" using sh by (simp add: vt_inv_def)
  moreover have "vt_counted k ?t" using occ by (simp add: vt_counted_def keys_once_def c) (simp add: fresh_table_def)
  ultimately show "vt_ok HASH_FN k ?t" using assms vt_okI by blast
  show "vt_map ?t = Map.empty" by (rule vt_map_eqI) (simp_all add: keys_once_def c)
qed

lemma key_count_fresh [simp]: "key_count (fresh_table n) = 0"
  by (simp add: fresh_table_def)

text \<open>The entries of a table, in bucket order, have distinct keys and are counted.\<close>

lemma distinct_entries:
  assumes "keys_once (cont t)" "distinct bs"
  shows "distinct (map fst (List.map_filter (cont t) bs))"
proof -
  have "inj_on (fst \<circ> (the \<circ> cont t)) (set (filter (\<lambda>x. cont t x \<noteq> None) bs))"
  proof (rule inj_onI)
    fix i j
    assume ij: "i \<in> set (filter (\<lambda>x. cont t x \<noteq> None) bs)" "j \<in> set (filter (\<lambda>x. cont t x \<noteq> None) bs)"
      "(fst \<circ> (the \<circ> cont t)) i = (fst \<circ> (the \<circ> cont t)) j"
    then obtain key v v' where "cont t i = Some (key, v)" "cont t j = Some (key, v')" by auto
    then show "i = j" using assms(1) unfolding keys_once_def by blast
  qed
  then show ?thesis using assms(2) unfolding map_filter_def by (simp only: map_map distinct_map distinct_filter simp_thms)
qed

lemma cont_iff_occupied:
  assumes "vt_inv HASH_FN k t C {}"
  shows "cont t i \<noteq> None \<longleftrightarrow> i \<in> occupied k (metadata t)"
proof
  assume "i \<in> occupied k (metadata t)"
  from cell_in_chain[OF vt_invD(2)[OF assms] this] obtain h us d vs where "h < 2 ^ k" "C h = us @ d # vs" "i = pos k h d" by blast
  then have "h < 2 ^ k" "i \<in> cells k h (C h)" by simp_all
  then show "cont t i \<noteq> None" by (rule cont_cell[OF assms]) simp
qed (use vt_invD(4)[OF assms] in \<open>auto simp: cont_def occupied_def split: if_splits\<close>)

lemma length_entries:
  assumes ok: "vt_ok HASH_FN k t"
  shows "length (vt_entries t) = key_count t"
proof -
  note d = vt_okD[OF ok]
  obtain C where inv: "vt_inv HASH_FN k t C {}" using d(1) by blast
  have s: "set (filter (\<lambda>x. cont t x \<noteq> None) [0..<2 ^ k]) = occupied k (metadata t)"
    using cont_iff_occupied[OF inv] by (auto simp: occupied_def)
  have "length (vt_entries t) = length (filter (\<lambda>x. cont t x \<noteq> None) [0..<2 ^ k])"
    by (simp add: vt_entries_def map_filter_def d(8))
  also have "\<dots> = card (set (filter (\<lambda>x. cont t x \<noteq> None) [0..<2 ^ k]))" by (intro distinct_card[symmetric]) simp
  finally show ?thesis unfolding s d(4) .
qed

text \<open>Copying the keys of some buckets into a table with room for them.\<close>

lemma reinsert_ok:
  assumes inv: "vt_inv HASH_FN k t C {}" and bs: "set bs \<subseteq> {..<2 ^ k}"
    and n: "vt_ok HASH_FN k' n" and dist: "distinct (map fst (List.map_filter (cont t) bs))"
    and new: "\<And>key. key \<in> fst ` set (List.map_filter (cont t) bs) \<Longrightarrow> vt_map n key = None"
    and room: "\<not> exceeds_max_load (key_count n + length (List.map_filter (cont t) bs)) (2 ^ k')"
  shows "\<exists>n'. reinsert_from HASH_FN t bs n = Some n' \<and> vt_ok HASH_FN k' n' \<and> vt_map n' = vt_map n ++ map_of (List.map_filter (cont t) bs)
    \<and> key_count n' = key_count n + length (List.map_filter (cont t) bs)"
  using bs n dist new room
proof (induction bs arbitrary: n)
  case Nil
  then show ?case by (simp add: map_filter_simps)
next
  case (Cons b bs)
  note di = vt_invD[OF inv]
  have bk: "b < 2 ^ k" using Cons.prems(1) by simp
  then have rd: "rd (metadata t) b = Some (metadata t ! b)" using di(5) by simp
  have occ: "metadata t ! b \<noteq> VT_EMPTY \<longleftrightarrow> cont t b \<noteq> None" using cont_iff_occupied[OF inv, of b] bk by (simp add: occupied_def)
  show ?case
  proof (cases "cont t b")
    case None
    then show ?thesis using Cons.IH[of n] Cons.prems rd occ by (simp add: map_filter_simps)
  next
    case (Some p)
    obtain key v where p: "p = (key, v)" by (cases p)
    let ?es = "List.map_filter (cont t) bs"
    have mf: "List.map_filter (cont t) (b # bs) = (key, v) # ?es" using Some p by (simp add: map_filter_simps)
    have ba: "bucket_at t b = Some (key, v)" using Some p di(4) by (auto simp: bucket_at_def cont_def split: if_splits)
    have none: "vt_map n key = None" using Cons.prems(4)[of key] mf by simp
    have "\<not> exceeds_max_load (key_count n + 1) (2 ^ k')" using Cons.prems(5) mf by (simp add: exceeds_max_load_def)
    with insert_raw_ok[OF Cons.prems(2), of True key v False] none obtain itr n1 where
      n1: "vt_insert_raw HASH_FN key v True False n = Some (itr, n1)" "\<not> vt_is_end itr" "raw_result HASH_FN k' key v False n itr n1" by blast
    then have m1: "vt_ok HASH_FN k' n1" "vt_map n1 = (vt_map n)(key \<mapsto> v)" "key_count n1 = key_count n + 1"
      using none by (simp_all add: raw_result_def)
    have kn: "key \<notin> fst ` set ?es" using Cons.prems(3) mf by simp
    have room: "\<not> exceeds_max_load (key_count n1 + length ?es) (2 ^ k')" using Cons.prems(5) mf m1(3) by simp
    have "vt_map n1 key' = None" if "key' \<in> fst ` set ?es" for key'
      using Cons.prems(4)[of key'] that kn mf m1(2) by auto
    then obtain n' where n': "reinsert_from HASH_FN t bs n1 = Some n'" "vt_ok HASH_FN k' n'" "vt_map n' = vt_map n1 ++ map_of ?es"
      "key_count n' = key_count n1 + length ?es" using Cons.IH[of n1] Cons.prems(1,3) mf m1(1) room by auto
    have "key \<notin> dom (map_of ?es)" using kn by (simp add: dom_map_of_conv_image_fst)
    then have "vt_map n' = vt_map n ++ map_of ((key, v) # ?es)" using n'(3) m1(2) by (simp add: map_add_upd_left)
    moreover have "reinsert_from HASH_FN t (b # bs) n = Some n'" using rd occ Some ba n1(1,2) n'(1) by simp
    moreover have "key_count n' = key_count n + length ((key, v) # ?es)" using n'(4) m1(3) by simp
    ultimately show ?thesis unfolding mf using n'(2) by blast
  qed
qed

definition owned :: "('k, 'v) vt_table \<Rightarrow> int" where
  "owned t = (if buckets_mask t = 0 then 0 else 1)"

definition vt_wf :: "('k \<Rightarrow> 64 word) \<Rightarrow> ('k, 'v) vt_table \<Rightarrow> bool" where
  "vt_wf HASH_FN t \<longleftrightarrow> t = vt_init \<or> (\<exists>k. vt_ok HASH_FN k t)"

lemma owned_shape [simp]: "vt_shape k t \<Longrightarrow> owned t = 1"
  using one_less_power[of "2 :: nat" k] by (auto simp: vt_shape_def owned_def)

lemma vt_init_simps [simp]: "vt_map vt_init = Map.empty" "key_count vt_init = 0" "owned vt_init = 0" "vt_bucket_count vt_init = 0"
  "buckets_mask vt_init = 0" "metadata vt_init = [VT_EMPTY]" "buckets vt_init = []"
  by (simp_all add: vt_map_def vt_entries_def vt_init_def owned_def map_filter_simps vt_bucket_count_def)

definition alloc_fails :: "vt_heap \<Rightarrow> bool" where
  "alloc_fails a \<longleftrightarrow> plan a \<noteq> [] \<and> \<not> hd (plan a)"

lemma MALLOC_FN_cases:
  "MALLOC_FN a = (\<not> alloc_fails a, a\<lparr>plan := tl (plan a), live := live a + (if alloc_fails a then 0 else 1)\<rparr>)"
  by (auto simp: MALLOC_FN_def alloc_fails_def)

lemma rehash_ok:
  assumes wf: "vt_wf HASH_FN t" and k': "3 \<le> k'" "k' \<le> 11" and room: "\<not> exceeds_max_load (key_count t) (2 ^ k')"
  shows "\<exists>ok t' a'. vt_rehash HASH_FN (2 ^ k') t a = Some (ok, t', a') \<and> plan a' = tl (plan a)
    \<and> (if alloc_fails a then \<not> ok \<and> t' = t \<and> live a' = live a
       else ok \<and> vt_ok HASH_FN k' t' \<and> vt_map t' = vt_map t \<and> key_count t' = key_count t \<and> live a' = live a + owned t' - owned t)"
proof (cases "alloc_fails a")
  case True
  then show ?thesis by (intro exI[of _ False]) (subst vt_rehash.simps, simp add: MALLOC_FN_cases)
next
  case False
  note f = fresh_table_ok[OF k']
  have "\<exists>n'. reinsert_from HASH_FN t [0..<vt_bucket_count t] (fresh_table (2 ^ k')) = Some n' \<and> vt_ok HASH_FN k' n'
    \<and> vt_map n' = vt_map t \<and> key_count n' = key_count t"
  proof (cases "t = vt_init")
    case True
    then show ?thesis by (simp add: f)
  next
    case False
    then obtain k where ok: "vt_ok HASH_FN k t" using wf by (auto simp: vt_wf_def)
    note d = vt_okD[OF ok]
    obtain C where inv: "vt_inv HASH_FN k t C {}" using d(1) by blast
    have e: "List.map_filter (cont t) [0..<2 ^ k] = vt_entries t" by (simp add: vt_entries_def d(8))
    have sub: "set [0..<2 ^ k] \<subseteq> {..<(2 :: nat) ^ k}" by auto
    have mt: "map_of (vt_entries t) = vt_map t" by (simp add: vt_map_def)
    show ?thesis
      using reinsert_ok[OF inv sub f(1)] distinct_entries[OF d(5), of "[0..<2 ^ k]"] room
      unfolding e length_entries[OF ok] vt_bucket_count_shape[OF d(6)] mt by (simp add: f(2))
  qed
  then obtain n' where n': "reinsert_from HASH_FN t [0..<vt_bucket_count t] (fresh_table (2 ^ k')) = Some n'" "vt_ok HASH_FN k' n'"
    "vt_map n' = vt_map t" "key_count n' = key_count t" by blast
  then show ?thesis using False owned_shape[OF vt_okD(6)[OF n'(2)]]
    by (subst vt_rehash.simps) (auto simp: MALLOC_FN_cases FREE_FN_def owned_def split: if_splits)
qed

section \<open>Inserting, growing as needed\<close>

lemma insert_raw_init: "vt_insert_raw HASH_FN key val unique replace vt_init = Some (vt_end_itr, vt_init)"
  by (simp add: vt_insert_raw_def home_of_def vt_init_def VT_EMPTY_def vt_bucket_count_def exceeds_max_load_def rd_def)

definition inserted :: "'k \<Rightarrow> 'v \<Rightarrow> bool \<Rightarrow> ('k, 'v) vt_table \<Rightarrow> ('k, 'v) vt_table \<Rightarrow> bool" where
  "inserted key val replace t t' \<longleftrightarrow>
     vt_map t' = (vt_map t)(key \<mapsto> (case vt_map t key of Some v \<Rightarrow> if replace then val else v | None \<Rightarrow> val))
     \<and> key_count t' = key_count t + (if vt_map t key = None then 1 else 0)"

lemma raw_result_inserted:
  "raw_result HASH_FN k key val replace t itr t' \<Longrightarrow> inserted key val replace t t' \<and> vt_ok HASH_FN k t'
    \<and> (\<exists>i. itr = itr_to t' i (home_in HASH_FN k key) \<and> cont t' i = Some (key, the (vt_map t' key)))"
  by (auto simp: raw_result_def inserted_def split: option.splits)

text \<open>The capacity up to which the displacement limit cannot be met: nine tenths of 2048 buckets.\<close>

definition max_keys :: nat where "max_keys = 1843"

lemma key_count_bound:
  assumes "vt_ok HASH_FN k t"
  shows "key_count t \<le> 2 ^ k"
proof -
  have "card (occupied k (metadata t)) \<le> card {..<(2 :: nat) ^ k}" by (rule card_mono) (auto simp: occupied_def)
  then show ?thesis using vt_okD(4)[OF assms] by simp
qed

lemma grow_room:
  assumes wf: "vt_wf HASH_FN t" and m: "key_count t < max_keys" and full: "t \<noteq> vt_init \<Longrightarrow> exceeds_max_load (key_count t + 1) (vt_bucket_count t)"
  shows "\<exists>k'. grown_bucket_count t = 2 ^ k' \<and> 3 \<le> k' \<and> k' \<le> 11 \<and> \<not> exceeds_max_load (key_count t + 1) (2 ^ k') \<and> \<not> exceeds_max_load (key_count t) (2 ^ k')"
proof (cases "t = vt_init")
  case True
  then show ?thesis by (intro exI[of _ 3]) (simp add: grown_bucket_count_def VT_MIN_NONZERO_BUCKET_COUNT_def exceeds_max_load_def)
next
  case False
  then obtain k where ok: "vt_ok HASH_FN k t" using wf by (auto simp: vt_wf_def)
  note d = vt_okD[OF ok]
  have bc: "vt_bucket_count t = 2 ^ k" using vt_bucket_count_shape[OF d(6)] .
  have "k \<noteq> 11" using full[OF False] m by (auto simp: bc exceeds_max_load_def max_keys_def)
  moreover have "grown_bucket_count t = 2 ^ Suc k" using bc owned_shape[OF d(6)] by (auto simp: grown_bucket_count_def owned_def split: if_splits)
  moreover have "(2 :: nat) ^ 3 \<le> 2 ^ k" using d(2) by (intro power_increasing) auto
  ultimately show ?thesis using d(2,3) key_count_bound[OF ok] by (intro exI[of _ "Suc k"]) (auto simp: exceeds_max_load_def)
qed

lemma insert_loop_ok:
  assumes wf: "vt_wf HASH_FN t" and m: "key_count t < max_keys"
  shows "\<exists>itr t' a'. insert_loop HASH_FN key val replace t a = Some (itr, t', a') \<and> vt_wf HASH_FN t' \<and> live a' = live a + owned t' - owned t
    \<and> (if vt_is_end itr then alloc_fails a \<and> vt_map t key = None \<and> t' = t
       else inserted key val replace t t'
         \<and> (\<exists>i h. itr = itr_to t' i h \<and> cont t' i = Some (key, the (vt_map t' key))))"
proof -
  have "\<exists>itr t1. vt_insert_raw HASH_FN key val False replace t = Some (itr, t1)
    \<and> ((\<exists>k. \<not> vt_is_end itr \<and> vt_ok HASH_FN k t \<and> raw_result HASH_FN k key val replace t itr t1)
      \<or> itr = vt_end_itr \<and> t1 = t \<and> vt_map t key = None \<and> (t \<noteq> vt_init \<longrightarrow> exceeds_max_load (key_count t + 1) (vt_bucket_count t)))"
  proof (cases "t = vt_init")
    case True
    then show ?thesis by (simp add: insert_raw_init)
  next
    case False
    then obtain k where ok: "vt_ok HASH_FN k t" using wf by (auto simp: vt_wf_def)
    from insert_raw_ok[OF ok, of False key val replace] show ?thesis
      unfolding vt_bucket_count_shape[OF vt_okD(6)[OF ok]] using ok by blast
  qed
  then obtain itr t1 where raw: "vt_insert_raw HASH_FN key val False replace t = Some (itr, t1)"
    and alt: "(\<exists>k. \<not> vt_is_end itr \<and> vt_ok HASH_FN k t \<and> raw_result HASH_FN k key val replace t itr t1)
      \<or> itr = vt_end_itr \<and> t1 = t \<and> vt_map t key = None \<and> (t \<noteq> vt_init \<longrightarrow> exceeds_max_load (key_count t + 1) (vt_bucket_count t))" by blast
  from alt show ?thesis
  proof (elim disjE exE conjE)
    fix k
    assume r: "\<not> vt_is_end itr" "vt_ok HASH_FN k t" "raw_result HASH_FN k key val replace t itr t1"
    note ri = raw_result_inserted[OF r(3)]
    have "vt_wf HASH_FN t1" using ri by (auto simp: vt_wf_def)
    moreover have "owned t1 = owned t" using vt_okD(6)[OF r(2)] ri vt_okD(6)[of HASH_FN k t1] by simp
    moreover have "insert_loop HASH_FN key val replace t a = Some (itr, t1, a)" using raw r(1) by (subst insert_loop.simps) simp
    ultimately show ?thesis using ri r(1) by (intro exI[of _ itr] exI[of _ t1] exI[of _ a]) auto
  next
    assume e: "itr = vt_end_itr" "t1 = t" "vt_map t key = None" "t \<noteq> vt_init \<longrightarrow> exceeds_max_load (key_count t + 1) (vt_bucket_count t)"
    from grow_room[OF wf m] e(4) obtain k' where k': "grown_bucket_count t = 2 ^ k'" "3 \<le> k'" "k' \<le> 11"
      "\<not> exceeds_max_load (key_count t + 1) (2 ^ k')" "\<not> exceeds_max_load (key_count t) (2 ^ k')" by blast
    from rehash_ok[OF wf k'(2,3,5), of a] obtain ok t2 a2 where rh: "vt_rehash HASH_FN (2 ^ k') t a = Some (ok, t2, a2)"
      "if alloc_fails a then \<not> ok \<and> t2 = t \<and> live a2 = live a
       else ok \<and> vt_ok HASH_FN k' t2 \<and> vt_map t2 = vt_map t \<and> key_count t2 = key_count t \<and> live a2 = live a + owned t2 - owned t" by blast
    show ?thesis
    proof (cases "alloc_fails a")
      case True
      then have "insert_loop HASH_FN key val replace t a = Some (vt_end_itr, t, a2)" using raw e k'(1) rh by (subst insert_loop.simps) simp
      then show ?thesis using True rh(2) e(3) wf by (intro exI[of _ vt_end_itr] exI[of _ t] exI[of _ a2]) simp
    next
      case False
      then have t2: "ok" "vt_ok HASH_FN k' t2" "vt_map t2 = vt_map t" "key_count t2 = key_count t" "live a2 = live a + owned t2 - owned t" using rh(2) by auto
      from insert_raw_ok[OF t2(2), of False key val replace] k'(4) t2(4) obtain itr3 t3 where
        t3: "vt_insert_raw HASH_FN key val False replace t2 = Some (itr3, t3)" "\<not> vt_is_end itr3" "raw_result HASH_FN k' key val replace t2 itr3 t3"
        by (metis (no_types))
      have "insert_loop HASH_FN key val replace t2 a2 = Some (itr3, t3, a2)" using t3 by (subst insert_loop.simps) simp
      then have run: "insert_loop HASH_FN key val replace t a = Some (itr3, t3, a2)"
        using raw e k'(1) rh(1) t2(1) by (subst insert_loop.simps) simp
      note ri = raw_result_inserted[OF t3(3)]
      have "owned t3 = owned t2" using vt_okD(6)[OF t2(2)] ri vt_okD(6)[of HASH_FN k' t3] by simp
      moreover have "inserted key val replace t t3" using ri t2(3,4) by (simp add: inserted_def)
      moreover have "vt_wf HASH_FN t3" using ri by (auto simp: vt_wf_def)
      ultimately show ?thesis using run ri t3(2) t2(5) by (intro exI[of _ itr3] exI[of _ t3] exI[of _ a2]) auto
    qed
  qed
qed

end
