(* ===== verification/Verstable_Ops.thy ===== *)
theory Verstable_Ops
  imports Verstable_Insert Signo_Map
begin

unbundle bit_operations_syntax

text \<open>
  Lookup, erasure, iteration and sizing, and what the table promises its clients, among them
  the contract \<open>keyed_map\<close> that the registry asks of its map from signal numbers.
\<close>

section \<open>Erasing\<close>

lemma cont_key_count [simp]: "cont (t\<lparr>key_count := n\<rparr>) = cont t"
  by (simp add: cont_def fun_eq_iff)

lemma vt_inv_key_count [simp]: "vt_inv HASH_FN k (t\<lparr>key_count := n\<rparr>) C F = vt_inv HASH_FN k t C F"
  by (simp add: vt_inv_def vt_shape_def cell_ok_def)

text \<open>The last key of a chain with others is unlinked and its bucket emptied.\<close>

lemma drop_last:
  assumes inv: "vt_inv HASH_FN k t C {}" and h: "h < 2 ^ k" and C: "C h = us @ [p, z]"
    and t': "t' = t\<lparr>metadata := ((metadata t)[pos k h p := metadata t ! pos k h p OR VT_DISPLACEMENT_MASK])[pos k h z := VT_EMPTY]\<rparr>"
  shows "vt_inv HASH_FN k t' (C(h := us @ [p])) {}" "occupied k (metadata t') = occupied k (metadata t) - {pos k h z}"
proof -
  note di = vt_invD[OF inv]
  obtain fp where fp: "is_frag fp" "metadata t ! pos k h p = meta fp (p = 0) z" "z < 2048" "p < z" "p < 2 ^ k"
    using cell_meta[OF di(2) h, of us p "[z]"] C by auto
  have z: "z < 2 ^ k" using shape_okD(1)[of k "us @ [p]" z "[]"] chains_invD(3)[OF di(2) h] C by simp
  have pz: "pos k h p \<noteq> pos k h z" using pos_inj[OF fp(5) z] fp(4) by auto
  have m: "metadata t ! pos k h p OR VT_DISPLACEMENT_MASK = with_displacement (metadata t ! pos k h p) (of_nat 2047)"
    using meta_fields(4)[OF fp(1,3), of "p = 0"] meta_fields(5)[OF fp(1,3), of 2047 "p = 0"] fp(2) by simp
  have ch: "chains_inv k (metadata t') (C(h := us @ [p])) {}"
    using chains_inv_drop[OF chains_inv_unlink[OF di(2) h, of us p z "[]", OF _ refl], of "pos k h z"] C m by (simp add: t')
  have cok: "cell_ok HASH_FN k t' g i" if g: "g < 2 ^ k" "i \<in> cells k g ((C(h := us @ [p])) g)" for g i
  proof -
    have i: "i \<in> cells k g (C g)" using g C by (auto split: if_splits)
    have "i \<noteq> pos k h z"
    proof
      assume iz: "i = pos k h z"
      have "pos k h z \<in> occupied k (metadata t')" using g chains_invD(7)[OF ch] iz by blast
      then show False using md_pos_less[OF di(2), of h z] by (simp add: t' occupied_def)
    qed
    then have "metadata t' ! i AND VT_HASH_FRAG_MASK = metadata t ! i AND VT_HASH_FRAG_MASK"
      using md_pos_less[OF di(2)] frag_with_displacement[of 2047] m by (cases "i = pos k h p") (simp_all add: t')
    then show ?thesis using cell_ok_cong[of t' i t HASH_FN k g] di(3)[OF g(1) i] by (simp add: t')
  qed
  show "vt_inv HASH_FN k t' (C(h := us @ [p])) {}" using ch cok di(1) unfolding vt_inv_def by (simp add: t' vt_shape_def)
  have "metadata t ! pos k h p OR VT_DISPLACEMENT_MASK \<noteq> VT_EMPTY"
    using meta_fields(4)[OF fp(1,3)] meta_more(3)[OF fp(1), of 2047] fp(2) by simp
  moreover have "pos k h p \<in> occupied k (metadata t)" using occupied_split[OF di(2) h] C by auto
  ultimately show "occupied k (metadata t') = occupied k (metadata t) - {pos k h z}"
    using md_pos_less[OF di(2)] by (auto simp: t' occupied_upd)
qed

lemma drop_only:
  assumes inv: "vt_inv HASH_FN k t C {}" and h: "h < 2 ^ k" and C: "C h = [0]" and t': "t' = t\<lparr>metadata := (metadata t)[h := VT_EMPTY]\<rparr>"
  shows "vt_inv HASH_FN k t' (C(h := [])) {}" "occupied k (metadata t') = occupied k (metadata t) - {h}"
proof -
  note di = vt_invD[OF inv]
  have ch: "chains_inv k (metadata t') (C(h := [])) {}"
    using chains_inv_drop[OF chains_inv_unlink_only[OF di(2) h C], of h] by (simp add: t')
  have "cell_ok HASH_FN k t' g i" if g: "g < 2 ^ k" "i \<in> cells k g ((C(h := [])) g)" for g i
  proof -
    have i: "g \<noteq> h" "i \<in> cells k g (C g)" using g by (auto split: if_splits)
    then have "i \<noteq> h" using chains_invD(5)[OF di(2) g(1) h, of i] C h by auto
    then show ?thesis using cell_ok_cong[of t' i t HASH_FN k g] di(3)[OF g(1) i(2)] by (simp add: t')
  qed
  then show "vt_inv HASH_FN k t' (C(h := [])) {}" using ch di(1) unfolding vt_inv_def by (simp add: t' vt_shape_def)
  show "occupied k (metadata t') = occupied k (metadata t) - {h}" using di(5) h by (simp add: t' occupied_upd)
qed

text \<open>The key of one cell of a chain overwrites the key of another.\<close>

lemma copy_cell:
  assumes inv: "vt_inv HASH_FN k t C {}" and h: "h < 2 ^ k" and C: "C h = us @ d # vs" and z: "z \<in> cells k h (C h)"
    and t': "t' = t\<lparr>buckets := (buckets t)[pos k h d := buckets t ! z],
      metadata := (metadata t)[pos k h d := (metadata t ! pos k h d AND NOT VT_HASH_FRAG_MASK) OR (metadata t ! z AND VT_HASH_FRAG_MASK)]\<rparr>"
  shows "vt_inv HASH_FN k t' C {}" "occupied k (metadata t') = occupied k (metadata t)"
proof -
  note di = vt_invD[OF inv]
  let ?i = "pos k h d"
  have ch: "chains_inv k (metadata t') C {}" using chains_inv_frag[OF di(2) h C frag_AND] by (simp add: t')
  have il: "?i < length (metadata t)" "?i < length (buckets t)" using md_pos_less[OF di(2)] di(4) by simp_all
  obtain f where f: "is_frag f" "metadata t ! ?i = meta f (d = 0) (next_disp vs)" "next_disp vs < 2048"
    using cell_meta[OF di(2) h C] by metis
  have fr: "metadata t' ! ?i AND VT_HASH_FRAG_MASK = metadata t ! z AND VT_HASH_FRAG_MASK"
    using il meta_fields(6)[OF f(1,3) frag_AND] meta_fields(1)[OF frag_AND f(3)] f(2) by (simp add: t')
  have "cell_ok HASH_FN k t' g j" if g: "g < 2 ^ k" "j \<in> cells k g (C g)" for g j
  proof (cases "j = ?i")
    case True
    have "?i \<in> cells k h (C h)" using C by simp
    then have "g = h" using chains_invD(5)[OF di(2) h g(1), of ?i] g(2) True by simp
    then show ?thesis using di(3)[OF h z] fr il True by (simp add: cell_ok_def t')
  next
    case False
    then show ?thesis using cell_ok_cong[of t' j t HASH_FN k g] di(3)[OF g] by (simp add: t')
  qed
  then show "vt_inv HASH_FN k t' C {}" using ch di(1) unfolding vt_inv_def by (simp add: t' vt_shape_def)
  show "occupied k (metadata t') = occupied k (metadata t)" using chains_invD(7)[OF ch] chains_invD(7)[OF di(2)] by simp
qed

definition itr_at :: "('k \<Rightarrow> 64 word) \<Rightarrow> nat \<Rightarrow> 'k \<Rightarrow> nat \<Rightarrow> vt_itr \<Rightarrow> bool" where
  "itr_at HASH_FN k key i itr \<longleftrightarrow> metadatum itr = Some i \<and> (home_bucket itr = SIZE_MAX \<or> home_bucket itr = of_nat (home_in HASH_FN k key))"

lemma home_not_SIZE_MAX:
  assumes "k \<le> 11" "h < 2 ^ k"
  shows "of_nat h \<noteq> SIZE_MAX" "unat (of_nat h :: 64 word) = h"
proof -
  have "(2 :: nat) ^ k \<le> 2 ^ 11" using assms(1) by (intro power_increasing) auto
  then have "h < 2 ^ 11" using assms(2) by (rule order_less_le_trans[rotated])
  then show u: "unat (of_nat h :: 64 word) = h" by (simp add: unat_of_nat take_bit_nat_eq_self)
  show "of_nat h \<noteq> SIZE_MAX"
  proof
    assume "of_nat h = SIZE_MAX"
    then have "h = unat SIZE_MAX" using u by simp
    then show False using \<open>h < 2 ^ 11\<close> by (simp add: SIZE_MAX_def unsigned_minus_1_eq_mask mask_eq_exp_minus_1)
  qed
qed

text \<open>
  The effect on the contents: the entry is gone, and those that the iteration has still to
  visit are the ones that it had before.
\<close>

definition erased :: "nat \<Rightarrow> bool \<Rightarrow> (nat \<Rightarrow> ('k \<times> 'v) option) \<Rightarrow> (nat \<Rightarrow> ('k \<times> 'v) option) \<Rightarrow> bool" where
  "erased i adv c c' \<longleftrightarrow> keys_once c' \<and> (\<forall>p. (\<exists>j. c' j = Some p) \<longleftrightarrow> (\<exists>j. j \<noteq> i \<and> c j = Some p))
     \<and> (\<forall>p. (\<exists>j. (if adv then i < j else i \<le> j) \<and> c' j = Some p) \<longleftrightarrow> (\<exists>j. i < j \<and> c j = Some p)) \<and> (adv \<or> c' i \<noteq> None)"

lemma erased_simple: "keys_once c \<Longrightarrow> erased i True c (c(i := None))"
  by (auto simp: erased_def keys_once_remove)

lemma erased_move:
  assumes k: "keys_once c" and z: "z \<noteq> i" "c z \<noteq> None"
  shows "erased i (\<not> z > i) c (c(i := c z, z := None))"
proof -
  let ?c = "c(i := c z, z := None)"
  have "keys_once ?c" using keys_once_move[OF keys_once_remove[OF k, of i], of i z] z(1) by (simp add: fun_upd_twist)
  moreover have "(\<exists>j. ?c j = Some p) \<longleftrightarrow> (\<exists>j. j \<noteq> i \<and> c j = Some p)" for p
  proof
    assume "\<exists>j. j \<noteq> i \<and> c j = Some p"
    then obtain j where j: "j \<noteq> i" "c j = Some p" by blast
    then have "?c (if j = z then i else j) = Some p" using z(1) by auto
    then show "\<exists>j. ?c j = Some p" by blast
  qed (use z(1) in \<open>auto split: if_splits\<close>)
  moreover have "(\<exists>j. (if \<not> z > i then i < j else i \<le> j) \<and> ?c j = Some p) \<longleftrightarrow> (\<exists>j. i < j \<and> c j = Some p)" for p
  proof
    assume "\<exists>j. i < j \<and> c j = Some p"
    then obtain j where j: "i < j" "c j = Some p" by blast
    then have "(if \<not> z > i then i < (if j = z then i else j) else i \<le> (if j = z then i else j)) \<and> ?c (if j = z then i else j) = Some p"
      using z(1) by auto
    then show "\<exists>j. (if \<not> z > i then i < j else i \<le> j) \<and> ?c j = Some p" by blast
  next
    assume "\<exists>j. (if \<not> z > i then i < j else i \<le> j) \<and> ?c j = Some p"
    then obtain j where j: "if \<not> z > i then i < j else i \<le> j" "?c j = Some p" by blast
    then have "i < (if j = i then z else j) \<and> c (if j = i then z else j) = Some p" using z(1) by (auto split: if_splits)
    then show "\<exists>j. i < j \<and> c j = Some p" by blast
  qed
  moreover have "?c i \<noteq> None" using z by simp
  ultimately show ?thesis unfolding erased_def by blast
qed

lemma vt_ok_erased:
  assumes ok: "vt_ok HASH_FN k t" and c: "cont t i = Some (key, v)" and inv: "vt_inv HASH_FN k t' C' {}"
    and er: "erased i adv (cont t) (cont t')" and kc: "key_count t' = key_count t - 1"
    and occ: "occupied k (metadata t') = occupied k (metadata t) - {z}" "z \<in> occupied k (metadata t)"
  shows "vt_ok HASH_FN k t' \<and> vt_map t' = (vt_map t)(key := None)"
proof -
  note d = vt_okD[OF ok]
  have "vt_counted k t'" using er kc d(4) occ by (simp add: vt_counted_def erased_def)
  moreover have "vt_map t' = (vt_map t)(key := None)" using vt_map_remove[OF d(5) c] er unfolding erased_def by blast
  ultimately show ?thesis using vt_okI[OF inv d(2,3)] by blast
qed

lemma erase_itr_raw_ok:
  assumes ok: "vt_ok HASH_FN k t" and c: "cont t i = Some (key, v)" and itr: "itr_at HASH_FN k key i itr"
  shows "\<exists>adv t'. vt_erase_itr_raw HASH_FN itr t = Some (adv, t') \<and> vt_ok HASH_FN k t' \<and> vt_map t' = (vt_map t)(key := None)
    \<and> key_count t' = key_count t - 1 \<and> erased i adv (cont t) (cont t')"
proof -
  define h where "h = home_in HASH_FN k key"
  define t0 where "t0 = t\<lparr>key_count := key_count t - 1\<rparr>"
  note d = vt_okD[OF ok]
  obtain C where inv: "vt_inv HASH_FN k t C {}" using d(1) by blast
  note di = vt_invD[OF inv]
  have inv0: "vt_inv HASH_FN k t0 C {}" using inv by (simp add: t0_def)
  note d0 = vt_invD[OF inv0]
  have t0: "metadata t0 = metadata t" "buckets t0 = buckets t" "cont t0 = cont t" "key_count t0 = key_count t - 1" by (simp_all add: t0_def)
  have hk: "h < 2 ^ k" by (simp add: h_def)
  obtain us x vs where x: "C h = us @ x # vs" "i = pos k h x" using cont_in_chain[OF inv c] unfolding h_def by metis
  have io: "i \<in> occupied k (metadata t)" using cont_iff_occupied[OF inv, of i] c by simp
  then have ik: "i < 2 ^ k" by (simp add: occupied_def)
  have il: "i < length (metadata t)" using ik di(5) by simp
  have ba: "bucket_at t0 i = Some (key, v)" using c di(4) t0 by (auto simp: bucket_at_def cont_def split: if_splits)
  have flag: "metadata t ! i AND VT_IN_HOME_BUCKET_MASK = 0 \<longleftrightarrow> x \<noteq> 0" using home_flag_iff[OF di(2) hk x(1)] x(2) by simp
  have last: "metadata t ! i AND VT_DISPLACEMENT_MASK = VT_DISPLACEMENT_MASK \<longleftrightarrow> vs = []" using last_cell_iff[OF di(2) hk x(1)] x(2) by simp
  have us: "us \<noteq> [] \<longleftrightarrow> x \<noteq> 0" using shape_okD(5)[of k us x vs] chains_invD(3)[OF di(2) hk] x(1) by simp
  have home: "erase_home HASH_FN itr i (metadata t ! i) t0 = Some h"
    using itr ba flag x(2) hk home_of_home_in[OF d0(1)] home_not_SIZE_MAX[OF d(3) hk] unfolding itr_at_def erase_home_def h_def by auto
  have im: "metadatum itr = Some i" using itr by (simp add: itr_at_def)
  note run = vt_erase_itr_raw_def[of HASH_FN itr t, folded t0_def] im il home flag last t0(1,2)
  consider (only) "us = []" "vs = []" "x = 0" | (tail) us' p where "us = us' @ [p]" "vs = []" "x \<noteq> 0" | (inner) "vs \<noteq> []"
    using us by (cases us rule: rev_cases) auto
  then show ?thesis
  proof cases
    case only
    then have hi: "i = h" "C h = [0]" using x hk by auto
    define t' where "t' = t0\<lparr>metadata := (metadata t0)[h := VT_EMPTY]\<rparr>"
    note r = drop_only[OF inv0 hk hi(2) t'_def]
    have "vt_erase_itr_raw HASH_FN itr t = Some (True, t')" using only run hi(1) by (simp add: t'_def Let_def set_metadatum_def)
    moreover have c': "cont t' = (cont t)(i := None)" using il di(4,5) hi(1) by (auto simp: t'_def cont_def fun_eq_iff t0 nth_list_update)
    moreover have "erased i True (cont t) (cont t')" unfolding c' by (rule erased_simple[OF d(5)])
    ultimately show ?thesis using vt_ok_erased[OF ok c r(1), of True h] r(2) io hi(1) by (auto simp: t0 t'_def)
  next
    case tail
    then have C: "C h = us' @ [p, x]" "C h = [] @ us' @ p # x # []" using x by auto
    define t' where "t' = t0\<lparr>metadata := ((metadata t0)[pos k h p := metadata t0 ! pos k h p OR VT_DISPLACEMENT_MASK])[pos k h x := VT_EMPTY]\<rparr>"
    note r = drop_last[OF inv0 hk C(1) t'_def]
    have hd: "hd (us' @ [p]) = 0" using chains_invD(3)[OF di(2) hk] C(1) by (cases us') (auto simp: shape_ok_def)
    have prev: "find_prev_from t0 h i h = Some (pos k h p)" using find_prev_from_ok[OF d0(1,2) hk C(2)] hd hk x(2) by simp
    have "vt_erase_itr_raw HASH_FN itr t = Some (True, t')"
      using tail run prev md_pos_less[OF d0(2)] x(2) by (simp add: t'_def Let_def set_metadatum_def t0)
    moreover have c': "cont t' = (cont t)(i := None)"
    proof
      fix j
      have "j < 2 ^ k \<Longrightarrow> metadata t' ! j = VT_EMPTY \<longleftrightarrow> j = i \<or> metadata t ! j = VT_EMPTY"
        using r(2) x(2) by (auto simp: occupied_def set_eq_iff t0)
      then show "cont t' j = ((cont t)(i := None)) j" using di(4) ik by (auto simp: cont_def t'_def t0)
    qed
    moreover have "erased i True (cont t) (cont t')" unfolding c' by (rule erased_simple[OF d(5)])
    ultimately show ?thesis using vt_ok_erased[OF ok c r(1), of True "pos k h x"] r(2) io x(2) by (auto simp: t0 t'_def)
  next
    case inner
    obtain ws p z where z: "x # vs = ws @ [p, z]" "find_last_from t0 h i = Some (pos k h p, pos k h z)"
      using find_last_from_ok[OF d0(1,2) hk x(1) inner] x(2) by blast
    let ?z = "pos k h z"
    have C: "C h = (us @ ws) @ [p, z]" using x(1) z(1) by simp
    have zc: "?z \<in> cells k h (C h)" using C by simp
    obtain key' v' where kv: "cont t ?z = Some (key', v')" "buckets t ! ?z = Some (key', v')" "bucket_at t0 ?z = Some (key', v')"
      using cont_cell[OF inv0 hk zc] t0 by metis
    have xz: "x < 2 ^ k" "z < 2 ^ k" "x \<noteq> z"
    proof -
      have "sorted_wrt (<) (us @ x # vs)" "\<forall>y \<in> set (us @ x # vs). y < 2 ^ k"
        using chains_invD(3)[OF di(2) hk] x(1) by (auto simp: shape_ok_def)
      moreover have "z \<in> set vs" using z(1) inner by (cases ws) auto
      ultimately show "x < 2 ^ k" "z < 2 ^ k" "x \<noteq> z" by (auto simp: sorted_wrt_append)
    qed
    then have iz: "?z \<noteq> i" using pos_inj[of x k z h] x(2) by auto
    define t1 where "t1 = t0\<lparr>buckets := (buckets t0)[pos k h x := buckets t0 ! ?z],
      metadata := (metadata t0)[pos k h x := (metadata t0 ! pos k h x AND NOT VT_HASH_FRAG_MASK) OR (metadata t0 ! ?z AND VT_HASH_FRAG_MASK)]\<rparr>"
    define t' where "t' = t1\<lparr>metadata := ((metadata t1)[pos k h p := metadata t1 ! pos k h p OR VT_DISPLACEMENT_MASK])[?z := VT_EMPTY]\<rparr>"
    note r1 = copy_cell[OF inv0 hk x(1) zc t1_def]
    note r = drop_last[OF r1(1) hk C t'_def]
    have "vt_erase_itr_raw HASH_FN itr t = Some (\<not> ?z > i, t')"
      using inner run z(2) kv md_pos_less[OF d0(2)] x(2) di(4)
      by (simp add: t1_def t'_def Let_def set_metadatum_def set_bucket_def t0)
    moreover have c': "cont t' = (cont t)(i := cont t ?z, ?z := None)"
    proof
      fix j
      have "j < 2 ^ k \<Longrightarrow> metadata t' ! j = VT_EMPTY \<longleftrightarrow> j = ?z \<or> metadata t ! j = VT_EMPTY"
        using r(2) r1(2) by (auto simp: occupied_def set_eq_iff t0)
      moreover have "metadata t ! i \<noteq> VT_EMPTY" using io by (simp add: occupied_def)
      ultimately show "cont t' j = ((cont t)(i := cont t ?z, ?z := None)) j" using di(4) ik iz kv x(2)
        by (auto simp: cont_def t'_def t1_def t0 nth_list_update)
    qed
    moreover have er: "erased i (\<not> ?z > i) (cont t) (cont t')" unfolding c' using erased_move[OF d(5) iz] kv(1) by simp
    moreover have "?z \<in> occupied k (metadata t)" using cont_iff_occupied[OF inv, of ?z] kv(1) by simp
    ultimately show ?thesis using vt_ok_erased[OF ok c r(1) er _ _, of ?z] r(2) r1(2) by (auto simp: t0 t1_def t'_def)
  qed
qed

lemma vt_get_wf:
  assumes ok: "vt_ok HASH_FN k t"
  shows "(\<exists>i v. vt_get HASH_FN t key = Some (itr_to t i (home_in HASH_FN k key)) \<and> cont t i = Some (key, v) \<and> vt_map t key = Some v)
    \<or> vt_get HASH_FN t key = Some vt_end_itr \<and> vt_map t key = None"
proof -
  note d = vt_okD[OF ok]
  obtain C where inv: "vt_inv HASH_FN k t C {}" using d(1) by blast
  from vt_get_ok[OF inv, of key] obtain r where
    "vt_get HASH_FN t key = Some (case r of None \<Rightarrow> vt_end_itr | Some i \<Rightarrow> itr_to t i (home_in HASH_FN k key))" "found_at HASH_FN k t key r" by blast
  then show ?thesis using vt_map_Some[OF d(5)] vt_map_None[OF d(5)] by (cases r) (auto simp: found_at_def, blast+)
qed

section \<open>Iterating\<close>

lemma first_nonzero_ok:
  assumes "length val = 4" "val \<noteq> [0, 0, 0, 0]"
  shows "vt_first_nonzero_uint16 val < 4 \<and> val ! vt_first_nonzero_uint16 val \<noteq> 0 \<and> (\<forall>x < vt_first_nonzero_uint16 val. val ! x = 0)"
proof -
  obtain a b c d where v: "val = [a, b, c, d]" using assms(1) by (auto simp: numeral_eq_Suc length_Suc_conv)
  have "x < 3 \<longleftrightarrow> x = 0 \<or> x = 1 \<or> x = (2 :: nat)" for x by auto
  moreover have "x < 2 \<longleftrightarrow> x = 0 \<or> x = (1 :: nat)" for x by auto
  ultimately show ?thesis using assms(2) by (auto simp: v vt_first_nonzero_uint16_def Let_def)
qed

text \<open>Scanning four metadata at a time stops at the first that is not empty.\<close>

lemma fast_forward_ok:
  assumes "length md = n + 4" "md ! n \<noteq> 0" "i \<le> n"
  shows "\<exists>j. i \<le> j \<and> j \<le> n \<and> md ! j \<noteq> 0 \<and> (\<forall>x. i \<le> x \<longrightarrow> x < j \<longrightarrow> md ! x = 0)
    \<and> vt_fast_forward md (itr\<lparr>data := Some i, metadatum := Some i\<rparr>)
      = Some (itr\<lparr>data := Some j, metadatum := Some j, home_bucket := SIZE_MAX\<rparr>)"
  using assms(3)
proof (induction "n - i" arbitrary: i rule: less_induct)
  case less
  let ?val = "take 4 (drop i md)"
  have len: "length ?val = 4" "i + 4 \<le> length md" using less.prems assms(1) by simp_all
  have nth: "x < 4 \<Longrightarrow> ?val ! x = md ! (i + x)" for x using less.prems assms(1) by simp
  show ?case
  proof (cases "?val = [0, 0, 0, 0]")
    case False
    define r where "r = vt_first_nonzero_uint16 ?val"
    have r: "r < 4" "md ! (i + r) \<noteq> 0" "\<And>x. x < r \<Longrightarrow> md ! (i + x) = 0"
      using first_nonzero_ok[OF len(1) False] nth unfolding r_def[symmetric] by auto
    have z: "md ! x = 0" if "i \<le> x" "x < i + r" for x using r(3)[of "x - i"] that by simp
    have "i + r \<le> n" using z[of n] less.prems assms(2) by (meson not_le)
    moreover have "vt_fast_forward md (itr\<lparr>data := Some i, metadatum := Some i\<rparr>)
        = Some (itr\<lparr>data := Some (i + r), metadatum := Some (i + r), home_bucket := SIZE_MAX\<rparr>)"
      using len(2) False by (subst vt_fast_forward.simps) (simp add: Let_def r_def)
    ultimately show ?thesis using r z by (intro exI[of _ "i + r"]) auto
  next
    case True
    have z: "md ! x = 0" if "i \<le> x" "x < i + 4" for x
    proof -
      have "x - i = 0 \<or> x - i = 1 \<or> x - i = 2 \<or> x - i = 3" using that by auto
      then show ?thesis using nth[of "x - i"] that True by auto
    qed
    have i4: "i + 4 \<le> n" using z[of n] less.prems assms(2) by (meson not_le)
    then have "n - (i + 4) < n - i" by linarith
    from less.hyps[OF this i4] obtain j where j: "i + 4 \<le> j" "j \<le> n" "md ! j \<noteq> 0" "\<forall>x. i + 4 \<le> x \<longrightarrow> x < j \<longrightarrow> md ! x = 0"
      "vt_fast_forward md (itr\<lparr>data := Some (i + 4), metadatum := Some (i + 4)\<rparr>)
        = Some (itr\<lparr>data := Some j, metadatum := Some j, home_bucket := SIZE_MAX\<rparr>)"
      by blast
    have "vt_fast_forward md (itr\<lparr>data := Some i, metadatum := Some i\<rparr>)
        = vt_fast_forward md (itr\<lparr>data := Some (i + 4), metadatum := Some (i + 4)\<rparr>)"
      using len(2) True by (subst vt_fast_forward.simps) (simp add: Let_def)
    moreover have "\<forall>x. i \<le> x \<longrightarrow> x < j \<longrightarrow> md ! x = 0" using j(4) z by (meson not_le)
    ultimately show ?thesis using j by (intro exI[of _ j]) simp
  qed
qed

text \<open>An iterator that stands at the first entry not before bucket \<open>i\<close>, or at the end.\<close>

definition itr_from :: "('k, 'v) vt_table \<Rightarrow> nat \<Rightarrow> vt_itr \<Rightarrow> bool" where
  "itr_from t i itr \<longleftrightarrow> (\<exists>j. i \<le> j \<and> data itr = Some j \<and> metadatum itr = Some j \<and> metadata_end itr = Some (vt_bucket_count t)
     \<and> home_bucket itr = SIZE_MAX \<and> (\<forall>x. i \<le> x \<longrightarrow> x < j \<longrightarrow> cont t x = None)
     \<and> (if vt_is_end itr then j = vt_bucket_count t else cont t j \<noteq> None))"

lemma fast_forward_from:
  assumes ok: "vt_ok HASH_FN k t" and i: "i \<le> 2 ^ k" and e: "metadata_end itr = Some (2 ^ k)"
  shows "\<exists>itr'. vt_fast_forward (metadata t) (itr\<lparr>data := Some i, metadatum := Some i\<rparr>) = Some itr' \<and> itr_from t i itr'"
proof -
  note d = vt_okD[OF ok]
  obtain C where inv: "vt_inv HASH_FN k t C {}" using d(1) by blast
  have z: "metadata t ! (2 ^ k) \<noteq> 0" using chains_invD(2)[OF vt_invD(2)[OF inv]] by (simp add: VT_EMPTY_def)
  from fast_forward_ok[OF d(7) z i, of itr] obtain j where j: "i \<le> j" "j \<le> 2 ^ k" "metadata t ! j \<noteq> 0" "\<forall>x. i \<le> x \<longrightarrow> x < j \<longrightarrow> metadata t ! x = 0"
    "vt_fast_forward (metadata t) (itr\<lparr>data := Some i, metadatum := Some i\<rparr>)
      = Some (itr\<lparr>data := Some j, metadatum := Some j, home_bucket := SIZE_MAX\<rparr>)" by blast
  have "cont t j \<noteq> None" if "j \<noteq> 2 ^ k" using cont_iff_occupied[OF inv, of j] j(2,3) that by (simp add: occupied_def VT_EMPTY_def)
  moreover have "\<forall>x. i \<le> x \<longrightarrow> x < j \<longrightarrow> cont t x = None" using j(4) by (simp add: cont_def VT_EMPTY_def)
  ultimately have "itr_from t i (itr\<lparr>data := Some j, metadatum := Some j, home_bucket := SIZE_MAX\<rparr>)"
    unfolding itr_from_def using j(1) e by (intro exI[of _ j]) (simp add: vt_bucket_count_shape[OF d(6)] vt_is_end_def)
  then show ?thesis using j(5) by blast
qed

lemma vt_next_from:
  assumes ok: "vt_ok HASH_FN k t" and i: "data itr = Some i" "metadatum itr = Some i" "i < 2 ^ k" "metadata_end itr = Some (2 ^ k)"
  shows "\<exists>itr'. vt_next t itr = Some itr' \<and> itr_from t (Suc i) itr'"
  using fast_forward_from[OF ok, of "Suc i" itr] i by (simp add: vt_next_def)

lemma vt_first_from:
  assumes ok: "vt_ok HASH_FN k t"
  shows "\<exists>itr. vt_first t = Some itr \<and> (if key_count t = 0 then itr = vt_end_itr else itr_from t 0 itr)"
proof -
  have b: "Suc (buckets_mask t) = 2 ^ k" using vt_okD(6)[OF ok] by (simp add: vt_shape_def)
  show ?thesis
    using fast_forward_from[OF ok, of 0 "\<lparr>data = Some 0, metadatum = Some 0, metadata_end = Some (2 ^ k), home_bucket = SIZE_MAX\<rparr>"]
    by (simp add: vt_first_def b)
qed

text \<open>Visiting every entry, as a client's loop over \<^verbatim>\<open>_first\<close>, \<^verbatim>\<open>_is_end\<close> and \<^verbatim>\<open>_next\<close> does.\<close>

partial_function (option) visit_from :: "('k, 'v) vt_table \<Rightarrow> vt_itr \<Rightarrow> ('k \<times> 'v) list option" where
  "visit_from t itr =
     (if vt_is_end itr then Some []
      else do {
        i \<leftarrow> data itr;
        b \<leftarrow> bucket_at t i;
        itr \<leftarrow> vt_next t itr;
        bs \<leftarrow> visit_from t itr;
        Some (b # bs)
      })"

lemma map_filter_None: "(\<And>x. x \<in> set xs \<Longrightarrow> f x = None) \<Longrightarrow> List.map_filter f xs = []"
  by (induction xs) (auto simp: map_filter_simps)

lemma itr_fromE:
  assumes ok: "vt_ok HASH_FN k t" and f: "itr_from t i itr" and i: "i \<le> 2 ^ k"
  obtains (stop) "vt_is_end itr" "\<And>x. i \<le> x \<Longrightarrow> x < 2 ^ k \<Longrightarrow> cont t x = None"
  | (here) j b where "\<not> vt_is_end itr" "i \<le> j" "j < 2 ^ k" "data itr = Some j" "metadatum itr = Some j" "metadata_end itr = Some (2 ^ k)"
      "home_bucket itr = SIZE_MAX" "cont t j = Some b" "bucket_at t j = Some b" "\<And>x. i \<le> x \<Longrightarrow> x < j \<Longrightarrow> cont t x = None"
proof (cases "vt_is_end itr")
  case True
  then show ?thesis using f stop by (auto simp: itr_from_def vt_bucket_count_shape[OF vt_okD(6)[OF ok]])
next
  case False
  then obtain j b where j: "i \<le> j" "data itr = Some j" "metadatum itr = Some j" "metadata_end itr = Some (2 ^ k)" "home_bucket itr = SIZE_MAX"
    "\<forall>x. i \<le> x \<longrightarrow> x < j \<longrightarrow> cont t x = None" "cont t j = Some b"
    using f by (auto simp: itr_from_def vt_bucket_count_shape[OF vt_okD(6)[OF ok]])
  moreover have "j < 2 ^ k" "bucket_at t j = Some b"
    using j(7) vt_okD(8)[OF ok] by (auto simp: cont_def bucket_at_def split: if_splits)
  ultimately show ?thesis using here False by blast
qed

lemma visit_from_ok:
  assumes ok: "vt_ok HASH_FN k t"
  shows "itr_from t i itr \<Longrightarrow> i \<le> 2 ^ k \<Longrightarrow> visit_from t itr = Some (List.map_filter (cont t) [i..<2 ^ k])"
proof (induction "2 ^ k - i" arbitrary: i itr rule: less_induct)
  case less
  show ?case
  proof (rule itr_fromE[OF ok less.prems])
    assume "vt_is_end itr" and none: "\<And>x. i \<le> x \<Longrightarrow> x < 2 ^ k \<Longrightarrow> cont t x = None"
    moreover have "List.map_filter (cont t) [i..<2 ^ k] = []" using none by (intro map_filter_None) simp
    ultimately show ?thesis by (subst visit_from.simps) simp
  next
    fix j b
    assume j: "\<not> vt_is_end itr" "i \<le> j" "j < 2 ^ k" "data itr = Some j" "metadatum itr = Some j" "metadata_end itr = Some (2 ^ k)"
      "cont t j = Some b" "bucket_at t j = Some b" "\<And>x. i \<le> x \<Longrightarrow> x < j \<Longrightarrow> cont t x = None"
    from vt_next_from[OF ok j(4,5,3,6)] obtain itr' where n: "vt_next t itr = Some itr'" "itr_from t (Suc j) itr'" by blast
    have "visit_from t itr' = Some (List.map_filter (cont t) [Suc j..<2 ^ k])"
      using less.hyps[of "Suc j" itr'] n(2) j(2,3) by simp
    moreover have "[i..<2 ^ k] = [i..<j] @ j # [Suc j..<2 ^ k]" using j(2,3) by (metis le_add_diff_inverse less_imp_le_nat upt_add_eq_append upt_conv_Cons)
    moreover have "List.map_filter (cont t) [i..<j] = []" by (intro map_filter_None) (simp add: j(9))
    moreover have "List.map_filter (cont t) (xs @ ys) = List.map_filter (cont t) xs @ List.map_filter (cont t) ys" for xs ys
      by (simp add: map_filter_def)
    ultimately show ?thesis using j n(1) by (subst visit_from.simps) (simp add: map_filter_simps)
  qed
qed

lemma visit_all:
  assumes wf: "vt_wf HASH_FN t"
  shows "\<exists>itr. vt_first t = Some itr \<and> visit_from t itr = Some (vt_entries t)"
proof (cases "key_count t = 0")
  case True
  have "vt_entries t = []"
    using wf True length_entries[of HASH_FN _ t] by (auto simp: vt_wf_def vt_entries_def vt_init_def map_filter_simps)
  then show ?thesis using True by (simp add: vt_first_def) (subst visit_from.simps, simp)
next
  case False
  then obtain k where ok: "vt_ok HASH_FN k t" using wf by (auto simp: vt_wf_def)
  from vt_first_from[OF ok] False obtain itr where "vt_first t = Some itr" "itr_from t 0 itr" by auto
  then show ?thesis using visit_from_ok[OF ok, of 0 itr] vt_okD(8)[OF ok] by (simp add: vt_entries_def)
qed

section \<open>Sizing\<close>

lemma min_bucket_count_from_ok:
  assumes "3 \<le> k"
  shows "\<exists>k' \<ge> k. min_bucket_count_from n (2 ^ k) = 2 ^ k' \<and> \<not> exceeds_max_load n (2 ^ k') \<and> (\<forall>j. k \<le> j \<longrightarrow> j < k' \<longrightarrow> exceeds_max_load n (2 ^ j))"
  using assms
proof (induction n "2 ^ k :: nat" arbitrary: k rule: min_bucket_count_from.induct)
  case (1 n)
  show ?case
  proof (cases "exceeds_max_load n (2 ^ k)")
    case True
    then obtain k' where k': "k' \<ge> Suc k" "min_bucket_count_from n (2 ^ Suc k) = 2 ^ k'" "\<not> exceeds_max_load n (2 ^ k')"
      "\<forall>j. Suc k \<le> j \<longrightarrow> j < k' \<longrightarrow> exceeds_max_load n (2 ^ j)"
      using 1(1)[of "Suc k"] 1(2) by (auto simp: mult.commute)
    have "exceeds_max_load n (2 ^ j)" if "k \<le> j" "j < k'" for j using k'(4) that True by (cases "j = k") auto
    moreover have "min_bucket_count_from n (2 ^ k) = 2 ^ k'" using k'(2) True by (subst min_bucket_count_from.simps) (simp add: mult.commute)
    ultimately show ?thesis using k' by (intro exI[of _ k']) auto
  next
    case False
    then show ?thesis by (intro exI[of _ k]) (subst min_bucket_count_from.simps, auto)
  qed
qed

lemma vt_min_bucket_count_ok:
  assumes "0 < n"
  shows "\<exists>k \<ge> 3. vt_min_bucket_count_for_size n = 2 ^ k \<and> \<not> exceeds_max_load n (2 ^ k) \<and> (\<forall>j. 3 \<le> j \<longrightarrow> j < k \<longrightarrow> exceeds_max_load n (2 ^ j))"
  using min_bucket_count_from_ok[of 3 n] assms by (simp add: vt_min_bucket_count_for_size_def VT_MIN_NONZERO_BUCKET_COUNT_def)

lemma min_bucket_count_small:
  assumes "0 < n" "n \<le> max_keys"
  shows "\<exists>k. 3 \<le> k \<and> k \<le> 11 \<and> vt_min_bucket_count_for_size n = 2 ^ k \<and> \<not> exceeds_max_load n (2 ^ k)"
proof -
  obtain k where k: "k \<ge> 3" "vt_min_bucket_count_for_size n = 2 ^ k" "\<not> exceeds_max_load n (2 ^ k)"
    "\<forall>j. 3 \<le> j \<longrightarrow> j < k \<longrightarrow> exceeds_max_load n (2 ^ j)" using vt_min_bucket_count_ok[OF assms(1)] by blast
  have "k \<le> 11"
  proof (rule ccontr)
    assume "\<not> k \<le> 11"
    then have "exceeds_max_load n (2 ^ 11)" using k(4)[rule_format, of 11] by simp
    then show False using assms(2) by (simp add: exceeds_max_load_def max_keys_def)
  qed
  then show ?thesis using k by blast
qed

lemma rehash_to:
  assumes wf: "vt_wf HASH_FN t" and k': "3 \<le> k'" "k' \<le> 11" and room: "\<not> exceeds_max_load (key_count t) (2 ^ k')"
  shows "\<exists>ok t' a'. vt_rehash HASH_FN (2 ^ k') t a = Some (ok, t', a') \<and> vt_wf HASH_FN t' \<and> vt_map t' = vt_map t \<and> key_count t' = key_count t
    \<and> live a' = live a + owned t' - owned t \<and> (ok \<longrightarrow> vt_bucket_count t' = 2 ^ k') \<and> (\<not> ok \<longrightarrow> t' = t \<and> alloc_fails a)"
proof -
  from rehash_ok[OF assms, of a] obtain ok t' a' where r: "vt_rehash HASH_FN (2 ^ k') t a = Some (ok, t', a')"
    "if alloc_fails a then \<not> ok \<and> t' = t \<and> live a' = live a
     else ok \<and> vt_ok HASH_FN k' t' \<and> vt_map t' = vt_map t \<and> key_count t' = key_count t \<and> live a' = live a + owned t' - owned t" by blast
  show ?thesis
  proof (cases "alloc_fails a")
    case True
    then show ?thesis using r wf by (intro exI[of _ ok] exI[of _ t'] exI[of _ a']) simp
  next
    case False
    then have "vt_wf HASH_FN t'" "vt_bucket_count t' = 2 ^ k'" using r(2) vt_bucket_count_shape[OF vt_okD(6)] by (auto simp: vt_wf_def)
    then show ?thesis using r False by (intro exI[of _ ok] exI[of _ t'] exI[of _ a']) simp
  qed
qed

lemma shrink_ok:
  assumes wf: "vt_wf HASH_FN t" and m: "key_count t \<le> max_keys"
  shows "\<exists>ok t' a'. vt_shrink HASH_FN t a = Some (ok, t', a') \<and> vt_wf HASH_FN t' \<and> vt_map t' = vt_map t \<and> key_count t' = key_count t
    \<and> live a' = live a + owned t' - owned t \<and> (ok \<longrightarrow> vt_bucket_count t' = vt_min_bucket_count_for_size (key_count t))
    \<and> (\<not> ok \<longrightarrow> t' = t \<and> alloc_fails a)"
proof (cases "vt_min_bucket_count_for_size (key_count t) = vt_bucket_count t")
  case True
  then show ?thesis using wf by (intro exI[of _ True] exI[of _ t] exI[of _ a]) (simp add: vt_shrink_def)
next
  case ne: False
  show ?thesis
  proof (cases "key_count t = 0")
    case True
    then have mb: "vt_min_bucket_count_for_size (key_count t) = 0" by (simp add: vt_min_bucket_count_for_size_def)
    then obtain k where ok: "vt_ok HASH_FN k t" using wf ne by (auto simp: vt_wf_def)
    have "vt_entries t = []" using length_entries[OF ok] True by simp
    then have "vt_map t = Map.empty" by (simp add: vt_map_def)
    moreover have "t\<lparr>buckets_mask := 0, buckets := [], metadata := [VT_EMPTY]\<rparr> = vt_init" using True by (cases t) (simp add: vt_init_def)
    ultimately show ?thesis using ne mb True owned_shape[OF vt_okD(6)[OF ok]]
      by (intro exI[of _ True] exI[of _ vt_init] exI[of _ "FREE_FN a"]) (simp add: vt_shrink_def FREE_FN_def vt_wf_def)
  next
    case False
    then obtain k where k: "3 \<le> k" "k \<le> 11" "vt_min_bucket_count_for_size (key_count t) = 2 ^ k" "\<not> exceeds_max_load (key_count t) (2 ^ k)"
      using min_bucket_count_small[of "key_count t"] m by auto
    then have "vt_shrink HASH_FN t a = vt_rehash HASH_FN (2 ^ k) t a" using ne by (simp add: vt_shrink_def)
    then show ?thesis using rehash_to[OF wf k(1,2,4), of a] k(3) by simp
  qed
qed

lemma vt_clear_ok:
  assumes wf: "vt_wf HASH_FN t"
  shows "vt_wf HASH_FN (vt_clear t)" "vt_map (vt_clear t) = Map.empty" "key_count (vt_clear t) = 0" "owned (vt_clear t) = owned t"
proof -
  have *: "vt_wf HASH_FN (vt_clear t) \<and> vt_map (vt_clear t) = Map.empty"
  proof (cases "key_count t = 0")
    case True
    have "vt_entries t = []"
      using wf True length_entries[of HASH_FN _ t] by (auto simp: vt_wf_def vt_entries_def vt_init_def map_filter_simps)
    then show ?thesis using True wf by (simp add: vt_clear_def vt_map_def)
  next
    case False
    then obtain k where ok: "vt_ok HASH_FN k t" using wf by (auto simp: vt_wf_def)
    note d = vt_okD[OF ok]
    obtain C where inv: "vt_inv HASH_FN k t C {}" using d(1) by blast
    let ?t = "vt_clear t"
    have md: "metadata ?t = replicate (2 ^ k) VT_EMPTY @ drop (2 ^ k) (metadata t)"
      using False vt_bucket_count_shape[OF d(6)] by (simp add: vt_clear_def)
    have occ: "occupied k (metadata ?t) = {}" unfolding md by (auto simp: occupied_def nth_append)
    have c: "cont ?t = (\<lambda>_. None)" unfolding cont_def md using d(8) False by (auto simp: fun_eq_iff nth_append vt_clear_def)
    have "metadata ?t ! (2 ^ k) \<noteq> VT_EMPTY" unfolding md using chains_invD(2)[OF vt_invD(2)[OF inv]] d(7) by (simp add: nth_append)
    then have "chains_inv k (metadata ?t) (\<lambda>_. []) {}"
      using occ d(7) by (simp add: chains_inv_def shape_ok_def links_ok_def md)
    then have "vt_inv HASH_FN k ?t (\<lambda>_. []) {}" using d(6) False by (simp add: vt_inv_def vt_shape_def vt_clear_def)
    moreover have "vt_counted k ?t" using occ False by (simp add: vt_counted_def keys_once_def c) (simp add: vt_clear_def)
    ultimately have "vt_ok HASH_FN k ?t" using d(2,3) vt_okI by blast
    moreover have "vt_map ?t = Map.empty" by (rule vt_map_eqI) (simp_all add: keys_once_def c)
    ultimately show ?thesis by (auto simp: vt_wf_def)
  qed
  show "vt_wf HASH_FN (vt_clear t)" "vt_map (vt_clear t) = Map.empty" using * by simp_all
  show "key_count (vt_clear t) = 0" "owned (vt_clear t) = owned t" by (simp_all add: vt_clear_def owned_def)
qed

lemma vt_cleanup_ok:
  assumes wf: "vt_wf HASH_FN t"
  shows "vt_cleanup t a = (vt_init, a\<lparr>live := live a - owned t\<rparr>)"
proof (cases "t = vt_init")
  case True
  then show ?thesis by (simp add: vt_cleanup_def)
next
  case False
  then obtain k where "vt_ok HASH_FN k t" using wf by (auto simp: vt_wf_def)
  then have "owned t = 1" using vt_okD(6) by fastforce
  then show ?thesis by (auto simp: vt_cleanup_def FREE_FN_def owned_def split: if_splits)
qed

lemma reserve_ok:
  assumes wf: "vt_wf HASH_FN t" and m: "n \<le> max_keys" "key_count t \<le> n"
  shows "\<exists>ok t' a'. vt_reserve HASH_FN n t a = Some (ok, t', a') \<and> vt_wf HASH_FN t' \<and> vt_map t' = vt_map t \<and> key_count t' = key_count t
    \<and> live a' = live a + owned t' - owned t \<and> (ok \<longrightarrow> vt_min_bucket_count_for_size n \<le> vt_bucket_count t')
    \<and> (\<not> ok \<longrightarrow> t' = t \<and> alloc_fails a)"
proof (cases "vt_min_bucket_count_for_size n \<le> vt_bucket_count t")
  case True
  then show ?thesis using wf by (intro exI[of _ True] exI[of _ t] exI[of _ a]) (simp add: vt_reserve_def)
next
  case False
  then have "0 < n" by (cases "n = 0") (simp_all add: vt_min_bucket_count_for_size_def)
  then obtain k where k: "3 \<le> k" "k \<le> 11" "vt_min_bucket_count_for_size n = 2 ^ k" "\<not> exceeds_max_load n (2 ^ k)"
    using min_bucket_count_small[OF _ m(1)] by auto
  then have "vt_reserve HASH_FN n t a = vt_rehash HASH_FN (2 ^ k) t a" using False by (simp add: vt_reserve_def)
  moreover have "\<not> exceeds_max_load (key_count t) (2 ^ k)" using k(4) m(2) by (simp add: exceeds_max_load_def)
  ultimately show ?thesis using rehash_to[OF wf k(1,2), of a] k(3) by auto
qed

section \<open>What the table promises\<close>

lemma entries_counted:
  assumes "vt_wf HASH_FN t"
  shows "distinct (map fst (vt_entries t))" "length (vt_entries t) = key_count t"
proof -
  have "distinct (map fst (vt_entries t)) \<and> length (vt_entries t) = key_count t"
  proof (cases "t = vt_init")
    case False
    then obtain k where ok: "vt_ok HASH_FN k t" using assms by (auto simp: vt_wf_def)
    then show ?thesis using length_entries[OF ok] distinct_entries[OF vt_okD(5)[OF ok]] by (simp add: vt_entries_def)
  qed (simp add: vt_entries_def map_filter_simps)
  then show "distinct (map fst (vt_entries t))" "length (vt_entries t) = key_count t" by simp_all
qed

lemma key_count_dom:
  assumes "vt_wf HASH_FN t"
  shows "key_count t = card (dom (vt_map t))" "finite (dom (vt_map t))"
  using entries_counted[OF assms] distinct_card[of "map fst (vt_entries t)"]
  by (simp_all add: vt_map_def dom_map_of_conv_image_fst)

lemma vt_get_init: "vt_get HASH_FN vt_init key = Some vt_end_itr"
  by (simp add: vt_get_def home_of_def VT_EMPTY_def rd_def)

lemma bucket_at_cont: "cont t i = Some b \<Longrightarrow> bucket_at t i = Some b"
  by (auto simp: cont_def bucket_at_def split: if_splits)

lemma vt_get_map:
  assumes "vt_wf HASH_FN t"
  shows "\<exists>itr. vt_get HASH_FN t key = Some itr \<and>
    (case vt_map t key of None \<Rightarrow> vt_is_end itr
     | Some v \<Rightarrow> \<not> vt_is_end itr \<and> (\<exists>i. data itr = Some i \<and> bucket_at t i = Some (key, v)))"
proof (cases "t = vt_init")
  case True
  then show ?thesis by (simp add: vt_get_init)
next
  case False
  then obtain k where ok: "vt_ok HASH_FN k t" using assms by (auto simp: vt_wf_def)
  note d = vt_okD[OF ok]
  from vt_get_wf[OF ok, of key] show ?thesis
  proof (elim disjE exE conjE)
    fix i v
    assume g: "vt_get HASH_FN t key = Some (itr_to t i (home_in HASH_FN k key))" "cont t i = Some (key, v)" "vt_map t key = Some v"
    have "i < 2 ^ k" using cont_bound[OF g(2)] d(8) by simp
    then show ?thesis using g bucket_at_cont[OF g(2)] itr_to_not_end[OF d(6)] by (simp add: itr_to_def)
  qed simp
qed

lemma vt_erase_map:
  assumes "vt_wf HASH_FN t"
  shows "\<exists>t'. vt_erase HASH_FN key t = Some (vt_map t key \<noteq> None, t') \<and> vt_wf HASH_FN t'
    \<and> vt_map t' = (vt_map t)(key := None) \<and> owned t' = owned t"
proof (cases "t = vt_init")
  case True
  then show ?thesis using assms by (simp add: vt_erase_def vt_get_init)
next
  case False
  then obtain k where ok: "vt_ok HASH_FN k t" using assms by (auto simp: vt_wf_def)
  note d = vt_okD[OF ok]
  from vt_get_wf[OF ok, of key] show ?thesis
  proof (elim disjE exE conjE)
    fix i v
    assume g: "vt_get HASH_FN t key = Some (itr_to t i (home_in HASH_FN k key))" "cont t i = Some (key, v)" "vt_map t key = Some v"
    have i: "i < 2 ^ k" using cont_bound[OF g(2)] d(8) by simp
    have "itr_at HASH_FN k key i (itr_to t i (home_in HASH_FN k key))" by (simp add: itr_at_def itr_to_def)
    from erase_itr_raw_ok[OF ok g(2) this] obtain adv t' where t': "vt_erase_itr_raw HASH_FN (itr_to t i (home_in HASH_FN k key)) t = Some (adv, t')"
      "vt_ok HASH_FN k t'" "vt_map t' = (vt_map t)(key := None)" by blast
    then show ?thesis using g i itr_to_not_end[OF d(6) i] owned_shape[OF d(6)] owned_shape[OF vt_okD(6)[OF t'(2)]]
      by (auto simp: vt_erase_def vt_wf_def)
  next
    assume "vt_get HASH_FN t key = Some vt_end_itr" "vt_map t key = None"
    then show ?thesis using assms by (simp add: vt_erase_def fun_upd_idem)
  qed
qed

text \<open>
  C38 (bounds). In a table of \<open>2 ^ k\<close> buckets the search for an empty bucket ends after at most
  2046 probes. It answers the empty bucket with the least non-zero displacement; when it answers
  that there is none, then with at most 1024 buckets every bucket but the home bucket is in
  use, with 2048 buckets at most the one at the displacement limit is empty, and only with
  more than 2048 buckets can it have missed another one.
\<close>

theorem first_empty_within_limit:
  assumes mask: "buckets_mask t = 2 ^ k - 1" and len: "length (metadata t) = 2 ^ k + 4" and home: "home < 2 ^ k"
  shows "\<exists>r. vt_find_first_empty t home = Some r \<and>
    (case r of
       Some (i, d) \<Rightarrow> 1 \<le> d \<and> d < VT_DISPLACEMENT_MASK \<and> i = (home + vt_quadratic d) AND buckets_mask t \<and> metadata t ! i = VT_EMPTY
         \<and> (\<forall>d'. 1 \<le> d' \<and> d' < d \<longrightarrow> metadata t ! ((home + vt_quadratic d') AND buckets_mask t) \<noteq> VT_EMPTY)
     | None \<Rightarrow> \<forall>i < 2 ^ k. i \<noteq> home \<and> metadata t ! i = VT_EMPTY \<longrightarrow>
         11 \<le> k \<and> (k = 11 \<longrightarrow> i = (home + vt_quadratic VT_DISPLACEMENT_MASK) AND buckets_mask t))"
proof -
  have probe: "(home + vt_quadratic d) AND buckets_mask t = pos k home (unat d)" for d
    using and_mask_nat[of "home + vt_quadratic d" k] by (simp add: mask pos_def vt_quadratic_tri)
  have occ: "pos k home x \<in> occupied k (metadata t) \<longleftrightarrow> metadata t ! pos k home x \<noteq> VT_EMPTY" for x
    by (simp add: occupied_def)
  from find_first_empty_from_ok[OF mask, of 1 home] len consider
    (found) e where "1 \<le> e" "e < 2047" "metadata t ! pos k home e = VT_EMPTY"
      "\<forall>x. 1 \<le> x \<longrightarrow> x < e \<longrightarrow> metadata t ! pos k home x \<noteq> VT_EMPTY" "vt_find_first_empty t home = Some (Some (pos k home e, of_nat e))"
    | (full) "\<forall>x. 1 \<le> x \<longrightarrow> x < 2047 \<longrightarrow> metadata t ! pos k home x \<noteq> VT_EMPTY" "vt_find_first_empty t home = Some None"
    by (auto simp: vt_find_first_empty_def occ)
  then show ?thesis
  proof cases
    case found
    have e: "unat (of_nat e :: 16 word) = e" using found(2) by (simp add: unat_displacement)
    show ?thesis
      using found by (auto simp: probe word_le_nat_alt word_less_nat_alt e VT_DISPLACEMENT_MASK_def)
  next
    case full
    have "11 \<le> k \<and> (k = 11 \<longrightarrow> i = pos k home 2047)" if i: "i < 2 ^ k" "i \<noteq> home" "metadata t ! i = VT_EMPTY" for i
    proof -
      obtain d where d: "d < 2 ^ k" "pos k home d = i" using pos_surj[OF i(1)] by blast
      have "d \<noteq> 0" using d(2) i(2) home by (cases "d = 0") auto
      then have "2047 \<le> d" using full(1)[rule_format, of d] d(2) i(3) by (cases "d < 2047") auto
      moreover have "(2 :: nat) ^ k \<le> 2 ^ 10" if "k \<le> 10" using that by (intro power_increasing) auto
      moreover have "d = 2047" if "k = 11" using that d(1) calculation(1) by simp
      ultimately show ?thesis using d by (cases "k \<le> 10") auto
    qed
    then show ?thesis using full(2) by (auto simp: probe VT_DISPLACEMENT_MASK_def)
  qed
qed

definition two_taken :: "(nat, nat) vt_table" where
  "two_taken = vt_init\<lparr>buckets_mask := 7, buckets := replicate 8 None,
     metadata := [0, 0x0FFF, 0x0FFF, 0, 0, 0, 0, 0, 1, 0, 0, 0]\<rparr>"

theorem first_empty_within_limit_witness:
  "\<exists>i d. vt_find_first_empty two_taken 1 = Some (Some (i, d)) \<and> 1 \<le> d \<and> metadata two_taken ! i = VT_EMPTY
    \<and> i = (1 + vt_quadratic d) AND 7"
proof -
  have t: "buckets_mask two_taken = 2 ^ 3 - 1" "length (metadata two_taken) = 2 ^ 3 + 4" "(1 :: nat) < 2 ^ 3" "metadata two_taken ! 0 = VT_EMPTY"
    by (simp_all add: two_taken_def VT_EMPTY_def)
  obtain r where r: "vt_find_first_empty two_taken 1 = Some r"
    "case r of
       Some (i, d) \<Rightarrow> 1 \<le> d \<and> d < VT_DISPLACEMENT_MASK \<and> i = (1 + vt_quadratic d) AND buckets_mask two_taken \<and> metadata two_taken ! i = VT_EMPTY
         \<and> (\<forall>d'. 1 \<le> d' \<and> d' < d \<longrightarrow> metadata two_taken ! ((1 + vt_quadratic d') AND buckets_mask two_taken) \<noteq> VT_EMPTY)
     | None \<Rightarrow> \<forall>i < 2 ^ 3. i \<noteq> 1 \<and> metadata two_taken ! i = VT_EMPTY \<longrightarrow>
         11 \<le> (3 :: nat) \<and> ((3 :: nat) = 11 \<longrightarrow> i = (1 + vt_quadratic VT_DISPLACEMENT_MASK) AND buckets_mask two_taken)"
    using first_empty_within_limit[OF t(1-3)] by blast
  show ?thesis
  proof (cases r)
    case None
    then have "\<forall>i < 2 ^ 3. i \<noteq> 1 \<and> metadata two_taken ! i = VT_EMPTY \<longrightarrow> 11 \<le> (3 :: nat)" using r(2) by simp
    from this[rule_format, of 0] show ?thesis using t(4) by simp
  next
    case (Some x)
    then show ?thesis using r t(1) by (cases x) simp
  qed
qed

text \<open>
  C36 (insertion). On a well-formed table with fewer than 1843 keys, \<^verbatim>\<open>_insert\<close> returns; the
  table stays well formed, with one live allocation at most. Unless the next allocation fails
  and the key is new, the returned iterator is at a bucket with the key and the new value, the
  contents are those before with the key mapped to the value, and the size counts a key that
  was absent; otherwise the iterator is the end and the table is unchanged.
\<close>

theorem vt_insert_correct:
  assumes "vt_wf HASH_FN t" "key_count t < max_keys"
  shows "\<exists>itr t' a'. vt_insert HASH_FN key val t a = Some (itr, t', a') \<and> vt_wf HASH_FN t' \<and> live a' = live a + owned t' - owned t
    \<and> (if vt_is_end itr then alloc_fails a \<and> vt_map t key = None \<and> t' = t
       else vt_map t' = (vt_map t)(key \<mapsto> val) \<and> key_count t' = key_count t + (if vt_map t key = None then 1 else 0)
         \<and> (\<exists>i. data itr = Some i \<and> bucket_at t' i = Some (key, val)))"
proof -
  from insert_loop_ok[OF assms, of key val True a] obtain itr t' a' where r:
    "insert_loop HASH_FN key val True t a = Some (itr, t', a')" "vt_wf HASH_FN t'" "live a' = live a + owned t' - owned t"
    "if vt_is_end itr then alloc_fails a \<and> vt_map t key = None \<and> t' = t
     else inserted key val True t t' \<and> (\<exists>i h. itr = itr_to t' i h \<and> cont t' i = Some (key, the (vt_map t' key)))" by blast
  then show ?thesis unfolding vt_insert_def
    by (intro exI[of _ itr] exI[of _ t'] exI[of _ a'])
      (auto simp: inserted_def itr_to_def dest: bucket_at_cont split: option.splits if_splits)
qed

theorem vt_insert_correct_witness:
  "\<exists>itr t' a'. vt_insert vt_hash_integer 7 (CHR ''x'') vt_init \<lparr>plan = [], live = 0\<rparr> = Some (itr, t', a') \<and> vt_map t' = [7 \<mapsto> CHR ''x'']"
  using vt_insert_correct[of vt_hash_integer vt_init 7 "CHR ''x''" "\<lparr>plan = [], live = 0\<rparr>"] by (auto simp: vt_wf_def max_keys_def alloc_fails_def owned_def split: if_splits)

text \<open>
  Lookup after insertion. After a successful insertion a lookup of the inserted key is at
  a bucket with the new value, and a lookup of any other key finds exactly what it found
  before: its value, or the end.
\<close>

theorem vt_insert_get_roundtrip:
  assumes "vt_wf HASH_FN t" "key_count t < max_keys" "vt_insert HASH_FN key val t a = Some (itr, t', a')" "\<not> vt_is_end itr"
  shows "\<exists>itr'. vt_get HASH_FN t' key' = Some itr' \<and>
    (case (if key' = key then Some val else vt_map t key') of None \<Rightarrow> vt_is_end itr'
     | Some v \<Rightarrow> \<not> vt_is_end itr' \<and> (\<exists>i. data itr' = Some i \<and> bucket_at t' i = Some (key', v)))"
proof -
  from insert_loop_ok[OF assms(1,2), of key val True a] assms(3,4) have "vt_wf HASH_FN t'" "inserted key val True t t'"
    unfolding vt_insert_def by auto
  then show ?thesis using vt_get_map[of HASH_FN t' key'] by (auto simp: inserted_def split: option.splits)
qed

theorem vt_insert_get_roundtrip_witness:
  "\<exists>itr t' a' itr' i. vt_insert vt_hash_integer 7 (CHR ''x'') vt_init \<lparr>plan = [], live = 0\<rparr> = Some (itr, t', a')
    \<and> vt_get vt_hash_integer t' 7 = Some itr' \<and> data itr' = Some i \<and> bucket_at t' i = Some (7, CHR ''x'')"
proof -
  have w: "vt_wf vt_hash_integer (vt_init :: (64 word, char) vt_table)" "key_count (vt_init :: (64 word, char) vt_table) < max_keys"
    by (simp_all add: vt_wf_def max_keys_def)
  obtain itr t' a' where i: "vt_insert vt_hash_integer 7 (CHR ''x'') vt_init \<lparr>plan = [], live = 0\<rparr> = Some (itr, t', a')" "\<not> vt_is_end itr"
    using insert_loop_ok[OF w, of 7 "CHR ''x''" True "\<lparr>plan = [], live = 0\<rparr>"] unfolding vt_insert_def alloc_fails_def by (auto split: if_splits)
  show ?thesis using vt_insert_get_roundtrip[OF w i, of 7] i by auto
qed

text \<open>
  Get or insert. \<^verbatim>\<open>_get_or_insert\<close> returns under the same conditions, at a bucket with the
  key: with the value it had if it was there, which is not overwritten, and else with the
  given one.
\<close>

theorem vt_get_or_insert_correct:
  assumes "vt_wf HASH_FN t" "key_count t < max_keys"
  shows "\<exists>itr t' a'. vt_get_or_insert HASH_FN key val t a = Some (itr, t', a') \<and> vt_wf HASH_FN t' \<and> live a' = live a + owned t' - owned t
    \<and> (case vt_map t key of
         Some v \<Rightarrow> vt_map t' = vt_map t \<and> (\<exists>i. data itr = Some i \<and> bucket_at t' i = Some (key, v))
       | None \<Rightarrow> if vt_is_end itr then alloc_fails a \<and> t' = t
           else vt_map t' = (vt_map t)(key \<mapsto> val) \<and> (\<exists>i. data itr = Some i \<and> bucket_at t' i = Some (key, val)))"
proof -
  from insert_loop_ok[OF assms, of key val False a] obtain itr t' a' where r:
    "insert_loop HASH_FN key val False t a = Some (itr, t', a')" "vt_wf HASH_FN t'" "live a' = live a + owned t' - owned t"
    "if vt_is_end itr then alloc_fails a \<and> vt_map t key = None \<and> t' = t
     else inserted key val False t t' \<and> (\<exists>i h. itr = itr_to t' i h \<and> cont t' i = Some (key, the (vt_map t' key)))" by blast
  then show ?thesis unfolding vt_get_or_insert_def
    by (intro exI[of _ itr] exI[of _ t'] exI[of _ a'])
      (auto simp: inserted_def itr_to_def fun_upd_idem dest: bucket_at_cont split: option.splits if_splits)
qed

theorem vt_get_or_insert_correct_witness:
  "\<exists>itr t' a'. vt_get_or_insert vt_hash_integer 7 (CHR ''x'') vt_init \<lparr>plan = [], live = 0\<rparr> = Some (itr, t', a') \<and> vt_map t' = [7 \<mapsto> CHR ''x'']"
  using vt_get_or_insert_correct[of vt_hash_integer vt_init 7 "CHR ''x''" "\<lparr>plan = [], live = 0\<rparr>"]
  by (auto simp: vt_wf_def max_keys_def alloc_fails_def split: if_splits)

text \<open>Three colliding keys, in one chain.\<close>

definition collide :: "64 word \<Rightarrow> 64 word" where
  "collide key = 5"

definition put :: "64 word \<Rightarrow> char \<Rightarrow> (64 word, char) vt_table \<Rightarrow> (64 word, char) vt_table" where
  "put key v t = fst (snd (the (vt_insert collide key v t \<lparr>plan = [], live = 0\<rparr>)))"

definition chain3 :: "(64 word, char) vt_table" where
  "chain3 = put 3 (CHR ''c'') (put 2 (CHR ''b'') (put 1 (CHR ''a'') vt_init))"

lemma put_ok:
  assumes "vt_wf collide t" "key_count t < max_keys"
  shows "vt_wf collide (put key v t)" "vt_map (put key v t) = (vt_map t)(key \<mapsto> v)" "key_count (put key v t) \<le> key_count t + 1"
  using insert_loop_ok[OF assms, of key v True "\<lparr>plan = [], live = 0\<rparr>"]
  by (auto simp: put_def vt_insert_def inserted_def alloc_fails_def split: if_splits option.splits)

lemma chain3_ok: "vt_wf collide chain3" "vt_map chain3 = [1 \<mapsto> CHR ''a'', 2 \<mapsto> CHR ''b'', 3 \<mapsto> CHR ''c'']"
proof -
  have w0: "vt_wf collide (vt_init :: (64 word, char) vt_table)" by (simp add: vt_wf_def)
  note p1 = put_ok[OF w0, of 1 "CHR ''a''", simplified max_keys_def, simplified]
  show "vt_wf collide chain3" "vt_map chain3 = [1 \<mapsto> CHR ''a'', 2 \<mapsto> CHR ''b'', 3 \<mapsto> CHR ''c'']"
    using p1 put_ok[OF p1(1), of 2 "CHR ''b''"] put_ok[OF put_ok(1)[OF p1(1), of 2 "CHR ''b''"], of 3 "CHR ''c''"]
    by (simp_all add: chain3_def max_keys_def)
qed

text \<open>
  C37 (erasing). \<^verbatim>\<open>_erase\<close> returns on every well-formed table, however the key is placed in
  its chain (alone, last, or before others), and says whether the key was there; the key is
  gone, every other key keeps its value, and the table stays well formed without touching
  the allocator.
\<close>

theorem vt_erase_correct:
  assumes "vt_wf HASH_FN t"
  shows "\<exists>t'. vt_erase HASH_FN key t = Some (vt_map t key \<noteq> None, t') \<and> vt_wf HASH_FN t'
    \<and> vt_map t' = (vt_map t)(key := None) \<and> key_count t' = key_count t - (if vt_map t key = None then 0 else 1)"
proof -
  from vt_erase_map[OF assms, of key] obtain t' where t': "vt_erase HASH_FN key t = Some (vt_map t key \<noteq> None, t')" "vt_wf HASH_FN t'"
    "vt_map t' = (vt_map t)(key := None)" by blast
  have "key_count t' = key_count t - (if vt_map t key = None then 0 else 1)"
    using key_count_dom[OF assms] key_count_dom[OF t'(2)] t'(3) by (auto simp: card_Diff_singleton_if domIff)
  then show ?thesis using t' by blast
qed

theorem vt_erase_correct_witness:
  "\<exists>t'. vt_erase collide 2 chain3 = Some (True, t') \<and> vt_map t' = [1 \<mapsto> CHR ''a'', 3 \<mapsto> CHR ''c'']"
  using vt_erase_correct[OF chain3_ok(1), of 2] by (auto simp: chain3_ok(2) fun_upd_def fun_eq_iff)

text \<open>
  C34 (iteration). The loop over \<^verbatim>\<open>_first\<close>, \<^verbatim>\<open>_is_end\<close> and \<^verbatim>\<open>_next\<close> ends, on the empty
  placeholder table too, without reading outside the metadata, and visits every entry exactly
  once, as many as \<^verbatim>\<open>_size\<close> says.
\<close>

theorem vt_iteration_complete:
  assumes "vt_wf HASH_FN t"
  shows "\<exists>itr bs. vt_first t = Some itr \<and> visit_from t itr = Some bs
    \<and> distinct (map fst bs) \<and> map_of bs = vt_map t \<and> length bs = vt_size t"
proof -
  have "distinct (map fst (vt_entries t))" "length (vt_entries t) = vt_size t" using entries_counted[OF assms] by (simp_all add: vt_size_def)
  then show ?thesis using visit_all[OF assms] by (auto simp: vt_map_def)
qed

theorem vt_iteration_complete_witness:
  "\<exists>itr bs. vt_first chain3 = Some itr \<and> visit_from chain3 itr = Some bs \<and> map_of bs = [1 \<mapsto> CHR ''a'', 2 \<mapsto> CHR ''b'', 3 \<mapsto> CHR ''c'']"
  using vt_iteration_complete[OF chain3_ok(1)] by (auto simp: chain3_ok(2))

text \<open>The 64-bit value of four elements in memory, by the byte order of the machine.\<close>

definition uint64_le :: "16 word list \<Rightarrow> 64 word" where
  "uint64_le val = ucast (val ! 0) OR push_bit 16 (ucast (val ! 1)) OR push_bit 32 (ucast (val ! 2)) OR push_bit 48 (ucast (val ! 3))"

definition uint64_of :: "bool \<Rightarrow> 16 word list \<Rightarrow> 64 word" where
  "uint64_of little_endian val = uint64_le (if little_endian then val else rev val)"

lemma bit_uint64_le:
  assumes "length val = 4" "n < 64"
  shows "bit (uint64_le val) n = bit (val ! (n div 16)) (n mod 16)"
proof -
  have w: "bit (x :: 16 word) m \<Longrightarrow> m < 16" for x m using bit_imp_le_length[of x m] by simp
  consider "n < 16" | "16 \<le> n" "n < 32" | "32 \<le> n" "n < 48" | "48 \<le> n" "n < 64" using assms(2) by linarith
  then show ?thesis
  proof cases
    case 2
    then have "n div 16 = 1" "n mod 16 = n - 16" by (simp_all add: div_nat_eqI mod_nat_eqI)
    then show ?thesis using 2 by (auto simp: uint64_le_def bit_simps dest: w)
  next
    case 3
    then have "n div 16 = 2" "n mod 16 = n - 32" by (simp_all add: div_nat_eqI mod_nat_eqI)
    then show ?thesis using 3 by (auto simp: uint64_le_def bit_simps dest: w)
  next
    case 4
    then have "n div 16 = 3" "n mod 16 = n - 48" by (simp_all add: div_nat_eqI mod_nat_eqI)
    then show ?thesis using 4 by (auto simp: uint64_le_def bit_simps dest: w)
  qed (auto simp: uint64_le_def bit_simps dest: w)
qed

lemma ctz_from_ok:
  "case ctz_from val n of Some r \<Rightarrow> n \<le> r \<and> r < 64 \<and> bit val r \<and> (\<forall>x. n \<le> x \<longrightarrow> x < r \<longrightarrow> \<not> bit val x)
   | None \<Rightarrow> \<forall>x. n \<le> x \<longrightarrow> x < 64 \<longrightarrow> \<not> bit val x"
proof (induction val n rule: ctz_from.induct)
  case (1 val n)
  have unf: "ctz_from val n = (if n < 64 then if bit val n then Some n else ctz_from val (n + 1) else None)"
    by (subst ctz_from.simps) (rule refl)
  show ?case
  proof (cases "n < 64 \<and> \<not> bit val n")
    case True
    have step: "n \<le> x \<longleftrightarrow> x = n \<or> n + 1 \<le> x" for x by auto
    have "ctz_from val n = ctz_from val (n + 1)" using unf True by simp
    then show ?thesis using 1 True unfolding step by (auto split: option.splits)
  next
    case False
    then show ?thesis using unf by auto
  qed
qed

lemma highest_below_ok:
  "case highest_below val n of Some r \<Rightarrow> r < n \<and> bit val r \<and> (\<forall>x. r < x \<longrightarrow> x < n \<longrightarrow> \<not> bit val x)
   | None \<Rightarrow> \<forall>x < n. \<not> bit val x"
  by (induction n) (auto simp: less_Suc_eq split: option.splits)

text \<open>Some bit of the first element that is not zero.\<close>

lemma nonzero_bit:
  assumes "(x :: 16 word) \<noteq> 0"
  obtains m where "m < 16" "bit x m"
proof -
  obtain m where "bit x m" using assms by (metis bit_eqI bit_0_eq bot_apply bot_bool_def)
  then show ?thesis using that bit_imp_le_length[of x m] by simp
qed

lemma lowest_bit_le:
  assumes len: "length val = 4" and r: "r < 4" "val ! r \<noteq> 0" "\<forall>x < r. val ! x = 0"
  shows "\<exists>c. ctz_from (uint64_le val) 0 = Some c \<and> c div 16 = r"
proof -
  obtain m where m: "m < 16" "bit (val ! r) m" using nonzero_bit[OF r(2)] .
  have m': "16 * r + m < 64" "(16 * r + m) div 16 = r" "(16 * r + m) mod 16 = m" using r(1) m(1) by simp_all
  have b: "bit (uint64_le val) (16 * r + m)" using bit_uint64_le[OF len m'(1)] m(2) m'(2,3) by simp
  obtain c where c: "ctz_from (uint64_le val) 0 = Some c"
    using ctz_from_ok[where val = "uint64_le val" and n = 0] m'(1) b by (cases "ctz_from (uint64_le val) 0") auto
  have ok: "c < 64" "bit (uint64_le val) c" "\<forall>x < c. \<not> bit (uint64_le val) x" using ctz_from_ok[where val = "uint64_le val" and n = 0] c by simp_all
  have "\<not> c > 16 * r + m" using ok b by blast
  then have "c div 16 \<le> r" using m(1) by (simp add: less_mult_imp_div_less div_le_mono[of c "16 * r + m" 16] m'(2))
  moreover have "val ! (c div 16) \<noteq> 0" using ok bit_uint64_le[OF len, of c] by auto
  ultimately have "c div 16 = r" using r(3) by (metis le_neq_implies_less)
  with c show ?thesis by blast
qed

lemma highest_bit_be:
  assumes len: "length val = 4" and r: "r < 4" "val ! r \<noteq> 0" "\<forall>x < r. val ! x = 0"
  shows "\<exists>c. highest_below (uint64_le (rev val)) 64 = Some c \<and> (63 - c) div 16 = r"
proof -
  let ?v = "uint64_le (rev val)"
  obtain m where m: "m < 16" "bit (val ! r) m" using nonzero_bit[OF r(2)] .
  have el: "bit ?v n = bit (val ! (3 - n div 16)) (n mod 16)" if "n < 64" for n
    using bit_uint64_le[of "rev val" n] len that by (simp add: rev_nth)
  have m': "16 * (3 - r) + m < 64" "(16 * (3 - r) + m) div 16 = 3 - r" "(16 * (3 - r) + m) mod 16 = m" using r(1) m(1) by auto
  have b: "bit ?v (16 * (3 - r) + m)" using el[OF m'(1)] m(2) m'(2,3) r(1) by simp
  obtain c where c: "highest_below ?v 64 = Some c"
    using highest_below_ok[where val = ?v and n = 64] m'(1) b by (cases "highest_below ?v 64") auto
  have ok: "c < 64" "bit ?v c" "\<forall>x. c < x \<longrightarrow> x < 64 \<longrightarrow> \<not> bit ?v x" using highest_below_ok[where val = ?v and n = 64] c by simp_all
  have "\<not> c < 16 * (3 - r) + m" using ok b m'(1) by blast
  then have "3 - r \<le> c div 16" using div_le_mono[of "16 * (3 - r) + m" c 16] m'(2) by simp
  moreover have "\<not> 3 - c div 16 < r" using ok el[of c] r(3) by auto
  ultimately have "3 - c div 16 = r" using r(1) by linarith
  moreover have "(63 - c) div 16 = 3 - c div 16" using ok(1) by linarith
  ultimately show ?thesis using c by simp
qed

text \<open>
  C40 (scanning four metadata at once). For four metadata that are not all empty, the forms with
  compiler intrinsics, for GNU and Microsoft compilers and either byte order, and the portable form of
  \<^verbatim>\<open>vt_first_nonzero_uint16\<close> give the same position, that of the first one that is not zero.
\<close>

theorem first_nonzero_forms_agree:
  assumes "length val = 4" "val \<noteq> [0, 0, 0, 0]"
  shows "vt_first_nonzero_uint16_gnuc le (uint64_of le val) = Some (vt_first_nonzero_uint16 val)
    \<and> vt_first_nonzero_uint16_msvc le (uint64_of le val) = Some (vt_first_nonzero_uint16 val)
    \<and> val ! vt_first_nonzero_uint16 val \<noteq> 0 \<and> (\<forall>x < vt_first_nonzero_uint16 val. val ! x = 0)"
proof -
  define r where "r = vt_first_nonzero_uint16 val"
  have r: "r < 4" "val ! r \<noteq> 0" "\<forall>x < r. val ! x = 0" using first_nonzero_ok[OF assms] by (simp_all add: r_def)
  show ?thesis
    using lowest_bit_le[OF assms(1) r] highest_bit_be[OF assms(1) r] r
    by (auto simp: vt_first_nonzero_uint16_gnuc_def vt_first_nonzero_uint16_msvc_def uint64_of_def r_def)
qed

theorem first_nonzero_forms_agree_witness:
  "vt_first_nonzero_uint16_gnuc True (uint64_of True [0, 0, 0x7FF, 1]) = Some (vt_first_nonzero_uint16 [0, 0, 0x7FF, 1])
   \<and> vt_first_nonzero_uint16_msvc False (uint64_of False [0, 0, 0x7FF, 1]) = Some (vt_first_nonzero_uint16 [0, 0, 0x7FF, 1])"
  using first_nonzero_forms_agree[of "[0, 0, 0x7FF, 1]"] by simp

text \<open>
  Sizing. For a positive number of keys \<^verbatim>\<open>_min_bucket_count_for_size\<close> returns the least
  power of two, and at least eight, that holds them within the maximum load; for none it
  returns no bucket at all.
\<close>

theorem vt_min_bucket_count_least:
  "vt_min_bucket_count_for_size 0 = 0
   \<and> (\<forall>n > 0. \<exists>k \<ge> 3. vt_min_bucket_count_for_size n = 2 ^ k \<and> 10 * n \<le> 9 * 2 ^ k
        \<and> (\<forall>j. 3 \<le> j \<longrightarrow> j < k \<longrightarrow> 10 * n > 9 * 2 ^ j))"
  using vt_min_bucket_count_ok by (fastforce simp: vt_min_bucket_count_for_size_def exceeds_max_load_def not_less)

theorem vt_min_bucket_count_least_witness:
  "vt_min_bucket_count_for_size 0 = 0 \<and> (\<exists>k \<ge> 3. vt_min_bucket_count_for_size 8 = 2 ^ k \<and> 80 \<le> 9 * (2 :: nat) ^ k)"
  using vt_min_bucket_count_least[THEN conjunct1] vt_min_bucket_count_least[THEN conjunct2, rule_format, of 8] by auto

text \<open>
  C39 (resizing and release). \<^verbatim>\<open>_reserve\<close> and \<^verbatim>\<open>_shrink\<close> return, keep the contents whether or
  not their allocation succeeds, leave exactly one allocation per table with buckets, and on
  success give the capacity asked for; \<^verbatim>\<open>_clear\<close> forgets every key; \<^verbatim>\<open>_cleanup\<close> returns the
  memory and leaves the initial table.
\<close>

theorem vt_resize_and_release:
  assumes "vt_wf HASH_FN t" "key_count t \<le> n" "n \<le> max_keys"
  shows "(\<exists>ok t' a'. vt_reserve HASH_FN n t a = Some (ok, t', a') \<and> vt_wf HASH_FN t' \<and> vt_map t' = vt_map t
      \<and> live a' = live a + owned t' - owned t \<and> (if ok then vt_min_bucket_count_for_size n \<le> vt_bucket_count t' else t' = t \<and> alloc_fails a))
    \<and> (\<exists>ok t' a'. vt_shrink HASH_FN t a = Some (ok, t', a') \<and> vt_wf HASH_FN t' \<and> vt_map t' = vt_map t
      \<and> live a' = live a + owned t' - owned t
      \<and> (if ok then vt_bucket_count t' = vt_min_bucket_count_for_size (key_count t) else t' = t \<and> alloc_fails a))
    \<and> vt_wf HASH_FN (vt_clear t) \<and> vt_map (vt_clear t) = Map.empty \<and> vt_size (vt_clear t) = 0
    \<and> vt_cleanup t a = (vt_init, a\<lparr>live := live a - owned t\<rparr>)"
proof -
  have k: "key_count t \<le> max_keys" using assms(2,3) by simp
  obtain ok t1 a1 where r: "vt_reserve HASH_FN n t a = Some (ok, t1, a1)" "vt_wf HASH_FN t1" "vt_map t1 = vt_map t"
    "live a1 = live a + owned t1 - owned t" "ok \<longrightarrow> vt_min_bucket_count_for_size n \<le> vt_bucket_count t1" "\<not> ok \<longrightarrow> t1 = t \<and> alloc_fails a"
    using reserve_ok[OF assms(1,3,2), of a] by blast
  obtain ok' t2 a2 where s: "vt_shrink HASH_FN t a = Some (ok', t2, a2)" "vt_wf HASH_FN t2" "vt_map t2 = vt_map t"
    "live a2 = live a + owned t2 - owned t" "ok' \<longrightarrow> vt_bucket_count t2 = vt_min_bucket_count_for_size (key_count t)" "\<not> ok' \<longrightarrow> t2 = t \<and> alloc_fails a"
    using shrink_ok[OF assms(1) k, of a] by blast
  show ?thesis using r s vt_clear_ok[OF assms(1)] vt_cleanup_ok[OF assms(1), of a] by (simp add: vt_size_def)
qed

theorem vt_resize_and_release_witness:
  "\<exists>ok t' a'. vt_reserve collide 100 (vt_init :: (64 word, char) vt_table) \<lparr>plan = [False], live = 0\<rparr> = Some (ok, t', a') \<and> vt_map t' = Map.empty"
  using vt_resize_and_release[of collide "vt_init :: (64 word, char) vt_table" 100 "\<lparr>plan = [False], live = 0\<rparr>"]
  by (auto simp: vt_wf_def max_keys_def)

section \<open>The table as a keyed map\<close>

text \<open>
  With keys from a range of fewer than 1843 numbers, as signal numbers are, and an allocator
  that succeeds, the table meets the contract that the registry asks of its map.
\<close>

definition signo_key :: "64 word \<Rightarrow> bool" where
  "signo_key key \<longleftrightarrow> unat key < max_keys"

definition table_wf :: "(64 word, 'v) vt_table \<Rightarrow> bool" where
  "table_wf t \<longleftrightarrow> vt_wf vt_hash_integer t \<and> dom (vt_map t) \<subseteq> Collect signo_key"

definition table_insert :: "(64 word, 'v) vt_table \<Rightarrow> 64 word \<Rightarrow> 'v \<Rightarrow> (64 word, 'v) vt_table option" where
  "table_insert t key v = do {
     (itr, t, a) \<leftarrow> vt_insert vt_hash_integer key v t \<lparr>plan = [], live = 0\<rparr>;
     (if vt_is_end itr then None else Some t)
   }"

definition table_erase :: "(64 word, 'v) vt_table \<Rightarrow> 64 word \<Rightarrow> (64 word, 'v) vt_table option" where
  "table_erase t key = do {
     (present, t) \<leftarrow> vt_erase vt_hash_integer key t;
     (if present then Some t else None)
   }"

lemma room_for_signo:
  assumes "table_wf t" "signo_key key" "vt_map t key = None"
  shows "key_count t < max_keys"
proof -
  have wf: "vt_wf vt_hash_integer t" and dom: "dom (vt_map t) \<subseteq> Collect signo_key" using assms(1) by (simp_all add: table_wf_def)
  have inj: "inj (unat :: 64 word \<Rightarrow> nat)" by (auto intro!: injI unsigned_word_eqI)
  have sub: "unat ` insert key (dom (vt_map t)) \<subseteq> {..<max_keys}" using dom assms(2) by (auto simp: signo_key_def)
  have "card (insert key (dom (vt_map t))) \<le> max_keys"
    using card_mono[OF _ sub] card_image[OF inj_on_subset[OF inj, of "insert key (dom (vt_map t))"]] by simp
  then show ?thesis using key_count_dom[OF wf] assms(3) by (simp add: card_insert_if domIff)
qed

lemma table_insert_ok:
  assumes "table_wf t" "signo_key key" "vt_map t key = None"
  shows "\<exists>t'. table_insert t key v = Some t' \<and> table_wf t' \<and> vt_map t' = (vt_map t)(key \<mapsto> v)"
proof -
  have wf: "vt_wf vt_hash_integer t" using assms(1) by (simp add: table_wf_def)
  from insert_loop_ok[OF wf room_for_signo[OF assms], of key v True "\<lparr>plan = [], live = 0\<rparr>"] obtain itr t' a'
    where "vt_insert vt_hash_integer key v t \<lparr>plan = [], live = 0\<rparr> = Some (itr, t', a')" "\<not> vt_is_end itr" "vt_wf vt_hash_integer t'"
      "inserted key v True t t'" by (auto simp: vt_insert_def alloc_fails_def split: if_splits)
  then show ?thesis using assms by (auto simp: table_insert_def table_wf_def inserted_def split: if_splits)
qed

lemma table_erase_ok:
  assumes "table_wf t" "vt_map t key = Some v"
  shows "\<exists>t'. table_erase t key = Some t' \<and> table_wf t' \<and> vt_map t' = (vt_map t)(key := None)"
proof -
  have wf: "vt_wf vt_hash_integer t" using assms(1) by (simp add: table_wf_def)
  from vt_erase_map[OF wf, of key] show ?thesis using assms by (auto simp: table_erase_def table_wf_def subset_iff domIff)
qed

interpretation table_map: keyed_map table_wf signo_key vt_map table_insert table_erase
  by unfold_locales (auto simp: table_insert_ok table_erase_ok, auto simp: table_wf_def)

text \<open>
  The map of the registry, in its hash form. Inserting a container for a number without
  one and erasing it again leaves the map as it was.
\<close>

theorem table_map_roundtrip:
  assumes "table_wf t" "signo_key key" "vt_map t key = None"
  shows "\<exists>t1 t2. table_insert t key v = Some t1 \<and> table_erase t1 key = Some t2 \<and> table_wf t2 \<and> vt_map t2 = vt_map t"
  by (rule table_map.ins_del_roundtrip[OF assms])

theorem table_map_roundtrip_witness:
  "\<exists>t1 t2. table_insert vt_init 11 (CHR ''x'') = Some t1 \<and> table_erase t1 11 = Some t2 \<and> vt_map t2 = Map.empty"
  using table_map_roundtrip[of vt_init 11 "CHR ''x''"] by (auto simp: table_wf_def vt_wf_def signo_key_def max_keys_def)

end
