(* ===== verification/Windows_Seh.thy ===== *)
theory Windows_Seh
  imports Posix_Raise
begin

unbundle bit_operations_syntax

text \<open>
  The Windows backend, \<^verbatim>\<open>thrd_signal_handle_windows.c.ipp\<close>: signals travel as structured
  exceptions, the guarded sections are \<^verbatim>\<open>__except\<close> filters that the host runs innermost first,
  and the global deciders run in the unhandled exception filter and the vectored continue
  handler. What the host does between \<^verbatim>\<open>RaiseException\<close> and these callbacks is an argument of
  the operations that use it. The registry is the one of the other backend, with its bound on
  signal numbers.
\<close>

section \<open>Exceptions and state\<close>

text \<open>
  An \<^verbatim>\<open>EXCEPTION_RECORD\<close> with its array of parameters, of which the first \<open>NumberParameters\<close>
  are set; reading past the array is a fault. A pointer is its numeric value.
\<close>

record exception_record =
  ExceptionCode :: "32 word"
  ExceptionFlags :: "32 word"
  NumberParameters :: nat
  ExceptionInformation :: "64 word list"

record exception_pointers =
  ExceptionRecord :: exception_record
  ContextRecord :: "64 word"

datatype seh_disposition =
  EXCEPTION_CONTINUE_SEARCH | EXCEPTION_CONTINUE_EXECUTION | EXCEPTION_EXECUTE_HANDLER

definition EXCEPTION_NONCONTINUABLE :: "32 word" where "EXCEPTION_NONCONTINUABLE = 1"
definition EXCEPTION_SOFTWARE_ORIGINATE :: "32 word" where "EXCEPTION_SOFTWARE_ORIGINATE = 0x80"
definition EXCEPTION_MAXIMUM_PARAMETERS :: nat where "EXCEPTION_MAXIMUM_PARAMETERS = 15"
definition USER_RAISE_BASE :: "32 word" where "USER_RAISE_BASE = 0x40000000"
definition RAW_CONTEXT_MARK :: "64 word" where "RAW_CONTEXT_MARK = 0xdeadbeefdeadbeef"

definition info_at :: "exception_record \<Rightarrow> nat \<Rightarrow> 64 word option" where
  "info_at r i = (if i < length (ExceptionInformation r) then Some (ExceptionInformation r ! i) else None)"

text \<open>
  The state of a raise in flight. Its \<^verbatim>\<open>prev\<close> is never rewritten: chains are the lists of
  addresses in the thread's state.
\<close>

record raise_frame =
  exception_was_unclaimed :: bool
  exception_was_claimed :: bool
  rf_code :: "32 word"
  rf_flags :: "32 word"
  rf_params :: nat
  rf_first :: "64 word"

definition raise_frame_zero :: raise_frame where
  "raise_frame_zero = \<lparr>exception_was_unclaimed = False, exception_was_claimed = False,
     rf_code = 0, rf_flags = 0, rf_params = 0, rf_first = 0\<rparr>"

record win_tss =
  front :: "nat list"
  stdc_raise_initiated_exception :: "nat list"

text \<open>
  The members that the backend adds to the registry's state: the calling thread's state, the
  raises in flight in its stack, the recorded decision, and the process-wide registrations.
\<close>

record win_world =
  reg :: sig_world
  wtss :: "win_tss option"
  raises :: "raise_frame heap"
  last_global_decider_record :: raise_frame
  last_global_decider_result :: seh_disposition
  continue_handlers :: nat
  filter_set :: bool
  vectored_continue_handler :: "nat option"
  old_unhandled_exception_filter :: bool

text \<open>The information for deciders, with the members that differ on this platform.\<close>

record win_siginfo = stdc_siginfo +
  w_raw_info :: "exception_record option"
  w_raw_context :: "64 word"
  w_local_decider :: "nat list"
  internal_win_state :: "nat list"

type_synonym win_decide_fn =
  "fnptr \<Rightarrow> win_siginfo \<Rightarrow> win_world \<Rightarrow> (dec_outcome \<times> win_siginfo \<times> win_world) option"

section \<open>Signals as exception codes\<close>

definition win32_exception_code_from_signal :: "32 word \<Rightarrow> 32 word" where
  "win32_exception_code_from_signal c =
     (if sint c = W_SIGABRT then 0xC0000025
      else if sint c = W_SIGBUS then 0xC0000006
      else if sint c = W_SIGILL then 0xC000001D
      else if sint c = W_SIGSEGV then 0xC0000005
      else if sint c = W_SIGFPE then 0xC0000090
      else USER_RAISE_BASE OR (c AND 0x3FFFFFFF))"

definition signal_from_win32_exception_code :: "32 word \<Rightarrow> int" where
  "signal_from_win32_exception_code c =
     (if c = 0xC0000025 then W_SIGABRT
      else if c = 0xC0000006 then W_SIGBUS
      else if c = 0xC000001D then W_SIGILL
      else if c = 0xC0000005 \<or> c = 0xC00000FD then W_SIGSEGV
      else if c \<in> {0xC000008D, 0xC000008E, 0xC000008F, 0xC0000090, 0xC0000091, 0xC0000092,
        0xC0000093, 0xC0000094, 0xC0000095} then W_SIGFPE
      else if c AND 0x80000000 = 0 \<and> c \<ge> USER_RAISE_BASE then sint (c - USER_RAISE_BASE)
      else 0)"

section \<open>Preparing the information\<close>

definition win_rsi_zero :: win_siginfo where
  "win_rsi_zero = \<lparr>signo = 0, error_code = 0, si_fault_addr = 0, si_value = 0, raw_info = None,
     raw_context = None, internal_local_decider = [], internal_sighandler = None,
     internal_global_decider = None, internal_decider_is_abandoned = False,
     w_raw_info = None, w_raw_context = 0, w_local_decider = [], internal_win_state = []\<rparr>"

definition win_prepare_rsi :: "int \<Rightarrow> exception_pointers \<Rightarrow> win_siginfo option" where
  "win_prepare_rsi sig ptrs = do {
     let r = ExceptionRecord ptrs;
     let n = NumberParameters r;
     let rsi = win_rsi_zero\<lparr>signo := sig\<rparr>;
     marked \<leftarrow> (if n \<ge> 2 then do { m \<leftarrow> info_at r (n - 2); Some (m = RAW_CONTEXT_MARK) } else Some False);
     rsi \<leftarrow> (if marked
       then do { c \<leftarrow> info_at r (n - 1); Some (rsi\<lparr>w_raw_context := c\<rparr>) }
       else Some (rsi\<lparr>w_raw_context := ContextRecord ptrs\<rparr>));
     let rsi = rsi\<lparr>w_raw_info := Some r\<rparr>;
     rsi \<leftarrow> (if n \<ge> 3
       then do { e \<leftarrow> info_at r 2; Some (rsi\<lparr>error_code := sint (ucast e :: 32 word)\<rparr>) }
       else Some rsi);
     (if n \<ge> 2 then do { a \<leftarrow> info_at r 1; Some (rsi\<lparr>si_fault_addr := a\<rparr>) } else Some rsi)
   }"

section \<open>Identifying an exception\<close>

definition win32_record_global_decider_decision ::
  "exception_record \<Rightarrow> seh_disposition \<Rightarrow> win_world \<Rightarrow> win_world option" where
  "win32_record_global_decider_decision r result W = do {
     first \<leftarrow> (if NumberParameters r > 0 then info_at r 0 else Some 0);
     Some (W\<lparr>last_global_decider_record := (last_global_decider_record W)\<lparr>rf_code := ExceptionCode r,
         rf_flags := ExceptionFlags r, rf_params := NumberParameters r, rf_first := first\<rparr>,
       last_global_decider_result := result\<rparr>)
   }"

definition win32_exception_record_matches :: "raise_frame \<Rightarrow> exception_record \<Rightarrow> bool option" where
  "win32_exception_record_matches state r =
     (if rf_code state = ExceptionCode r
        \<and> rf_flags state AND NOT EXCEPTION_SOFTWARE_ORIGINATE
          = ExceptionFlags r AND NOT EXCEPTION_SOFTWARE_ORIGINATE
        \<and> rf_params state = NumberParameters r
      then if NumberParameters r = 0 then Some True
      else do { first \<leftarrow> info_at r 0; Some (rf_first state = first) }
      else Some False)"

definition win32_matching_raise_frame :: "exception_record \<Rightarrow> win_world \<Rightarrow> nat option option" where
  "win32_matching_raise_frame r W =
     (case wtss W of
        None \<Rightarrow> Some None
      | Some st \<Rightarrow>
          (case stdc_raise_initiated_exception st of
             [] \<Rightarrow> Some None
           | a # _ \<Rightarrow> do {
               f \<leftarrow> raises W a;
               matches \<leftarrow> win32_exception_record_matches f r;
               Some (if matches then Some a else None)
             }))"

section \<open>The frame filter\<close>

record filter_state =
  fs_rsi :: win_siginfo
  fs_guarded :: win_sigset
  fs_recovery :: "fnptr option"
  fs_decider :: fnptr
  fs_value :: siginfo_value
  tss_front_at_entry :: "nat list"
  win_at_entry :: "nat list"

datatype filter_outcome = Filtered seh_disposition | Filter_Left

definition win32_exception_filter ::
  "win_decide_fn \<Rightarrow> filter_state \<Rightarrow> exception_pointers \<Rightarrow> win_world
     \<Rightarrow> (filter_outcome \<times> filter_state \<times> win_world) option" where
  "win32_exception_filter decide state ptrs W = do {
     let sig = signal_from_win32_exception_code (ExceptionCode (ExceptionRecord ptrs));
     (if fst (win_sigismember (fs_guarded state) sig) = 1
      then do {
        rsi \<leftarrow> win_prepare_rsi sig ptrs;
        st \<leftarrow> wtss W;
        let rsi = rsi\<lparr>si_value := fs_value state, w_local_decider := front st\<rparr>;
        (out, rsi, W) \<leftarrow> decide (fs_decider state) rsi W;
        let state = state\<lparr>fs_rsi := rsi\<rparr>;
        (case out of
           Leaves \<Rightarrow> Some (Filter_Left, state, W)
         | Returns sig_decision_next_decider \<Rightarrow> Some (Filtered EXCEPTION_CONTINUE_SEARCH, state, W)
         | Returns sig_decision_resume_execution \<Rightarrow> do {
             frame \<leftarrow> win32_matching_raise_frame (ExceptionRecord ptrs) W;
             W \<leftarrow> (case frame of
                 None \<Rightarrow> Some W
               | Some a \<Rightarrow> do {
                   h \<leftarrow> store (raises W) (Some a) (\<lambda>f. f\<lparr>exception_was_claimed := True\<rparr>);
                   Some (W\<lparr>raises := h\<rparr>)
                 });
             W \<leftarrow> win32_record_global_decider_decision (ExceptionRecord ptrs) EXCEPTION_CONTINUE_EXECUTION W;
             Some (Filtered EXCEPTION_CONTINUE_EXECUTION, state, W)
           }
         | Returns sig_decision_call_recovery \<Rightarrow>
             (if fs_recovery state = None then Some (Filtered EXCEPTION_CONTINUE_SEARCH, state, W)
              else do {
                assert_that (wtss W \<noteq> None);
                Some (Filtered EXCEPTION_EXECUTE_HANDLER, state,
                  W\<lparr>wtss := Some \<lparr>front = tss_front_at_entry state,
                    stdc_raise_initiated_exception = win_at_entry state\<rparr>\<rparr>)
              }))
      }
      else Some (Filtered EXCEPTION_CONTINUE_SEARCH, state, W))
   }"

section \<open>Guarded sections\<close>

definition win_tss_state_init :: "win_world \<Rightarrow> int \<times> win_world" where
  "win_tss_state_init W =
     (if wtss W \<noteq> None then (0, W)
      else (case host_alloc (reg W) of
        (None, w) \<Rightarrow> (-1, W\<lparr>reg := w\<lparr>errno := ENOMEM\<rparr>\<rparr>)
      | (Some a, w) \<Rightarrow> (0, W\<lparr>reg := w, wtss := Some \<lparr>front = [], stdc_raise_initiated_exception = []\<rparr>\<rparr>)))"

text \<open>
  The host's \<^verbatim>\<open>__try\<close> around the guarded function, with the filter that it consults for an
  exception inside: it ends with the function's value, with the stack unwound to the
  \<^verbatim>\<open>__except\<close> block, or not at all.
\<close>

datatype try_outcome = Try_Value siginfo_value | Try_Except | Try_Gone

type_synonym try_fn =
  "(filter_state \<Rightarrow> exception_pointers \<Rightarrow> win_world \<Rightarrow> (filter_outcome \<times> filter_state \<times> win_world) option)
     \<Rightarrow> filter_state \<Rightarrow> siginfo_value \<Rightarrow> win_world \<Rightarrow> (try_outcome \<times> filter_state \<times> win_world) option"

definition win_sigguarded ::
  "win_decide_fn \<Rightarrow> win_sigset option \<Rightarrow> try_fn option
     \<Rightarrow> (fnptr \<times> (win_siginfo \<Rightarrow> win_world \<Rightarrow> (siginfo_value \<times> win_world) option)) option
     \<Rightarrow> fnptr option \<Rightarrow> siginfo_value \<Rightarrow> win_world
     \<Rightarrow> (siginfo_value option option \<times> win_world) option" where
  "win_sigguarded decide signals guarded recovery d value W =
     (if signals = None \<or> guarded = None \<or> d = None then Some (None, W)
      else (case win_tss_state_init W of
        (r, W) \<Rightarrow>
          if r \<noteq> 0 then Some (Some (Some sigguarded_failure_value), W)
          else do {
            st \<leftarrow> wtss W;
            let state = \<lparr>fs_rsi = win_rsi_zero, fs_guarded = the signals,
              fs_recovery = map_option fst recovery, fs_decider = the d, fs_value = value,
              tss_front_at_entry = front st, win_at_entry = stdc_raise_initiated_exception st\<rparr>;
            (out, state, W) \<leftarrow> the guarded (win32_exception_filter decide) state value W;
            (case out of
               Try_Value v \<Rightarrow> Some (Some (Some v), W)
             | Try_Except \<Rightarrow> do {
                 (_, f) \<leftarrow> recovery;
                 (v, W) \<leftarrow> f (fs_rsi state) W;
                 Some (Some (Some v), W)
               }
             | Try_Gone \<Rightarrow> Some (Some None, W))
          }))"

section \<open>Raising\<close>

text \<open>
  How \<^verbatim>\<open>RaiseException\<close> ends: it returns, a decider jumped to the buffer of a raise in flight,
  a guarded section's handler unwound it, or the process ended.
\<close>

datatype seh_outcome = Continued | Jumped nat | Unwound | Ended

datatype win_raise_outcome = W_Raised bool | W_Jumped nat | W_Unwound | W_Ended

definition pop_raise :: "nat list \<Rightarrow> nat list \<Rightarrow> win_world \<Rightarrow> win_world option" where
  "pop_raise old prev W = do {
     assert_that (wtss W \<noteq> None);
     Some (W\<lparr>wtss := Some \<lparr>front = old, stdc_raise_initiated_exception = prev\<rparr>\<rparr>)
   }"

text \<open>The record that a raise delivers, from the caller's one, which it extends in place.\<close>

definition append_raw_context :: "exception_record \<Rightarrow> 64 word \<Rightarrow> exception_record" where
  "append_raw_context i context =
     (if context \<noteq> 0 \<and> NumberParameters i < EXCEPTION_MAXIMUM_PARAMETERS - 2
      then i\<lparr>NumberParameters := NumberParameters i + 2,
        ExceptionInformation := ((ExceptionInformation i)[NumberParameters i := RAW_CONTEXT_MARK])
          [NumberParameters i + 1 := context]\<rparr>
      else i)"

definition raise_snapshot :: "32 word \<Rightarrow> exception_record option \<Rightarrow> raise_frame option" where
  "raise_snapshot code info =
     (case info of
        None \<Rightarrow> Some (raise_frame_zero\<lparr>rf_code := code\<rparr>)
      | Some i \<Rightarrow> do {
          first \<leftarrow> info_at i 0;
          Some (raise_frame_zero\<lparr>rf_code := code, rf_flags := ExceptionFlags i AND EXCEPTION_NONCONTINUABLE,
            rf_params := NumberParameters i, rf_first := first\<rparr>)
        })"

definition raised_record :: "32 word \<Rightarrow> exception_record option \<Rightarrow> exception_record" where
  "raised_record code info =
     (case info of
        None \<Rightarrow> \<lparr>ExceptionCode = code, ExceptionFlags = 0, NumberParameters = 0, ExceptionInformation = []\<rparr>
      | Some i \<Rightarrow> \<lparr>ExceptionCode = code, ExceptionFlags = ExceptionFlags i AND EXCEPTION_NONCONTINUABLE,
          NumberParameters = NumberParameters i, ExceptionInformation = ExceptionInformation i\<rparr>)"

definition win_stdc_raise ::
  "(exception_record \<Rightarrow> win_world \<Rightarrow> (seh_outcome \<times> win_world) option)
     \<Rightarrow> 32 word \<Rightarrow> exception_record option \<Rightarrow> 64 word \<Rightarrow> win_world
     \<Rightarrow> (win_raise_outcome \<times> exception_record option \<times> win_world) option" where
  "win_stdc_raise RaiseException sig info context W =
     (case win_tss_state_init W of
        (r, W) \<Rightarrow>
          if r \<noteq> 0
          then Some (W_Raised False, info,
            if errno (reg W) = 0 then W\<lparr>reg := (reg W)\<lparr>errno := ENOMEM\<rparr>\<rparr> else W)
          else if sig = 0 then Some (W_Raised False, info, W)
          else do {
            st \<leftarrow> wtss W;
            let old = front st;
            let prev = stdc_raise_initiated_exception st;
            let a = next_addr (reg W);
            let W = W\<lparr>reg := (reg W)\<lparr>next_addr := Suc a\<rparr>,
              wtss := Some \<lparr>front = a # old, stdc_raise_initiated_exception = a # prev\<rparr>\<rparr>;
            let code = win32_exception_code_from_signal sig;
            let info = map_option (\<lambda>i. append_raw_context i context) info;
            snapshot \<leftarrow> raise_snapshot code info;
            let W = W\<lparr>raises := (raises W)(a \<mapsto> snapshot)\<rparr>;
            (out, W) \<leftarrow> RaiseException (raised_record code info) W;
            (case out of
               Continued \<Rightarrow> do {
                 W \<leftarrow> pop_raise old prev W;
                 f \<leftarrow> raises W a;
                 Some (W_Raised (\<not> exception_was_unclaimed f), info, W\<lparr>raises := (raises W)(a := None)\<rparr>)
               }
             | Jumped j \<Rightarrow>
                 (if j = a
                  then do {
                    W \<leftarrow> pop_raise old prev W;
                    Some (W_Raised True, info, W\<lparr>raises := (raises W)(a := None)\<rparr>)
                  }
                  else Some (W_Jumped j, info, W\<lparr>raises := (raises W)(a := None)\<rparr>))
             | Unwound \<Rightarrow> Some (W_Unwound, info, W\<lparr>raises := (raises W)(a := None)\<rparr>)
             | Ended \<Rightarrow> Some (W_Ended, info, W))
          })"

section \<open>The global deciders\<close>

definition win32_unclaimed_software_raise ::
  "exception_record \<Rightarrow> win_world \<Rightarrow> (seh_disposition \<times> win_world) option" where
  "win32_unclaimed_software_raise r W = do {
     frame \<leftarrow> win32_matching_raise_frame r W;
     (case frame of
        Some a \<Rightarrow> do {
          f \<leftarrow> raises W a;
          Some (EXCEPTION_CONTINUE_EXECUTION,
            if \<not> exception_was_claimed f
            then W\<lparr>raises := (raises W)(a \<mapsto> f\<lparr>exception_was_unclaimed := True\<rparr>)\<rparr> else W)
        }
      | None \<Rightarrow> Some (EXCEPTION_CONTINUE_SEARCH, W))
   }"

datatype pass_outcome = Passed seh_disposition | Pass_Jump nat | Pass_Left

definition on_reg :: "(sig_world \<Rightarrow> sig_world option) \<Rightarrow> win_world \<Rightarrow> win_world option" where
  "on_reg f W = do { w \<leftarrow> f (reg W); Some (W\<lparr>reg := w\<rparr>) }"

text \<open>
  The loop over the deciders of a container, entered with the lock held. The answer
  \<^term>\<open>Some None\<close> (lock held) means that none claimed the exception, \<^term>\<open>Some (Some True)\<close> (lock
  free) that one did, \<^term>\<open>Some (Some False)\<close> that one left.
\<close>

partial_function (option) pass_deciders ::
  "win_decide_fn \<Rightarrow> ptr \<Rightarrow> ptr \<Rightarrow> win_siginfo \<Rightarrow> win_world \<Rightarrow> (bool option \<times> win_world) option" where
  "pass_deciders decide item current rsi W = do {
     c \<leftarrow> deref (nodes (reg W)) current;
     let rsi = rsi\<lparr>si_value := dvalue c\<rparr>;
     W \<leftarrow> on_reg (node_upd current (\<lambda>d. d\<lparr>refcount := refcount d + 1\<rparr>)) W;
     W \<leftarrow> on_reg UNLOCK W;
     let rsi = rsi\<lparr>internal_sighandler := item, internal_global_decider := current\<rparr>;
     c \<leftarrow> deref (nodes (reg W)) current;
     (out, rsi, W) \<leftarrow> decide (decider c) rsi
       (W\<lparr>reg := log_event (Ev_Decider (decider c) (signo rsi) (si_value rsi)) (reg W)\<rparr>);
     (case out of
        Leaves \<Rightarrow> Some (Some False, W)
      | Returns res \<Rightarrow> do {
          W \<leftarrow> on_reg LOCK W;
          W \<leftarrow> on_reg (node_upd current (\<lambda>d. d\<lparr>refcount := refcount d - 1\<rparr>)) W;
          c \<leftarrow> deref (nodes (reg W)) current;
          let current' = n_next c;
          W \<leftarrow> (if refcount c = 0
            then do {
              W \<leftarrow> on_reg (gh_remove item current) W;
              on_reg (df_insert_back item current) W
            }
            else Some W);
          (if res \<noteq> sig_decision_next_decider
           then do {
             W \<leftarrow> on_reg (sighandler_info_release item) W;
             W \<leftarrow> on_reg UNLOCK W;
             Some (Some True, W)
           }
           else if current' \<noteq> None then pass_deciders decide item current' rsi W
           else Some (None, W))
        })
   }"

declare pass_deciders.simps [code]

definition release_and_unlock :: "ptr \<Rightarrow> win_world \<Rightarrow> win_world option" where
  "release_and_unlock item W = do {
     W \<leftarrow> on_reg (sighandler_info_release item) W;
     on_reg UNLOCK W
   }"

definition win32_global_decider_pass ::
  "win_decide_fn \<Rightarrow> exception_pointers \<Rightarrow> win_world \<Rightarrow> (pass_outcome \<times> win_world) option" where
  "win32_global_decider_pass decide ptrs W = do {
     let r = ExceptionRecord ptrs;
     let sig = signal_from_win32_exception_code (ExceptionCode r);
     (if sig = 0 then Some (Passed EXCEPTION_CONTINUE_SEARCH, W)
      else do {
        W \<leftarrow> on_reg LOCK W;
        let it = signo_map_get (signo_to_sighandler_map (reg W)) sig;
        (if signo_map_is_end it
         then do {
           W \<leftarrow> on_reg UNLOCK W;
           (raise_disposition, W) \<leftarrow> win32_unclaimed_software_raise r W;
           W \<leftarrow> win32_record_global_decider_decision r raise_disposition W;
           Some (Passed raise_disposition, W)
         }
         else do {
           let item = itr_val it;
           rsi \<leftarrow> win_prepare_rsi sig ptrs;
           W \<leftarrow> on_reg (info_upd item (\<lambda>inf. inf\<lparr>lifetime_refcount := lifetime_refcount inf + 1\<rparr>)) W;
           inf \<leftarrow> deref (infos (reg W)) item;
           (claimed, W) \<leftarrow> (if l_front (global_handler inf) \<noteq> None
             then pass_deciders decide item (l_front (global_handler inf)) rsi W
             else Some (None, W));
           (case claimed of
              Some True \<Rightarrow>
                (case (case wtss W of None \<Rightarrow> [] | Some st \<Rightarrow> front st) of
                   a # _ \<Rightarrow> Some (Pass_Jump a, W)
                 | [] \<Rightarrow> do {
                     W \<leftarrow> win32_record_global_decider_decision r EXCEPTION_CONTINUE_EXECUTION W;
                     Some (Passed EXCEPTION_CONTINUE_EXECUTION, W)
                   })
            | Some False \<Rightarrow> Some (Pass_Left, W)
            | None \<Rightarrow> do {
                (raise_disposition, W) \<leftarrow> win32_unclaimed_software_raise r W;
                (if raise_disposition = EXCEPTION_CONTINUE_EXECUTION
                 then do {
                   W \<leftarrow> win32_record_global_decider_decision r raise_disposition W;
                   W \<leftarrow> release_and_unlock item W;
                   Some (Passed raise_disposition, W)
                 }
                 else do {
                   W \<leftarrow> win32_record_global_decider_decision r EXCEPTION_CONTINUE_SEARCH W;
                   W \<leftarrow> release_and_unlock item W;
                   Some (Passed EXCEPTION_CONTINUE_SEARCH, W)
                 })
              })
         })
      })
   }"

definition win32_unhandled_exception_filter ::
  "win_decide_fn \<Rightarrow> exception_pointers \<Rightarrow> win_world \<Rightarrow> (pass_outcome \<times> win_world) option" where
  "win32_unhandled_exception_filter decide ptrs W =
     win32_global_decider_pass decide ptrs (W\<lparr>last_global_decider_record := raise_frame_zero\<rparr>)"

definition win32_vectored_continue_handler ::
  "win_decide_fn \<Rightarrow> exception_pointers \<Rightarrow> win_world \<Rightarrow> (pass_outcome \<times> win_world) option" where
  "win32_vectored_continue_handler decide ptrs W = do {
     matches \<leftarrow> win32_exception_record_matches (last_global_decider_record W) (ExceptionRecord ptrs);
     (if matches
      then Some (Passed (last_global_decider_result W), W\<lparr>last_global_decider_record := raise_frame_zero\<rparr>)
      else do {
        (result, W) \<leftarrow> win32_global_decider_pass decide ptrs W;
        (case result of
           Passed d \<Rightarrow> Some (Passed d, W\<lparr>last_global_decider_record := raise_frame_zero\<rparr>)
         | _ \<Rightarrow> Some (result, W))
      })
   }"

section \<open>Abandoning a decider\<close>

definition win_sigdecider_abandon :: "win_siginfo \<Rightarrow> win_world \<Rightarrow> (win_siginfo \<times> win_world) option" where
  "win_sigdecider_abandon rsi W =
     (if \<not> internal_decider_is_abandoned rsi
      then do {
        st \<leftarrow> wtss W;
        st \<leftarrow> (if w_local_decider rsi \<noteq> []
          then do {
            assert_that (front st = w_local_decider rsi);
            Some (st\<lparr>front := tl (front st)\<rparr>)
          }
          else Some st);
        let (rsi, st) = (if stdc_raise_initiated_exception st \<noteq> []
          then (rsi\<lparr>internal_win_state := stdc_raise_initiated_exception st\<rparr>,
                st\<lparr>stdc_raise_initiated_exception := tl (stdc_raise_initiated_exception st)\<rparr>)
          else (rsi, st));
        let W = W\<lparr>wtss := Some st\<rparr>;
        (rsi, W) \<leftarrow> (if internal_sighandler rsi \<noteq> None \<or> internal_global_decider rsi \<noteq> None
          then do {
            W \<leftarrow> on_reg LOCK W;
            W \<leftarrow> (if internal_sighandler rsi \<noteq> None
              then on_reg (info_upd (internal_sighandler rsi)
                (\<lambda>inf. inf\<lparr>lifetime_refcount := lifetime_refcount inf - 1\<rparr>)) W
              else Some W);
            W \<leftarrow> (if internal_global_decider rsi \<noteq> None
              then on_reg (node_upd (internal_global_decider rsi) (\<lambda>d. d\<lparr>refcount := refcount d - 1\<rparr>)) W
              else Some W);
            W \<leftarrow> on_reg UNLOCK W;
            (if front st \<noteq> []
             then Some (rsi\<lparr>w_local_decider := front st\<rparr>, W\<lparr>wtss := Some (st\<lparr>front := tl (front st)\<rparr>)\<rparr>)
             else Some (rsi, W))
          }
          else Some (rsi, W));
        Some (rsi\<lparr>internal_decider_is_abandoned := True\<rparr>, W)
      }
      else Some (rsi, W))"

definition win_sigdecider_abandon_resume :: "win_siginfo \<Rightarrow> win_world \<Rightarrow> (win_siginfo \<times> win_world) option" where
  "win_sigdecider_abandon_resume rsi W =
     (if internal_decider_is_abandoned rsi
      then do {
        st \<leftarrow> wtss W;
        st \<leftarrow> (if internal_win_state rsi \<noteq> []
          then do {
            assert_that (tl (internal_win_state rsi) = stdc_raise_initiated_exception st);
            Some (st\<lparr>stdc_raise_initiated_exception := internal_win_state rsi\<rparr>)
          }
          else Some st);
        st \<leftarrow> (if w_local_decider rsi \<noteq> []
          then do {
            assert_that (front st = tl (w_local_decider rsi));
            Some (st\<lparr>front := w_local_decider rsi\<rparr>)
          }
          else Some st);
        let W = W\<lparr>wtss := Some st\<rparr>;
        W \<leftarrow> (if internal_sighandler rsi \<noteq> None \<or> internal_global_decider rsi \<noteq> None
          then do {
            W \<leftarrow> on_reg LOCK W;
            W \<leftarrow> (if internal_sighandler rsi \<noteq> None
              then on_reg (info_upd (internal_sighandler rsi)
                (\<lambda>inf. inf\<lparr>lifetime_refcount := lifetime_refcount inf + 1\<rparr>)) W
              else Some W);
            W \<leftarrow> (if internal_global_decider rsi \<noteq> None
              then on_reg (node_upd (internal_global_decider rsi) (\<lambda>d. d\<lparr>refcount := refcount d + 1\<rparr>)) W
              else Some W);
            on_reg UNLOCK W
          }
          else Some W);
        Some (rsi\<lparr>internal_decider_is_abandoned := False\<rparr>, W)
      }
      else Some (rsi, W))"

section \<open>Installing\<close>

text \<open>
  The registrations: the host's continue handlers are counted, its unhandled exception filter
  is the library's or the previous one; \<open>added\<close> is the host's answer.
\<close>

definition win_install_sighandler_impl :: "nat option \<Rightarrow> win_world \<Rightarrow> bool \<times> win_world" where
  "win_install_sighandler_impl added W =
     (if sighandlers_count (reg W) = 0
      then let W = W\<lparr>vectored_continue_handler := added,
             continue_handlers := continue_handlers W + (if added = None then 0 else 1)\<rparr>
        in if vectored_continue_handler W = None then (False, W)
        else (True, W\<lparr>old_unhandled_exception_filter := filter_set W, filter_set := True\<rparr>)
      else (True, W))"

definition win_uninstall_sighandler_impl :: "win_world \<Rightarrow> bool \<times> win_world" where
  "win_uninstall_sighandler_impl W =
     (if sighandlers_count (reg W) = 0
      then (True, W\<lparr>filter_set := old_unhandled_exception_filter W,
        continue_handlers := continue_handlers W - (if vectored_continue_handler W = None then 0 else 1)\<rparr>)
      else (True, W))"

end
