(* ===== verification/Windows_Dispatch.thy ===== *)
theory Windows_Dispatch
  imports Windows_Seh Raise_Order
begin

unbundle bit_operations_syntax

text \<open>
  The Windows backend at work: signals survive their way through exception codes, the library
  recognises its own raises among the exceptions that the host delivers, the pass over the
  global deciders is the loop of the other backend, and a raise ends as there, with the host's
  order of consultation as a hypothesis.
\<close>

section \<open>Exception codes\<close>

lemma and_low30: "uint ((c :: 32 word) AND 0x3FFFFFFF) = uint c mod 2 ^ 30"
proof -
  have "(0x3FFFFFFF :: 32 word) = mask 30" by (simp add: mask_eq_exp_minus_1)
  then show ?thesis by (simp only: take_bit_eq_mask[symmetric] unsigned_take_bit_eq) (simp add: take_bit_eq_mod)
qed

lemma user_code:
  fixes c :: "32 word"
  defines "u \<equiv> USER_RAISE_BASE OR (c AND 0x3FFFFFFF)"
  shows "u AND 0x80000000 = 0" "u \<ge> USER_RAISE_BASE" "u - USER_RAISE_BASE = c AND 0x3FFFFFFF" "uint u < 2 ^ 31"
proof -
  have m: "(0x3FFFFFFF :: 32 word) = mask 30" by (simp add: mask_eq_exp_minus_1)
  have b: "USER_RAISE_BASE = 2 ^ 30" by (simp add: USER_RAISE_BASE_def)
  have disj: "USER_RAISE_BASE AND (c AND 0x3FFFFFFF) = 0"
  proof (rule bit_word_eqI)
    show "bit (USER_RAISE_BASE AND (c AND 0x3FFFFFFF)) n = bit 0 n" for n
      unfolding m b bit_and_iff bit_exp_iff bit_mask_iff by auto
  qed
  then have u: "u = USER_RAISE_BASE + (c AND 0x3FFFFFFF)" unfolding u_def using disjunctive_add_eq_or[OF disj] by simp
  then show "u - USER_RAISE_BASE = c AND 0x3FFFFFFF" by simp
  have "uint u = 2 ^ 30 + uint c mod 2 ^ 30"
  proof -
    have "uint u = (uint USER_RAISE_BASE + uint (c AND 0x3FFFFFFF)) mod 2 ^ 32" unfolding u by (simp add: uint_word_ariths)
    also have "\<dots> = 2 ^ 30 + uint c mod 2 ^ 30" unfolding and_low30 by (simp add: USER_RAISE_BASE_def)
    finally show ?thesis .
  qed
  moreover have "uint c mod 2 ^ 30 < 2 ^ 30" by simp
  ultimately show lt: "uint u < 2 ^ 31" and "u \<ge> USER_RAISE_BASE" by (simp_all add: word_le_def USER_RAISE_BASE_def)
  have "\<not> bit u 31" unfolding u_def m b bit_or_iff bit_and_iff bit_exp_iff bit_mask_iff by simp
  then have "u AND 2 ^ 31 = 0" unfolding and_exp_eq_0_iff_not_bit .
  then show "u AND 0x80000000 = 0" by simp
qed

lemma signal_code_inverse:
  "signal_from_win32_exception_code (win32_exception_code_from_signal c) =
    (if sint c \<in> {W_SIGABRT, W_SIGBUS, W_SIGILL, W_SIGSEGV, W_SIGFPE} then sint c else uint c mod 2 ^ 30)"
proof (cases "sint c \<in> {W_SIGABRT, W_SIGBUS, W_SIGILL, W_SIGSEGV, W_SIGFPE}")
  case True
  then show ?thesis by (auto simp: signal_from_win32_exception_code_def win32_exception_code_from_signal_def W_SIGABRT_def W_SIGBUS_def W_SIGILL_def W_SIGSEGV_def W_SIGFPE_def)
next
  case False
  define u where "u = USER_RAISE_BASE OR (c AND 0x3FFFFFFF)"
  note uc = user_code[of c, folded u_def]
  have code: "win32_exception_code_from_signal c = u" using False by (simp add: win32_exception_code_from_signal_def u_def)
  have ne: "u \<noteq> x" if "uint x \<ge> 2 ^ 31" for x using uc(4) that by auto
  have "sint (c AND 0x3FFFFFFF) = uint c mod 2 ^ 30"
  proof -
    have "uint (c AND 0x3FFFFFFF) < 2 ^ 31" unfolding and_low30 by (rule order_less_trans[of _ "2 ^ 30"]) simp_all
    then have "sint (c AND 0x3FFFFFFF) = uint (c AND 0x3FFFFFFF)" 
      using order_trans[OF _ uint_ge_0[of "c AND 0x3FFFFFFF"], of "- (2 ^ 31)"] signed_take_bit_int_eq_self[of 31 "uint (c AND 0x3FFFFFFF)"]
      unfolding sint_uint by simp
    then show ?thesis unfolding and_low30 .
  qed
  then show ?thesis using uc False unfolding code signal_from_win32_exception_code_def by (simp add: ne)
qed

section \<open>Identifying the library's own raises\<close>

definition rec_wf :: "exception_record \<Rightarrow> bool" where
  "rec_wf r \<longleftrightarrow> NumberParameters r \<le> length (ExceptionInformation r)"

definition delivered :: "bool \<Rightarrow> exception_record \<Rightarrow> exception_record" where
  "delivered mark r = r\<lparr>ExceptionFlags := ExceptionFlags r OR (if mark then EXCEPTION_SOFTWARE_ORIGINATE else 0)\<rparr>"

lemma delivered_simps [simp]:
  "ExceptionCode (delivered mark r) = ExceptionCode r" "NumberParameters (delivered mark r) = NumberParameters r"
  "ExceptionInformation (delivered mark r) = ExceptionInformation r" "rec_wf (delivered mark r) = rec_wf r"
  "info_at (delivered mark r) i = info_at r i"
  "ExceptionFlags (delivered mark r) AND NOT EXCEPTION_SOFTWARE_ORIGINATE = ExceptionFlags r AND NOT EXCEPTION_SOFTWARE_ORIGINATE"
  by (simp_all add: delivered_def rec_wf_def info_at_def bit_eq_iff bit_simps) blast

lemma info_at_0: "rec_wf r \<Longrightarrow> 0 < NumberParameters r \<Longrightarrow> info_at r 0 = Some (ExceptionInformation r ! 0)"
  by (cases "ExceptionInformation r") (auto simp: info_at_def rec_wf_def)

lemma record_matches_iff:
  "rec_wf r \<Longrightarrow> win32_exception_record_matches f r =
    Some (rf_code f = ExceptionCode r \<and> rf_flags f AND NOT EXCEPTION_SOFTWARE_ORIGINATE = ExceptionFlags r AND NOT EXCEPTION_SOFTWARE_ORIGINATE
      \<and> rf_params f = NumberParameters r \<and> (NumberParameters r = 0 \<or> rf_first f = ExceptionInformation r ! 0))"
  by (auto simp: win32_exception_record_matches_def info_at_0)

definition info_wf :: "exception_record option \<Rightarrow> bool" where
  "info_wf info \<longleftrightarrow> (\<forall>i. info = Some i \<longrightarrow> length (ExceptionInformation i) = EXCEPTION_MAXIMUM_PARAMETERS \<and> NumberParameters i \<le> EXCEPTION_MAXIMUM_PARAMETERS)"

lemma info_wf_append: "info_wf info \<Longrightarrow> info_wf (map_option (\<lambda>i. append_raw_context i ctx) info)"
  by (auto simp: info_wf_def append_raw_context_def EXCEPTION_MAXIMUM_PARAMETERS_def)

lemma raise_snapshot_matches:
  assumes "info_wf info"
  shows "rec_wf (raised_record code info)"
    "\<exists>f. raise_snapshot code info = Some f \<and> \<not> exception_was_claimed f \<and> \<not> exception_was_unclaimed f
      \<and> win32_exception_record_matches f (delivered mark (raised_record code info)) = Some True"
proof -
  show wf: "rec_wf (raised_record code info)" using assms by (cases info) (auto simp: rec_wf_def raised_record_def info_wf_def)
  show "\<exists>f. raise_snapshot code info = Some f \<and> \<not> exception_was_claimed f \<and> \<not> exception_was_unclaimed f
      \<and> win32_exception_record_matches f (delivered mark (raised_record code info)) = Some True"
  proof (cases info)
    case None
    then show ?thesis using wf by (simp add: raise_snapshot_def record_matches_iff) (simp add: raised_record_def raise_frame_zero_def)
  next
    case (Some i)
    then have "length (ExceptionInformation i) = 15" using assms by (simp add: info_wf_def EXCEPTION_MAXIMUM_PARAMETERS_def)
    then show ?thesis using wf Some
      by (simp add: raise_snapshot_def record_matches_iff info_at_def) (simp add: raised_record_def raise_frame_zero_def)
  qed
qed

lemma win_prepare_rsi_ok:
  assumes "rec_wf (ExceptionRecord ptrs)"
  shows "\<exists>rsi. win_prepare_rsi sig ptrs = Some rsi \<and> signo rsi = sig \<and> w_raw_info rsi = Some (ExceptionRecord ptrs)
    \<and> \<not> internal_decider_is_abandoned rsi"
  using assms by (auto simp: win_prepare_rsi_def Let_def info_at_def rec_wf_def win_rsi_zero_def)

section \<open>The deciders of a chain\<close>

definition win_answering :: "(fnptr \<Rightarrow> siginfo_value \<Rightarrow> sig_decision) \<Rightarrow> win_decide_fn" where
  "win_answering ans f rsi W = Some (Returns (ans f (si_value rsi)), rsi, W)"

definition pass_result :: "raise_outcome option \<Rightarrow> bool option" where
  "pass_result out = (case out of None \<Rightarrow> None | Some o' \<Rightarrow> Some (o' = Raised True))"

text \<open>The loop is the one of the other backend.\<close>

lemma pass_deciders_raise_global:
  assumes "raise_global (answering (\<lambda>f rsi. ans f (si_value rsi))) sig item current rsi w = Some y" "signo rsi' = sig"
  shows "pass_deciders (win_answering ans) item current rsi' (W\<lparr>reg := w\<rparr>) = Some (pass_result (fst y), W\<lparr>reg := snd y\<rparr>)"
proof -
  let ?P = "\<lambda>decide sig item current rsi w y. decide = answering (\<lambda>f rsi. ans f (si_value rsi)) \<longrightarrow>
    (\<forall>rsi'. signo rsi' = sig \<longrightarrow> pass_deciders (win_answering ans) item current rsi' (W\<lparr>reg := w\<rparr>) = Some (pass_result (fst y), W\<lparr>reg := snd y\<rparr>))"
  have "?P (answering (\<lambda>f rsi. ans f (si_value rsi))) sig item current rsi w y"
  proof (rule raise_global.raw_induct[where P = ?P, OF _ assms(1)], goal_cases)
    case (1 rg decide sig item current rsi w y)
    show ?case
    proof (intro impI allI)
      fix rsi' :: win_siginfo
      assume d: "decide = answering (\<lambda>f rsi. ans f (si_value rsi))" "signo rsi' = sig"
      show "pass_deciders (win_answering ans) item current rsi' (W\<lparr>reg := w\<rparr>) = Some (pass_result (fst y), W\<lparr>reg := snd y\<rparr>)"
        using 1(2) d 1(1)
        by (subst pass_deciders.simps)
          (auto simp: bind_Some_conv on_reg_def answering_def win_answering_def Let_def pass_result_def split: if_splits)
    qed
  qed
  then show ?thesis using assms(2) by blast
qed

lemma upd_reg_commute [simp]:
  "W\<lparr>raises := h, reg := w\<rparr> = W\<lparr>reg := w, raises := h\<rparr>"
  "W\<lparr>wtss := t, reg := w\<rparr> = W\<lparr>reg := w, wtss := t\<rparr>"
  "W\<lparr>last_global_decider_record := f, reg := w\<rparr> = W\<lparr>reg := w, last_global_decider_record := f\<rparr>"
  "W\<lparr>last_global_decider_result := d, reg := w\<rparr> = W\<lparr>reg := w, last_global_decider_result := d\<rparr>"
  by simp_all

lemma matching_reg [simp]: "win32_matching_raise_frame r (W\<lparr>reg := w\<rparr>) = win32_matching_raise_frame r W"
  by (simp add: win32_matching_raise_frame_def cong: option.case_cong list.case_cong)

lemma unclaimed_reg:
  "win32_unclaimed_software_raise r (W\<lparr>reg := w\<rparr>) = map_option (map_prod id (\<lambda>W. W\<lparr>reg := w\<rparr>)) (win32_unclaimed_software_raise r W)"
  by (auto simp: win32_unclaimed_software_raise_def split: option.splits Option.bind_splits)

lemma unclaimed_cases: "win32_unclaimed_software_raise r W = Some (d, W') \<Longrightarrow> d = EXCEPTION_CONTINUE_EXECUTION \<or> d = EXCEPTION_CONTINUE_SEARCH"
  by (auto simp: win32_unclaimed_software_raise_def bind_Some_conv split: option.splits)

lemma record_decision_reg:
  "win32_record_global_decider_decision r d (W\<lparr>reg := w\<rparr>) = map_option (\<lambda>W. W\<lparr>reg := w\<rparr>) (win32_record_global_decider_decision r d W)"
  by (simp add: win32_record_global_decider_decision_def info_at_def split: Option.bind_splits)

lemma record_decision_ok:
  "rec_wf r \<Longrightarrow> win32_record_global_decider_decision r d W =
    Some (W\<lparr>last_global_decider_record := (last_global_decider_record W)\<lparr>rf_code := ExceptionCode r,
         rf_flags := ExceptionFlags r, rf_params := NumberParameters r,
         rf_first := if NumberParameters r > 0 then ExceptionInformation r ! 0 else 0\<rparr>,
       last_global_decider_result := d\<rparr>)"
  by (auto simp: win32_record_global_decider_decision_def info_at_0)

definition chain_of :: "(int \<Rightarrow> signal_state) \<Rightarrow> int \<Rightarrow> (addr \<times> fnptr \<times> siginfo_value) list" where
  "chain_of s sig = (case fst (s sig) of None \<Rightarrow> [] | Some h \<Rightarrow> ah_chain h)"

definition claims :: "(fnptr \<Rightarrow> siginfo_value \<Rightarrow> sig_decision) \<Rightarrow> addr \<times> fnptr \<times> siginfo_value \<Rightarrow> bool" where
  "claims ans = (\<lambda>(n, f, v). ans f v \<noteq> sig_decision_next_decider)"

definition asked_world :: "(fnptr \<Rightarrow> siginfo_value \<Rightarrow> sig_decision) \<Rightarrow> int \<Rightarrow> (addr \<times> fnptr \<times> siginfo_value) list \<Rightarrow> win_world \<Rightarrow> win_world" where
  "asked_world ans sig xs W = W\<lparr>reg := (reg W)\<lparr>events := events (reg W) @ map (\<lambda>(n, f, v). Ev_Decider f sig v) (asked (claims ans) xs)\<rparr>\<rparr>"

lemma reg_state_None: "reg_state w G sig = (None, sa) \<Longrightarrow> signo_lookup (signo_to_sighandler_map w) sig = None \<or>
    (\<exists>a. signo_lookup (signo_to_sighandler_map w) sig = Some a \<and> infos w a = None)"
  by (auto simp: reg_state_def reg_abs_def registry_view_def split: option.splits)

text \<open>The pass over the global deciders, for deciders that only answer.\<close>

lemma global_pass_answering:
  assumes rel: "registry_rel (reg W) s" and sig: "sig = signal_from_win32_exception_code (ExceptionCode (ExceptionRecord ptrs))" "sig \<noteq> 0"
    and wf: "rec_wf (ExceptionRecord ptrs)"
  shows "win32_global_decider_pass (win_answering ans) ptrs W =
    (let r = ExceptionRecord ptrs; W = asked_world ans sig (chain_of s sig) W
     in if \<exists>x \<in> set (chain_of s sig). claims ans x
        then (case (case wtss W of None \<Rightarrow> [] | Some st \<Rightarrow> front st) of
            a # _ \<Rightarrow> Some (Pass_Jump a, W)
          | [] \<Rightarrow> do { W \<leftarrow> win32_record_global_decider_decision r EXCEPTION_CONTINUE_EXECUTION W; Some (Passed EXCEPTION_CONTINUE_EXECUTION, W) })
        else do {
          (d, W) \<leftarrow> win32_unclaimed_software_raise r W;
          W \<leftarrow> win32_record_global_decider_decision r d W;
          Some (Passed d, W)
        })"
proof -
  obtain G D where w: "lock (reg W) = 0" "reg_inv (reg W) G D (\<lambda>_. 0) (\<lambda>_. 0)" "s = reg_state (reg W) G"
    using rel by (auto simp: registry_rel_def)
  let ?r = "ExceptionRecord ptrs" and ?w = "reg W"
  have id: "W\<lparr>reg := reg W\<rparr> = W" by simp
  have lu: "(reg W)\<lparr>lock := 0\<rparr> = reg W" using w(1) by simp
  show ?thesis
  proof (cases "signo_lookup (signo_to_sighandler_map ?w) sig")
    case None
    then have "fst (s sig) = None" by (simp add: w(3) reg_state_def reg_abs_def registry_view_def)
    then have "asked_world ans sig (chain_of s sig) W = W" "chain_of s sig = []" by (simp_all add: asked_world_def chain_of_def)
    then show ?thesis using None w(1) sig(2)
      by (simp add: lu win32_global_decider_pass_def sig(1)[symmetric] on_reg_def signo_map_get_is_end Let_def)
  next
    case (Some a)
    obtain ci where ci: "infos ?w a = Some ci" using reg_inv_lookup[OF w(2) Some] by blast
    have h: "fst (s sig) = Some (handler_view (nodes ?w) ci (G a))"
      using Some ci by (simp add: w(3) reg_state_def reg_abs_def registry_view_def)
    let ?xs = "map (node_view (nodes ?w)) (G a)"
    have ch: "chain_of s sig = ?xs" using h by (simp add: chain_of_def handler_view_def)
    let ?claimed = "\<exists>x \<in> set ?xs. claims ans x" and ?es = "map (\<lambda>(n, f, v). Ev_Decider f sig v) (asked (claims ans) ?xs)"
    obtain rsi where rsi: "win_prepare_rsi sig ptrs = Some rsi" "signo rsi = sig" using win_prepare_rsi_ok[OF wf] by blast
    have ask: "ask_chain (\<lambda>f rsi. ans f (si_value rsi)) sig rsi_uninit a ?xs = (?claimed, ?es)"
      using ask_chain_asked[of ans sig rsi_uninit a ?xs] by (auto simp: claims_def case_prod_beta)
    have glob: "(if l_front (global_handler ci) \<noteq> None
        then pass_deciders (win_answering ans) (Some a) (l_front (global_handler ci)) rsi (W\<lparr>reg := holding a ci ?w\<rparr>)
        else Some (None, W\<lparr>reg := holding a ci ?w\<rparr>)) =
      Some (if ?claimed then (Some True, asked_world ans sig ?xs W) else (None, W\<lparr>reg := (holding a ci ?w)\<lparr>events := events ?w @ ?es\<rparr>\<rparr>))"
    proof -
      note c = raise_chain_answering[OF w(2,1) ci ask]
      show ?thesis
      proof (cases "l_front (global_handler ci) = None")
        case True
        then show ?thesis using c by (auto simp: asked_world_def split: if_splits)
      next
        case False
        then have "raise_global (answering (\<lambda>f rsi. ans f (si_value rsi))) sig (Some a) (l_front (global_handler ci)) rsi_uninit (holding a ci ?w)
          = Some (if ?claimed then (Some (Raised True), ?w\<lparr>events := events ?w @ ?es\<rparr>) else (None, (holding a ci ?w)\<lparr>events := events ?w @ ?es\<rparr>))"
          using c by (simp only: if_True simp_thms if_distrib)
        from pass_deciders_raise_global[OF this rsi(2), of W] show ?thesis using False
          by (auto simp: pass_result_def asked_world_def)
      qed
    qed
    have hr: "release_and_unlock (Some a) W' = Some (W'\<lparr>reg := ?w\<lparr>events := ev\<rparr>\<rparr>)" if "reg W' = (holding a ci ?w)\<lparr>events := ev\<rparr>" for W' ev
      using holding_released[OF w(2,1) ci, of ev] that by (simp add: release_and_unlock_def on_reg_def)
    have start: "win32_global_decider_pass (win_answering ans) ptrs W = do {
        (claimed, W) \<leftarrow> (if l_front (global_handler ci) \<noteq> None
          then pass_deciders (win_answering ans) (Some a) (l_front (global_handler ci)) rsi (W\<lparr>reg := holding a ci ?w\<rparr>)
          else Some (None, W\<lparr>reg := holding a ci ?w\<rparr>));
        (case claimed of
              Some True \<Rightarrow>
                (case (case wtss W of None \<Rightarrow> [] | Some st \<Rightarrow> front st) of
                   a # _ \<Rightarrow> Some (Pass_Jump a, W)
                 | [] \<Rightarrow> do {
                     W \<leftarrow> win32_record_global_decider_decision ?r EXCEPTION_CONTINUE_EXECUTION W;
                     Some (Passed EXCEPTION_CONTINUE_EXECUTION, W)
                   })
            | Some False \<Rightarrow> Some (Pass_Left, W)
            | None \<Rightarrow> do {
                (raise_disposition, W) \<leftarrow> win32_unclaimed_software_raise ?r W;
                (if raise_disposition = EXCEPTION_CONTINUE_EXECUTION
                 then do {
                   W \<leftarrow> win32_record_global_decider_decision ?r raise_disposition W;
                   W \<leftarrow> release_and_unlock (Some a) W;
                   Some (Passed raise_disposition, W)
                 }
                 else do {
                   W \<leftarrow> win32_record_global_decider_decision ?r EXCEPTION_CONTINUE_SEARCH W;
                   W \<leftarrow> release_and_unlock (Some a) W;
                   Some (Passed EXCEPTION_CONTINUE_SEARCH, W)
                 })
              }) }"
      using Some ci w(1) sig(2) rsi(1)
      by (simp add: win32_global_decider_pass_def sig(1)[symmetric] on_reg_def signo_map_get_is_end signo_map_get_Some holding_def Let_def del: if_split)
    have tail: "do {
                (raise_disposition, W) \<leftarrow> win32_unclaimed_software_raise ?r (W\<lparr>reg := (holding a ci ?w)\<lparr>events := events ?w @ ?es\<rparr>\<rparr>);
                (if raise_disposition = EXCEPTION_CONTINUE_EXECUTION
                 then do {
                   W \<leftarrow> win32_record_global_decider_decision ?r raise_disposition W;
                   W \<leftarrow> release_and_unlock (Some a) W;
                   Some (Passed raise_disposition, W)
                 }
                 else do {
                   W \<leftarrow> win32_record_global_decider_decision ?r EXCEPTION_CONTINUE_SEARCH W;
                   W \<leftarrow> release_and_unlock (Some a) W;
                   Some (Passed EXCEPTION_CONTINUE_SEARCH, W)
                 })
              } = do {
          (d, W) \<leftarrow> win32_unclaimed_software_raise ?r (W\<lparr>reg := ?w\<lparr>events := events ?w @ ?es\<rparr>\<rparr>);
          W \<leftarrow> win32_record_global_decider_decision ?r d W;
          Some (Passed d, W)
        }"
    proof (cases "win32_unclaimed_software_raise ?r W")
      case None
      then show ?thesis by (simp add: unclaimed_reg[where W = W])
    next
      case (Some p)
      obtain d W1 where p: "p = (d, W1)" by (cases p)
      then have "d = EXCEPTION_CONTINUE_EXECUTION \<or> d = EXCEPTION_CONTINUE_SEARCH" using unclaimed_cases Some by blast
      then show ?thesis unfolding unclaimed_reg[where W = W] Some p
        by (elim disjE) (simp_all add: record_decision_ok[OF wf] hr)
    qed
    show ?thesis unfolding start glob ch using tail by (simp add: asked_world_def Let_def)
  qed
qed

lemma registry_rel_same: "registry_rel w s \<Longrightarrow> same_registry w w' \<Longrightarrow> registry_rel w' s"
proof -
  assume rel: "registry_rel w s" and same: "same_registry w w'"
  obtain G D where w: "lock w = 0" "reg_inv w G D (\<lambda>_. 0) (\<lambda>_. 0)" "s = reg_state w G" using rel by (auto simp: registry_rel_def)
  show "registry_rel w' s"
    by (rule registry_relI[OF _ reg_inv_same[OF same w(2)]]) (use w same in \<open>simp_all add: reg_state_same same_registry_def\<close>)
qed

section \<open>The order in which the host consults the library\<close>

text \<open>
  Structured exception handling without a debugger, as the notes at the end of
  \<^verbatim>\<open>thrd_signal_handle_windows.c.ipp\<close> describe it: the filters of the guarded sections
  innermost first, then the unhandled exception filter, then, on the way to continuing
  execution, the vectored continue handler. It consults the filter and the handler as far as the
  library has registered them; without the filter an exception that no section handles has
  the host's default handling. The host may mark the record as raised by software.
\<close>

definition consult_continue_handlers :: "win_decide_fn \<Rightarrow> exception_pointers \<Rightarrow> win_world \<Rightarrow> (seh_outcome \<times> win_world) option" where
  "consult_continue_handlers decide ptrs W =
     (if continue_handlers W = 0 then Some (Continued, W)
      else do {
        (out, W) \<leftarrow> win32_vectored_continue_handler decide ptrs W;
        (case out of Passed _ \<Rightarrow> Some (Continued, W) | Pass_Jump a \<Rightarrow> Some (Jumped a, W) | Pass_Left \<Rightarrow> Some (Unwound, W))
      })"

fun host_dispatch :: "win_decide_fn \<Rightarrow> bool \<Rightarrow> 64 word \<Rightarrow> filter_state list \<Rightarrow> exception_record \<Rightarrow> win_world \<Rightarrow> (seh_outcome \<times> win_world) option" where
  "host_dispatch decide mark ctx [] r W = do {
     let ptrs = \<lparr>ExceptionRecord = delivered mark r, ContextRecord = ctx\<rparr>;
     (if \<not> filter_set W then Some (Ended, W)
      else do {
        (out, W) \<leftarrow> win32_unhandled_exception_filter decide ptrs W;
        (case out of
           Passed EXCEPTION_CONTINUE_EXECUTION \<Rightarrow> consult_continue_handlers decide ptrs W
         | Passed _ \<Rightarrow> Some (Ended, W)
         | Pass_Jump a \<Rightarrow> Some (Jumped a, W)
         | Pass_Left \<Rightarrow> Some (Unwound, W))
      })
   }"
| "host_dispatch decide mark ctx (g # gs) r W = do {
     let ptrs = \<lparr>ExceptionRecord = delivered mark r, ContextRecord = ctx\<rparr>;
     (out, g, W) \<leftarrow> win32_exception_filter decide g ptrs W;
     (case out of
        Filtered EXCEPTION_CONTINUE_SEARCH \<Rightarrow> host_dispatch decide mark ctx gs r W
      | Filtered EXCEPTION_CONTINUE_EXECUTION \<Rightarrow> consult_continue_handlers decide ptrs W
      | Filtered EXCEPTION_EXECUTE_HANDLER \<Rightarrow> Some (Unwound, W)
      | Filter_Left \<Rightarrow> Some (Unwound, W))
   }"

text \<open>The guarded section that decides, and how.\<close>

definition guard_decides :: "(fnptr \<Rightarrow> siginfo_value \<Rightarrow> sig_decision) \<Rightarrow> int \<Rightarrow> filter_state \<Rightarrow> bool" where
  "guard_decides ans sig g \<longleftrightarrow> fst (win_sigismember (fs_guarded g) sig) = 1 \<and> ans (fs_decider g) (fs_value g) \<noteq> sig_decision_next_decider
     \<and> (ans (fs_decider g) (fs_value g) = sig_decision_call_recovery \<longrightarrow> fs_recovery g \<noteq> None)"

lemma filter_answering:
  assumes wf: "rec_wf (ExceptionRecord ptrs)" and st: "wtss W = Some st"
    and sig: "sig = signal_from_win32_exception_code (ExceptionCode (ExceptionRecord ptrs))"
  shows "\<not> guard_decides ans sig g \<Longrightarrow> \<exists>g'. win32_exception_filter (win_answering ans) g ptrs W = Some (Filtered EXCEPTION_CONTINUE_SEARCH, g', W)"
    and "guard_decides ans sig g \<Longrightarrow> ans (fs_decider g) (fs_value g) = sig_decision_call_recovery \<Longrightarrow>
      \<exists>g'. win32_exception_filter (win_answering ans) g ptrs W = Some (Filtered EXCEPTION_EXECUTE_HANDLER, g',
        W\<lparr>wtss := Some \<lparr>front = tss_front_at_entry g, stdc_raise_initiated_exception = win_at_entry g\<rparr>\<rparr>)"
    and "guard_decides ans sig g \<Longrightarrow> ans (fs_decider g) (fs_value g) = sig_decision_resume_execution \<Longrightarrow>
      win32_matching_raise_frame (ExceptionRecord ptrs) W = Some (Some a) \<Longrightarrow> raises W a = Some f \<Longrightarrow>
      \<exists>g'. win32_exception_filter (win_answering ans) g ptrs W = map_option (\<lambda>W. (Filtered EXCEPTION_CONTINUE_EXECUTION, g', W))
        (win32_record_global_decider_decision (ExceptionRecord ptrs) EXCEPTION_CONTINUE_EXECUTION
          (W\<lparr>raises := (raises W)(a \<mapsto> f\<lparr>exception_was_claimed := True\<rparr>)\<rparr>))"
proof -
  obtain rsi where rsi: "win_prepare_rsi sig ptrs = Some rsi" using win_prepare_rsi_ok[OF wf] by blast
  note defs = win32_exception_filter_def sig[symmetric] rsi st win_answering_def Let_def guard_decides_def
  show "\<not> guard_decides ans sig g \<Longrightarrow> \<exists>g'. win32_exception_filter (win_answering ans) g ptrs W = Some (Filtered EXCEPTION_CONTINUE_SEARCH, g', W)"
    by (cases "ans (fs_decider g) (fs_value g)") (simp_all add: defs)
  show "guard_decides ans sig g \<Longrightarrow> ans (fs_decider g) (fs_value g) = sig_decision_call_recovery \<Longrightarrow>
      \<exists>g'. win32_exception_filter (win_answering ans) g ptrs W = Some (Filtered EXCEPTION_EXECUTE_HANDLER, g',
        W\<lparr>wtss := Some \<lparr>front = tss_front_at_entry g, stdc_raise_initiated_exception = win_at_entry g\<rparr>\<rparr>)"
    by (simp add: defs)
  show "guard_decides ans sig g \<Longrightarrow> ans (fs_decider g) (fs_value g) = sig_decision_resume_execution \<Longrightarrow>
      win32_matching_raise_frame (ExceptionRecord ptrs) W = Some (Some a) \<Longrightarrow> raises W a = Some f \<Longrightarrow>
      \<exists>g'. win32_exception_filter (win_answering ans) g ptrs W = map_option (\<lambda>W. (Filtered EXCEPTION_CONTINUE_EXECUTION, g', W))
        (win32_record_global_decider_decision (ExceptionRecord ptrs) EXCEPTION_CONTINUE_EXECUTION
          (W\<lparr>raises := (raises W)(a \<mapsto> f\<lparr>exception_was_claimed := True\<rparr>)\<rparr>))"
    by (simp add: defs record_decision_ok[OF wf] cong: option.case_cong)
qed

text \<open>A decision recorded for an exception is reused, and forgotten.\<close>

lemma continue_handler_reuses:
  assumes "rec_wf r" "win32_record_global_decider_decision r d W0 = Some W" "ExceptionRecord ptrs = r"
    "last_global_decider_record W' = last_global_decider_record W" "last_global_decider_result W' = last_global_decider_result W"
  shows "win32_vectored_continue_handler decide ptrs W' = Some (Passed d, W'\<lparr>last_global_decider_record := raise_frame_zero\<rparr>)"
proof -
  have "win32_exception_record_matches (last_global_decider_record W') r = Some True" "last_global_decider_result W' = d"
    using assms(1,2,4,5) by (auto simp: record_matches_iff record_decision_ok split: if_splits)
  then show ?thesis by (simp add: win32_vectored_continue_handler_def assms(3))
qed

lemma consult_reuses:
  assumes "rec_wf r" "win32_record_global_decider_decision r d W0 = Some W" "ExceptionRecord ptrs = r"
  shows "\<exists>W'. consult_continue_handlers decide ptrs W = Some (Continued, W') \<and> wtss W' = wtss W \<and> raises W' = raises W \<and> reg W' = reg W"
  using continue_handler_reuses[OF assms refl refl, of decide] by (simp add: consult_continue_handlers_def)

lemma host_dispatch_skip:
  assumes wf: "rec_wf r" and st: "wtss W = Some st" and gs: "\<forall>g \<in> set us. \<not> guard_decides ans (signal_from_win32_exception_code (ExceptionCode r)) g"
  shows "host_dispatch (win_answering ans) mark ctx (us @ gs) r W = host_dispatch (win_answering ans) mark ctx gs r W"
  using gs
proof (induction us)
  case (Cons g us)
  let ?ptrs = "\<lparr>ExceptionRecord = delivered mark r, ContextRecord = ctx\<rparr>"
  have "\<exists>g'. win32_exception_filter (win_answering ans) g ?ptrs W = Some (Filtered EXCEPTION_CONTINUE_SEARCH, g', W)"
    using Cons.prems wf st by (intro filter_answering(1)[OF _ st refl]) simp_all
  then show ?case using Cons by (auto simp: Let_def)
qed simp

text \<open>A raise in flight: its frame heads the chains, and its record is the one delivered.\<close>

definition in_flight :: "bool \<Rightarrow> nat \<Rightarrow> raise_frame \<Rightarrow> exception_record \<Rightarrow> win_world \<Rightarrow> bool" where
  "in_flight mark a f r W \<longleftrightarrow> (\<exists>old prev. wtss W = Some \<lparr>front = a # old, stdc_raise_initiated_exception = a # prev\<rparr>)
     \<and> raises W a = Some f \<and> win32_exception_record_matches f (delivered mark r) = Some True
     \<and> \<not> exception_was_claimed f \<and> \<not> exception_was_unclaimed f \<and> rec_wf r"

lemma in_flightD:
  assumes "in_flight mark a f r W"
  shows "win32_matching_raise_frame (delivered mark r) W = Some (Some a)" "raises W a = Some f" "rec_wf (delivered mark r)"
    "\<exists>st. wtss W = Some st" "(case wtss W of None \<Rightarrow> [] | Some st \<Rightarrow> front st) = a # (case wtss W of None \<Rightarrow> [] | Some st \<Rightarrow> tl (front st))"
  using assms by (auto simp: in_flight_def win32_matching_raise_frame_def)

lemma in_flight_unhandled:
  assumes fl: "in_flight mark a f r W" and rel: "registry_rel (reg W) s" and sig: "sig = signal_from_win32_exception_code (ExceptionCode r)" "sig \<noteq> 0"
    and set: "filter_set W"
  shows "\<exists>W'. host_dispatch (win_answering ans) mark ctx [] r W =
      Some (if \<exists>x \<in> set (chain_of s sig). claims ans x then Jumped a else Continued, W')
    \<and> wtss W' = wtss W \<and> reg W' = reg (asked_world ans sig (chain_of s sig) W)
    \<and> raises W' = (if \<exists>x \<in> set (chain_of s sig). claims ans x then raises W else (raises W)(a \<mapsto> f\<lparr>exception_was_unclaimed := True\<rparr>))"
proof -
  let ?ptrs = "\<lparr>ExceptionRecord = delivered mark r, ContextRecord = ctx\<rparr>" and ?r = "delivered mark r"
  define W0 where "W0 = W\<lparr>last_global_decider_record := raise_frame_zero\<rparr>"
  have fl0: "in_flight mark a f r W0" "registry_rel (reg W0) s" using fl rel by (simp_all add: in_flight_def W0_def)
  note d = in_flightD[OF fl0(1)]
  have nc: "\<not> exception_was_claimed f" using fl by (simp add: in_flight_def)
  define W1 where "W1 = asked_world ans sig (chain_of s sig) W0"
  have W1: "wtss W1 = wtss W" "raises W1 = raises W" "reg W1 = reg (asked_world ans sig (chain_of s sig) W)"
    by (simp_all add: W1_def W0_def asked_world_def)
  have pass: "win32_global_decider_pass (win_answering ans) ?ptrs W0 =
      (if \<exists>x \<in> set (chain_of s sig). claims ans x then Some (Pass_Jump a, W1)
       else do { (d, W) \<leftarrow> win32_unclaimed_software_raise ?r W1; W \<leftarrow> win32_record_global_decider_decision ?r d W; Some (Passed d, W) })"
  proof -
    have s1: "sig = signal_from_win32_exception_code (ExceptionCode (ExceptionRecord ?ptrs))" and wf: "rec_wf (ExceptionRecord ?ptrs)"
      using sig(1) d(3) by simp_all
    have fr: "(case wtss W1 of None \<Rightarrow> [] | Some st \<Rightarrow> front st) = a # (case wtss W of None \<Rightarrow> [] | Some st \<Rightarrow> tl (front st))"
      using in_flightD(5)[OF fl] W1(1) by simp
    show ?thesis unfolding global_pass_answering[OF fl0(2) s1 sig(2) wf] Let_def W1_def[symmetric] fr by simp
  qed
  show ?thesis
  proof (cases "\<exists>x \<in> set (chain_of s sig). claims ans x")
    case True
    then show ?thesis using pass W1 set by (simp add: win32_unhandled_exception_filter_def W0_def[symmetric] Let_def)
  next
    case False
    have m1: "win32_matching_raise_frame ?r W1 = Some (Some a)" "raises W1 a = Some f"
      using d(1,2) by (simp_all add: W1_def asked_world_def)
    define W2 where "W2 = W1\<lparr>raises := (raises W1)(a \<mapsto> f\<lparr>exception_was_unclaimed := True\<rparr>)\<rparr>"
    have unc: "win32_unclaimed_software_raise ?r W1 = Some (EXCEPTION_CONTINUE_EXECUTION, W2)"
      using m1 nc by (simp add: win32_unclaimed_software_raise_def W2_def)
    obtain W3 where W3: "win32_record_global_decider_decision ?r EXCEPTION_CONTINUE_EXECUTION W2 = Some W3"
        "wtss W3 = wtss W2" "raises W3 = raises W2" "reg W3 = reg W2"
      using record_decision_ok[OF d(3)] by auto
    obtain W4 where W4: "consult_continue_handlers (win_answering ans) ?ptrs W3 = Some (Continued, W4)" "wtss W4 = wtss W3" "raises W4 = raises W3" "reg W4 = reg W3"
      using consult_reuses[OF d(3) W3(1), of ?ptrs "win_answering ans"] by auto
    show ?thesis using False pass unc W3 W4 W1 set
      by (auto simp: win32_unhandled_exception_filter_def W0_def[symmetric] Let_def W2_def)
  qed
qed

lemma in_flight_guarded:
  assumes fl: "in_flight mark a f r W" and sig: "sig = signal_from_win32_exception_code (ExceptionCode r)"
    and g: "guard_decides ans sig g"
  shows "\<exists>out W'. host_dispatch (win_answering ans) mark ctx (g # gs) r W = Some (out, W') \<and> reg W' = reg W
    \<and> (if ans (fs_decider g) (fs_value g) = sig_decision_resume_execution
       then out = Continued \<and> wtss W' = wtss W \<and> raises W' = (raises W)(a \<mapsto> f\<lparr>exception_was_claimed := True\<rparr>)
       else out = Unwound \<and> wtss W' = Some \<lparr>front = tss_front_at_entry g, stdc_raise_initiated_exception = win_at_entry g\<rparr> \<and> raises W' = raises W)"
proof -
  let ?ptrs = "\<lparr>ExceptionRecord = delivered mark r, ContextRecord = ctx\<rparr>" and ?r = "delivered mark r"
  note d = in_flightD[OF fl]
  obtain st where st: "wtss W = Some st" using d(4) by blast
  have wf: "rec_wf (ExceptionRecord ?ptrs)" and sg: "sig = signal_from_win32_exception_code (ExceptionCode (ExceptionRecord ?ptrs))"
    using d(3) sig by simp_all
  show ?thesis
  proof (cases "ans (fs_decider g) (fs_value g) = sig_decision_resume_execution")
    case True
    define W1 where "W1 = W\<lparr>raises := (raises W)(a \<mapsto> f\<lparr>exception_was_claimed := True\<rparr>)\<rparr>"
    obtain W2 where W2: "win32_record_global_decider_decision ?r EXCEPTION_CONTINUE_EXECUTION W1 = Some W2"
        "wtss W2 = wtss W" "raises W2 = raises W1" "reg W2 = reg W"
      using record_decision_ok[OF d(3)] by (auto simp: W1_def)
    obtain g' where "win32_exception_filter (win_answering ans) g ?ptrs W = Some (Filtered EXCEPTION_CONTINUE_EXECUTION, g', W2)"
      using filter_answering(3)[OF wf st sg g True, of a f] d(1,2) W2(1) by (auto simp: W1_def)
    moreover obtain W3 where "consult_continue_handlers (win_answering ans) ?ptrs W2 = Some (Continued, W3)" "wtss W3 = wtss W2" "raises W3 = raises W2" "reg W3 = reg W2"
      using consult_reuses[OF d(3) W2(1), of ?ptrs "win_answering ans"] by auto
    ultimately show ?thesis using True W2 by (simp add: Let_def W1_def)
  next
    case False
    then have "ans (fs_decider g) (fs_value g) = sig_decision_call_recovery"
      using g by (cases "ans (fs_decider g) (fs_value g)") (auto simp: guard_decides_def)
    from filter_answering(2)[OF wf st sg g this] show ?thesis using False by (auto simp: Let_def)
  qed
qed

text \<open>What a raise is for the library when it comes to the first guarded section that decides.\<close>

lemma sint_signal:
  assumes "1 \<le> sint (sig :: 32 word)" "sint sig < 2 ^ 30"
  shows "signal_from_win32_exception_code (win32_exception_code_from_signal sig) = sint sig"
proof -
  have u: "uint sig = sint sig"
    using assms unfolding uint_sint by (simp add: take_bit_int_eq_self)
  then show ?thesis using assms by (simp add: signal_code_inverse)
qed

lemma find_split: "find P xs = None \<and> (\<forall>x \<in> set xs. \<not> P x) \<or> (\<exists>us x vs. find P xs = Some x \<and> xs = us @ x # vs \<and> P x \<and> (\<forall>y \<in> set us. \<not> P y))"
proof (cases "find P xs")
  case None
  then show ?thesis by (simp add: find_None_iff)
next
  case (Some x)
  then obtain i where i: "i < length xs" "P (xs ! i)" "x = xs ! i" "\<forall>j < i. \<not> P (xs ! j)" by (auto simp: find_Some_iff)
  then have "xs = take i xs @ x # drop (Suc i) xs" "\<forall>y \<in> set (take i xs). \<not> P y" by (auto simp: id_take_nth_drop in_set_conv_nth)
  then show ?thesis using Some i by blast
qed

lemma win_stdc_raise_run:
  assumes W0: "W0 = W" and st: "wtss W = Some st" and sig: "sig \<noteq> 0" and snap: "raise_snapshot (win32_exception_code_from_signal sig) (map_option (\<lambda>i. append_raw_context i context) info) = Some f"
    and W1: "W1 = W\<lparr>reg := (reg W)\<lparr>next_addr := Suc (next_addr (reg W))\<rparr>,
      wtss := Some \<lparr>front = next_addr (reg W) # front st, stdc_raise_initiated_exception = next_addr (reg W) # stdc_raise_initiated_exception st\<rparr>,
      raises := (raises W)(next_addr (reg W) \<mapsto> f)\<rparr>"
  shows "win_stdc_raise RaiseException sig info context W = do {
      (out, W) \<leftarrow> RaiseException (raised_record (win32_exception_code_from_signal sig) (map_option (\<lambda>i. append_raw_context i context) info)) W1;
      (case out of
         Continued \<Rightarrow> do {
           W \<leftarrow> pop_raise (front st) (stdc_raise_initiated_exception st) W;
           f \<leftarrow> raises W (next_addr (reg W0));
           Some (W_Raised (\<not> exception_was_unclaimed f), map_option (\<lambda>i. append_raw_context i context) info, W\<lparr>raises := (raises W)(next_addr (reg W0) := None)\<rparr>)
         }
       | Jumped j \<Rightarrow>
           (if j = next_addr (reg W0)
            then do {
              W \<leftarrow> pop_raise (front st) (stdc_raise_initiated_exception st) W;
              Some (W_Raised True, map_option (\<lambda>i. append_raw_context i context) info, W\<lparr>raises := (raises W)(next_addr (reg W0) := None)\<rparr>)
            }
            else Some (W_Jumped j, map_option (\<lambda>i. append_raw_context i context) info, W\<lparr>raises := (raises W)(next_addr (reg W0) := None)\<rparr>))
       | Unwound \<Rightarrow> Some (W_Unwound, map_option (\<lambda>i. append_raw_context i context) info, W\<lparr>raises := (raises W)(next_addr (reg W0) := None)\<rparr>)
       | Ended \<Rightarrow> Some (W_Ended, map_option (\<lambda>i. append_raw_context i context) info, W))
    }"
  unfolding W0 W1 using st sig snap by (simp add: win_stdc_raise_def win_tss_state_init_def Let_def)


definition win_world_of :: "sig_world \<Rightarrow> win_world" where
  "win_world_of w = \<lparr>reg = w, wtss = Some \<lparr>front = [], stdc_raise_initiated_exception = []\<rparr>, raises = (\<lambda>_. None),
     last_global_decider_record = raise_frame_zero, last_global_decider_result = EXCEPTION_CONTINUE_SEARCH,
     continue_handlers = 1, filter_set = True, vectored_continue_handler = Some 1, old_unhandled_exception_filter = False\<rparr>"


definition recorded :: "exception_record \<Rightarrow> seh_disposition \<Rightarrow> win_world \<Rightarrow> bool" where
  "recorded r d W \<longleftrightarrow> rf_code (last_global_decider_record W) = ExceptionCode r \<and> rf_flags (last_global_decider_record W) = ExceptionFlags r
     \<and> rf_params (last_global_decider_record W) = NumberParameters r
     \<and> (NumberParameters r > 0 \<longrightarrow> rf_first (last_global_decider_record W) = ExceptionInformation r ! 0) \<and> last_global_decider_result W = d"

lemma recorded_decision: "rec_wf r \<Longrightarrow> win32_record_global_decider_decision r d W = Some W' \<Longrightarrow> recorded r d W'"
  by (auto simp: record_decision_ok recorded_def)

lemma recorded_reg: "recorded r d W \<Longrightarrow> on_reg f W = Some W' \<Longrightarrow> recorded r d W'"
  by (auto simp: recorded_def on_reg_def bind_Some_conv)

lemma recorded_release: "recorded r d W \<Longrightarrow> release_and_unlock item W = Some W' \<Longrightarrow> recorded r d W'"
  by (auto simp: release_and_unlock_def bind_Some_conv intro: recorded_reg)

lemma pass_records:
  assumes "win32_global_decider_pass decide ptrs W = Some (Passed d, W')"
    "signal_from_win32_exception_code (ExceptionCode (ExceptionRecord ptrs)) \<noteq> 0" "rec_wf (ExceptionRecord ptrs)"
  shows "recorded (ExceptionRecord ptrs) d W'"
  using assms(1,2) unfolding win32_global_decider_pass_def Let_def
  by (auto simp: bind_Some_conv split: if_splits option.splits bool.splits list.splits
      intro: recorded_decision[OF assms(3)] recorded_release)

text \<open>
  C19 (one decision per exception). Whatever the deciders do, when the unhandled exception filter
  returns a disposition for an exception that stands for a signal, the continue handler that
  the host runs next for the same exception returns the same disposition without asking any
  decider again, and forgets it, so that a later exception is decided afresh.
\<close>

theorem continue_handler_repeats_decision:
  assumes "win32_unhandled_exception_filter decide ptrs W = Some (Passed d, W')"
    "signal_from_win32_exception_code (ExceptionCode (ExceptionRecord ptrs)) \<noteq> 0" "rec_wf (ExceptionRecord ptrs)"
  shows "win32_vectored_continue_handler decide' ptrs W' = Some (Passed d, W'\<lparr>last_global_decider_record := raise_frame_zero\<rparr>)"
proof -
  have "recorded (ExceptionRecord ptrs) d W'"
    using assms(1) pass_records[OF _ assms(2,3)] by (auto simp: win32_unhandled_exception_filter_def)
  then have "win32_exception_record_matches (last_global_decider_record W') (ExceptionRecord ptrs) = Some True" "last_global_decider_result W' = d"
    using assms(3) by (auto simp: record_matches_iff recorded_def)
  then show ?thesis by (simp add: win32_vectored_continue_handler_def)
qed

definition segv_ptrs :: exception_pointers where
  "segv_ptrs = \<lparr>ExceptionRecord = \<lparr>ExceptionCode = 0xC0000005, ExceptionFlags = 0, NumberParameters = 2,
     ExceptionInformation = replicate 15 0\<rparr>, ContextRecord = 0\<rparr>"

theorem continue_handler_repeats_decision_witness:
  "\<exists>W'. win32_unhandled_exception_filter (win_answering (\<lambda>_ _. sig_decision_next_decider)) segv_ptrs (win_world_of (sig_world_init\<lparr>tss := None\<rparr>))
      = Some (Passed EXCEPTION_CONTINUE_SEARCH, W')
    \<and> win32_vectored_continue_handler (\<lambda>_ _ _. None) segv_ptrs W'
      = Some (Passed EXCEPTION_CONTINUE_SEARCH, W'\<lparr>last_global_decider_record := raise_frame_zero\<rparr>)"
proof -
  let ?W = "win_world_of (sig_world_init\<lparr>tss := None\<rparr>)"
  have sig: "signal_from_win32_exception_code (ExceptionCode (ExceptionRecord segv_ptrs)) = W_SIGSEGV" "W_SIGSEGV \<noteq> 0" "rec_wf (ExceptionRecord segv_ptrs)"
    by (simp_all add: segv_ptrs_def signal_from_win32_exception_code_def W_SIGSEGV_def rec_wf_def)
  have rel: "registry_rel (reg (?W\<lparr>last_global_decider_record := raise_frame_zero\<rparr>)) (\<lambda>_. (None, sigaction_zero))"
    using registry_rel_init[of None] by (simp add: win_world_of_def)
  obtain W' where W': "win32_unhandled_exception_filter (win_answering (\<lambda>_ _. sig_decision_next_decider)) segv_ptrs ?W = Some (Passed EXCEPTION_CONTINUE_SEARCH, W')"
    using global_pass_answering[OF rel sig(1)[symmetric] sig(2,3), of "\<lambda>_ _. sig_decision_next_decider"]
    by (simp add: win32_unhandled_exception_filter_def chain_of_def Let_def win32_unclaimed_software_raise_def win32_matching_raise_frame_def
        win_world_of_def asked_world_def record_decision_ok[OF sig(3)])
  show ?thesis using W' continue_handler_repeats_decision[OF W', of "\<lambda>_ _ _. None"] sig by simp
qed

text \<open>
  C31 (exception codes). Every signal number from 0 to 2^30 - 1 is recovered from the exception
  code it is raised with. Any other number is recovered modulo 2^30, so that numbers outside
  the range may arrive as a valid signal: \<^verbatim>\<open>INT_MIN + 2\<close> as \<^verbatim>\<open>SIGINT\<close>.
\<close>

theorem exception_codes_roundtrip:
  "(0 \<le> sint c \<and> sint c < 2 ^ 30 \<longrightarrow> signal_from_win32_exception_code (win32_exception_code_from_signal c) = sint c)
   \<and> (sint c < 0 \<or> 2 ^ 30 \<le> sint c \<longrightarrow> signal_from_win32_exception_code (win32_exception_code_from_signal c) = uint c mod 2 ^ 30)
   \<and> signal_from_win32_exception_code (win32_exception_code_from_signal (word_of_int (- (2 ^ 31) + 2))) = W_SIGINT"
proof (intro conjI impI)
  assume c: "0 \<le> sint c \<and> sint c < 2 ^ 30"
  then have "uint c = sint c" unfolding uint_sint by (simp add: take_bit_int_eq_self)
  then show "signal_from_win32_exception_code (win32_exception_code_from_signal c) = sint c" using c by (simp add: signal_code_inverse)
next
  assume "sint c < 0 \<or> 2 ^ 30 \<le> sint c"
  then show "signal_from_win32_exception_code (win32_exception_code_from_signal c) = uint c mod 2 ^ 30"
    unfolding signal_code_inverse by (auto simp: W_SIGABRT_def W_SIGBUS_def W_SIGILL_def W_SIGSEGV_def W_SIGFPE_def)
next
  show "signal_from_win32_exception_code (win32_exception_code_from_signal (word_of_int (- (2 ^ 31) + 2))) = W_SIGINT"
    unfolding signal_code_inverse by (simp add: W_SIGABRT_def W_SIGBUS_def W_SIGILL_def W_SIGSEGV_def W_SIGFPE_def W_SIGINT_def)
qed

theorem exception_codes_roundtrip_witness:
  "signal_from_win32_exception_code (win32_exception_code_from_signal 15) = 15
   \<and> signal_from_win32_exception_code (win32_exception_code_from_signal 0x40000005) = 5"
  using exception_codes_roundtrip[of 15] exception_codes_roundtrip[of "0x40000005"] by simp

section \<open>Abandoning and resuming\<close>

text \<open>The information that a frame filter or the global pass hands to a decider.\<close>

definition handed :: "win_siginfo \<Rightarrow> win_world \<Rightarrow> bool" where
  "handed rsi W \<longleftrightarrow> lock (reg W) = 0 \<and> \<not> internal_decider_is_abandoned rsi \<and> internal_win_state rsi = [] \<and>
     (\<exists>st. wtss W = Some st \<and>
       (internal_sighandler rsi = None \<and> internal_global_decider rsi = None \<and> w_local_decider rsi = front st
        \<or> (\<exists>a n ci d. internal_sighandler rsi = Some a \<and> internal_global_decider rsi = Some n \<and> w_local_decider rsi = []
            \<and> infos (reg W) a = Some ci \<and> nodes (reg W) n = Some d)))"

lemma on_reg_simps:
  "lock (reg W) = 0 \<Longrightarrow> on_reg LOCK W = Some (W\<lparr>reg := (reg W)\<lparr>lock := 1\<rparr>\<rparr>)"
  "lock (reg W) = 1 \<Longrightarrow> on_reg UNLOCK W = Some (W\<lparr>reg := (reg W)\<lparr>lock := 0\<rparr>\<rparr>)"
  "infos (reg W) a = Some ci \<Longrightarrow> on_reg (info_upd (Some a) g) W = Some (W\<lparr>reg := (reg W)\<lparr>infos := (infos (reg W))(a \<mapsto> g ci)\<rparr>\<rparr>)"
  "nodes (reg W) n = Some d \<Longrightarrow> on_reg (node_upd (Some n) h) W = Some (W\<lparr>reg := (reg W)\<lparr>nodes := (nodes (reg W))(n \<mapsto> h d)\<rparr>\<rparr>)"
  by (simp_all add: on_reg_def)

text \<open>
  Abandoning on Windows. A decider that abandons its call and then resumes gets the state
  back as it was: the thread's chains, the reference counts of container and decider, the lock.
\<close>

theorem win_abandon_resume_roundtrip:
  assumes "handed rsi W"
  shows "\<exists>rsi1 W1 rsi2. win_sigdecider_abandon rsi W = Some (rsi1, W1) \<and> win_sigdecider_abandon_resume rsi1 W1 = Some (rsi2, W)
    \<and> internal_decider_is_abandoned rsi1 \<and> \<not> internal_decider_is_abandoned rsi2"
proof -
  obtain st where st: "wtss W = Some st" and l: "lock (reg W) = 0" using assms by (auto simp: handed_def)
  obtain fr se where fs: "st = \<lparr>front = fr, stdc_raise_initiated_exception = se\<rparr>" by (cases st)
  have W: "W\<lparr>wtss := Some \<lparr>front = fr, stdc_raise_initiated_exception = se\<rparr>\<rparr> = W" using st fs by (cases W) simp
  show ?thesis
  proof (cases "internal_sighandler rsi")
    case None
    then have h: "internal_global_decider rsi = None" "w_local_decider rsi = fr" "\<not> internal_decider_is_abandoned rsi" "internal_win_state rsi = []"
      using assms st fs by (auto simp: handed_def)
    show ?thesis using None h st fs W
      by (cases fr; cases se) (simp_all add: win_sigdecider_abandon_def win_sigdecider_abandon_resume_def)
  next
    case (Some a)
    then obtain n ci d where h: "internal_global_decider rsi = Some n" "w_local_decider rsi = []" "\<not> internal_decider_is_abandoned rsi"
      "internal_win_state rsi = []" "infos (reg W) a = Some ci" "nodes (reg W) n = Some d"
      using assms st by (auto simp: handed_def)
    have r: "(reg W)\<lparr>infos := infos (reg W), nodes := nodes (reg W), lock := 0\<rparr> = reg W" using l by (cases "reg W") simp
    show ?thesis using Some h st fs W l r
      by (cases fr; cases se)
        (simp_all add: win_sigdecider_abandon_def win_sigdecider_abandon_resume_def on_reg_simps fun_upd_idem)
  qed
qed

theorem win_abandon_resume_roundtrip_witness:
  "\<exists>rsi1 W1 rsi2. win_sigdecider_abandon win_rsi_zero (win_world_of sig_world_init) = Some (rsi1, W1)
    \<and> win_sigdecider_abandon_resume rsi1 W1 = Some (rsi2, win_world_of sig_world_init)"
  using win_abandon_resume_roundtrip[of win_rsi_zero "win_world_of sig_world_init"]
  by (auto simp: handed_def win_world_of_def win_rsi_zero_def sig_world_init_def)

end
