(* ===== verification/Thread_Atexit.thy ===== *)
theory Thread_Atexit
  imports Signals_Prelude
begin

text \<open>
  Callbacks at thread exit, \<^verbatim>\<open>detail/impl/thread_atexit.c.ipp\<close>: the list of items that each
  thread keeps, the form for POSIX hosts, where a key's destructor drains the list, and the
  form for MSVC, where a TLS callback does. A thread-local variable is a function of the
  calling thread, an operation takes the calling thread as its argument \<open>me\<close>. The form for
  hosts with \<^verbatim>\<open>__cxa_thread_atexit\<close> hands the callback to the host and keeps nothing.
\<close>

section \<open>State and host calls\<close>

type_synonym thread = nat
type_synonym callback = "nat \<times> ptr"

record thread_atexit_item_t =
  item_func :: nat
  item_obj :: ptr
  item_next :: ptr

text \<open>
  Of the host: the value that \<^verbatim>\<open>pthread_key_create\<close> stores, the value of the key in each thread,
  and whether each coming call that may fail succeeds (an exhausted plan means that they all
  do). The trace \<open>exit_calls\<close> records the callbacks that were called.
\<close>

record atexit_world =
  atexit_heap :: "thread_atexit_item_t heap"
  thread_atexit_items :: "thread \<Rightarrow> ptr"
  thread_atexit_key :: "32 word"
  once_done :: bool
  host_key :: "32 word"
  specific :: "thread \<Rightarrow> ptr"
  next_free :: addr
  host_plan :: "bool list"
  terrno :: "thread \<Rightarrow> int"
  exit_calls :: "callback list"

definition host_call :: "'z atexit_world_scheme \<Rightarrow> bool \<times> 'z atexit_world_scheme" where
  "host_call w = (host_plan w = [] \<or> hd (host_plan w), w\<lparr>host_plan := tl (host_plan w)\<rparr>)"

definition thread_alloc :: "'z atexit_world_scheme \<Rightarrow> ptr \<times> 'z atexit_world_scheme" where
  "thread_alloc w =
     (case host_call w of
        (True, w) \<Rightarrow> (Some (next_free w), w\<lparr>next_free := Suc (next_free w)\<rparr>)
      | (False, w) \<Rightarrow> (None, w))"

definition set_errno :: "thread \<Rightarrow> int \<Rightarrow> 'z atexit_world_scheme \<Rightarrow> 'z atexit_world_scheme" where
  "set_errno me e w = w\<lparr>terrno := (terrno w)(me := e)\<rparr>"

definition pthread_setspecific :: "thread \<Rightarrow> ptr \<Rightarrow> 'z atexit_world_scheme \<Rightarrow> int \<times> 'z atexit_world_scheme" where
  "pthread_setspecific me v w =
     (case host_call w of
        (True, w) \<Rightarrow> (0, w\<lparr>specific := (specific w)(me := v)\<rparr>)
      | (False, w) \<Rightarrow> (ENOMEM, w))"

definition free_item :: "ptr \<Rightarrow> 'z atexit_world_scheme \<Rightarrow> 'z atexit_world_scheme option" where
  "free_item p w =
     (case p of None \<Rightarrow> Some w
      | Some a \<Rightarrow> do { h \<leftarrow> free_cell (atexit_heap w) a; Some (w\<lparr>atexit_heap := h\<rparr>) })"

section \<open>Registering\<close>

definition thread_atexit_key_init :: "'z atexit_world_scheme \<Rightarrow> 'z atexit_world_scheme" where
  "thread_atexit_key_init w =
     (case host_call w of
        (True, w) \<Rightarrow> w\<lparr>thread_atexit_key := host_key w\<rparr>
      | (False, w) \<Rightarrow> w\<lparr>thread_atexit_key := - 1\<rparr>)"

definition pthread_once ::
  "('z atexit_world_scheme \<Rightarrow> 'z atexit_world_scheme) \<Rightarrow> 'z atexit_world_scheme \<Rightarrow> int \<times> 'z atexit_world_scheme" where
  "pthread_once init w =
     (case host_call w of
        (True, w) \<Rightarrow> (0, if once_done w then w else (init w)\<lparr>once_done := True\<rparr>)
      | (False, w) \<Rightarrow> (EINVAL, w))"

definition thread_atexit ::
  "thread \<Rightarrow> callback \<Rightarrow> 'z atexit_world_scheme \<Rightarrow> (int \<times> 'z atexit_world_scheme) option" where
  "thread_atexit me c w =
     (case thread_alloc w of
        (None, w) \<Rightarrow> Some (-1, set_errno me ENOMEM w)
      | (Some item, w) \<Rightarrow>
          let w = w\<lparr>atexit_heap := (atexit_heap w)(item \<mapsto> \<lparr>item_func = fst c, item_obj = snd c, item_next = None\<rparr>)\<rparr>
          in case pthread_once thread_atexit_key_init w of
            (r, w) \<Rightarrow>
              if r \<noteq> 0 \<or> thread_atexit_key w = - 1
              then do {
                w \<leftarrow> free_item (Some item) w;
                Some (-1, set_errno me ENOMEM w)
              }
              else do {
                h \<leftarrow> store (atexit_heap w) (Some item) (\<lambda>i. i\<lparr>item_next := thread_atexit_items w me\<rparr>);
                let w = w\<lparr>atexit_heap := h, thread_atexit_items := (thread_atexit_items w)(me := Some item)\<rparr>;
                (case pthread_setspecific me (thread_atexit_items w me) w of
                   (r, w) \<Rightarrow>
                     if r \<noteq> 0
                     then do {
                       i \<leftarrow> deref (atexit_heap w) (Some item);
                       let w = w\<lparr>thread_atexit_items := (thread_atexit_items w)(me := item_next i)\<rparr>;
                       w \<leftarrow> free_item (Some item) w;
                       Some (-1, set_errno me ENOMEM w)
                     }
                     else Some (0, w))
              })"

definition msvc_thread_atexit ::
  "thread \<Rightarrow> callback \<Rightarrow> 'z atexit_world_scheme \<Rightarrow> (int \<times> 'z atexit_world_scheme) option" where
  "msvc_thread_atexit me c w =
     (case thread_alloc w of
        (None, w) \<Rightarrow> Some (-1, set_errno me ENOMEM w)
      | (Some item, w) \<Rightarrow>
          Some (0, w\<lparr>atexit_heap := (atexit_heap w)(item \<mapsto>
              \<lparr>item_func = fst c, item_obj = snd c, item_next = thread_atexit_items w me\<rparr>),
            thread_atexit_items := (thread_atexit_items w)(me := Some item)\<rparr>))"

section \<open>Thread exit\<close>

text \<open>The callbacks' code is an argument: it may use the library again.\<close>

type_synonym 'z call_fn = "callback \<Rightarrow> 'z atexit_world_scheme \<Rightarrow> 'z atexit_world_scheme option"

partial_function (option) run_items ::
  "'z call_fn \<Rightarrow> ptr \<Rightarrow> 'z atexit_world_scheme \<Rightarrow> 'z atexit_world_scheme option" where
  "run_items call items w =
     (if items = None then Some w
      else do {
        i \<leftarrow> deref (atexit_heap w) items;
        let nxt = item_next i;
        let c = (item_func i, item_obj i);
        w \<leftarrow> call c (w\<lparr>exit_calls := exit_calls w @ [c]\<rparr>);
        w \<leftarrow> free_item items w;
        run_items call nxt w
      })"

definition thread_atexit_run :: "'z call_fn \<Rightarrow> thread \<Rightarrow> 'z atexit_world_scheme \<Rightarrow> 'z atexit_world_scheme option" where
  "thread_atexit_run call me w =
     (case pthread_setspecific me None w of
        (r, w) \<Rightarrow>
          let items = thread_atexit_items w me;
              w = w\<lparr>thread_atexit_items := (thread_atexit_items w)(me := None)\<rparr>
          in run_items call items w)"

datatype tls_reason = DLL_PROCESS_ATTACH | DLL_THREAD_ATTACH | DLL_THREAD_DETACH | DLL_PROCESS_DETACH

definition thread_atexit_tls_callback ::
  "'z call_fn \<Rightarrow> thread \<Rightarrow> tls_reason \<Rightarrow> 'z atexit_world_scheme \<Rightarrow> 'z atexit_world_scheme option" where
  "thread_atexit_tls_callback call me reason w =
     (if reason = DLL_THREAD_DETACH \<or> reason = DLL_PROCESS_DETACH
      then let items = thread_atexit_items w me;
               w = w\<lparr>thread_atexit_items := (thread_atexit_items w)(me := None)\<rparr>
        in run_items call items w
      else Some w)"

text \<open>
  What a POSIX host does when a thread exits: as long as the key has a value, and at most
  \<^verbatim>\<open>PTHREAD_DESTRUCTOR_ITERATIONS\<close> times, it clears the value and calls the destructor.
\<close>

fun pthread_exit :: "nat \<Rightarrow> 'z call_fn \<Rightarrow> thread \<Rightarrow> 'z atexit_world_scheme \<Rightarrow> 'z atexit_world_scheme option" where
  "pthread_exit 0 call me w = Some w"
| "pthread_exit (Suc n) call me w =
     (if specific w me = None then Some w
      else do {
        w \<leftarrow> thread_atexit_run call me (w\<lparr>specific := (specific w)(me := None)\<rparr>);
        pthread_exit n call me w
      })"

declare run_items.simps [code]

text \<open>A sequence of registrations with their answers, and callbacks that make some themselves.\<close>

fun register_all :: "('c \<Rightarrow> 'w \<Rightarrow> (int \<times> 'w) option) \<Rightarrow> 'c list \<Rightarrow> 'w \<Rightarrow> (int list \<times> 'w) option" where
  "register_all register [] w = Some ([], w)"
| "register_all register (c # cs) w = do {
     (r, w) \<leftarrow> register c w;
     (rs, w) \<leftarrow> register_all register cs w;
     Some (r # rs, w)
   }"

definition registering ::
  "(thread \<Rightarrow> callback \<Rightarrow> 'w \<Rightarrow> (int \<times> 'w) option) \<Rightarrow> thread \<Rightarrow> (callback \<Rightarrow> callback list) \<Rightarrow> callback \<Rightarrow> 'w \<Rightarrow> 'w option" where
  "registering register me again c w = do {
     (rs, w) \<leftarrow> register_all (\<lambda>(t, c). register t c) (map (Pair me) (again c)) w;
     Some w
   }"

definition succeeded :: "thread \<Rightarrow> (thread \<times> callback) list \<Rightarrow> int list \<Rightarrow> callback list" where
  "succeeded t regs rs = map (\<lambda>((u, c), r). c) (filter (\<lambda>((u, c), r). u = t \<and> r = 0) (zip regs rs))"

lemma succeeded_all: "length rs = length cs \<Longrightarrow> set rs \<subseteq> {0} \<Longrightarrow> succeeded t (map (Pair t) cs) rs = cs"
  by (induction rs cs rule: list_induct2) (simp_all add: succeeded_def)

section \<open>The lists in the heap\<close>

text \<open>A chain of items from a pointer, as the list of their addresses and callbacks.\<close>

fun chain :: "thread_atexit_item_t heap \<Rightarrow> ptr \<Rightarrow> (addr \<times> callback) list \<Rightarrow> bool" where
  "chain h p [] \<longleftrightarrow> p = None"
| "chain h p ((a, c) # xs) \<longleftrightarrow> p = Some a \<and>
     (\<exists>nxt. h a = Some \<lparr>item_func = fst c, item_obj = snd c, item_next = nxt\<rparr> \<and> chain h nxt xs)"

definition addrs :: "(addr \<times> callback) list \<Rightarrow> addr set" where
  "addrs xs = fst ` set xs"

lemma addrs_simps [simp]: "addrs [] = {}" "addrs (x # xs) = insert (fst x) (addrs xs)"
  by (simp_all add: addrs_def)

lemma chain_cong: "(\<And>a. a \<in> addrs xs \<Longrightarrow> h' a = h a) \<Longrightarrow> chain h' p xs = chain h p xs"
  by (induction h p xs rule: chain.induct) auto

lemma chain_dom: "chain h p xs \<Longrightarrow> addrs xs \<subseteq> dom h"
  by (induction h p xs rule: chain.induct) auto

lemma chain_upd [simp]: "a \<notin> addrs xs \<Longrightarrow> chain (h(a := v)) p xs = chain h p xs"
  by (rule chain_cong) auto

text \<open>
  The state represents one list per thread; \<open>D\<close> are the items that a running drain has detached.
  Every item of the heap belongs to exactly one of them, and the key has a value in a thread
  with a list, so that the host calls the destructor.
\<close>

definition atexit_rel :: "'z atexit_world_scheme \<Rightarrow> (thread \<Rightarrow> (addr \<times> callback) list) \<Rightarrow> addr set \<Rightarrow> bool" where
  "atexit_rel w L D \<longleftrightarrow>
     (\<forall>t. chain (atexit_heap w) (thread_atexit_items w t) (L t) \<and> distinct (map fst (L t)) \<and> addrs (L t) \<inter> D = {}) \<and>
     (\<forall>t u. t \<noteq> u \<longrightarrow> addrs (L t) \<inter> addrs (L u) = {}) \<and>
     dom (atexit_heap w) = (\<Union>t. addrs (L t)) \<union> D \<and> (\<forall>a \<in> dom (atexit_heap w). a < next_free w)"

lemma rel_fresh: "atexit_rel w L D \<Longrightarrow> atexit_heap w (next_free w) = None"
  unfolding atexit_rel_def by (metis domIff less_irrefl)

lemma rel_same:
  assumes "atexit_rel w L D" "atexit_heap w' = atexit_heap w" "thread_atexit_items w' = thread_atexit_items w" "next_free w \<le> next_free w'"
  shows "atexit_rel w' L D"
proof -
  have "\<forall>a \<in> dom (atexit_heap w). a < next_free w'" using assms(1,4) unfolding atexit_rel_def by (meson order.strict_trans2)
  then show ?thesis using assms unfolding atexit_rel_def by simp
qed

lemma rel_push:
  assumes rel: "atexit_rel w L D"
    and heap: "atexit_heap w' = (atexit_heap w)(next_free w \<mapsto> \<lparr>item_func = fst c, item_obj = snd c, item_next = thread_atexit_items w me\<rparr>)"
    and items: "thread_atexit_items w' = (thread_atexit_items w)(me := Some (next_free w))" and nf: "next_free w' = Suc (next_free w)"
  shows "atexit_rel w' (L(me := (next_free w, c) # L me)) D"
proof -
  let ?a = "next_free w"
  have dom: "dom (atexit_heap w) = (\<Union>t. addrs (L t)) \<union> D" and lt: "\<forall>a \<in> dom (atexit_heap w). a < ?a"
    using rel by (auto simp: atexit_rel_def)
  have "?a \<notin> dom (atexit_heap w)" using rel_fresh[OF rel] by auto
  then have L: "?a \<notin> addrs (L t)" and D: "?a \<notin> D" for t unfolding dom by blast+
  have "dom (atexit_heap w') = (\<Union>t. addrs ((L(me := (?a, c) # L me)) t)) \<union> D"
    unfolding heap using dom by (auto split: if_splits)
  moreover have "\<forall>a \<in> dom (atexit_heap w'). a < next_free w'"
    unfolding heap nf using lt by (auto simp: less_Suc_eq)
  moreover have "?a \<notin> fst ` set (L me)" using L[of me] by (simp add: addrs_def)
  ultimately show ?thesis using rel L D unfolding atexit_rel_def heap items by (auto simp: disjoint_iff)
qed

text \<open>The host will neither run out of memory nor refuse the key.\<close>

definition host_willing :: "'z atexit_world_scheme \<Rightarrow> bool" where
  "host_willing w \<longleftrightarrow> host_plan w = [] \<and> (if once_done w then thread_atexit_key w else host_key w) \<noteq> - 1"

text \<open>What the host's calls leave alone, and what they answer when the host is willing.\<close>

definition host_only :: "'z atexit_world_scheme \<Rightarrow> 'z atexit_world_scheme \<Rightarrow> bool" where
  "host_only w w' \<longleftrightarrow> atexit_heap w' = atexit_heap w \<and> thread_atexit_items w' = thread_atexit_items w \<and>
     exit_calls w' = exit_calls w \<and> atexit_world.more w' = atexit_world.more w"

lemma thread_alloc_cases:
  obtains (null) w' where "thread_alloc w = (None, w')" "host_only w w'" "specific w' = specific w" "next_free w' = next_free w" "\<not> host_willing w"
  | (block) w' where "thread_alloc w = (Some (next_free w), w')" "host_only w w'" "specific w' = specific w" "next_free w' = Suc (next_free w)"
      "host_willing w \<longrightarrow> host_willing w'"
  by (cases "host_plan w = [] \<or> hd (host_plan w)")
    (auto simp: thread_alloc_def host_call_def host_only_def host_willing_def)

lemma pthread_once_cases:
  obtains r w' where "pthread_once thread_atexit_key_init w = (r, w')" "host_only w w'" "specific w' = specific w" "next_free w' = next_free w"
    "host_willing w \<longrightarrow> host_willing w' \<and> r = 0 \<and> thread_atexit_key w' \<noteq> - 1"
  by (cases "host_plan w = [] \<or> hd (host_plan w)"; cases "once_done w"; cases "tl (host_plan w) = [] \<or> hd (tl (host_plan w))")
    (auto intro!: that simp: pthread_once_def thread_atexit_key_init_def host_call_def host_only_def host_willing_def)

lemma pthread_setspecific_cases:
  obtains (set) w' where "pthread_setspecific me v w = (0, w')" "host_only w w'" "specific w' = (specific w)(me := v)" "next_free w' = next_free w"
      "host_willing w \<longrightarrow> host_willing w'"
  | (refused) r w' where "pthread_setspecific me v w = (r, w')" "r \<noteq> 0" "host_only w w'" "specific w' = specific w" "next_free w' = next_free w" "\<not> host_willing w"
  by (cases "host_plan w = [] \<or> hd (host_plan w)")
    (auto simp: pthread_setspecific_def host_call_def host_only_def host_willing_def ENOMEM_def)

lemma host_willing_frame:
  "host_willing (w\<lparr>atexit_heap := h\<rparr>) = host_willing w" "host_willing (w\<lparr>thread_atexit_items := f\<rparr>) = host_willing w"
  "host_willing (w\<lparr>specific := g\<rparr>) = host_willing w" "host_willing (w\<lparr>exit_calls := cs\<rparr>) = host_willing w"
  by (simp_all add: host_willing_def)

section \<open>Draining a list\<close>

text \<open>
  The drain loop ends with the invariant at the empty list when every callback keeps it and
  leaves the items alone that are still to come.
\<close>

lemma run_items_rule:
  assumes "\<And>a c xs w. J ((a, c) # xs) w \<Longrightarrow> chain (atexit_heap w) (Some a) ((a, c) # xs) \<Longrightarrow> distinct (a # map fst xs) \<Longrightarrow>
      \<exists>w'. call c (w\<lparr>exit_calls := exit_calls w @ [c]\<rparr>) = Some w' \<and> (\<forall>b \<in> insert a (addrs xs). atexit_heap w' b = atexit_heap w b)
        \<and> J xs (w'\<lparr>atexit_heap := (atexit_heap w')(a := None)\<rparr>)"
    and "J xs w" "chain (atexit_heap w) p xs" "distinct (map fst xs)"
  shows "\<exists>w'. run_items call p w = Some w' \<and> J [] w'"
  using assms(2-)
proof (induction xs arbitrary: p w)
  case Nil
  then show ?case by (simp add: run_items.simps)
next
  case (Cons x xs)
  obtain a c where x: "x = (a, c)" by (cases x)
  obtain nxt where p: "p = Some a" and h: "atexit_heap w a = Some \<lparr>item_func = fst c, item_obj = snd c, item_next = nxt\<rparr>" "chain (atexit_heap w) nxt xs"
    using Cons.prems(2) by (auto simp: x)
  obtain w1 where w1: "call c (w\<lparr>exit_calls := exit_calls w @ [c]\<rparr>) = Some w1" "\<forall>b \<in> insert a (addrs xs). atexit_heap w1 b = atexit_heap w b"
    "J xs (w1\<lparr>atexit_heap := (atexit_heap w1)(a := None)\<rparr>)"
    using assms(1)[of a c xs w] Cons.prems p by (auto simp: x)
  have a: "a \<notin> addrs xs" "distinct (map fst xs)" using Cons.prems(3) by (auto simp: x addrs_def)
  then have "chain ((atexit_heap w1)(a := None)) nxt xs" using w1(2) h(2) by (simp add: chain_cong[of xs "atexit_heap w1" "atexit_heap w"])
  then have "\<exists>w'. run_items call nxt (w1\<lparr>atexit_heap := (atexit_heap w1)(a := None)\<rparr>) = Some w' \<and> J [] w'"
    by (intro Cons.IH[OF w1(3) _ a(2)]) (simp add: fun_upd_def)
  moreover have "atexit_heap w1 a = Some \<lparr>item_func = fst c, item_obj = snd c, item_next = nxt\<rparr>" using w1(2) h(1) by simp
  ultimately show ?case using h(1) w1(1) by (subst run_items.simps) (simp add: p free_item_def)
qed

lemma rel_detach:
  assumes "atexit_rel w L {}"
  shows "atexit_rel (w\<lparr>thread_atexit_items := (thread_atexit_items w)(me := None)\<rparr>) (L(me := [])) (addrs (L me))"
  using assms unfolding atexit_rel_def by (auto split: if_splits)

lemma rel_drop:
  assumes "atexit_rel w L (insert a D)" "a \<notin> D"
  shows "atexit_rel (w\<lparr>atexit_heap := (atexit_heap w)(a := None)\<rparr>) L D"
proof -
  have "a \<notin> addrs (L t)" for t using assms(1) by (auto simp: atexit_rel_def)
  then show ?thesis using assms unfolding atexit_rel_def by (auto simp: set_eq_iff)
qed

section \<open>The contract of a registration\<close>

text \<open>
  What a registration promises, for either form: it adds the callback at the front of the
  calling thread's list and arms the thread's exit hook, or answers -1 and leaves the lists
  alone; it never fails while the host is willing.
\<close>

locale exit_registration =
  fixes register :: "thread \<Rightarrow> callback \<Rightarrow> 'z atexit_world_scheme \<Rightarrow> (int \<times> 'z atexit_world_scheme) option"
    and willing :: "'z atexit_world_scheme \<Rightarrow> bool"
    and armed :: "thread \<Rightarrow> 'z atexit_world_scheme \<Rightarrow> bool"
  assumes register_ok: "atexit_rel w L D \<Longrightarrow> \<exists>r w'. register me c w = Some (r, w') \<and>
      (r = 0 \<and> atexit_rel w' (L(me := (next_free w, c) # L me)) D \<and> armed me w'
       \<or> r = -1 \<and> terrno w' me = ENOMEM \<and> atexit_rel w' L D) \<and>
      (\<forall>t. armed t w \<longrightarrow> armed t w') \<and> (\<forall>a \<in> D. atexit_heap w' a = atexit_heap w a) \<and>
      exit_calls w' = exit_calls w \<and> atexit_world.more w' = atexit_world.more w \<and> (willing w \<longrightarrow> r = 0 \<and> willing w')"
    and willing_frame: "willing (w\<lparr>atexit_heap := h\<rparr>) = willing w" "willing (w\<lparr>exit_calls := cs\<rparr>) = willing w"
      "willing (w\<lparr>thread_atexit_items := f\<rparr>) = willing w"
    and armed_frame: "armed t (w\<lparr>atexit_heap := h\<rparr>) = armed t w" "armed t (w\<lparr>exit_calls := cs\<rparr>) = armed t w"
      "armed t (w\<lparr>thread_atexit_items := f\<rparr>) = armed t w"
begin

lemma register_all_ok:
  assumes "atexit_rel w L D" "\<forall>t. L t \<noteq> [] \<longrightarrow> armed t w"
  shows "\<exists>rs w' L'. register_all (\<lambda>(t, c). register t c) regs w = Some (rs, w') \<and> length rs = length regs \<and> set rs \<subseteq> {0, -1}
    \<and> atexit_rel w' L' D \<and> (\<forall>t. map snd (L' t) = rev (succeeded t regs rs) @ map snd (L t)) \<and> (\<forall>t. t \<notin> fst ` set regs \<longrightarrow> L' t = L t)
    \<and> (\<forall>t. L' t \<noteq> [] \<longrightarrow> armed t w') \<and> (\<forall>a \<in> D. atexit_heap w' a = atexit_heap w a) \<and> exit_calls w' = exit_calls w
    \<and> atexit_world.more w' = atexit_world.more w \<and> (willing w \<longrightarrow> set rs \<subseteq> {0} \<and> willing w')"
  using assms
proof (induction regs arbitrary: w L)
  case Nil
  then show ?case by (auto simp: succeeded_def intro!: exI[of _ L])
next
  case (Cons tc regs)
  obtain t c where tc: "tc = (t, c)" by (cases tc)
  obtain r w1 where r: "register t c w = Some (r, w1)"
    and out: "r = 0 \<and> atexit_rel w1 (L(t := (next_free w, c) # L t)) D \<and> armed t w1 \<or> r = -1 \<and> terrno w1 t = ENOMEM \<and> atexit_rel w1 L D"
    and fr: "\<forall>t. armed t w \<longrightarrow> armed t w1" "\<forall>a \<in> D. atexit_heap w1 a = atexit_heap w a" "exit_calls w1 = exit_calls w"
      "atexit_world.more w1 = atexit_world.more w" "willing w \<longrightarrow> r = 0 \<and> willing w1"
    using register_ok[OF Cons.prems(1), of t c] by (elim exE conjE) (rule that)
  define L1 where "L1 = (if r = 0 then L(t := (next_free w, c) # L t) else L)"
  have L1: "atexit_rel w1 L1 D" "\<forall>t. L1 t \<noteq> [] \<longrightarrow> armed t w1" using out fr(1) Cons.prems(2) by (auto simp: L1_def)
  obtain rs w' L' where IH: "register_all (\<lambda>(t, c). register t c) regs w1 = Some (rs, w')" "length rs = length regs" "set rs \<subseteq> {0, -1}"
    "atexit_rel w' L' D" "\<forall>t. map snd (L' t) = rev (succeeded t regs rs) @ map snd (L1 t)" "\<forall>t. t \<notin> fst ` set regs \<longrightarrow> L' t = L1 t"
    "\<forall>t. L' t \<noteq> [] \<longrightarrow> armed t w'" "\<forall>a \<in> D. atexit_heap w' a = atexit_heap w1 a" "exit_calls w' = exit_calls w1"
    "atexit_world.more w' = atexit_world.more w1" "willing w1 \<longrightarrow> set rs \<subseteq> {0} \<and> willing w'"
    using Cons.IH[OF L1] by (elim exE conjE) (rule that)
  have "map snd (L' u) = rev (succeeded u (tc # regs) (r # rs)) @ map snd (L u)" for u
    using IH(5) out by (auto simp: succeeded_def tc L1_def)
  moreover have "u \<notin> fst ` set (tc # regs) \<longrightarrow> L' u = L u" for u using IH(6) by (auto simp: tc L1_def)
  moreover have "r \<in> {0, -1}" using out by auto
  ultimately show ?case using r IH fr by (intro exI[of _ "r # rs"] exI[of _ w'] exI[of _ L']) (simp add: tc)
qed

text \<open>Draining a thread's list with callbacks that register further ones.\<close>

lemma drain_ok:
  assumes rel: "atexit_rel w L {}" and arm: "\<forall>t. L t \<noteq> [] \<longrightarrow> t = me \<or> armed t w" and will: "willing w \<or> (\<forall>c. again c = [])"
  shows "\<exists>w' L'. run_items (registering register me again) (thread_atexit_items w me) (w\<lparr>thread_atexit_items := (thread_atexit_items w)(me := None)\<rparr>) = Some w'
    \<and> exit_calls w' = exit_calls w @ map snd (L me) \<and> atexit_rel w' L' {} \<and> map snd (L' me) = rev (concat (map again (map snd (L me))))
    \<and> (\<forall>t. t \<noteq> me \<longrightarrow> L' t = L t) \<and> (\<forall>t. L' t \<noteq> [] \<longrightarrow> armed t w') \<and> (willing w' \<or> (\<forall>c. again c = []))
    \<and> atexit_world.more w' = atexit_world.more w"
proof -
  let ?w = "w\<lparr>thread_atexit_items := (thread_atexit_items w)(me := None)\<rparr>" and ?call = "registering register me again"
  define J where "J xs v \<longleftrightarrow> (\<exists>past L'. map snd (L me) = past @ map snd xs \<and> exit_calls v = exit_calls w @ past \<and> atexit_rel v L' (addrs xs)
      \<and> map snd (L' me) = rev (concat (map again past)) \<and> (\<forall>t. t \<noteq> me \<longrightarrow> L' t = L t) \<and> (\<forall>t. L' t \<noteq> [] \<longrightarrow> armed t v)
      \<and> (willing v \<or> (\<forall>c. again c = [])) \<and> atexit_world.more v = atexit_world.more w)" for xs and v :: "'z atexit_world_scheme"
  have "\<exists>w'. run_items ?call (thread_atexit_items w me) ?w = Some w' \<and> J [] w'"
  proof (rule run_items_rule[where J = J and xs = "L me"])
    fix a c xs and v :: "'z atexit_world_scheme"
    assume J: "J ((a, c) # xs) v" and d: "distinct (a # map fst xs)"
    let ?v = "v\<lparr>exit_calls := exit_calls v @ [c]\<rparr>"
    obtain past L' where L': "map snd (L me) = past @ c # map snd xs" "exit_calls v = exit_calls w @ past" "atexit_rel v L' (insert a (addrs xs))"
      "map snd (L' me) = rev (concat (map again past))" "\<forall>t. t \<noteq> me \<longrightarrow> L' t = L t" "\<forall>t. L' t \<noteq> [] \<longrightarrow> armed t v"
      "willing v \<or> (\<forall>c. again c = [])" "atexit_world.more v = atexit_world.more w"
      using J by (auto simp: J_def)
    have arm': "\<forall>t. L' t \<noteq> [] \<longrightarrow> armed t ?v" using L'(6) by (simp add: armed_frame)
    have r0: "atexit_rel ?v L' (insert a (addrs xs))" by (rule rel_same[OF L'(3)]) simp_all
    obtain rs w1 L1 where R: "register_all (\<lambda>(t, c). register t c) (map (Pair me) (again c)) ?v = Some (rs, w1)" "length rs = length (map (Pair me) (again c))"
      "set rs \<subseteq> {0, -1}" "atexit_rel w1 L1 (insert a (addrs xs))" "\<forall>t. map snd (L1 t) = rev (succeeded t (map (Pair me) (again c)) rs) @ map snd (L' t)"
      "\<forall>t. t \<notin> fst ` set (map (Pair me) (again c)) \<longrightarrow> L1 t = L' t" "\<forall>t. L1 t \<noteq> [] \<longrightarrow> armed t w1"
      "\<forall>b \<in> insert a (addrs xs). atexit_heap w1 b = atexit_heap ?v b" "exit_calls w1 = exit_calls ?v"
      "atexit_world.more w1 = atexit_world.more ?v" "willing ?v \<longrightarrow> set rs \<subseteq> {0} \<and> willing w1"
      using register_all_ok[OF r0 arm', of "map (Pair me) (again c)"] by (elim exE conjE) (rule that)
    have "set rs \<subseteq> {0}" using R(2,11) L'(7) by (cases c) (auto simp: willing_frame)
    then have "succeeded me (map (Pair me) (again c)) rs = again c" using R(2) by (simp add: succeeded_all)
    then have "map snd (L1 me) = rev (concat (map again (past @ [c])))" using R(5) L'(4) by simp
    moreover have "a \<notin> addrs xs" using d by (simp add: addrs_def)
    moreover have "\<forall>t. t \<noteq> me \<longrightarrow> L1 t = L t" using R(6) L'(5) by auto
    ultimately have "J xs (w1\<lparr>atexit_heap := (atexit_heap w1)(a := None)\<rparr>)" unfolding J_def using L' R rel_drop[OF R(4)]
      by (intro exI[of _ "past @ [c]"] exI[of _ L1]) (auto simp: armed_frame willing_frame)
    then show "\<exists>w'. ?call c ?v = Some w' \<and> (\<forall>b \<in> insert a (addrs xs). atexit_heap w' b = atexit_heap v b)
        \<and> J xs (w'\<lparr>atexit_heap := (atexit_heap w')(a := None)\<rparr>)" using R(1,8) by (simp add: registering_def)
  next
    show "J (L me) ?w" unfolding J_def using rel_detach[OF rel, of me] arm will
      by (intro exI[of _ "[]"] exI[of _ "L(me := [])"]) (auto simp: armed_frame willing_frame)
    show "chain (atexit_heap ?w) (thread_atexit_items w me) (L me)" "distinct (map fst (L me))" using rel by (auto simp: atexit_rel_def)
  qed
  then show ?thesis by (auto simp: J_def)
qed

end

section \<open>The two forms\<close>

text \<open>The POSIX form arms the key's destructor; the MSVC form needs no arming.\<close>

definition key_set :: "thread \<Rightarrow> 'z atexit_world_scheme \<Rightarrow> bool" where
  "key_set t w \<longleftrightarrow> specific w t \<noteq> None"

definition memory_left :: "'z atexit_world_scheme \<Rightarrow> bool" where
  "memory_left w \<longleftrightarrow> host_plan w = []"

interpretation posix_exit: exit_registration thread_atexit host_willing key_set
proof (unfold_locales, goal_cases)
  case (1 w L D me c)
  let ?a = "next_free w" and ?G = "\<lambda>r w'. (r = 0 \<and> atexit_rel w' (L(me := (next_free w, c) # L me)) D \<and> key_set me w'
       \<or> r = -1 \<and> terrno w' me = ENOMEM \<and> atexit_rel w' L D) \<and>
      (\<forall>t. key_set t w \<longrightarrow> key_set t w') \<and> (\<forall>a \<in> D. atexit_heap w' a = atexit_heap w a) \<and>
      exit_calls w' = exit_calls w \<and> atexit_world.more w' = atexit_world.more w \<and> (host_willing w \<longrightarrow> r = 0 \<and> host_willing w')"
  have nf: "?a \<notin> D" using 1 rel_fresh[OF 1] unfolding atexit_rel_def by (metis UnI2 domIff)
  have fresh: "(atexit_heap w)(?a := None) = atexit_heap w" using rel_fresh[OF 1] by auto
  note push = rel_push[OF 1, of _ c me] and same = rel_same[OF 1]
  show ?case
  proof (cases w rule: thread_alloc_cases)
    case (null w1)
    then show ?thesis by (simp add: thread_atexit_def set_errno_def key_set_def host_only_def same)
  next
    case (block w1)
    let ?w1 = "w1\<lparr>atexit_heap := (atexit_heap w1)(?a \<mapsto> \<lparr>item_func = fst c, item_obj = snd c, item_next = None\<rparr>)\<rparr>"
    obtain r w2 where once: "pthread_once thread_atexit_key_init ?w1 = (r, w2)" "host_only ?w1 w2" "specific w2 = specific ?w1" "next_free w2 = next_free ?w1"
      "host_willing ?w1 \<longrightarrow> host_willing w2 \<and> r = 0 \<and> thread_atexit_key w2 \<noteq> - 1" by (rule pthread_once_cases)
    show ?thesis
    proof (cases "r \<noteq> 0 \<or> thread_atexit_key w2 = - 1")
      case True
      then show ?thesis using block once nf
        by (auto simp: thread_atexit_def Let_def free_item_def set_errno_def key_set_def host_only_def host_willing_frame fresh intro!: same)
    next
      case False
      let ?w2 = "w2\<lparr>atexit_heap := (atexit_heap w)(?a \<mapsto> \<lparr>item_func = fst c, item_obj = snd c, item_next = thread_atexit_items w me\<rparr>),
        thread_atexit_items := (thread_atexit_items w)(me := Some ?a)\<rparr>"
      have f: "atexit_heap w2 = (atexit_heap w)(?a \<mapsto> \<lparr>item_func = fst c, item_obj = snd c, item_next = None\<rparr>)"
        "thread_atexit_items w2 = thread_atexit_items w" using block(2) once(2) by (simp_all add: host_only_def)
      show ?thesis
      proof (cases me "Some ?a" ?w2 rule: pthread_setspecific_cases)
        case (set w3)
        have "thread_atexit me c w = Some (0, w3)"
          using block(1) once(1) False set(1) by (simp add: thread_atexit_def f)
        moreover have "?G 0 w3" using set block once nf by (simp add: key_set_def host_only_def host_willing_frame push)
        ultimately show ?thesis by blast
      next
        case (refused r' w3)
        let ?w4 = "w3\<lparr>thread_atexit_items := thread_atexit_items w, atexit_heap := atexit_heap w, terrno := (terrno w3)(me := ENOMEM)\<rparr>"
        have "thread_atexit me c w = Some (-1, ?w4)"
          using block(1) once(1) False refused by (simp add: thread_atexit_def f host_only_def free_item_def set_errno_def fresh)
        moreover have "?G (-1) ?w4" using refused block once by (simp add: key_set_def host_only_def host_willing_frame same)
        ultimately show ?thesis by blast
      qed
    qed
  qed
qed (simp_all add: host_willing_frame key_set_def)

interpretation msvc_exit: exit_registration msvc_thread_atexit memory_left "\<lambda>t w. True"
proof (unfold_locales, goal_cases)
  case (1 w L D me c)
  have nf: "next_free w \<notin> D" using 1 rel_fresh[OF 1] unfolding atexit_rel_def by (metis UnI2 domIff)
  note push = rel_push[OF 1, of _ c me] and same = rel_same[OF 1]
  show ?case
    using nf by (cases "host_plan w = [] \<or> hd (host_plan w)")
      (auto simp: msvc_thread_atexit_def thread_alloc_def host_call_def memory_left_def set_errno_def intro!: push same)
qed (simp_all add: memory_left_def)

section \<open>Thread exit as a whole\<close>

text \<open>
  The callbacks that at most \<open>n\<close> runs of the destructor call, and the ones they leave: those that
  a run's callbacks register are called by the next run, the last registered first.
\<close>

fun rounds :: "nat \<Rightarrow> (callback \<Rightarrow> callback list) \<Rightarrow> callback list \<Rightarrow> callback list" where
  "rounds 0 again cs = []"
| "rounds (Suc n) again cs = cs @ rounds n again (rev (concat (map again cs)))"

fun left_over :: "nat \<Rightarrow> (callback \<Rightarrow> callback list) \<Rightarrow> callback list \<Rightarrow> callback list" where
  "left_over 0 again cs = cs"
| "left_over (Suc n) again cs = left_over n again (rev (concat (map again cs)))"

lemma rounds_Nil [simp]: "rounds n again [] = []" "left_over n again [] = []"
  by (induction n) simp_all

definition atexit_init :: "bool list \<Rightarrow> 32 word \<Rightarrow> atexit_world" where
  "atexit_init plan k = \<lparr>atexit_heap = (\<lambda>_. None), thread_atexit_items = (\<lambda>_. None), thread_atexit_key = 0, once_done = False,
     host_key = k, specific = (\<lambda>_. None), next_free = 1, host_plan = plan, terrno = (\<lambda>_. 0), exit_calls = []\<rparr>"

lemma atexit_rel_init: "atexit_rel (atexit_init plan k) (\<lambda>_. []) {}"
  by (simp add: atexit_rel_def atexit_init_def)

lemma pthread_exit_ok:
  assumes "atexit_rel w L {}" "\<forall>t. L t \<noteq> [] \<longrightarrow> key_set t w" "host_willing w \<or> (\<forall>c. again c = [])"
  shows "\<exists>w' L'. pthread_exit n (registering thread_atexit me again) me w = Some w' \<and>
    exit_calls w' = exit_calls w @ rounds n again (map snd (L me)) \<and> atexit_rel w' L' {} \<and>
    map snd (L' me) = left_over n again (map snd (L me)) \<and> (\<forall>t. t \<noteq> me \<longrightarrow> L' t = L t)"
  using assms
proof (induction n arbitrary: w L)
  case 0
  then show ?case by auto
next
  case (Suc n)
  show ?case
  proof (cases "specific w me")
    case None
    then have "L me = []" using Suc.prems(2) by (auto simp: key_set_def)
    then show ?thesis using None Suc.prems(1) by auto
  next
    case (Some v)
    let ?w = "w\<lparr>specific := (specific w)(me := None)\<rparr>"
    obtain r w1 where w1: "pthread_setspecific me None ?w = (r, w1)" "host_only ?w w1" "specific w1 = (specific w)(me := None)"
      "next_free w1 = next_free w" "host_willing ?w \<longrightarrow> host_willing w1"
      by (cases me "None :: ptr" ?w rule: pthread_setspecific_cases) auto
    have rel: "atexit_rel w1 L {}" by (rule rel_same[OF Suc.prems(1)]) (use w1 in \<open>simp_all add: host_only_def\<close>)
    have arm: "\<forall>t. L t \<noteq> [] \<longrightarrow> t = me \<or> key_set t w1" using Suc.prems(2) w1(3) by (auto simp: key_set_def)
    have will: "host_willing w1 \<or> (\<forall>c. again c = [])" using Suc.prems(3) w1(5) by (auto simp: host_willing_frame)
    obtain w2 L2 where w2: "run_items (registering thread_atexit me again) (thread_atexit_items w1 me) (w1\<lparr>thread_atexit_items := (thread_atexit_items w1)(me := None)\<rparr>) = Some w2"
      "exit_calls w2 = exit_calls w1 @ map snd (L me)" "atexit_rel w2 L2 {}" "map snd (L2 me) = rev (concat (map again (map snd (L me))))"
      "\<forall>t. t \<noteq> me \<longrightarrow> L2 t = L t" "\<forall>t. L2 t \<noteq> [] \<longrightarrow> key_set t w2" "host_willing w2 \<or> (\<forall>c. again c = [])" "atexit_world.more w2 = atexit_world.more w1"
      using posix_exit.drain_ok[OF rel arm will] by (elim exE conjE) (rule that)
    have "thread_atexit_run (registering thread_atexit me again) me ?w = Some w2"
      using w1(1) w2(1) by (simp add: thread_atexit_run_def)
    moreover have "exit_calls w1 = exit_calls w" using w1(2) by (simp add: host_only_def)
    moreover obtain w' L' where "pthread_exit n (registering thread_atexit me again) me w2 = Some w'"
      "exit_calls w' = exit_calls w2 @ rounds n again (map snd (L2 me))" "atexit_rel w' L' {}"
      "map snd (L' me) = left_over n again (map snd (L2 me))" "\<forall>t. t \<noteq> me \<longrightarrow> L' t = L2 t"
      using Suc.IH[OF w2(3,6,7)] by (elim exE conjE) (rule that)
    ultimately show ?thesis using w2(2,4,5) Some by (intro exI[of _ w'] exI[of _ L']) simp
  qed
qed

lemma rel_empty: "atexit_rel w L {} \<Longrightarrow> (\<And>t. L t = []) \<Longrightarrow> atexit_heap w = (\<lambda>_. None)"
  by (auto simp: atexit_rel_def)

lemma chain_head: "chain h p xs \<Longrightarrow> p = (case xs of [] \<Rightarrow> None | x # _ \<Rightarrow> Some (fst x))"
  by (cases xs) auto

lemma rel_head: "atexit_rel w L D \<Longrightarrow> thread_atexit_items w t = (case L t of [] \<Rightarrow> None | x # _ \<Rightarrow> Some (fst x))"
  by (rule chain_head[of "atexit_heap w"]) (simp add: atexit_rel_def)



text \<open>
  C26 (callbacks at thread exit, MSVC). The form for MSVC answers registrations in the same way
  and calls the same callbacks in the same order when a thread detaches, but only those: the
  callbacks that these register stay in the list, and nothing calls or frees them any more.
\<close>

theorem msvc_detach_runs_callbacks:
  "\<exists>rs w. register_all (\<lambda>(t, c). msvc_thread_atexit t c) regs (atexit_init plan k) = Some (rs, w) \<and> length rs = length regs \<and> set rs \<subseteq> {0, -1} \<and>
    (memory_left w \<or> (\<forall>c. again c = []) \<longrightarrow>
     (\<exists>w'. thread_atexit_tls_callback (registering msvc_thread_atexit me again) me DLL_THREAD_DETACH w = Some w' \<and>
       exit_calls w' = rev (succeeded me regs rs) \<and>
       (thread_atexit_items w' me = None \<longleftrightarrow> (\<forall>c \<in> set (succeeded me regs rs). again c = [])) \<and>
       (\<forall>t. t \<noteq> me \<longrightarrow> thread_atexit_items w' t = thread_atexit_items w t)))"
proof -
  obtain rs w L where R: "register_all (\<lambda>(t, c). msvc_thread_atexit t c) regs (atexit_init plan k) = Some (rs, w)" "length rs = length regs" "set rs \<subseteq> {0, -1}"
    "atexit_rel w L {}" "\<forall>t. map snd (L t) = rev (succeeded t regs rs)" "exit_calls w = []"
    using msvc_exit.register_all_ok[OF atexit_rel_init[of plan k], of regs] by (auto simp: atexit_init_def)
  have exit: "\<exists>w'. thread_atexit_tls_callback (registering msvc_thread_atexit me again) me DLL_THREAD_DETACH w = Some w' \<and>
       exit_calls w' = rev (succeeded me regs rs) \<and>
       (thread_atexit_items w' me = None \<longleftrightarrow> (\<forall>c \<in> set (succeeded me regs rs). again c = [])) \<and>
       (\<forall>t. t \<noteq> me \<longrightarrow> thread_atexit_items w' t = thread_atexit_items w t)" if will: "memory_left w \<or> (\<forall>c. again c = [])"
  proof -
    obtain w' L' where E: "run_items (registering msvc_thread_atexit me again) (thread_atexit_items w me) (w\<lparr>thread_atexit_items := (thread_atexit_items w)(me := None)\<rparr>) = Some w'"
      "exit_calls w' = exit_calls w @ map snd (L me)" "atexit_rel w' L' {}" "map snd (L' me) = rev (concat (map again (map snd (L me))))" "\<forall>t. t \<noteq> me \<longrightarrow> L' t = L t"
      using msvc_exit.drain_ok[OF R(4) _ will, of me] by auto
    have "thread_atexit_items w' me = None \<longleftrightarrow> map snd (L' me) = []" using rel_head[OF E(3), of me] by (cases "L' me") auto
    also have "\<dots> \<longleftrightarrow> (\<forall>c \<in> set (succeeded me regs rs). again c = [])" unfolding E(4) using R(5) by simp
    finally show ?thesis using E R(5,6) rel_head[OF R(4)] rel_head[OF E(3)] by (simp add: thread_atexit_tls_callback_def)
  qed
  show ?thesis by (rule exI[of _ rs], rule exI[of _ w], intro conjI impI, rule R(1), rule R(2), rule R(3), rule exit)
qed

theorem msvc_detach_runs_callbacks_witness:
  "\<exists>w w'. register_all (\<lambda>(t, c). msvc_thread_atexit t c) [(1, 7, None), (1, 9, Some 3)] (atexit_init [] 5) = Some ([0, 0], w)
    \<and> thread_atexit_tls_callback (registering msvc_thread_atexit 1 (\<lambda>c. if fst c = 7 then [(8, None)] else [])) 1 DLL_THREAD_DETACH w = Some w'
    \<and> exit_calls w' = [(9, Some 3), (7, None)] \<and> thread_atexit_items w' 1 \<noteq> None"
proof -
  let ?regs = "[(1, 7, None), (1, 9, Some 3)] :: (thread \<times> callback) list" and ?again = "\<lambda>c :: callback. if fst c = 7 then [(8, None)] else [] :: callback list"
  obtain w where w: "register_all (\<lambda>(t, c). msvc_thread_atexit t c) ?regs (atexit_init [] 5) = Some ([0, 0], w)" "memory_left w"
    by (simp add: msvc_thread_atexit_def thread_alloc_def host_call_def atexit_init_def memory_left_def)
  have s: "succeeded 1 ?regs [0, 0] = [(7, None), (9, Some 3)]" by (simp add: succeeded_def)
  show ?thesis using msvc_detach_runs_callbacks[of ?regs "[]" 5 ?again 1] w s by auto
qed

end
