(* ===== verification/Tss.thy ===== *)
theory Tss
  imports Thread_Atexit Verstable_Ops "HOL-Library.Multiset"
begin

unbundle bit_operations_syntax

text \<open>
  Async-signal-safe thread-specific storage, \<^verbatim>\<open>detail/impl/tss_async_signal_safe.c.ipp\<close>, with
  the thread ids of \<^verbatim>\<open>current_thread_id.h\<close> and \<^verbatim>\<open>current_thread_id.c.ipp\<close>: an instance maps a
  key made from the thread's generation and its id to the value that the instance's creation
  callback made for the thread; a callback at thread exit destroys the value. The table is
  the hash table of \<^verbatim>\<open>verstable.h\<close>, the exit callbacks are those of \<^verbatim>\<open>thread_atexit\<close>. The code
  of the two callbacks of an instance is an argument of the operations that call them.
\<close>

section \<open>State\<close>

record deinit_state =
  ds_count :: "32 word"
  ds_val :: ptr

record tss_async_signal_safe_s =
  attr_create :: nat
  attr_destroy :: nat
  tss_lock :: "32 word"
  tss_state :: ptr
  thread_id_to_tls_map :: "(64 word, ptr) vt_table"

text \<open>
  Thread-locals are functions of the thread; \<open>kernel_tid\<close> is the host's id of each thread. The
  traces \<open>created\<close> and \<open>destroyed\<close> record the values that were taken over from a creation callback
  and handed to a destruction callback, \<open>table_blocks\<close> counts the live allocations of tables.
\<close>

record tss_world = atexit_world +
  tss_heap :: "tss_async_signal_safe_s heap"
  deinit_states :: "deinit_state heap"
  kernel_tid :: "thread \<Rightarrow> 64 word"
  current_thread_id_cached :: "thread \<Rightarrow> 64 word"
  current_thread_id_mycache :: "thread \<Rightarrow> 64 word"
  tss_generation_cached :: "thread \<Rightarrow> 64 word"
  tss_generation_counter :: "64 word"
  table_blocks :: int
  created :: "ptr list"
  destroyed :: "ptr list"

type_synonym 'z create_fn = "nat \<Rightarrow> thread \<Rightarrow> 'z tss_world_scheme \<Rightarrow> (int \<times> ptr \<times> 'z tss_world_scheme) option"
type_synonym 'z destroy_fn = "nat \<Rightarrow> thread \<Rightarrow> ptr \<Rightarrow> 'z tss_world_scheme \<Rightarrow> (int \<times> 'z tss_world_scheme) option"

section \<open>Thread ids and keys\<close>

definition thread_id_t_tombstone :: "64 word" where "thread_id_t_tombstone = 0"

definition internal_current_thread_id_cached_set :: "thread \<Rightarrow> 'z tss_world_scheme \<Rightarrow> 64 word \<times> 'z tss_world_scheme" where
  "internal_current_thread_id_cached_set me w =
     (let w = w\<lparr>current_thread_id_cached := (current_thread_id_cached w)(me := kernel_tid w me)\<rparr>
      in (current_thread_id_cached w me, w))"

definition current_thread_id :: "thread \<Rightarrow> 'z tss_world_scheme \<Rightarrow> 64 word \<times> 'z tss_world_scheme" where
  "current_thread_id me w =
     (let w = (if current_thread_id_cached w me = thread_id_t_tombstone
        then (case internal_current_thread_id_cached_set me w of
            (v, w) \<Rightarrow> w\<lparr>current_thread_id_cached := (current_thread_id_cached w)(me := v)\<rparr>)
        else w)
      in (current_thread_id_cached w me, w))"

definition my_current_thread_id :: "thread \<Rightarrow> 'z tss_world_scheme \<Rightarrow> 64 word \<times> 'z tss_world_scheme" where
  "my_current_thread_id me w =
     (let w = (if current_thread_id_mycache w me = thread_id_t_tombstone
        then (case current_thread_id me w of
            (v, w) \<Rightarrow> w\<lparr>current_thread_id_mycache := (current_thread_id_mycache w)(me := v)\<rparr>)
        else w);
          w = (if tss_generation_cached w me = 0
        then w\<lparr>tss_generation_cached := (tss_generation_cached w)(me := 1 + tss_generation_counter w),
          tss_generation_counter := tss_generation_counter w + 1\<rparr>
        else w)
      in (push_bit 32 (tss_generation_cached w me) OR ucast (ucast (current_thread_id_mycache w me) :: 32 word), w))"

section \<open>Instances, their lock and table\<close>

definition tss_upd ::
  "ptr \<Rightarrow> (tss_async_signal_safe_s \<Rightarrow> tss_async_signal_safe_s) \<Rightarrow> 'z tss_world_scheme \<Rightarrow> 'z tss_world_scheme option" where
  "tss_upd p f w = do { h \<leftarrow> store (tss_heap w) p f; Some (w\<lparr>tss_heap := h\<rparr>) }"

definition LOCK_tss :: "ptr \<Rightarrow> 'z tss_world_scheme \<Rightarrow> 'z tss_world_scheme option" where
  "LOCK_tss p w = do {
     m \<leftarrow> deref (tss_heap w) p;
     assert_that (tss_lock m = 0);
     tss_upd p (\<lambda>m. m\<lparr>tss_lock := 1\<rparr>) w
   }"

definition UNLOCK_tss :: "ptr \<Rightarrow> 'z tss_world_scheme \<Rightarrow> 'z tss_world_scheme option" where
  "UNLOCK_tss p w = do {
     m \<leftarrow> deref (tss_heap w) p;
     assert_that (tss_lock m = 1);
     tss_upd p (\<lambda>m. m\<lparr>tss_lock := 0\<rparr>) w
   }"

definition table_alloc :: "'z tss_world_scheme \<Rightarrow> vt_heap" where
  "table_alloc w = \<lparr>plan = host_plan w, live = table_blocks w\<rparr>"

definition tls_get :: "ptr \<Rightarrow> 64 word \<Rightarrow> 'z tss_world_scheme \<Rightarrow> vt_itr option" where
  "tls_get p key w = do {
     m \<leftarrow> deref (tss_heap w) p;
     vt_get vt_hash_integer (thread_id_to_tls_map m) key
   }"

definition tls_val :: "ptr \<Rightarrow> vt_itr \<Rightarrow> 'z tss_world_scheme \<Rightarrow> ptr option" where
  "tls_val p it w = do {
     m \<leftarrow> deref (tss_heap w) p;
     i \<leftarrow> data it;
     b \<leftarrow> bucket_at (thread_id_to_tls_map m) i;
     Some (snd b)
   }"

definition tls_insert :: "ptr \<Rightarrow> 64 word \<Rightarrow> ptr \<Rightarrow> 'z tss_world_scheme \<Rightarrow> (vt_itr \<times> 'z tss_world_scheme) option" where
  "tls_insert p key v w = do {
     m \<leftarrow> deref (tss_heap w) p;
     (it, t, a) \<leftarrow> vt_insert vt_hash_integer key v (thread_id_to_tls_map m) (table_alloc w);
     w \<leftarrow> tss_upd p (\<lambda>m. m\<lparr>thread_id_to_tls_map := t\<rparr>) (w\<lparr>host_plan := plan a, table_blocks := live a\<rparr>);
     Some (it, w)
   }"

definition tls_erase :: "ptr \<Rightarrow> 64 word \<Rightarrow> 'z tss_world_scheme \<Rightarrow> 'z tss_world_scheme option" where
  "tls_erase p key w = do {
     m \<leftarrow> deref (tss_heap w) p;
     (found, t) \<leftarrow> vt_erase vt_hash_integer key (thread_id_to_tls_map m);
     tss_upd p (\<lambda>m. m\<lparr>thread_id_to_tls_map := t\<rparr>) w
   }"

definition call_destroy :: "'z destroy_fn \<Rightarrow> ptr \<Rightarrow> thread \<Rightarrow> ptr \<Rightarrow> 'z tss_world_scheme \<Rightarrow> (int \<times> 'z tss_world_scheme) option" where
  "call_destroy destroy p me item w = do {
     m \<leftarrow> deref (tss_heap w) p;
     destroy (attr_destroy m) me item (w\<lparr>destroyed := destroyed w @ [item]\<rparr>)
   }"

section \<open>Creating and destroying an instance\<close>

definition tss_async_signal_safe_create :: "nat \<times> nat \<Rightarrow> 'z tss_world_scheme \<Rightarrow> int \<times> ptr \<times> 'z tss_world_scheme" where
  "tss_async_signal_safe_create attr w =
     (case thread_alloc w of
        (None, w) \<Rightarrow> (-1, None, w)
      | (Some a, w) \<Rightarrow>
          (0, Some a, w\<lparr>tss_heap := (tss_heap w)(a \<mapsto> \<lparr>attr_create = fst attr, attr_destroy = snd attr,
             tss_lock = 0, tss_state = None, thread_id_to_tls_map = vt_init\<rparr>)\<rparr>))"

partial_function (option) destroy_values ::
  "'z destroy_fn \<Rightarrow> ptr \<Rightarrow> thread \<Rightarrow> vt_itr \<Rightarrow> 'z tss_world_scheme \<Rightarrow> 'z tss_world_scheme option" where
  "destroy_values destroy p me it w =
     (if vt_is_end it then Some w
      else do {
        item \<leftarrow> tls_val p it w;
        m \<leftarrow> deref (tss_heap w) p;
        (it, t) \<leftarrow> vt_erase_itr vt_hash_integer it (thread_id_to_tls_map m);
        w \<leftarrow> tss_upd p (\<lambda>m. m\<lparr>thread_id_to_tls_map := t\<rparr>) w;
        w \<leftarrow> UNLOCK_tss p w;
        (r, w) \<leftarrow> call_destroy destroy p me item w;
        w \<leftarrow> LOCK_tss p w;
        destroy_values destroy p me it w
      })"

definition tss_async_signal_safe_destroy ::
  "'z destroy_fn \<Rightarrow> thread \<Rightarrow> ptr \<Rightarrow> 'z tss_world_scheme \<Rightarrow> (int \<times> 'z tss_world_scheme) option" where
  "tss_async_signal_safe_destroy destroy me p w = do {
     w \<leftarrow> LOCK_tss p w;
     m \<leftarrow> deref (tss_heap w) p;
     w \<leftarrow> (if tss_state m \<noteq> None
       then do {
         h \<leftarrow> store (deinit_states w) (tss_state m) (\<lambda>s. s\<lparr>ds_val := None\<rparr>);
         tss_upd p (\<lambda>m. m\<lparr>tss_state := None\<rparr>) (w\<lparr>deinit_states := h\<rparr>)
       }
       else Some w);
     it \<leftarrow> vt_first (thread_id_to_tls_map m);
     w \<leftarrow> destroy_values destroy p me it w;
     m \<leftarrow> deref (tss_heap w) p;
     let (t, a) = vt_cleanup (thread_id_to_tls_map m) (table_alloc w);
     w \<leftarrow> tss_upd p (\<lambda>m. m\<lparr>thread_id_to_tls_map := t\<rparr>) (w\<lparr>table_blocks := live a\<rparr>);
     w \<leftarrow> UNLOCK_tss p w;
     mem \<leftarrow> p;
     h \<leftarrow> free_cell (tss_heap w) mem;
     Some (0, w\<lparr>tss_heap := h\<rparr>)
   }"

section \<open>Thread exit, thread entry and lookup\<close>

text \<open>\<^verbatim>\<open>1 == atomic_fetch_sub(&state->count, 1)\<close>\<close>

definition last_reference :: "ptr \<Rightarrow> 'z tss_world_scheme \<Rightarrow> (bool \<times> 'z tss_world_scheme) option" where
  "last_reference state w = do {
     s \<leftarrow> deref (deinit_states w) state;
     h \<leftarrow> store (deinit_states w) state (\<lambda>s. s\<lparr>ds_count := ds_count s - 1\<rparr>);
     Some (ds_count s = 1, w\<lparr>deinit_states := h\<rparr>)
   }"

definition free_state :: "ptr \<Rightarrow> 'z tss_world_scheme \<Rightarrow> 'z tss_world_scheme option" where
  "free_state state w = do {
     a \<leftarrow> state;
     h \<leftarrow> free_cell (deinit_states w) a;
     Some (w\<lparr>deinit_states := h\<rparr>)
   }"

definition tss_async_signal_safe_thread_deinit ::
  "'z destroy_fn \<Rightarrow> thread \<Rightarrow> ptr \<Rightarrow> 'z tss_world_scheme \<Rightarrow> (int \<times> 'z tss_world_scheme) option" where
  "tss_async_signal_safe_thread_deinit destroy me state w = do {
     s \<leftarrow> deref (deinit_states w) state;
     let mem = ds_val s;
     (if mem \<noteq> None
      then do {
        let (mytid, w) = my_current_thread_id me w;
        w \<leftarrow> LOCK_tss mem w;
        it \<leftarrow> tls_get mem mytid w;
        (ret, w) \<leftarrow> (if \<not> vt_is_end it
          then do {
            item \<leftarrow> tls_val mem it w;
            w \<leftarrow> UNLOCK_tss mem w;
            (ret, w) \<leftarrow> call_destroy destroy mem me item w;
            w \<leftarrow> LOCK_tss mem w;
            w \<leftarrow> tls_erase mem mytid w;
            Some (ret, w)
          }
          else Some (0, w));
        (last, w) \<leftarrow> last_reference state w;
        w \<leftarrow> (if last
          then do {
            m \<leftarrow> deref (tss_heap w) mem;
            w \<leftarrow> (if state = tss_state m then tss_upd mem (\<lambda>m. m\<lparr>tss_state := None\<rparr>) w else Some w);
            free_state state w
          }
          else Some w);
        w \<leftarrow> UNLOCK_tss mem w;
        Some (ret, w)
      }
      else do {
        (last, w) \<leftarrow> last_reference state w;
        w \<leftarrow> (if last then free_state state w else Some w);
        Some (0, w)
      })
   }"

text \<open>The number of the exit callback \<^verbatim>\<open>tss_async_signal_safe_thread_deinit\<close> as a function pointer.\<close>

definition DEINIT :: nat where "DEINIT = 0"

text \<open>
  \<^verbatim>\<open>thread_init\<close> up to the registration of the exit callback: either the call ends, with the
  answer \<^term>\<open>Inl r\<close>, or the callback is to be registered for the state \<open>s\<close> in \<^term>\<open>Inr s\<close>. Its second half
  puts the new value into the table, makes sure that the shared state exists and takes a
  reference on it.
\<close>

definition thread_init_publish ::
  "'z destroy_fn \<Rightarrow> thread \<Rightarrow> ptr \<Rightarrow> 64 word \<Rightarrow> ptr \<Rightarrow> 'z tss_world_scheme \<Rightarrow> ((int + ptr) \<times> 'z tss_world_scheme) option" where
  "thread_init_publish destroy me p mytid newitem w = do {
     w \<leftarrow> LOCK_tss p w;
     (it, w) \<leftarrow> tls_insert p mytid newitem w;
     (if vt_is_end it
      then do {
        w \<leftarrow> UNLOCK_tss p w;
        (r, w) \<leftarrow> call_destroy destroy p me newitem w;
        Some (Inl (-1), set_errno me ENOMEM w)
      }
      else do {
        m \<leftarrow> deref (tss_heap w) p;
        let (state, w) = (if tss_state m = None
          then (case thread_alloc w of
              (None, w) \<Rightarrow> (None, w)
            | (Some a, w) \<Rightarrow> (Some a, w\<lparr>deinit_states := (deinit_states w)(a \<mapsto> \<lparr>ds_count = 0, ds_val = p\<rparr>)\<rparr>))
          else (tss_state m, w));
        w \<leftarrow> tss_upd p (\<lambda>m. m\<lparr>tss_state := state\<rparr>) w;
        (if state = None
         then do {
           w \<leftarrow> tls_erase p mytid w;
           w \<leftarrow> UNLOCK_tss p w;
           (r, w) \<leftarrow> call_destroy destroy p me newitem w;
           Some (Inl (-1), set_errno me ENOMEM w)
         }
         else do {
           h \<leftarrow> store (deinit_states w) state (\<lambda>s. s\<lparr>ds_count := ds_count s + 1\<rparr>);
           w \<leftarrow> UNLOCK_tss p (w\<lparr>deinit_states := h\<rparr>);
           m \<leftarrow> deref (tss_heap w) p;
           Some (Inr (tss_state m), w)
         })
      })
   }"

definition thread_init_enter ::
  "'z create_fn \<Rightarrow> 'z destroy_fn \<Rightarrow> thread \<Rightarrow> ptr \<Rightarrow> 'z tss_world_scheme \<Rightarrow> ((int + ptr) \<times> 'z tss_world_scheme) option" where
  "thread_init_enter create destroy me p w = do {
     let (mytid, w) = my_current_thread_id me w;
     w \<leftarrow> LOCK_tss p w;
     it \<leftarrow> tls_get p mytid w;
     (if vt_is_end it
      then do {
        w \<leftarrow> UNLOCK_tss p w;
        m \<leftarrow> deref (tss_heap w) p;
        (ret, newitem, w) \<leftarrow> create (attr_create m) me w;
        (if ret \<noteq> 0 then Some (Inl ret, w)
         else if newitem = None then Some (Inl (-1), set_errno me EINVAL w)
         else thread_init_publish destroy me p mytid newitem (w\<lparr>created := created w @ [newitem]\<rparr>))
      }
      else do {
        w \<leftarrow> UNLOCK_tss p w;
        Some (Inl 0, w)
      })
   }"

definition tss_async_signal_safe_thread_init ::
  "'z create_fn \<Rightarrow> 'z destroy_fn \<Rightarrow> thread \<Rightarrow> ptr \<Rightarrow> 'z tss_world_scheme \<Rightarrow> (int \<times> 'z tss_world_scheme) option" where
  "tss_async_signal_safe_thread_init create destroy me p w = do {
     (out, w) \<leftarrow> thread_init_enter create destroy me p w;
     (case out of
        Inl ret \<Rightarrow> Some (ret, w)
      | Inr state \<Rightarrow> thread_atexit me (DEINIT, state) w)
   }"

definition tss_async_signal_safe_get :: "thread \<Rightarrow> ptr \<Rightarrow> 'z tss_world_scheme \<Rightarrow> (ptr \<times> 'z tss_world_scheme) option" where
  "tss_async_signal_safe_get me p w = do {
     let (mytid, w) = my_current_thread_id me w;
     w \<leftarrow> LOCK_tss p w;
     it \<leftarrow> tls_get p mytid w;
     ret \<leftarrow> (if \<not> vt_is_end it then tls_val p it w else Some None);
     w \<leftarrow> UNLOCK_tss p w;
     Some (ret, w)
   }"

declare destroy_values.simps [code]

section \<open>Thread keys\<close>

definition key_of :: "'z tss_world_scheme \<Rightarrow> thread \<Rightarrow> 64 word" where
  "key_of w t = push_bit 32 (tss_generation_cached w t) OR ucast (ucast (kernel_tid w t) :: 32 word)"

text \<open>Generations are handed out once; the caches hold the thread's id or nothing.\<close>

definition generations :: "'z tss_world_scheme \<Rightarrow> thread set" where
  "generations w = {t. tss_generation_cached w t \<noteq> 0}"

definition ids_ok :: "'z tss_world_scheme \<Rightarrow> bool" where
  "ids_ok w \<longleftrightarrow> (\<forall>t. current_thread_id_cached w t \<in> {0, kernel_tid w t} \<and> current_thread_id_mycache w t \<in> {0, kernel_tid w t}) \<and>
     (\<forall>t. unat (tss_generation_cached w t) \<le> unat (tss_generation_counter w)) \<and>
     (\<forall>t u. tss_generation_cached w t = tss_generation_cached w u \<longrightarrow> tss_generation_cached w t \<noteq> 0 \<longrightarrow> t = u) \<and>
     unat (tss_generation_counter w) < 2 ^ 32 \<and>
     finite (generations w) \<and> card (generations w) = unat (tss_generation_counter w)"

lemma key_of_generation:
  assumes "unat g < 2 ^ 32"
  shows "drop_bit 32 (push_bit 32 g OR ucast (x :: 32 word)) = (g :: 64 word)"
proof (rule bit_word_eqI)
  fix n
  assume n: "n < LENGTH(64)"
  have "\<not> bit g n" if "32 \<le> n"
  proof -
    have "unat g < 2 ^ n" using assms that by (meson order.strict_trans2 one_le_numeral power_increasing)
    then have "\<not> bit (unat g) n" by (simp add: bit_iff_odd)
    then show ?thesis by (simp add: bit_unsigned_iff)
  qed
  then show "bit (drop_bit 32 (push_bit 32 g OR ucast x)) n = bit g n"
    using n by (cases "32 \<le> n") (auto simp: bit_drop_bit_eq bit_or_iff bit_push_bit_iff bit_ucast_iff dest: bit_imp_le_length)
qed

lemma key_of_inj:
  assumes "ids_ok w" "tss_generation_cached w t \<noteq> 0" "key_of w t = key_of w u"
  shows "t = u"
proof -
  have b: "unat (tss_generation_cached w x) < 2 ^ 32" for x using assms(1) unfolding ids_ok_def by (metis order.strict_trans1)
  have "tss_generation_cached w t = tss_generation_cached w u"
    using key_of_generation[OF b[of t]] key_of_generation[OF b[of u]] assms(3) unfolding key_of_def by metis
  then show ?thesis using assms(1,2) unfolding ids_ok_def by blast
qed

text \<open>
  Looking up the own key primes the caches and draws a generation the first time; every other
  part of the state stays.
\<close>

definition ids_only :: "'z tss_world_scheme \<Rightarrow> 'z tss_world_scheme \<Rightarrow> bool" where
  "ids_only w w' \<longleftrightarrow> w' = w\<lparr>current_thread_id_cached := current_thread_id_cached w', current_thread_id_mycache := current_thread_id_mycache w',
     tss_generation_cached := tss_generation_cached w', tss_generation_counter := tss_generation_counter w'\<rparr>"

lemma ids_onlyD:
  assumes "ids_only w w'"
  shows "atexit_heap w' = atexit_heap w" "thread_atexit_items w' = thread_atexit_items w" "exit_calls w' = exit_calls w" "next_free w' = next_free w"
    "specific w' = specific w" "host_plan w' = host_plan w" "host_key w' = host_key w" "once_done w' = once_done w" "thread_atexit_key w' = thread_atexit_key w"
    "tss_heap w' = tss_heap w" "deinit_states w' = deinit_states w" "kernel_tid w' = kernel_tid w" "table_blocks w' = table_blocks w"
    "created w' = created w" "destroyed w' = destroyed w"
  by (subst assms[unfolded ids_only_def], simp)+

lemma my_current_thread_id_ok:
  assumes ids: "ids_ok w" and room: "tss_generation_cached w me = 0 \<longrightarrow> unat (tss_generation_counter w) + 1 < 2 ^ 32"
  obtains w' where "my_current_thread_id me w = (key_of w' me, w')" "ids_only w w'" "ids_ok w'" "tss_generation_cached w' me \<noteq> 0"
    "\<And>t. tss_generation_cached w t \<noteq> 0 \<Longrightarrow> tss_generation_cached w' t = tss_generation_cached w t"
    "\<And>t. t \<noteq> me \<Longrightarrow> tss_generation_cached w' t = tss_generation_cached w t"
    "unat (tss_generation_counter w') \<le> unat (tss_generation_counter w) + (if tss_generation_cached w me = 0 then 1 else 0)"
proof -
  let ?gc = "tss_generation_counter w"
  define a where "a = (if current_thread_id_mycache w me = 0 \<and> current_thread_id_cached w me = 0
    then (current_thread_id_cached w)(me := kernel_tid w me) else current_thread_id_cached w)"
  define b where "b = (if current_thread_id_mycache w me = 0 then (current_thread_id_mycache w)(me := kernel_tid w me) else current_thread_id_mycache w)"
  define g where "g = (if tss_generation_cached w me = 0 then (tss_generation_cached w)(me := 1 + ?gc) else tss_generation_cached w)"
  define c where "c = (if tss_generation_cached w me = 0 then ?gc + 1 else ?gc)"
  define w' where "w' = w\<lparr>current_thread_id_cached := a, current_thread_id_mycache := b, tss_generation_cached := g, tss_generation_counter := c\<rparr>"
  have u: "unat (?gc + 1) = unat ?gc + 1" using ids by (auto simp: ids_ok_def unat_word_ariths)
  have m: "current_thread_id_mycache w me \<in> {0, kernel_tid w me}" "current_thread_id_cached w me \<in> {0, kernel_tid w me}"
    using ids by (auto simp: ids_ok_def)
  have w: "w\<lparr>current_thread_id_cached := current_thread_id_cached w\<rparr> = w" "w\<lparr>current_thread_id_mycache := current_thread_id_mycache w\<rparr> = w"
    "w\<lparr>tss_generation_cached := tss_generation_cached w\<rparr> = w" "w\<lparr>tss_generation_counter := tss_generation_counter w\<rparr> = w"
    by (cases w; simp)+
  have "my_current_thread_id me w = (key_of w' me, w')"
    using m w unfolding my_current_thread_id_def current_thread_id_def internal_current_thread_id_cached_set_def thread_id_t_tombstone_def key_of_def
    by (cases "current_thread_id_mycache w me = 0"; cases "current_thread_id_cached w me = 0"; cases "tss_generation_cached w me = 0")
      (simp_all add: w'_def a_def b_def g_def c_def add.commute)
  moreover have "g me \<noteq> 0" using u by (auto simp: g_def add.commute)
  moreover have "ids_ok w'"
  proof -
    have lt: "unat (tss_generation_cached w t) < unat (1 + ?gc)" for t using ids u by (simp add: ids_ok_def add.commute less_Suc_eq_le)
    have "1 + ?gc \<noteq> tss_generation_cached w t" "tss_generation_cached w t \<noteq> 1 + ?gc" for t using lt[of t] by auto
    moreover have "unat (tss_generation_cached w t) \<le> unat (?gc + 1)" for t using lt[of t] by (simp add: add.commute)
    moreover have "finite (generations w') \<and> card (generations w') = unat (tss_generation_counter w')"
    proof (cases "tss_generation_cached w me = 0")
      case True
      then have "generations w' = insert me (generations w)" "me \<notin> generations w"
        using \<open>g me \<noteq> 0\<close> by (auto simp: generations_def w'_def g_def)
      then show ?thesis using True ids u by (simp add: ids_ok_def w'_def c_def)
    next
      case False
      then show ?thesis using ids by (simp add: ids_ok_def generations_def w'_def g_def c_def)
    qed
    ultimately show ?thesis using ids u room m unfolding ids_ok_def by (auto simp: w'_def a_def b_def g_def c_def add.commute split: if_splits)
  qed
  moreover have "ids_only w w'" by (simp add: ids_only_def w'_def)
  moreover have "tss_generation_cached w t \<noteq> 0 \<Longrightarrow> g t = tss_generation_cached w t" "t \<noteq> me \<Longrightarrow> g t = tss_generation_cached w t" for t
    by (auto simp: g_def)
  moreover have "unat c \<le> unat ?gc + (if tss_generation_cached w me = 0 then 1 else 0)" using u by (simp add: c_def)
  ultimately show ?thesis by (intro that[of w']) (simp_all add: w'_def)
qed

section \<open>The table of an instance\<close>

text \<open>The table holds the value \<open>V t\<close> of each thread \<open>t\<close> under its key, and nothing else.\<close>

definition tls_holds :: "'z tss_world_scheme \<Rightarrow> (64 word, ptr) vt_table \<Rightarrow> (thread \<Rightarrow> ptr) \<Rightarrow> bool" where
  "tls_holds w M V \<longleftrightarrow> (\<forall>t. tss_generation_cached w t = 0 \<longrightarrow> V t = None) \<and>
     (\<forall>t. tss_generation_cached w t \<noteq> 0 \<longrightarrow> vt_map M (key_of w t) = map_option Some (V t)) \<and>
     (\<forall>k. vt_map M k \<noteq> None \<longrightarrow> (\<exists>t. tss_generation_cached w t \<noteq> 0 \<and> k = key_of w t))"

lemma tls_holdsD:
  assumes "tls_holds w M V"
  shows "V t \<noteq> None \<Longrightarrow> tss_generation_cached w t \<noteq> 0" "tss_generation_cached w t \<noteq> 0 \<Longrightarrow> vt_map M (key_of w t) = map_option Some (V t)"
    "vt_map M k \<noteq> None \<Longrightarrow> \<exists>t. tss_generation_cached w t \<noteq> 0 \<and> k = key_of w t"
  using assms by (simp_all add: tls_holds_def) auto

lemma holds_put:
  assumes "ids_ok w" "tss_generation_cached w me \<noteq> 0" "tls_holds w M V" "vt_map M' = (vt_map M)(key_of w me := map_option Some v)"
  shows "tls_holds w M' (V(me := v))"
  using assms key_of_inj[OF assms(1)] unfolding tls_holds_def by (auto split: if_splits)

lemma holds_cong: "tls_holds w M V \<Longrightarrow> tss_generation_cached w' = tss_generation_cached w \<Longrightarrow> kernel_tid w' = kernel_tid w \<Longrightarrow> tls_holds w' M V"
  unfolding tls_holds_def key_of_def by simp

lemma holds_ids:
  assumes "tls_holds w M V" "ids_only w w'" "ids_ok w'" "\<And>t. tss_generation_cached w t \<noteq> 0 \<Longrightarrow> tss_generation_cached w' t = tss_generation_cached w t"
  shows "tls_holds w' M V"
proof -
  have same: "key_of w' t = key_of w t" if "tss_generation_cached w t \<noteq> 0" for t
    using assms(4)[OF that] ids_onlyD(12)[OF assms(2)] by (simp add: key_of_def)
  have new: "vt_map M (key_of w' t) = None" if "tss_generation_cached w t = 0" "tss_generation_cached w' t \<noteq> 0" for t
  proof (rule ccontr)
    assume "vt_map M (key_of w' t) \<noteq> None"
    then obtain u where u: "tss_generation_cached w u \<noteq> 0" "key_of w' t = key_of w u" using assms(1) unfolding tls_holds_def by blast
    then show False using key_of_inj[OF assms(3) that(2), of u] same[OF u(1)] that(1) by simp
  qed
  show ?thesis unfolding tls_holds_def
  proof (intro conjI allI impI)
    fix t
    show "V t = None" if "tss_generation_cached w' t = 0" using assms(1,4) that unfolding tls_holds_def by metis
    show "vt_map M (key_of w' t) = map_option Some (V t)" if "tss_generation_cached w' t \<noteq> 0"
      using assms(1) same[of t] new[of t] that unfolding tls_holds_def by (cases "tss_generation_cached w t = 0") auto
  next
    fix k
    assume "vt_map M k \<noteq> None"
    then show "\<exists>t. tss_generation_cached w' t \<noteq> 0 \<and> k = key_of w' t" using assms(1,4) same unfolding tls_holds_def by metis
  qed
qed

lemma holds_dom:
  assumes "tls_holds w M V" "ids_ok w"
  shows "dom (vt_map M) = key_of w ` {t. V t \<noteq> None}" "inj_on (key_of w) {t. V t \<noteq> None}"
proof -
  show "dom (vt_map M) = key_of w ` {t. V t \<noteq> None}"
  proof (intro set_eqI iffI)
    fix k
    assume "k \<in> dom (vt_map M)"
    then obtain t where "tss_generation_cached w t \<noteq> 0" "k = key_of w t" "vt_map M k \<noteq> None" using tls_holdsD(3)[OF assms(1), of k] by auto
    then show "k \<in> key_of w ` {t. V t \<noteq> None}" using tls_holdsD(2)[OF assms(1), of t] by auto
  next
    fix k
    assume "k \<in> key_of w ` {t. V t \<noteq> None}"
    then obtain t where t: "V t \<noteq> None" "k = key_of w t" by blast
    then have "vt_map M k = map_option Some (V t)" using tls_holdsD(1,2)[OF assms(1)] by simp
    then show "k \<in> dom (vt_map M)" using t(1) by auto
  qed
  show "inj_on (key_of w) {t. V t \<noteq> None}"
  proof (rule inj_onI)
    fix t u
    assume "t \<in> {t. V t \<noteq> None}" "key_of w t = key_of w u"
    moreover have "tss_generation_cached w t \<noteq> 0" using tls_holdsD(1)[OF assms(1)] calculation(1) by simp
    ultimately show "t = u" using key_of_inj[OF assms(2)] by blast
  qed
qed

lemma holds_card:
  assumes "tls_holds w M V" "ids_ok w" "vt_wf vt_hash_integer M"
  shows "key_count M = card {t. V t \<noteq> None}" "finite {t. V t \<noteq> None}"
  using key_count_dom[OF assms(3)] holds_dom[OF assms(1,2)] finite_imageD card_image by metis+

section \<open>The primitives on a live instance\<close>

lemma tss_prims:
  assumes "tss_heap w p = Some m"
  shows "tss_upd (Some p) f w = Some (w\<lparr>tss_heap := (tss_heap w)(p \<mapsto> f m)\<rparr>)"
    "tss_lock m = 0 \<Longrightarrow> LOCK_tss (Some p) w = Some (w\<lparr>tss_heap := (tss_heap w)(p \<mapsto> m\<lparr>tss_lock := 1\<rparr>)\<rparr>)"
    "tss_lock m = 1 \<Longrightarrow> UNLOCK_tss (Some p) w = Some (w\<lparr>tss_heap := (tss_heap w)(p \<mapsto> m\<lparr>tss_lock := 0\<rparr>)\<rparr>)"
    "call_destroy destroy (Some p) me item w = destroy (attr_destroy m) me item (w\<lparr>destroyed := destroyed w @ [item]\<rparr>)"
  using assms by (simp_all add: tss_upd_def LOCK_tss_def UNLOCK_tss_def call_destroy_def)

lemma tls_get_ok:
  assumes "tss_heap w p = Some m" "vt_wf vt_hash_integer (thread_id_to_tls_map m)"
  obtains (absent) it where "vt_map (thread_id_to_tls_map m) key = None" "tls_get (Some p) key w = Some it" "vt_is_end it"
  | (present) it v where "vt_map (thread_id_to_tls_map m) key = Some v" "tls_get (Some p) key w = Some it" "\<not> vt_is_end it" "tls_val (Some p) it w = Some v"
  using vt_get_map[OF assms(2), of key] assms(1)
  by (cases "vt_map (thread_id_to_tls_map m) key") (auto simp: tls_get_def tls_val_def)

lemma tls_erase_ok:
  assumes "tss_heap w p = Some m" "vt_wf vt_hash_integer (thread_id_to_tls_map m)"
  obtains t where "tls_erase (Some p) key w = Some (w\<lparr>tss_heap := (tss_heap w)(p \<mapsto> m\<lparr>thread_id_to_tls_map := t\<rparr>)\<rparr>)"
    "vt_wf vt_hash_integer t" "vt_map t = (vt_map (thread_id_to_tls_map m))(key := None)" "owned t = owned (thread_id_to_tls_map m)"
  using vt_erase_map[OF assms(2), of key] assms(1) tss_prims(1)[OF assms(1)] by (auto simp: tls_erase_def)

lemma rehash_plan:
  assumes "vt_rehash HASH_FN n t a = Some r" "plan a = []"
  shows "plan (snd (snd r)) = []"
proof -
  have "plan a = [] \<longrightarrow> plan (snd (snd r)) = []"
    by (rule vt_rehash.raw_induct[where P = "\<lambda>HASH_FN n t a r. plan a = [] \<longrightarrow> plan (snd (snd r)) = []", OF _ assms(1)])
      (auto simp: bind_Some_conv MALLOC_FN_def FREE_FN_def split: if_splits prod.splits)
  then show ?thesis using assms(2) by blast
qed

lemma insert_plan:
  assumes "insert_loop HASH_FN key v replace t a = Some r" "plan a = []"
  shows "plan (snd (snd r)) = []"
proof -
  have "plan a = [] \<longrightarrow> plan (snd (snd r)) = []"
    by (rule insert_loop.raw_induct[where P = "\<lambda>HASH_FN key v replace t a r. plan a = [] \<longrightarrow> plan (snd (snd r)) = []", OF _ assms(1)])
      (auto simp: bind_Some_conv split: if_splits prod.splits dest: rehash_plan)
  then show ?thesis using assms(2) by blast
qed

lemma tls_insert_ok:
  assumes "tss_heap w p = Some m" "vt_wf vt_hash_integer (thread_id_to_tls_map m)" "key_count (thread_id_to_tls_map m) < max_keys"
    "vt_map (thread_id_to_tls_map m) key = None"
  obtains it t pl where "tls_insert (Some p) key v w = Some (it, w\<lparr>host_plan := pl, table_blocks := table_blocks w + owned t - owned (thread_id_to_tls_map m),
      tss_heap := (tss_heap w)(p \<mapsto> m\<lparr>thread_id_to_tls_map := t\<rparr>)\<rparr>)"
    "vt_wf vt_hash_integer t" "host_plan w = [] \<longrightarrow> pl = [] \<and> \<not> vt_is_end it"
    "if vt_is_end it then t = thread_id_to_tls_map m else vt_map t = (vt_map (thread_id_to_tls_map m))(key \<mapsto> v)"
proof -
  obtain it t a where r: "insert_loop vt_hash_integer key v True (thread_id_to_tls_map m) (table_alloc w) = Some (it, t, a)" "vt_wf vt_hash_integer t"
    "live a = live (table_alloc w) + owned t - owned (thread_id_to_tls_map m)"
    "if vt_is_end it then alloc_fails (table_alloc w) \<and> vt_map (thread_id_to_tls_map m) key = None \<and> t = thread_id_to_tls_map m
     else inserted key v True (thread_id_to_tls_map m) t \<and> (\<exists>i h. it = itr_to t i h \<and> cont t i = Some (key, the (vt_map t key)))"
    using insert_loop_ok[OF assms(2,3), of key v True "table_alloc w"] by (elim exE conjE) (rule that)
  show ?thesis
  proof (rule that[of it t "plan a"])
    show "tls_insert (Some p) key v w = Some (it, w\<lparr>host_plan := plan a, table_blocks := table_blocks w + owned t - owned (thread_id_to_tls_map m),
      tss_heap := (tss_heap w)(p \<mapsto> m\<lparr>thread_id_to_tls_map := t\<rparr>)\<rparr>)"
      using assms(1) r(1,3) by (simp add: tls_insert_def vt_insert_def tss_upd_def table_alloc_def)
    show "host_plan w = [] \<longrightarrow> plan a = [] \<and> \<not> vt_is_end it" using insert_plan[OF r(1)] r(4) by (auto simp: table_alloc_def alloc_fails_def split: if_splits)
    show "if vt_is_end it then t = thread_id_to_tls_map m else vt_map t = (vt_map (thread_id_to_tls_map m))(key \<mapsto> v)"
      using r(4) assms(4) by (auto simp: inserted_def)
  qed (rule r(2))
qed

section \<open>The invariant of an instance\<close>

text \<open>
  \<open>V t\<close> is the value of thread \<open>t\<close>, \<open>L t\<close> its list of exit callbacks. The shared state of the exit
  callbacks exists while some thread has a value and counts those threads; a registered thread
  has one callback, for that state; every value that was created is the value of one thread or
  has been destroyed once.
\<close>

definition live_threads :: "(thread \<Rightarrow> ptr) \<Rightarrow> thread set" where
  "live_threads V = {t. V t \<noteq> None}"

definition tss_table :: "'z tss_world_scheme \<Rightarrow> addr \<Rightarrow> (thread \<Rightarrow> ptr) \<Rightarrow> tss_async_signal_safe_s \<Rightarrow> bool" where
  "tss_table w p V m \<longleftrightarrow> tss_heap w p = Some m \<and> tss_lock m = 0 \<and> vt_wf vt_hash_integer (thread_id_to_tls_map m) \<and>
     tls_holds w (thread_id_to_tls_map m) V \<and> ids_ok w \<and> table_blocks w = owned (thread_id_to_tls_map m)"

definition tss_refs :: "'z tss_world_scheme \<Rightarrow> addr \<Rightarrow> (thread \<Rightarrow> ptr) \<Rightarrow> (thread \<Rightarrow> (addr \<times> callback) list) \<Rightarrow> tss_async_signal_safe_s \<Rightarrow> bool" where
  "tss_refs w p V L m \<longleftrightarrow>
     deinit_states w = (case tss_state m of None \<Rightarrow> (\<lambda>_. None)
       | Some s \<Rightarrow> [s \<mapsto> \<lparr>ds_count = of_nat (card (live_threads V)), ds_val = Some p\<rparr>]) \<and>
     (tss_state m = None \<longleftrightarrow> live_threads V = {}) \<and>
     (\<forall>t. L t \<noteq> [] \<longrightarrow> t \<in> live_threads V \<and> map snd (L t) = [(DEINIT, tss_state m)])"

definition tss_exits :: "'z atexit_world_scheme \<Rightarrow> (thread \<Rightarrow> (addr \<times> callback) list) \<Rightarrow> bool" where
  "tss_exits w L \<longleftrightarrow> atexit_rel w L {} \<and> (\<forall>t. L t \<noteq> [] \<longrightarrow> key_set t w)"

definition tss_values :: "'z tss_world_scheme \<Rightarrow> (thread \<Rightarrow> ptr) \<Rightarrow> bool" where
  "tss_values w V \<longleftrightarrow> mset (created w) = mset (destroyed w) + image_mset V (mset_set (live_threads V))"

definition tss_core :: "'z tss_world_scheme \<Rightarrow> addr \<Rightarrow> (thread \<Rightarrow> ptr) \<Rightarrow> (thread \<Rightarrow> (addr \<times> callback) list) \<Rightarrow> tss_async_signal_safe_s \<Rightarrow> bool" where
  "tss_core w p V L m \<longleftrightarrow> tss_values w V \<and> tss_table w p V m \<and> tss_refs w p V L m"

definition tss_inv :: "'z tss_world_scheme \<Rightarrow> addr \<Rightarrow> (thread \<Rightarrow> ptr) \<Rightarrow> (thread \<Rightarrow> (addr \<times> callback) list) \<Rightarrow> bool" where
  "tss_inv w p V L \<longleftrightarrow> tss_exits w L \<and> (\<exists>m. tss_core w p V L m)"

text \<open>What a callback of the user may change of the state: \<^verbatim>\<open>errno\<close>, the allocator, its own data.\<close>

definition user_only :: "'z tss_world_scheme \<Rightarrow> 'z tss_world_scheme \<Rightarrow> bool" where
  "user_only w w' \<longleftrightarrow> atexit_heap w' = atexit_heap w \<and> thread_atexit_items w' = thread_atexit_items w \<and> thread_atexit_key w' = thread_atexit_key w
     \<and> once_done w' = once_done w \<and> host_key w' = host_key w \<and> specific w' = specific w \<and> exit_calls w' = exit_calls w \<and> next_free w \<le> next_free w'
     \<and> tss_heap w' = tss_heap w \<and> deinit_states w' = deinit_states w \<and> kernel_tid w' = kernel_tid w
     \<and> current_thread_id_cached w' = current_thread_id_cached w \<and> current_thread_id_mycache w' = current_thread_id_mycache w
     \<and> tss_generation_cached w' = tss_generation_cached w \<and> tss_generation_counter w' = tss_generation_counter w
     \<and> table_blocks w' = table_blocks w \<and> created w' = created w \<and> destroyed w' = destroyed w"

lemma user_only_refl [simp]: "user_only w w" by (simp add: user_only_def)

lemma user_only_errno [simp]: "user_only w (set_errno me e w')  = user_only w w'"
  by (simp add: user_only_def set_errno_def)

lemma tss_core_user:
  assumes "tss_core w p V L m" "user_only w w'"
  shows "tss_core w' p V L m"
proof -
  have "ids_ok w' = ids_ok w" using assms(2) by (simp add: ids_ok_def generations_def user_only_def)
  then show ?thesis using assms unfolding tss_core_def
    by (auto simp: tss_values_def tss_table_def tss_refs_def user_only_def intro: holds_cong)
qed

lemma tss_exits_same:
  assumes "tss_exits w L" "atexit_heap w' = atexit_heap w" "thread_atexit_items w' = thread_atexit_items w" "specific w' = specific w" "next_free w \<le> next_free w'"
  shows "tss_exits w' L"
  using assms rel_same[of w L "{}" w'] by (simp add: tss_exits_def key_set_def)

lemma tss_inv_user: "tss_inv w p V L \<Longrightarrow> user_only w w' \<Longrightarrow> tss_inv w' p V L"
  unfolding tss_inv_def using tss_core_user tss_exits_same[of w L w'] by (fastforce simp: user_only_def)

lemma tss_core_ids:
  assumes "tss_core w p V L m" "ids_only w w'" "ids_ok w'" "\<And>t. tss_generation_cached w t \<noteq> 0 \<Longrightarrow> tss_generation_cached w' t = tss_generation_cached w t"
  shows "tss_core w' p V L m"
  using assms(1,3) holds_ids[OF _ assms(2-4)] ids_onlyD[OF assms(2)] unfolding tss_core_def
  by (auto simp: tss_values_def tss_table_def tss_refs_def)

lemma tss_inv_ids:
  assumes "tss_inv w p V L" "ids_only w w'" "ids_ok w'" "\<And>t. tss_generation_cached w t \<noteq> 0 \<Longrightarrow> tss_generation_cached w' t = tss_generation_cached w t"
  shows "tss_inv w' p V L"
proof -
  obtain m where m: "tss_exits w L" "tss_core w p V L m" using assms(1) by (auto simp: tss_inv_def)
  have "tss_exits w' L" by (rule tss_exits_same[OF m(1)]) (simp_all add: ids_onlyD[OF assms(2)])
  then show ?thesis using tss_core_ids[OF m(2) assms(2-4)] by (auto simp: tss_inv_def)
qed

lemma tss_ext_same:
  assumes "atexit_world.more (w' :: 'z tss_world_scheme) = atexit_world.more w"
  shows "tss_heap w' = tss_heap w" "deinit_states w' = deinit_states w" "kernel_tid w' = kernel_tid w"
    "current_thread_id_cached w' = current_thread_id_cached w" "current_thread_id_mycache w' = current_thread_id_mycache w"
    "tss_generation_cached w' = tss_generation_cached w" "tss_generation_counter w' = tss_generation_counter w"
    "table_blocks w' = table_blocks w" "created w' = created w" "destroyed w' = destroyed w"
  using assms by (cases w; cases w'; simp)+

text \<open>Registering the exit callback of a thread that has a value and none yet.\<close>

lemma tss_inv_register:
  assumes inv: "tss_inv w p V L" and me: "V me \<noteq> None" "L me = []" and m: "tss_heap w p = Some m" "tss_state m = s"
  obtains r w' a where "thread_atexit me (DEINIT, s) w = Some (r, w')" "atexit_world.more w' = atexit_world.more w"
    "r = 0 \<and> tss_inv w' p V (L(me := [(a, DEINIT, s)])) \<or> r = -1 \<and> terrno w' me = ENOMEM \<and> tss_inv w' p V L" "host_willing w \<longrightarrow> r = 0 \<and> host_willing w'"
proof -
  have rel: "atexit_rel w L {}" and ks: "\<forall>t. L t \<noteq> [] \<longrightarrow> key_set t w" using inv by (auto simp: tss_inv_def tss_exits_def)
  obtain r w' where r: "thread_atexit me (DEINIT, s) w = Some (r, w')"
    "r = 0 \<and> atexit_rel w' (L(me := (next_free w, DEINIT, s) # L me)) {} \<and> key_set me w' \<or> r = -1 \<and> terrno w' me = ENOMEM \<and> atexit_rel w' L {}"
    "\<forall>t. key_set t w \<longrightarrow> key_set t w'" "atexit_world.more w' = atexit_world.more w" "host_willing w \<longrightarrow> r = 0 \<and> host_willing w'"
    using posix_exit.register_ok[OF rel, of me "(DEINIT, s)"] by (elim exE conjE) (rule that)
  note f = tss_ext_same[OF r(4)]
  have ids: "ids_ok w' = ids_ok w" using f by (simp add: ids_ok_def generations_def)
  have "tss_inv w' p V L'" if "L' = L(me := (next_free w, DEINIT, s) # L me) \<or> L' = L" "atexit_rel w' L' {}" "\<forall>t. L' t \<noteq> [] \<longrightarrow> key_set t w'" for L'
    using inv that me m f ids unfolding tss_inv_def tss_core_def
    by (auto simp: tss_exits_def tss_values_def tss_table_def tss_refs_def live_threads_def intro: holds_cong split: if_splits)
  then show ?thesis using that[OF r(1,4) _ r(5), of "next_free w"] r(2,3) ks me(2) by auto
qed

end
