(* ===== verification/Tss_Lifecycle.thy ===== *)
theory Tss_Lifecycle
  imports Tss
begin

unbundle bit_operations_syntax

text \<open>
  The life of a thread-specific storage instance: every operation of \<open>Tss\<close> returns without a
  fault and keeps the invariant, whichever allocations fail; over any sequence of
  initialisations, lookups and thread exits, and the destruction of the instance at the end,
  every value that was created is destroyed exactly once; what a lookup finds; and what a
  failed initialisation leaves behind.
\<close>

section \<open>Preserving the invariant\<close>

lemma live_put:
  assumes "finite (live_threads V)" "V me = None" "v \<noteq> None"
  shows "live_threads (V(me := v)) = insert me (live_threads V)" "me \<notin> live_threads V"
    "image_mset (V(me := v)) (mset_set (live_threads (V(me := v)))) = add_mset v (image_mset V (mset_set (live_threads V)))"
    "card (live_threads (V(me := v))) = Suc (card (live_threads V))"
proof -
  show l: "live_threads (V(me := v)) = insert me (live_threads V)" and n: "me \<notin> live_threads V" using assms by (auto simp: live_threads_def)
  show "card (live_threads (V(me := v))) = Suc (card (live_threads V))" using assms(1) l n by simp
  have "image_mset (V(me := v)) (mset_set (live_threads V)) = image_mset V (mset_set (live_threads V))"
    using assms(1) n by (intro image_mset_cong) auto
  then show "image_mset (V(me := v)) (mset_set (live_threads (V(me := v)))) = add_mset v (image_mset V (mset_set (live_threads V)))"
    using assms(1) l n by simp
qed

lemma live_drop:
  assumes "finite (live_threads V)" "V me \<noteq> None"
  shows "live_threads (V(me := None)) = live_threads V - {me}" "me \<in> live_threads V"
    "add_mset (V me) (image_mset (V(me := None)) (mset_set (live_threads (V(me := None))))) = image_mset V (mset_set (live_threads V))"
    "card (live_threads V) = Suc (card (live_threads (V(me := None))))"
proof -
  show l: "live_threads (V(me := None)) = live_threads V - {me}" and n: "me \<in> live_threads V" using assms by (auto simp: live_threads_def)
  show "card (live_threads V) = Suc (card (live_threads (V(me := None))))" using assms(1) l n by (metis card_Suc_Diff1)
  have "image_mset (V(me := None)) (mset_set (live_threads V - {me})) = image_mset V (mset_set (live_threads V - {me}))"
    using assms(1) by (intro image_mset_cong) auto
  moreover have "mset_set (live_threads V) = add_mset me (mset_set (live_threads V - {me}))" using assms(1) n by (simp add: mset_set.remove)
  ultimately show "add_mset (V me) (image_mset (V(me := None)) (mset_set (live_threads (V(me := None))))) = image_mset V (mset_set (live_threads V))"
    using l by simp
qed

lemma tss_inv_upd:
  assumes "tss_inv w p V L" "tss_heap w' p = Some m'" "tss_lock m' = 0" "vt_wf vt_hash_integer (thread_id_to_tls_map m')"
    "tls_holds w (thread_id_to_tls_map m') V'" "table_blocks w' = owned (thread_id_to_tls_map m')"
    and ids: "kernel_tid w' = kernel_tid w" "current_thread_id_cached w' = current_thread_id_cached w" "current_thread_id_mycache w' = current_thread_id_mycache w"
      "tss_generation_cached w' = tss_generation_cached w" "tss_generation_counter w' = tss_generation_counter w"
    and ax: "atexit_heap w' = atexit_heap w" "thread_atexit_items w' = thread_atexit_items w" "specific w' = specific w" "next_free w \<le> next_free w'"
    and "tss_refs w' p V' L m'" "tss_values w' V'"
  shows "tss_inv w' p V' L"
proof -
  have "ids_ok w'" using assms(1) ids by (auto simp: ids_ok_def generations_def tss_inv_def tss_core_def tss_table_def)
  moreover have "tls_holds w' (thread_id_to_tls_map m') V'" by (rule holds_cong[OF assms(5)]) (simp_all add: ids)
  moreover have "tss_exits w' L" using assms(1) tss_exits_same[OF _ ax] by (simp add: tss_inv_def)
  ultimately show ?thesis using assms unfolding tss_inv_def tss_core_def by (auto simp: tss_table_def)
qed

lemma tss_coreD:
  assumes "tss_core w p V L m"
  shows "tss_heap w p = Some m" "tss_lock m = 0" "vt_wf vt_hash_integer (thread_id_to_tls_map m)" "tls_holds w (thread_id_to_tls_map m) V" "ids_ok w"
    "table_blocks w = owned (thread_id_to_tls_map m)" "tss_refs w p V L m" "tss_values w V" "finite (live_threads V)" "key_count (thread_id_to_tls_map m) = card (live_threads V)"
  using assms holds_card[of w "thread_id_to_tls_map m" V] by (simp_all add: tss_core_def tss_table_def live_threads_def)

lemma tss_invE:
  assumes "tss_inv w p V L"
  obtains m where "tss_heap w p = Some m" "tss_lock m = 0" "vt_wf vt_hash_integer (thread_id_to_tls_map m)" "tls_holds w (thread_id_to_tls_map m) V" "ids_ok w"
    "table_blocks w = owned (thread_id_to_tls_map m)" "tss_refs w p V L m" "tss_values w V" "finite (live_threads V)" "key_count (thread_id_to_tls_map m) = card (live_threads V)"
proof -
  obtain m where "tss_core w p V L m" using assms by (auto simp: tss_inv_def)
  from tss_coreD[OF this] show ?thesis by (rule that)
qed

text \<open>The values of the threads.\<close>

abbreviation values_of :: "(thread \<Rightarrow> ptr) \<Rightarrow> ptr multiset" where
  "values_of V \<equiv> image_mset V (mset_set (live_threads V))"

text \<open>
  What is asked of the callbacks of an instance. \<open>J\<close> relates the data of the user to the values that
  have been created and not yet destroyed, and may speak of the addresses that have been
  allocated. Creation adds the new value, if it makes one; destruction is called for a value
  that has been created and not yet destroyed, and takes it away.
\<close>

definition owns :: "('z \<Rightarrow> addr \<Rightarrow> ptr multiset \<Rightarrow> bool) \<Rightarrow> 'z tss_world_scheme \<Rightarrow> ptr multiset \<Rightarrow> bool" where
  "owns J w M \<longleftrightarrow> J (tss_world.more w) (next_free w) M"

definition good_callbacks :: "('z \<Rightarrow> addr \<Rightarrow> ptr multiset \<Rightarrow> bool) \<Rightarrow> 'z create_fn \<Rightarrow> 'z destroy_fn \<Rightarrow> bool" where
  "good_callbacks J create destroy \<longleftrightarrow>
     (\<forall>u n n' M. J u n M \<and> n \<le> n' \<longrightarrow> J u n' M) \<and>
     (\<forall>f t w M. owns J w M \<longrightarrow> (\<exists>r v w'. create f t w = Some (r, v, w') \<and> user_only w w' \<and> owns J w' (if r = 0 \<and> v \<noteq> None then add_mset v M else M))) \<and>
     (\<forall>f t v w M. owns J w (add_mset v M) \<longrightarrow> (\<exists>r w'. destroy f t v w = Some (r, w') \<and> user_only w w' \<and> owns J w' M))"

lemma owns_frame:
  assumes "good_callbacks J create destroy" "owns J w M" "tss_world.more w' = tss_world.more w" "next_free w \<le> next_free w'"
  shows "owns J w' M"
proof -
  have "J u n' M" if "J u n M" "n \<le> n'" for u n n' M using assms(1) that unfolding good_callbacks_def by blast
  then show ?thesis using assms(2-4) unfolding owns_def by auto
qed

lemma good_create:
  assumes "good_callbacks J create destroy" "owns J w M"
  obtains r v w' where "create f t w = Some (r, v, w')" "user_only w w'" "owns J w' (if r = 0 \<and> v \<noteq> None then add_mset v M else M)"
  using assms unfolding good_callbacks_def by blast

lemma good_destroy:
  assumes "good_callbacks J create destroy" "owns J w (add_mset v M)" "tss_world.more w' = tss_world.more w" "next_free w \<le> next_free w'"
  obtains r w'' where "destroy f t v w' = Some (r, w'')" "user_only w' w''" "owns J w'' M"
proof -
  have "owns J w' (add_mset v M)" by (rule owns_frame[OF assms])
  then show ?thesis using assms(1) that unfolding good_callbacks_def by blast
qed

lemma owns_errno [simp]: "owns J (set_errno me e w) = owns J w"
  by (simp add: owns_def set_errno_def fun_eq_iff)

lemma thread_atexit_next_free:
  assumes "thread_atexit me c w = Some (r, w')"
  shows "next_free w \<le> next_free w'"
proof (cases w rule: thread_alloc_cases)
  case (null w1)
  then show ?thesis using assms by (auto simp: thread_atexit_def set_errno_def)
next
  case (block w1)
  let ?a = "next_free w"
  let ?w2 = "w1\<lparr>atexit_heap := (atexit_heap w1)(?a \<mapsto> \<lparr>item_func = fst c, item_obj = snd c, item_next = None\<rparr>)\<rparr>"
  obtain r3 w3 where w3: "pthread_once thread_atexit_key_init ?w2 = (r3, w3)" "next_free w3 = next_free ?w2" "host_only ?w2 w3" by (rule pthread_once_cases[of ?w2])
  have h: "atexit_heap w3 ?a = Some \<lparr>item_func = fst c, item_obj = snd c, item_next = None\<rparr>" using w3(3) by (simp add: host_only_def)
  let ?w4 = "w3\<lparr>atexit_heap := (atexit_heap w3)(?a \<mapsto> \<lparr>item_func = fst c, item_obj = snd c, item_next = thread_atexit_items w3 me\<rparr>),
    thread_atexit_items := (thread_atexit_items w3)(me \<mapsto> ?a)\<rparr>"
  obtain r5 w5 where w5: "pthread_setspecific me (Some ?a) ?w4 = (r5, w5)" "next_free w5 = next_free ?w4" "host_only ?w4 w5" by (rule pthread_setspecific_cases[of me "Some ?a" ?w4])
  have h5: "atexit_heap w5 ?a \<noteq> None" using w5(3) by (simp add: host_only_def)
  show ?thesis using assms block w3 h w5 h5 by (auto simp: thread_atexit_def free_item_def set_errno_def split: if_splits)
qed

lemma tss_more_same: "atexit_world.more (w' :: 'z tss_world_scheme) = atexit_world.more w \<Longrightarrow> tss_world.more w' = tss_world.more w"
  by (cases w; cases w') simp

lemma ids_more_same: "ids_only w w' \<Longrightarrow> tss_world.more w' = tss_world.more w"
  by (subst ids_only_def[THEN iffD1], assumption, simp)

lemma tss_lock_roundtrip:
  assumes "tss_heap w p = Some m" "tss_lock m = 0"
  obtains l where "LOCK_tss (Some p) w = Some l" "l = w\<lparr>tss_heap := (tss_heap w)(p \<mapsto> m\<lparr>tss_lock := 1\<rparr>)\<rparr>" "UNLOCK_tss (Some p) l = Some w"
proof -
  have "m\<lparr>tss_lock := 0\<rparr> = m" using assms(2) by (cases m) simp
  moreover have "w\<lparr>tss_heap := tss_heap w\<rparr> = w" by (cases w) simp
  moreover have "(tss_heap w)(p \<mapsto> m) = tss_heap w" using assms(1) by auto
  ultimately show ?thesis using that[OF tss_prims(2)[OF assms] refl] tss_prims(3)[of "w\<lparr>tss_heap := (tss_heap w)(p \<mapsto> m\<lparr>tss_lock := 1\<rparr>)\<rparr>" p "m\<lparr>tss_lock := 1\<rparr>"]
    by simp
qed

lemma holds_same: "tls_holds w M V \<Longrightarrow> vt_map M' = vt_map M \<Longrightarrow> tls_holds w M' V"
  by (simp add: tls_holds_def)

text \<open>A value that could not be published has been destroyed; one that could is the thread's.\<close>

lemma tss_inv_bounced:
  assumes inv: "tss_inv w p V L" and m: "tss_heap w p = Some m"
    and t: "vt_wf vt_hash_integer t" "vt_map t = vt_map (thread_id_to_tls_map m)"
  shows "tss_inv (w\<lparr>created := created w @ [v], host_plan := pl, table_blocks := owned t,
    tss_heap := h(p \<mapsto> m\<lparr>thread_id_to_tls_map := t\<rparr>), destroyed := destroyed w @ [v]\<rparr>) p V L" (is "tss_inv ?w' p V L")
proof (rule tss_inv_upd[OF inv, of _ "m\<lparr>thread_id_to_tls_map := t\<rparr>"])
  obtain m' where "tss_heap w p = Some m'" "tss_lock m' = 0" "tls_holds w (thread_id_to_tls_map m') V" "tss_refs w p V L m'" "tss_values w V"
    by (rule tss_invE[OF inv])
  then show "tss_lock (m\<lparr>thread_id_to_tls_map := t\<rparr>) = 0" "tls_holds w (thread_id_to_tls_map (m\<lparr>thread_id_to_tls_map := t\<rparr>)) V"
    "tss_refs ?w' p V L (m\<lparr>thread_id_to_tls_map := t\<rparr>)" "tss_values ?w' V"
    using m t(2) holds_same by (auto simp: tss_refs_def tss_values_def)
qed (use t in simp_all)

lemma tss_inv_published:
  assumes inv: "tss_inv w p V L" and m: "tss_heap w p = Some m" and me: "V me = None" "tss_generation_cached w me \<noteq> 0" and v: "v \<noteq> None"
    and t: "vt_wf vt_hash_integer t" "vt_map t = (vt_map (thread_id_to_tls_map m))(key_of w me \<mapsto> v)"
    and s: "tss_state m = None \<or> tss_state m = Some s" and nf: "next_free w \<le> nf"
  shows "tss_inv (w\<lparr>created := created w @ [v], host_plan := pl, next_free := nf, table_blocks := owned t,
    deinit_states := [s \<mapsto> \<lparr>ds_count = of_nat (Suc (card (live_threads V))), ds_val = Some p\<rparr>],
    tss_heap := h(p \<mapsto> m\<lparr>thread_id_to_tls_map := t, tss_state := Some s\<rparr>)\<rparr>) p (V(me := v)) L" (is "tss_inv ?w' p _ L")
proof (rule tss_inv_upd[OF inv, of _ "m\<lparr>thread_id_to_tls_map := t, tss_state := Some s\<rparr>"])
  obtain m' where m': "tss_heap w p = Some m'" "tss_lock m' = 0" "tls_holds w (thread_id_to_tls_map m') V" "ids_ok w" "tss_refs w p V L m'" "tss_values w V" "finite (live_threads V)"
    by (rule tss_invE[OF inv])
  note lv = live_put[OF m'(7) me(1) v]
  show "tss_lock (m\<lparr>thread_id_to_tls_map := t, tss_state := Some s\<rparr>) = 0" using m m' by simp
  show "tls_holds w (thread_id_to_tls_map (m\<lparr>thread_id_to_tls_map := t, tss_state := Some s\<rparr>)) (V(me := v))"
    using holds_put[OF m'(4) me(2) m'(3), of t v] m m' t(2) v by auto
  show "tss_values ?w' (V(me := v))" using m'(6) lv(3) by (simp add: tss_values_def)
  show "tss_refs ?w' p (V(me := v)) L (m\<lparr>thread_id_to_tls_map := t, tss_state := Some s\<rparr>)"
    using m m' s lv unfolding tss_refs_def by (auto simp: live_threads_def)
qed (use t nf in simp_all)

text \<open>
  A value that is in the table, with the reference on the shared state taken, and whose exit
  callback is still to be registered; and the outcomes of publishing a new value: bounced and
  destroyed, or to be registered.
\<close>

definition to_register ::
  "('z \<Rightarrow> addr \<Rightarrow> ptr multiset \<Rightarrow> bool) \<Rightarrow> thread \<Rightarrow> ptr \<Rightarrow> addr \<Rightarrow> (thread \<Rightarrow> ptr) \<Rightarrow> (thread \<Rightarrow> (addr \<times> callback) list) \<Rightarrow> ptr \<Rightarrow> 'z tss_world_scheme \<Rightarrow> bool" where
  "to_register J me v p V L s w \<longleftrightarrow> tss_inv w p (V(me := v)) L \<and> owns J w (values_of (V(me := v))) \<and> (\<exists>m. tss_heap w p = Some m \<and> tss_state m = s)"

definition publish_outcome ::
  "('z \<Rightarrow> addr \<Rightarrow> ptr multiset \<Rightarrow> bool) \<Rightarrow> thread \<Rightarrow> ptr \<Rightarrow> addr \<Rightarrow> (thread \<Rightarrow> ptr) \<Rightarrow> (thread \<Rightarrow> (addr \<times> callback) list) \<Rightarrow> 'z tss_world_scheme
    \<Rightarrow> ((int + ptr) \<times> 'z tss_world_scheme) option \<Rightarrow> bool" where
  "publish_outcome J me v p V L w out \<longleftrightarrow> (\<exists>x w'. out = Some (x, w') \<and> created w' = created w @ [v]
    \<and> tss_generation_counter w' = tss_generation_counter w \<and> tss_generation_cached w' = tss_generation_cached w
    \<and> (case x of
         Inl r \<Rightarrow> r = -1 \<and> tss_inv w' p V L \<and> destroyed w' = destroyed w @ [v] \<and> owns J w' (values_of V)
       | Inr s \<Rightarrow> to_register J me v p V L s w' \<and> destroyed w' = destroyed w))"

text \<open>A value that could not be published is handed to the destruction callback.\<close>

lemma publish_bounced:
  assumes inv: "tss_inv w p V L" and m: "tss_heap w p = Some m" and t: "vt_wf vt_hash_integer t" "vt_map t = vt_map (thread_id_to_tls_map m)"
    and cb: "good_callbacks J create destroy" and own: "owns J w (add_mset v (values_of V))"
    and u: "u = w\<lparr>created := created w @ [v], host_plan := pl, table_blocks := owned t, tss_heap := (tss_heap w)(p \<mapsto> m\<lparr>thread_id_to_tls_map := t\<rparr>)\<rparr>"
  shows "publish_outcome J me v p V L w (do { (r, w) \<leftarrow> call_destroy destroy (Some p) me v u; Some (Inl (-1), set_errno me ENOMEM w) })"
proof -
  let ?u = "u\<lparr>destroyed := destroyed u @ [v]\<rparr>"
  obtain r w' where d: "destroy (attr_destroy m) me v ?u = Some (r, w')" "user_only ?u w'" "owns J w' (values_of V)"
    by (rule good_destroy[OF cb own, of ?u]) (simp add: u, simp add: u, rule that)
  have "tss_inv ?u p V L" using tss_inv_bounced[OF inv m t, of v "tss_heap w" pl] by (simp add: u)
  then have "tss_inv (set_errno me ENOMEM w') p V L" using d(2) by (auto intro: tss_inv_user)
  moreover have "call_destroy destroy (Some p) me v u = Some (r, w')" using d(1) by (simp add: call_destroy_def u)
  moreover have "owns J (set_errno me ENOMEM w') (values_of V)" using d(3) by simp
  ultimately show ?thesis unfolding publish_outcome_def using d(2)
    by (intro exI[of _ "Inl (-1)"] exI[of _ "set_errno me ENOMEM w'"]) (simp add: u set_errno_def user_only_def)
qed

lemma publish_linked:
  assumes inv: "tss_inv w p V L" and m: "tss_heap w p = Some m" and me: "V me = None" "tss_generation_cached w me \<noteq> 0" and v: "v \<noteq> None"
    and t: "vt_wf vt_hash_integer t" "vt_map t = (vt_map (thread_id_to_tls_map m))(key_of w me \<mapsto> v)"
    and s: "tss_state m = None \<or> tss_state m = Some s" and nf: "next_free w \<le> nf"
    and cb: "good_callbacks J create destroy" and own: "owns J w (add_mset v (values_of V))"
    and w6: "w6 = w\<lparr>created := created w @ [v], host_plan := pl', next_free := nf, table_blocks := owned t,
      deinit_states := [s \<mapsto> \<lparr>ds_count = of_nat (Suc (card (live_threads V))), ds_val = Some p\<rparr>],
      tss_heap := (tss_heap w)(p \<mapsto> m\<lparr>thread_id_to_tls_map := t, tss_state := Some s\<rparr>)\<rparr>"
  shows "publish_outcome J me v p V L w (Some (Inr (Some s), w6))"
proof -
  have fin: "finite (live_threads V)" by (rule tss_invE[OF inv])
  have "tss_inv w6 p (V(me := v)) L" unfolding w6 by (rule tss_inv_published[OF inv m me v t s nf])
  moreover have "owns J w6 (add_mset v (values_of V))" by (rule owns_frame[OF cb own]) (simp_all add: w6 nf)
  then have "owns J w6 (values_of (V(me := v)))" using live_put(3)[OF fin me(1) v] by simp
  ultimately have "to_register J me v p V L (Some s) w6" by (simp add: to_register_def w6)
  then show ?thesis unfolding publish_outcome_def by (simp add: w6)
qed

text \<open>Taking the lock and inserting a new value.\<close>

lemma publish_insert:
  assumes inv: "tss_inv w p V L" and m: "tss_core w p V L m" and me: "V me = None" "tss_generation_cached w me \<noteq> 0" and room: "card (live_threads V) < max_keys"
  obtains l it t pl where "LOCK_tss (Some p) (w\<lparr>created := created w @ [v]\<rparr>) = Some l"
    "tls_insert (Some p) (key_of w me) v l = Some (it, w\<lparr>created := created w @ [v], host_plan := pl, table_blocks := owned t,
      tss_heap := (tss_heap w)(p \<mapsto> m\<lparr>tss_lock := 1, thread_id_to_tls_map := t\<rparr>)\<rparr>)"
    "vt_wf vt_hash_integer t" "if vt_is_end it then t = thread_id_to_tls_map m else vt_map t = (vt_map (thread_id_to_tls_map m))(key_of w me \<mapsto> v)"
proof -
  note m = tss_coreD[OF m]
  let ?M = "thread_id_to_tls_map m" and ?k = "key_of w me"
  let ?l = "w\<lparr>created := created w @ [v], tss_heap := (tss_heap w)(p \<mapsto> m\<lparr>tss_lock := 1\<rparr>)\<rparr>"
  have lock: "LOCK_tss (Some p) (w\<lparr>created := created w @ [v]\<rparr>) = Some ?l" using tss_prims(2)[of "w\<lparr>created := created w @ [v]\<rparr>" p m] m(1,2) by simp
  have none: "vt_map ?M ?k = None" using tls_holdsD(2)[OF m(4) me(2)] me(1) by simp
  show ?thesis
  proof (rule tls_insert_ok[of ?l p "m\<lparr>tss_lock := 1\<rparr>" ?k v])
    fix it t pl
    let ?i = "?l\<lparr>host_plan := pl, table_blocks := table_blocks ?l + owned t - owned (thread_id_to_tls_map (m\<lparr>tss_lock := 1\<rparr>)),
      tss_heap := (tss_heap ?l)(p \<mapsto> m\<lparr>tss_lock := 1, thread_id_to_tls_map := t\<rparr>)\<rparr>"
    assume ins: "tls_insert (Some p) ?k v ?l = Some (it, ?i)"
      and t: "vt_wf vt_hash_integer t" "if vt_is_end it then t = thread_id_to_tls_map (m\<lparr>tss_lock := 1\<rparr>) else vt_map t = (vt_map (thread_id_to_tls_map (m\<lparr>tss_lock := 1\<rparr>)))(?k \<mapsto> v)"
    have "?i = w\<lparr>created := created w @ [v], host_plan := pl, table_blocks := owned t, tss_heap := (tss_heap w)(p \<mapsto> m\<lparr>tss_lock := 1, thread_id_to_tls_map := t\<rparr>)\<rparr>"
      using m(6) by (cases w) simp
    then show thesis using ins t by (intro that[OF lock, of it t pl]) simp_all
  qed (use m(3,10) room none in simp_all)
qed

lemma publish_ok:
  assumes inv: "tss_inv w p V L" and me: "V me = None" "tss_generation_cached w me \<noteq> 0" and v: "v \<noteq> None"
    and room: "card (live_threads V) < max_keys" and cb: "good_callbacks J create destroy" and own: "owns J w (add_mset v (values_of V))"
  shows "publish_outcome J me v p V L w (thread_init_publish destroy me (Some p) (key_of w me) v (w\<lparr>created := created w @ [v]\<rparr>))"
proof -
  obtain m where core: "tss_core w p V L m" using inv by (auto simp: tss_inv_def)
  note m = tss_coreD[OF core]
  let ?M = "thread_id_to_tls_map m" and ?k = "key_of w me"
  obtain l it t pl where ins: "LOCK_tss (Some p) (w\<lparr>created := created w @ [v]\<rparr>) = Some l"
    "tls_insert (Some p) ?k v l = Some (it, w\<lparr>created := created w @ [v], host_plan := pl, table_blocks := owned t,
      tss_heap := (tss_heap w)(p \<mapsto> m\<lparr>tss_lock := 1, thread_id_to_tls_map := t\<rparr>)\<rparr>)"
    "vt_wf vt_hash_integer t" "if vt_is_end it then t = ?M else vt_map t = (vt_map ?M)(?k \<mapsto> v)"
    by (rule publish_insert[OF inv core me room]) (rule that)
  have unl: "m\<lparr>thread_id_to_tls_map := t, tss_lock := 0\<rparr> = m\<lparr>thread_id_to_tls_map := t\<rparr>"
    "m\<lparr>thread_id_to_tls_map := t, tss_state := x, tss_lock := 0\<rparr> = m\<lparr>thread_id_to_tls_map := t, tss_state := x\<rparr>" for t x using m(2) by (cases m; simp)+
  note [simp] = thread_init_publish_def tss_prims unl ins(1,2)
  show ?thesis
  proof (cases "vt_is_end it")
    case True
    then have "vt_map t = vt_map ?M" using ins(4) by simp
    then show ?thesis using publish_bounced[OF inv m(1) ins(3) _ cb own refl, where me = me and pl = pl] True by simp
  next
    case False
    then have t: "vt_map t = (vt_map ?M)(?k \<mapsto> v)" using ins(4) by simp
    note reg = publish_linked[OF inv m(1) me v ins(3) t _ _ cb own]
    consider (shared) s where "tss_state m = Some s" | (fresh) "tss_state m = None" "pl = [] \<or> hd pl" | (full) "tss_state m = None" "\<not> (pl = [] \<or> hd pl)" by (cases "tss_state m") auto
    then show ?thesis
    proof cases
      case (shared s)
      have "deinit_states w = [s \<mapsto> \<lparr>ds_count = of_nat (card (live_threads V)), ds_val = Some p\<rparr>]" using m(7) shared by (simp add: tss_refs_def)
      then show ?thesis using reg[where s = s and nf = "next_free w" and pl' = pl, OF _ _ refl] shared False by (simp add: add.commute)
    next
      case fresh
      then have "card (live_threads V) = 0" "deinit_states w = Map.empty" using m(7) by (auto simp: tss_refs_def)
      moreover have swap: "w\<lparr>created := created w @ [v], table_blocks := owned t, host_plan := tl pl, next_free := Suc (next_free w), deinit_states := d, tss_heap := h\<rparr>
        = w\<lparr>created := created w @ [v], host_plan := tl pl, next_free := Suc (next_free w), table_blocks := owned t, deinit_states := d, tss_heap := h\<rparr>" for d h by (cases w) simp
      ultimately show ?thesis using reg[where s = "next_free w" and nf = "Suc (next_free w)" and pl' = "tl pl", OF _ _ swap] fresh False
        by (simp add: thread_alloc_def host_call_def)
    next
      case full
      let ?m5 = "m\<lparr>tss_lock := 1, thread_id_to_tls_map := t, tss_state := None\<rparr>"
      let ?l5 = "w\<lparr>created := created w @ [v], table_blocks := owned t, host_plan := tl pl, tss_heap := (tss_heap w)(p \<mapsto> ?m5)\<rparr>"
      obtain t' where e: "tls_erase (Some p) ?k ?l5 = Some (?l5\<lparr>tss_heap := (tss_heap ?l5)(p \<mapsto> ?m5\<lparr>thread_id_to_tls_map := t'\<rparr>)\<rparr>)"
        "vt_wf vt_hash_integer t'" "vt_map t' = (vt_map (thread_id_to_tls_map ?m5))(?k := None)" "owned t' = owned (thread_id_to_tls_map ?m5)"
        by (rule tls_erase_ok[of ?l5 p ?m5 ?k]) (simp, simp add: ins(3), rule that)
      have "vt_map ?M ?k = None" using tls_holdsD(2)[OF m(4) me(2)] me(1) by simp
      then have t': "vt_map t' = vt_map ?M" using e(3) by (simp add: t fun_upd_idem)
      have "m\<lparr>tss_state := None, thread_id_to_tls_map := t', tss_lock := 0\<rparr> = m\<lparr>thread_id_to_tls_map := t'\<rparr>" using m(2) full by (cases m) simp
      then have u: "w\<lparr>created := created w @ [v], table_blocks := owned t, host_plan := tl pl, tss_heap := (tss_heap w)(p \<mapsto> m\<lparr>tss_state := None, thread_id_to_tls_map := t', tss_lock := 0\<rparr>)\<rparr>
        = w\<lparr>created := created w @ [v], host_plan := tl pl, table_blocks := owned t', tss_heap := (tss_heap w)(p \<mapsto> m\<lparr>thread_id_to_tls_map := t'\<rparr>)\<rparr>" using e(4) by (cases w) simp
      then show ?thesis using publish_bounced[OF inv m(1) e(2) t' cb own u, where me = me] full False e(1) by (simp add: thread_alloc_def host_call_def)
    qed
  qed
qed

text \<open>
  The outcomes of \<^verbatim>\<open>thread_init\<close>: the thread had a value and nothing happens; it gets one and its
  exit callback; it fails and a value that was created has been destroyed; or the exit callback
  could not be registered, and the thread has a value without one.
\<close>

definition init_outcome ::
  "thread \<Rightarrow> (thread \<Rightarrow> ptr) \<Rightarrow> (thread \<Rightarrow> (addr \<times> callback) list) \<Rightarrow> 'z tss_world_scheme
    \<Rightarrow> int \<Rightarrow> (thread \<Rightarrow> ptr) \<Rightarrow> (thread \<Rightarrow> (addr \<times> callback) list) \<Rightarrow> 'z tss_world_scheme \<Rightarrow> bool" where
  "init_outcome me V L w r V' L' w' \<longleftrightarrow>
     (if V me \<noteq> None then r = 0 \<and> V' = V \<and> L' = L \<and> created w' = created w \<and> destroyed w' = destroyed w
       else r = 0 \<and> (\<exists>v a s. v \<noteq> None \<and> V' = V(me := v) \<and> L' = L(me := [(a, DEINIT, s)]) \<and> created w' = created w @ [v] \<and> destroyed w' = destroyed w)
         \<or> r \<noteq> 0 \<and> L' = L \<and> V' = V \<and> (\<exists>vs. created w' = created w @ vs \<and> destroyed w' = destroyed w @ vs)
         \<or> r = -1 \<and> terrno w' me = ENOMEM \<and> L' = L \<and> (\<exists>v. v \<noteq> None \<and> V' = V(me := v) \<and> created w' = created w @ [v] \<and> destroyed w' = destroyed w))"

lemma tss_inv_core:
  assumes "tss_inv w p V L" "ids_only w w'" "tss_core w' p V L m"
  shows "tss_inv w' p V L"
proof -
  have "tss_exits w L" using assms(1) by (simp add: tss_inv_def)
  then have "tss_exits w' L" by (rule tss_exits_same) (simp_all add: ids_onlyD[OF assms(2)])
  then show ?thesis using assms(3) by (auto simp: tss_inv_def)
qed

text \<open>How every operation of a thread begins: it finds its key, takes the lock and looks its value up.\<close>

lemma lookup_own:
  assumes core: "tss_core w p V L m" and gens: "tss_generation_cached w me = 0 \<longrightarrow> unat (tss_generation_counter w) + 1 < 2 ^ 32"
  obtains w1 l it where "my_current_thread_id me w = (key_of w1 me, w1)" "ids_only w w1" "tss_core w1 p V L m" "tss_generation_cached w1 me \<noteq> 0"
    "unat (tss_generation_counter w1) \<le> unat (tss_generation_counter w) + (if tss_generation_cached w me = 0 then 1 else 0)"
    "LOCK_tss (Some p) w1 = Some l" "UNLOCK_tss (Some p) l = Some w1" "tls_get (Some p) (key_of w1 me) l = Some it"
    "vt_is_end it \<longleftrightarrow> V me = None" "generations w1 \<subseteq> insert me (generations w)" "V me \<noteq> None \<Longrightarrow> tls_val (Some p) it l = Some (V me)"
proof -
  note c = tss_coreD[OF core]
  obtain w1 where w1: "my_current_thread_id me w = (key_of w1 me, w1)" "ids_only w w1" "ids_ok w1" "tss_generation_cached w1 me \<noteq> 0"
    "\<And>t. tss_generation_cached w t \<noteq> 0 \<Longrightarrow> tss_generation_cached w1 t = tss_generation_cached w t"
    "\<And>t. t \<noteq> me \<Longrightarrow> tss_generation_cached w1 t = tss_generation_cached w t"
    "unat (tss_generation_counter w1) \<le> unat (tss_generation_counter w) + (if tss_generation_cached w me = 0 then 1 else 0)"
    by (rule my_current_thread_id_ok[OF c(5) gens]) (rule that)
  have core1: "tss_core w1 p V L m" by (rule tss_core_ids[OF core w1(2,3,5)])
  note c1 = tss_coreD[OF core1]
  obtain l where l: "LOCK_tss (Some p) w1 = Some l" "l = w1\<lparr>tss_heap := (tss_heap w1)(p \<mapsto> m\<lparr>tss_lock := 1\<rparr>)\<rparr>" "UNLOCK_tss (Some p) l = Some w1"
    by (rule tss_lock_roundtrip[OF c1(1,2)])
  have h: "tss_heap l p = Some (m\<lparr>tss_lock := 1\<rparr>)" "vt_wf vt_hash_integer (thread_id_to_tls_map (m\<lparr>tss_lock := 1\<rparr>))" using l(2) c1(3) by simp_all
  obtain it where it: "tls_get (Some p) (key_of w1 me) l = Some it" "vt_is_end it \<longleftrightarrow> V me = None" "V me \<noteq> None \<Longrightarrow> tls_val (Some p) it l = Some (V me)"
    using tls_holdsD(2)[OF c1(4) w1(4)] by (cases "V me"; cases rule: tls_get_ok[OF h, of "key_of w1 me"]) auto
  have "generations w1 \<subseteq> insert me (generations w)" using w1(6) by (auto simp: generations_def)
  then show ?thesis by (rule that[OF w1(1,2) core1 w1(4,7) l(1,3) it(1,2) _ it(3)])
qed

text \<open>What \<^verbatim>\<open>thread_init\<close> has done when it ends early or comes to register the exit callback.\<close>

definition enter_outcome ::
  "('z \<Rightarrow> addr \<Rightarrow> ptr multiset \<Rightarrow> bool) \<Rightarrow> thread \<Rightarrow> addr \<Rightarrow> (thread \<Rightarrow> ptr) \<Rightarrow> (thread \<Rightarrow> (addr \<times> callback) list) \<Rightarrow> 'z tss_world_scheme
    \<Rightarrow> int + ptr \<Rightarrow> 'z tss_world_scheme \<Rightarrow> bool" where
  "enter_outcome J me p V L w x w' \<longleftrightarrow>
     (case x of
        Inl r \<Rightarrow> tss_inv w' p V L \<and> owns J w' (values_of V)
          \<and> (if V me \<noteq> None then r = 0 \<and> created w' = created w \<and> destroyed w' = destroyed w
             else r \<noteq> 0 \<and> (\<exists>vs. created w' = created w @ vs \<and> destroyed w' = destroyed w @ vs))
      | Inr s \<Rightarrow> V me = None \<and> (\<exists>v. v \<noteq> None \<and> to_register J me v p V L s w' \<and> created w' = created w @ [v] \<and> destroyed w' = destroyed w))"

lemma thread_init_enter_ok:
  assumes inv: "tss_inv w p V L" and room: "V me = None \<longrightarrow> card (live_threads V) < max_keys" and gens: "tss_generation_cached w me = 0 \<longrightarrow> unat (tss_generation_counter w) + 1 < 2 ^ 32"
    and cb: "good_callbacks J create destroy" and own: "owns J w (values_of V)"
  shows "\<exists>x w'. thread_init_enter create destroy me (Some p) w = Some (x, w') \<and> enter_outcome J me p V L w x w'
    \<and> unat (tss_generation_counter w') \<le> unat (tss_generation_counter w) + (if tss_generation_cached w me = 0 then 1 else 0)
    \<and> generations w' \<subseteq> insert me (generations w)"
proof -
  obtain m where core: "tss_core w p V L m" using inv by (auto simp: tss_inv_def)
  obtain w1 l it where w1: "my_current_thread_id me w = (key_of w1 me, w1)" "ids_only w w1" "tss_core w1 p V L m" "tss_generation_cached w1 me \<noteq> 0"
    "unat (tss_generation_counter w1) \<le> unat (tss_generation_counter w) + (if tss_generation_cached w me = 0 then 1 else 0)"
    "LOCK_tss (Some p) w1 = Some l" "UNLOCK_tss (Some p) l = Some w1" "tls_get (Some p) (key_of w1 me) l = Some it" "vt_is_end it \<longleftrightarrow> V me = None"
    "generations w1 \<subseteq> insert me (generations w)"
    by (rule lookup_own[OF core gens]) (rule that)
  have inv1: "tss_inv w1 p V L" by (rule tss_inv_core[OF inv w1(2,3)])
  have own1: "owns J w1 (values_of V)" by (rule owns_frame[OF cb own ids_more_same[OF w1(2)]]) (simp add: ids_onlyD[OF w1(2)])
  show ?thesis
  proof (cases "V me")
    case (Some v)
    then have "thread_init_enter create destroy me (Some p) w = Some (Inl 0, w1)"
      using w1(1,6-9) by (simp add: thread_init_enter_def)
    then show ?thesis using inv1 own1 w1(5,10) Some ids_onlyD(14,15)[OF w1(2)] by (auto simp: enter_outcome_def)
  next
    case None
    obtain ret v w2 where c: "create (attr_create m) me w1 = Some (ret, v, w2)" "user_only w1 w2" "owns J w2 (if ret = 0 \<and> v \<noteq> None then add_mset v (values_of V) else values_of V)"
      by (rule good_create[OF cb own1])
    have inv2: "tss_inv w2 p V L" by (rule tss_inv_user[OF inv1 c(2)])
    have it: "vt_is_end it" using None w1(9) by simp
    note start = w1(1,6-8) it tss_coreD(1)[OF w1(3)] c(1)
    have gen2: "unat (tss_generation_counter w2) \<le> unat (tss_generation_counter w) + (if tss_generation_cached w me = 0 then 1 else 0)"
      "generations w2 \<subseteq> insert me (generations w)"
      using w1(5,10) c(2) by (simp_all add: user_only_def generations_def)
    have tr2: "created w2 = created w" "destroyed w2 = destroyed w" using c(2) ids_onlyD(14,15)[OF w1(2)] by (simp_all add: user_only_def)
    consider (failed) "ret \<noteq> 0" | (null) "ret = 0" "v = None" | (item) "ret = 0" "v \<noteq> None" by blast
    then show ?thesis
    proof cases
      case failed
      then have "thread_init_enter create destroy me (Some p) w = Some (Inl ret, w2)"
        using start by (simp add: thread_init_enter_def)
      then show ?thesis using inv2 gen2 None failed tr2 c(3) by (auto simp: enter_outcome_def)
    next
      case null
      then have "thread_init_enter create destroy me (Some p) w = Some (Inl (-1), set_errno me EINVAL w2)"
        using start by (simp add: thread_init_enter_def)
      moreover have "tss_inv (set_errno me EINVAL w2) p V L" by (rule tss_inv_user[OF inv2]) simp
      moreover have "owns J (set_errno me EINVAL w2) (values_of V)" using c(3) null by simp
      ultimately show ?thesis using gen2 None tr2
        by (intro exI[of _ "Inl (-1)"] exI[of _ "set_errno me EINVAL w2"]) (auto simp: set_errno_def enter_outcome_def generations_def)
    next
      case item
      have own2: "owns J w2 (add_mset v (values_of V))" using c(3) item by simp
      have g2: "tss_generation_cached w2 me \<noteq> 0" "key_of w2 me = key_of w1 me" using w1(4) c(2) by (simp_all add: user_only_def key_of_def)
      obtain x w' where P: "thread_init_publish destroy me (Some p) (key_of w2 me) v (w2\<lparr>created := created w2 @ [v]\<rparr>) = Some (x, w')"
        "created w' = created w2 @ [v]" "tss_generation_counter w' = tss_generation_counter w2" "tss_generation_cached w' = tss_generation_cached w2"
        "case x of Inl r \<Rightarrow> r = -1 \<and> tss_inv w' p V L \<and> destroyed w' = destroyed w2 @ [v] \<and> owns J w' (values_of V)
         | Inr s \<Rightarrow> to_register J me v p V L s w' \<and> destroyed w' = destroyed w2"
        using publish_ok[OF inv2 None g2(1) item(2) room[rule_format, OF None] cb own2] unfolding publish_outcome_def by (elim exE conjE) (rule that)
      have "thread_init_enter create destroy me (Some p) w = Some (x, w')"
        using start item P(1) g2(2) by (auto simp: thread_init_enter_def)
      then show ?thesis using P(2-5) gen2 None item(2) tr2
        by (intro exI[of _ x] exI[of _ w']) (auto simp: enter_outcome_def generations_def split: sum.splits)
    qed
  qed
qed

lemma tss_inv_unregistered: "tss_inv w p V L \<Longrightarrow> V me = None \<Longrightarrow> L me = []"
  by (auto simp: tss_inv_def tss_core_def tss_refs_def live_threads_def)

text \<open>The exit callback is registered, or it is not and the value stays without one.\<close>

lemma registration_ok:
  assumes reg: "to_register J me v p V L s w" and L: "L me = []" and v: "v \<noteq> None" and cb: "good_callbacks J create destroy"
  obtains r w' L' where "thread_atexit me (DEINIT, s) w = Some (r, w')" "tss_inv w' p (V(me := v)) L'" "owns J w' (values_of (V(me := v)))"
    "created w' = created w" "destroyed w' = destroyed w" "tss_generation_counter w' = tss_generation_counter w" "tss_generation_cached w' = tss_generation_cached w"
    "r = 0 \<and> (\<exists>a. L' = L(me := [(a, DEINIT, s)])) \<or> r = -1 \<and> terrno w' me = ENOMEM \<and> L' = L"
proof -
  obtain m where m: "tss_inv w p (V(me := v)) L" "owns J w (values_of (V(me := v)))" "tss_heap w p = Some m" "tss_state m = s"
    using reg by (auto simp: to_register_def)
  have nn: "(V(me := v)) me \<noteq> None" using v by simp
  obtain r w' a where r: "thread_atexit me (DEINIT, s) w = Some (r, w')" "atexit_world.more w' = atexit_world.more w"
    "r = 0 \<and> tss_inv w' p (V(me := v)) (L(me := [(a, DEINIT, s)])) \<or> r = -1 \<and> terrno w' me = ENOMEM \<and> tss_inv w' p (V(me := v)) L"
    by (rule tss_inv_register[OF m(1) nn L m(3,4)]) (rule that)
  note same = tss_ext_same(6,7,9,10)[OF r(2)]
  have own: "owns J w' (values_of (V(me := v)))" by (rule owns_frame[OF cb m(2) tss_more_same[OF r(2)] thread_atexit_next_free[OF r(1)]])
  from r(3) show ?thesis
  proof (elim disjE conjE)
    assume "r = 0" "tss_inv w' p (V(me := v)) (L(me := [(a, DEINIT, s)]))"
    then show ?thesis using that[OF r(1) _ own] same by blast
  next
    assume "r = -1" "terrno w' me = ENOMEM" "tss_inv w' p (V(me := v)) L"
    then show ?thesis using that[OF r(1) _ own] same by blast
  qed
qed

lemma thread_init_ok:
  assumes inv: "tss_inv w p V L" and room: "V me = None \<longrightarrow> card (live_threads V) < max_keys" and gens: "tss_generation_cached w me = 0 \<longrightarrow> unat (tss_generation_counter w) + 1 < 2 ^ 32"
    and cb: "good_callbacks J create destroy" and own: "owns J w (values_of V)"
  shows "\<exists>r w' V' L'. tss_async_signal_safe_thread_init create destroy me (Some p) w = Some (r, w') \<and> tss_inv w' p V' L'
    \<and> init_outcome me V L w r V' L' w'
    \<and> unat (tss_generation_counter w') \<le> unat (tss_generation_counter w) + (if tss_generation_cached w me = 0 then 1 else 0)
    \<and> generations w' \<subseteq> insert me (generations w) \<and> owns J w' (values_of V')"
proof -
  obtain x w1 where x: "thread_init_enter create destroy me (Some p) w = Some (x, w1)" "enter_outcome J me p V L w x w1"
    "unat (tss_generation_counter w1) \<le> unat (tss_generation_counter w) + (if tss_generation_cached w me = 0 then 1 else 0)"
    "generations w1 \<subseteq> insert me (generations w)"
    using thread_init_enter_ok[OF assms] by (elim exE conjE) (rule that)
  show ?thesis
  proof (cases x)
    case (Inl r)
    then have "tss_async_signal_safe_thread_init create destroy me (Some p) w = Some (r, w1)" using x(1) by (simp add: tss_async_signal_safe_thread_init_def)
    then show ?thesis using x(2-4) Inl by (intro exI[of _ r] exI[of _ w1] exI[of _ V] exI[of _ L]) (auto simp: enter_outcome_def init_outcome_def split: if_splits)
  next
    case (Inr s)
    then obtain v where v: "V me = None" "v \<noteq> None" "to_register J me v p V L s w1" "created w1 = created w @ [v]" "destroyed w1 = destroyed w"
      using x(2) by (auto simp: enter_outcome_def)
    obtain r w' L' where R: "thread_atexit me (DEINIT, s) w1 = Some (r, w')" "tss_inv w' p (V(me := v)) L'" "owns J w' (values_of (V(me := v)))"
      "created w' = created w1" "destroyed w' = destroyed w1" "tss_generation_counter w' = tss_generation_counter w1" "tss_generation_cached w' = tss_generation_cached w1"
      "r = 0 \<and> (\<exists>a. L' = L(me := [(a, DEINIT, s)])) \<or> r = -1 \<and> terrno w' me = ENOMEM \<and> L' = L"
      by (rule registration_ok[OF v(3) tss_inv_unregistered[OF inv v(1)] v(2) cb]) (rule that)
    have "tss_async_signal_safe_thread_init create destroy me (Some p) w = Some (r, w')" using x(1) R(1) Inr by (simp add: tss_async_signal_safe_thread_init_def)
    then show ?thesis using R x(3,4) v
      by (intro exI[of _ r] exI[of _ w'] exI[of _ "V(me := v)"] exI[of _ L']) (auto simp: init_outcome_def generations_def)
  qed
qed

lemma get_ok:
  assumes inv: "tss_inv w p V L" and gens: "tss_generation_cached w me = 0 \<longrightarrow> unat (tss_generation_counter w) + 1 < 2 ^ 32"
    and cb: "good_callbacks J create destroy" and own: "owns J w (values_of V)"
  shows "\<exists>w'. tss_async_signal_safe_get me (Some p) w = Some (V me, w') \<and> tss_inv w' p V L
    \<and> unat (tss_generation_counter w') \<le> unat (tss_generation_counter w) + (if tss_generation_cached w me = 0 then 1 else 0)
    \<and> generations w' \<subseteq> insert me (generations w) \<and> owns J w' (values_of V)"
proof -
  obtain m where core: "tss_core w p V L m" using inv by (auto simp: tss_inv_def)
  obtain w1 l it where w1: "my_current_thread_id me w = (key_of w1 me, w1)" "ids_only w w1" "tss_core w1 p V L m" "tss_generation_cached w1 me \<noteq> 0"
    "unat (tss_generation_counter w1) \<le> unat (tss_generation_counter w) + (if tss_generation_cached w me = 0 then 1 else 0)"
    "LOCK_tss (Some p) w1 = Some l" "UNLOCK_tss (Some p) l = Some w1" "tls_get (Some p) (key_of w1 me) l = Some it"
    "vt_is_end it \<longleftrightarrow> V me = None" "generations w1 \<subseteq> insert me (generations w)" "V me \<noteq> None \<Longrightarrow> tls_val (Some p) it l = Some (V me)"
    by (rule lookup_own[OF core gens]) (rule that)
  have "tss_async_signal_safe_get me (Some p) w = Some (V me, w1)"
    using w1(1,6-9,11) by (cases "V me") (simp_all add: tss_async_signal_safe_get_def)
  moreover have "owns J w1 (values_of V)" by (rule owns_frame[OF cb own ids_more_same[OF w1(2)]]) (simp add: ids_onlyD[OF w1(2)])
  ultimately show ?thesis using tss_inv_core[OF inv w1(2,3)] w1(5,10) by blast
qed

section \<open>Thread exit\<close>

lemma wf_small: "vt_wf HASH_FN t \<Longrightarrow> key_count t \<le> 2048"
proof (cases "t = vt_init")
  case False
  assume "vt_wf HASH_FN t"
  then obtain k where k: "vt_ok HASH_FN k t" using False by (auto simp: vt_wf_def)
  have "(2 :: nat) ^ k \<le> 2 ^ 11" using vt_okD(3)[OF k] by (intro power_increasing) auto
  then show ?thesis using key_count_bound[OF k] by simp
qed simp

text \<open>What an exit callback leaves alone of the exit lists.\<close>

definition exits_untouched :: "'z atexit_world_scheme \<Rightarrow> 'z atexit_world_scheme \<Rightarrow> bool" where
  "exits_untouched w w' \<longleftrightarrow> atexit_heap w' = atexit_heap w \<and> thread_atexit_items w' = thread_atexit_items w \<and> specific w' = specific w \<and>
     exit_calls w' = exit_calls w \<and> next_free w \<le> next_free w'"

lemma deinit_ok:
  assumes core: "tss_core w p V L m" and me: "V me \<noteq> None" and cb: "good_callbacks J create destroy" and own: "owns J w (values_of V)"
  shows "\<exists>r w' m'. tss_async_signal_safe_thread_deinit destroy me (tss_state m) w = Some (r, w') \<and> tss_core w' p (V(me := None)) (L(me := [])) m'
    \<and> exits_untouched w w' \<and> destroyed w' = destroyed w @ [V me] \<and> unat (tss_generation_counter w') \<le> unat (tss_generation_counter w)
    \<and> generations w' \<subseteq> generations w \<and> owns J w' (values_of (V(me := None)))"
proof -
  note c = tss_coreD[OF core]
  have g: "tss_generation_cached w me \<noteq> 0" by (rule tls_holdsD(1)[OF c(4) me])
  have gens: "tss_generation_cached w me = 0 \<longrightarrow> unat (tss_generation_counter w) + 1 < 2 ^ 32" using g by simp
  obtain w1 l it where w1: "my_current_thread_id me w = (key_of w1 me, w1)" "ids_only w w1" "tss_core w1 p V L m" "tss_generation_cached w1 me \<noteq> 0"
    "unat (tss_generation_counter w1) \<le> unat (tss_generation_counter w) + (if tss_generation_cached w me = 0 then 1 else 0)"
    "LOCK_tss (Some p) w1 = Some l" "UNLOCK_tss (Some p) l = Some w1" "tls_get (Some p) (key_of w1 me) l = Some it"
    "vt_is_end it \<longleftrightarrow> V me = None" "generations w1 \<subseteq> insert me (generations w)" "V me \<noteq> None \<Longrightarrow> tls_val (Some p) it l = Some (V me)"
    by (rule lookup_own[OF core gens]) (rule that)
  note f1 = ids_onlyD[OF w1(2)] and c1 = tss_coreD[OF w1(3)]
  have it: "\<not> vt_is_end it" "tls_val (Some p) it l = Some (V me)" using w1(9,11) me by simp_all
  let ?d = "w1\<lparr>destroyed := destroyed w1 @ [V me]\<rparr>"
  have own': "owns J w (add_mset (V me) (values_of (V(me := None))))" using own live_drop(3)[OF c(9) me] by simp
  obtain ret w2 where d: "destroy (attr_destroy m) me (V me) ?d = Some (ret, w2)" "user_only ?d w2" "owns J w2 (values_of (V(me := None)))"
    by (rule good_destroy[OF cb own', of ?d]) (simp add: ids_more_same[OF w1(2)], simp add: f1, rule that)
  have h2: "tss_heap w2 = tss_heap w1" using d(2) by (simp add: user_only_def)
  let ?m2 = "m\<lparr>tss_lock := 1\<rparr>" and ?l2 = "w2\<lparr>tss_heap := (tss_heap w2)(p \<mapsto> m\<lparr>tss_lock := 1\<rparr>)\<rparr>"
  have lock2: "LOCK_tss (Some p) w2 = Some ?l2" using tss_prims(2)[of w2 p m] h2 c1(1,2) by simp
  obtain t where e: "tls_erase (Some p) (key_of w1 me) ?l2 = Some (?l2\<lparr>tss_heap := (tss_heap ?l2)(p \<mapsto> ?m2\<lparr>thread_id_to_tls_map := t\<rparr>)\<rparr>)"
    "vt_wf vt_hash_integer t" "vt_map t = (vt_map (thread_id_to_tls_map ?m2))(key_of w1 me := None)" "owned t = owned (thread_id_to_tls_map ?m2)"
    by (rule tls_erase_ok[of ?l2 p ?m2 "key_of w1 me"]) (simp, simp add: c1(3), rule that)
  obtain s where s: "tss_state m = Some s" "deinit_states w = [s \<mapsto> \<lparr>ds_count = of_nat (card (live_threads V)), ds_val = Some p\<rparr>]"
    using c(7) me by (cases "tss_state m") (auto simp: tss_refs_def live_threads_def)
  have ds2: "deinit_states w2 = deinit_states w" using d(2) f1(11) by (simp add: user_only_def)
  note lv = live_drop[OF c(9) me]
  define n where "n = card (live_threads (V(me := None)))"
  have n: "card (live_threads V) = Suc n" using lv(4) by (simp add: n_def)
  have small: "Suc n \<le> 2048" using wf_small[OF c(3)] c(10) n by simp
  have last: "(of_nat (Suc n) :: 32 word) = 1 \<longleftrightarrow> n = 0"
  proof -
    have "unat (of_nat (Suc n) :: 32 word) = Suc n" using small by (simp add: unat_of_nat take_bit_nat_eq_self del: of_nat_Suc)
    then show ?thesis by (metis One_nat_def Suc_inject of_nat_1 unat_1)
  qed
  define m' where "m' = m\<lparr>thread_id_to_tls_map := t, tss_state := (if n = 0 then None else tss_state m)\<rparr>"
  define w' where "w' = w2\<lparr>deinit_states := (if n = 0 then Map.empty else [s \<mapsto> \<lparr>ds_count = of_nat n, ds_val = Some p\<rparr>]), tss_heap := (tss_heap w2)(p \<mapsto> m')\<rparr>"
  have m': "n = 0 \<Longrightarrow> m\<lparr>thread_id_to_tls_map := t, tss_state := None, tss_lock := 0\<rparr> = m'" "n \<noteq> 0 \<Longrightarrow> m\<lparr>thread_id_to_tls_map := t, tss_lock := 0\<rparr> = m'"
    using c(2) by (cases m; simp add: m'_def)+
  have run: "tss_async_signal_safe_thread_deinit destroy me (tss_state m) w = Some (ret, w')"
    using s w1(1,6-8) it c1(1) d(1) lock2 e(1) ds2 last n c(2)
    by (cases "n = 0") (simp_all add: tss_async_signal_safe_thread_deinit_def last_reference_def free_state_def tss_prims w'_def m')
  have "tls_holds w1 t (V(me := None))" by (rule holds_put[OF c1(5) w1(4) c1(4)]) (simp add: e(3))
  then have "tls_holds w' t (V(me := None))" by (rule holds_cong) (use d(2) in \<open>simp_all add: w'_def user_only_def\<close>)
  moreover have "ids_ok w'" using c1(5) d(2) by (simp add: w'_def ids_ok_def generations_def user_only_def)
  moreover have "tss_values w' (V(me := None))" using c1(8) d(2) lv(3) by (simp add: tss_values_def w'_def user_only_def)
  moreover have "tss_refs w' p (V(me := None)) (L(me := [])) m'"
    using c(7,9) s lv(1) n_def by (auto simp: tss_refs_def w'_def m'_def)
  ultimately have "tss_core w' p (V(me := None)) (L(me := [])) m'"
    using c1(2,6) e(2,4) d(2) by (simp add: tss_core_def tss_table_def w'_def m'_def user_only_def)
  moreover have "owns J w' (values_of (V(me := None)))" by (rule owns_frame[OF cb d(3)]) (simp_all add: w'_def)
  moreover have "generations w' \<subseteq> generations w" using w1(10) g d(2) by (auto simp: generations_def w'_def user_only_def)
  ultimately show ?thesis using run d(2) f1 w1(5) g
    by (intro exI[of _ ret] exI[of _ w'] exI[of _ m']) (simp add: exits_untouched_def w'_def user_only_def)
qed

text \<open>The exit callbacks' code: every callback that the library registers is the one of \<^verbatim>\<open>thread_init\<close>.\<close>

definition exit_call :: "'z destroy_fn \<Rightarrow> thread \<Rightarrow> callback \<Rightarrow> 'z tss_world_scheme \<Rightarrow> 'z tss_world_scheme option" where
  "exit_call destroy me c w =
     (if fst c = DEINIT
      then do {
        (r, w) \<leftarrow> tss_async_signal_safe_thread_deinit destroy me (snd c) w;
        Some w
      }
      else None)"

lemma exit_stops: "specific w me = None \<Longrightarrow> pthread_exit n call me w = Some w"
  by (cases n) simp_all

text \<open>
  The exit of a thread with at most one exit callback: the callback sees the state with its
  item detached, and the item is freed behind it.
\<close>

lemma thread_exit_cases:
  assumes ex: "tss_exits w L" and n: "0 < n"
  obtains (idle) w' where "L me = []" "pthread_exit n call me w = Some w'" "atexit_world.more w' = atexit_world.more w" "tss_exits w' L" "next_free w' = next_free w"
  | (one) a c w0 where "L me = [(a, c)]" "atexit_world.more w0 = atexit_world.more w" "next_free w0 = next_free w"
      "\<And>v. call c w0 = Some v \<Longrightarrow> exits_untouched w0 v \<Longrightarrow>
        pthread_exit n call me w = Some (v\<lparr>atexit_heap := (atexit_heap v)(a := None)\<rparr>) \<and> tss_exits (v\<lparr>atexit_heap := (atexit_heap v)(a := None)\<rparr>) (L(me := []))"
  | (many) "2 \<le> length (L me)"
proof (cases "specific w me")
  case None
  then have "L me = []" using ex by (auto simp: tss_exits_def key_set_def)
  then show ?thesis using idle[of w] None ex exit_stops[of w me n call] by simp
next
  case (Some k)
  obtain n' where n': "n = Suc n'" using n by (cases n) auto
  have rel: "atexit_rel w L {}" and ks: "\<And>t. L t \<noteq> [] \<Longrightarrow> key_set t w" using ex by (auto simp: tss_exits_def)
  let ?w = "w\<lparr>specific := (specific w)(me := None)\<rparr>"
  obtain r w1 where w1: "pthread_setspecific me None ?w = (r, w1)" "host_only ?w w1" "specific w1 = (specific w)(me := None)" "next_free w1 = next_free w"
    by (cases me "None :: ptr" ?w rule: pthread_setspecific_cases) auto
  have f1: "atexit_heap w1 = atexit_heap w" "thread_atexit_items w1 = thread_atexit_items w" "atexit_world.more w1 = atexit_world.more w" using w1(2) by (simp_all add: host_only_def)
  have rel1: "atexit_rel w1 L {}" by (rule rel_same[OF rel]) (simp_all add: f1 w1(4))
  let ?w2 = "w1\<lparr>thread_atexit_items := (thread_atexit_items w1)(me := None)\<rparr>"
  have run: "pthread_exit n call me w = do { w \<leftarrow> run_items call (thread_atexit_items w1 me) ?w2; pthread_exit n' call me w }"
    using Some w1(1) by (simp add: n' thread_atexit_run_def)
  have ks2: "L t \<noteq> [] \<Longrightarrow> t \<noteq> me \<Longrightarrow> key_set t ?w2" for t using ks[of t] w1(3) by (simp add: key_set_def)
  consider "L me = []" | a c where "L me = [(a, c)]" | "2 \<le> length (L me)" by (cases "L me" rule: remdups_adj.cases) auto
  then show ?thesis
  proof cases
    case 1
    have "thread_atexit_items w1 me = None" using rel_head[OF rel1, of me] 1 by simp
    then have "pthread_exit n call me w = Some ?w2" using run w1(3) by (simp add: run_items.simps exit_stops)
    moreover have "atexit_rel ?w2 L {}" using rel_detach[OF rel1, of me] 1 by (simp add: fun_upd_idem)
    ultimately show ?thesis using idle[of ?w2] 1 f1 ks2 w1(4) by (auto simp: tss_exits_def)
  next
    case (2 a c)
    let ?w0 = "?w2\<lparr>exit_calls := exit_calls ?w2 @ [c]\<rparr>"
    have items: "thread_atexit_items w1 me = Some a" using rel_head[OF rel1, of me] 2 by simp
    have cell: "atexit_heap w1 a = Some \<lparr>item_func = fst c, item_obj = snd c, item_next = None\<rparr>" using rel1 2 unfolding atexit_rel_def by (metis chain.simps)
    have rel0: "atexit_rel ?w2 (L(me := [])) {a}" using rel_detach[OF rel1, of me] 2 by simp
    have "pthread_exit n call me w = Some v' \<and> tss_exits v' (L(me := []))" if v: "call c ?w0 = Some v" "exits_untouched ?w0 v"
      and v': "v' = v\<lparr>atexit_heap := (atexit_heap v)(a := None)\<rparr>" for v v'
    proof
      have f: "atexit_heap v = atexit_heap w1" "thread_atexit_items v = thread_atexit_items ?w2" "specific v = specific w1" "next_free w1 \<le> next_free v"
        using v(2) by (simp_all add: exits_untouched_def)
      have "run_items call (thread_atexit_items w1 me) ?w2 = Some v'"
        using items cell v(1) f(1) v' by (subst run_items.simps) (simp add: run_items.simps[of call None] free_item_def)
      then show "pthread_exit n call me w = Some v'" using run f(3) w1(3) v' by (simp add: exit_stops)
      have "atexit_rel v (L(me := [])) {a}" by (rule rel_same[OF rel0]) (simp_all add: f)
      then have "atexit_rel v' (L(me := [])) {}" unfolding v' by (rule rel_drop) simp
      then show "tss_exits v' (L(me := []))" using ks2 f(3) v' by (auto simp: tss_exits_def key_set_def)
    qed
    then show ?thesis using one[OF 2, of ?w0] f1 w1(4) by simp
  next
    case 3
    then show ?thesis by (rule many)
  qed
qed

lemma tss_core_more: "atexit_world.more w' = atexit_world.more w \<Longrightarrow> tss_core w p V L m \<Longrightarrow> tss_core w' p V L m"
  using tss_ext_same[of w' w] unfolding tss_core_def
  by (auto simp: tss_values_def tss_table_def tss_refs_def ids_ok_def generations_def intro: holds_cong)

lemma tss_refs_registered: "tss_core w p V L m \<Longrightarrow> L me \<noteq> [] \<Longrightarrow> V me \<noteq> None \<and> map snd (L me) = [(DEINIT, tss_state m)]"
  by (simp add: tss_core_def tss_refs_def live_threads_def)

text \<open>
  The exit of a thread destroys its value, if its exit callback is registered, and takes it out
  of the table; nothing else happens.
\<close>

lemma tss_exit_ok:
  assumes inv: "tss_inv w p V L" and cb: "good_callbacks J create destroy" and own: "owns J w (values_of V)" and n: "0 < n"
  shows "\<exists>w'. pthread_exit n (exit_call destroy me) me w = Some w' \<and> tss_inv w' p (if L me = [] then V else V(me := None)) (L(me := []))
    \<and> destroyed w' = destroyed w @ (if L me = [] then [] else [V me]) \<and> unat (tss_generation_counter w') \<le> unat (tss_generation_counter w)
    \<and> generations w' \<subseteq> generations w \<and> owns J w' (values_of (if L me = [] then V else V(me := None)))"
proof -
  obtain m where m: "tss_exits w L" "tss_core w p V L m" using inv by (auto simp: tss_inv_def)
  show ?thesis
  proof (rule thread_exit_cases[OF m(1) n, of me "exit_call destroy me"], goal_cases)
    case (1 w')
    have "owns J w' (values_of V)" by (rule owns_frame[OF cb own tss_more_same[OF 1(3)]]) (simp add: 1(5))
    then show ?case using 1 tss_core_more[OF 1(3) m(2)] tss_ext_same[OF 1(3)] by (auto simp: tss_inv_def fun_upd_idem generations_def)
  next
    case (2 a c w0)
    note one = 2
    have V: "V me \<noteq> None" and c: "c = (DEINIT, tss_state m)" using tss_refs_registered[OF m(2), of me] one(1) by simp_all
    have core0: "tss_core w0 p V L m" by (rule tss_core_more[OF one(2) m(2)])
    have own0: "owns J w0 (values_of V)" by (rule owns_frame[OF cb own tss_more_same[OF one(2)]]) (simp add: one(3))
    obtain r v m' where d: "tss_async_signal_safe_thread_deinit destroy me (tss_state m) w0 = Some (r, v)" "tss_core v p (V(me := None)) (L(me := [])) m'"
      "exits_untouched w0 v" "destroyed v = destroyed w0 @ [V me]" "unat (tss_generation_counter v) \<le> unat (tss_generation_counter w0)"
      "generations v \<subseteq> generations w0" "owns J v (values_of (V(me := None)))"
      using deinit_ok[OF core0 V cb own0] by (elim exE conjE) (rule that)
    have "exit_call destroy me c w0 = Some v" using d(1) by (simp add: exit_call_def c)
    note run = one(4)[OF this d(3)]
    have "tss_core (v\<lparr>atexit_heap := (atexit_heap v)(a := None)\<rparr>) p (V(me := None)) (L(me := [])) m'" by (rule tss_core_more[OF _ d(2)]) simp
    then have "tss_inv (v\<lparr>atexit_heap := (atexit_heap v)(a := None)\<rparr>) p (V(me := None)) (L(me := []))" using run unfolding tss_inv_def by blast
    moreover have "owns J (v\<lparr>atexit_heap := (atexit_heap v)(a := None)\<rparr>) (values_of (V(me := None)))" by (rule owns_frame[OF cb d(7)]) simp_all
    ultimately show ?case using run d(4-6) one(1) tss_ext_same[OF one(2)] by (simp add: generations_def)
  next
    case 3
    note many = 3
    then have "L me \<noteq> []" by auto
    then have "length (map snd (L me)) = 1" using tss_refs_registered[OF m(2), of me] by simp
    then show ?case using many by simp
  qed
qed

section \<open>Destroying an instance\<close>

definition map_values :: "('k \<rightharpoonup> 'v) \<Rightarrow> 'v multiset" where
  "map_values M = image_mset (\<lambda>k. the (M k)) (mset_set (dom M))"

lemma map_values_remove: "finite (dom M) \<Longrightarrow> M k = Some v \<Longrightarrow> map_values M = add_mset v (map_values (M(k := None)))"
proof -
  assume f: "finite (dom M)" and k: "M k = Some v"
  have "mset_set (dom M) = add_mset k (mset_set (dom M - {k}))" using f k by (intro mset_set.remove) auto
  moreover have "image_mset (\<lambda>x. the (M x)) (mset_set (dom M - {k})) = image_mset (\<lambda>x. the ((M(k := None)) x)) (mset_set (dom M - {k}))"
    using f by (intro image_mset_cong) auto
  moreover have "dom (M(k := None)) = dom M - {k}" by auto
  ultimately show ?thesis using k by (simp add: map_values_def)
qed

lemma holds_values:
  assumes "tls_holds w M V" "ids_ok w" "vt_wf vt_hash_integer M"
  shows "map_values (vt_map M) = image_mset V (mset_set (live_threads V))"
proof -
  have dom: "dom (vt_map M) = key_of w ` live_threads V" and inj: "inj_on (key_of w) (live_threads V)"
    using holds_dom[OF assms(1,2)] by (simp_all add: live_threads_def)
  have "map_values (vt_map M) = image_mset (\<lambda>k. the (vt_map M k)) (image_mset (key_of w) (mset_set (live_threads V)))"
    unfolding map_values_def dom by (simp add: image_mset_mset_set[OF inj])
  also have "\<dots> = image_mset V (mset_set (live_threads V))"
    unfolding multiset.map_comp using holds_card(2)[OF assms] tls_holdsD(1,2)[OF assms(1)]
    by (intro image_mset_cong) (auto simp: live_threads_def)
  finally show ?thesis .
qed

lemma erased_front:
  assumes er: "erased j adv c c'" and front: "\<And>x. x < j \<Longrightarrow> c x = None" and x: "x < (if adv then Suc j else j)"
  shows "c' x = None"
proof (rule ccontr)
  assume "c' x \<noteq> None"
  then obtain q where q: "c' x = Some q" by blast
  then obtain y where y: "y \<noteq> j" "c y = Some q" using er unfolding erased_def by blast
  then have "j < y" using front[of y] by (cases "y < j") auto
  then obtain z where z: "if adv then j < z else j \<le> z" "c' z = Some q" using er y(2) unfolding erased_def by blast
  have "keys_once c'" using er unfolding erased_def by blast
  then have "x = z" using q z(2) unfolding keys_once_def by (cases q) blast
  then show False using z(1) x by (auto split: if_splits)
qed

text \<open>Erasing at an iterator gives an iterator to the first of the remaining entries.\<close>

lemma erase_itr_front:
  assumes ok: "vt_ok HASH_FN k t" and j: "\<not> vt_is_end it" "j < 2 ^ k" "data it = Some j" "metadatum it = Some j" "metadata_end it = Some (2 ^ k)"
      "home_bucket it = SIZE_MAX" "cont t j = Some (key, v)" and front: "\<And>x. x < j \<Longrightarrow> cont t x = None"
  obtains it' t' i where "vt_erase_itr HASH_FN it t = Some (it', t')" "vt_ok HASH_FN k t'" "vt_map t' = (vt_map t)(key := None)" "key_count t' = key_count t - 1"
    "itr_from t' i it'" "i \<le> 2 ^ k" "\<And>x. x < i \<Longrightarrow> cont t' x = None"
proof -
  have "itr_at HASH_FN k key j it" using j(4,6) by (simp add: itr_at_def)
  from erase_itr_raw_ok[OF ok j(7) this] obtain adv t' where t': "vt_erase_itr_raw HASH_FN it t = Some (adv, t')" "vt_ok HASH_FN k t'" "vt_map t' = (vt_map t)(key := None)"
    "key_count t' = key_count t - 1" "erased j adv (cont t) (cont t')" by blast
  note fr = erased_front[OF t'(5) front]
  show ?thesis
  proof (cases adv)
    case True
    from vt_next_from[OF t'(2) j(3,4,2,5)] obtain it' where "vt_next t' it = Some it'" "itr_from t' (Suc j) it'" by blast
    then show ?thesis using that[of it' t' "Suc j"] t' True fr j(2) by (simp add: vt_erase_itr_def)
  next
    case False
    then have "cont t' j \<noteq> None" using t'(5) by (auto simp: erased_def)
    then have "itr_from t' j it" unfolding itr_from_def
      using j by (intro exI[of _ j]) (simp add: vt_bucket_count_shape[OF vt_okD(6)[OF t'(2)]])
    then show ?thesis using that[of it t' j] t' False fr j(2) by (simp add: vt_erase_itr_def)
  qed
qed

lemma user_only_trans: "user_only w w' \<Longrightarrow> user_only w' w'' \<Longrightarrow> user_only w w''"
  unfolding user_only_def by simp

text \<open>
  The drain loop of \<^verbatim>\<open>destroy\<close>: it ends with an empty table, has handed every value to the
  destruction callback once, and changed nothing else.
\<close>

lemma destroy_values_ok:
  assumes "tss_heap w p = Some m" "tss_lock m = 1" "thread_id_to_tls_map m = t" "vt_ok vt_hash_integer k t" "itr_from t i it" "i \<le> 2 ^ k"
    "\<forall>x < i. cont t x = None" and cb: "good_callbacks J create destroy" and own: "owns J w (map_values (vt_map t) + N)"
  shows "\<exists>w' t' vs. destroy_values destroy (Some p) me it w = Some w' \<and> user_only (w\<lparr>tss_heap := (tss_heap w)(p \<mapsto> m\<lparr>thread_id_to_tls_map := t'\<rparr>), destroyed := destroyed w @ vs\<rparr>) w'
    \<and> vt_ok vt_hash_integer k t' \<and> vt_map t' = Map.empty \<and> mset vs = map_values (vt_map t) \<and> owns J w' N"
  using assms(1-7) own
proof (induction "key_count t" arbitrary: w m t i it rule: less_induct)
  case less
  note ok = less.prems(4)
  have fin: "finite (dom (vt_map t))" and kc: "key_count t = card (dom (vt_map t))" using key_count_dom[of vt_hash_integer t] ok by (auto simp: vt_wf_def)
  show ?case
  proof (rule itr_fromE[OF ok less.prems(5,6)])
    assume e: "vt_is_end it" and none: "\<And>x. i \<le> x \<Longrightarrow> x < 2 ^ k \<Longrightarrow> cont t x = None"
    have "cont t x = None" for x
      using none[of x] less.prems(7) cont_bound[of t x] vt_okD(8)[OF ok] by (cases "cont t x"; cases "x < i") auto
    then have "vt_entries t = []" by (simp add: vt_entries_def map_filter_None)
    then have empty: "vt_map t = Map.empty" by (simp add: vt_map_def)
    have "w\<lparr>tss_heap := (tss_heap w)(p \<mapsto> m\<lparr>thread_id_to_tls_map := t\<rparr>), destroyed := destroyed w @ []\<rparr> = w"
      using less.prems(1,3) by (cases w; cases m) (auto simp: fun_upd_idem)
    then have "user_only (w\<lparr>tss_heap := (tss_heap w)(p \<mapsto> m\<lparr>thread_id_to_tls_map := t\<rparr>), destroyed := destroyed w @ []\<rparr>) w" by simp
    moreover have "owns J w N" using less.prems(8) empty by (simp add: map_values_def)
    ultimately show ?thesis using e ok empty by (subst destroy_values.simps) (auto simp: map_values_def intro!: exI[of _ t] exI[of _ "[]"])
  next
    fix j b
    assume j: "\<not> vt_is_end it" "i \<le> j" "j < 2 ^ k" "data it = Some j" "metadatum it = Some j" "metadata_end it = Some (2 ^ k)"
      "home_bucket it = SIZE_MAX" "cont t j = Some b" "bucket_at t j = Some b" "\<And>x. i \<le> x \<Longrightarrow> x < j \<Longrightarrow> cont t x = None"
    obtain key v where b: "b = (key, v)" by (cases b)
    have cj: "cont t j = Some (key, v)" using j(8) b by simp
    have front: "cont t x = None" if "x < j" for x using j(10)[of x] less.prems(7) that by (cases "i \<le> x") auto
    obtain it' t' i' where e: "vt_erase_itr vt_hash_integer it t = Some (it', t')" "vt_ok vt_hash_integer k t'" "vt_map t' = (vt_map t)(key := None)" "key_count t' = key_count t - 1"
      "itr_from t' i' it'" "i' \<le> 2 ^ k" "\<And>x. x < i' \<Longrightarrow> cont t' x = None"
      by (rule erase_itr_front[OF ok j(1,3-7) cj front]) (assumption, rule that)
    have key: "vt_map t key = Some v" using vt_map_Some[OF vt_okD(5)[OF ok]] cj by blast
    have "dom (vt_map t) \<noteq> {}" using key by auto
    then have less: "key_count t' < key_count t" using e(4) kc fin by (simp add: card_gt_0_iff)
    let ?u = "w\<lparr>tss_heap := (tss_heap w)(p \<mapsto> m\<lparr>thread_id_to_tls_map := t', tss_lock := 0\<rparr>), destroyed := destroyed w @ [v]\<rparr>"
    have own': "owns J w (add_mset v (map_values (vt_map t') + N))" using less.prems(8) map_values_remove[OF fin key] e(3) by simp
    obtain r w2 where d: "destroy (attr_destroy m) me v ?u = Some (r, w2)" "user_only ?u w2" "owns J w2 (map_values (vt_map t') + N)"
      by (rule good_destroy[OF cb own', of ?u]) (simp, simp, rule that)
    let ?m3 = "m\<lparr>thread_id_to_tls_map := t'\<rparr>" and ?w3 = "w2\<lparr>tss_heap := (tss_heap w)(p \<mapsto> m\<lparr>thread_id_to_tls_map := t'\<rparr>)\<rparr>"
    have m3: "m\<lparr>thread_id_to_tls_map := t', tss_lock := 1\<rparr> = ?m3" using less.prems(2) by (cases m) simp
    have h2: "tss_heap w2 = tss_heap ?u" using d(2) by (simp add: user_only_def)
    have step: "destroy_values destroy (Some p) me it w = destroy_values destroy (Some p) me it' ?w3"
      using j(1,4,9) b e(1) d(1) less.prems(1-3) h2
      by (subst destroy_values.simps) (simp add: tls_val_def tss_prims m3)
    have e7: "\<forall>x < i'. cont t' x = None" using e(7) by blast
    have own3: "owns J ?w3 (map_values (vt_map t') + N)" by (rule owns_frame[OF cb d(3)]) simp_all
    have h3: "tss_heap ?w3 p = Some ?m3" "tss_lock ?m3 = 1" "thread_id_to_tls_map ?m3 = t'" using less.prems(2) by simp_all
    obtain w' t'' vs where IH: "destroy_values destroy (Some p) me it' ?w3 = Some w'"
      "user_only (?w3\<lparr>tss_heap := (tss_heap ?w3)(p \<mapsto> ?m3\<lparr>thread_id_to_tls_map := t''\<rparr>), destroyed := destroyed ?w3 @ vs\<rparr>) w'"
      "vt_ok vt_hash_integer k t''" "vt_map t'' = Map.empty" "mset vs = map_values (vt_map t')" "owns J w' N"
      using less.hyps[OF less h3 e(2,5,6) e7 own3] by (elim exE conjE) (rule that)
    have "user_only (w\<lparr>tss_heap := (tss_heap w)(p \<mapsto> m\<lparr>thread_id_to_tls_map := t''\<rparr>), destroyed := destroyed w @ (v # vs)\<rparr>) w'"
      using IH(2) d(2) by (auto simp: user_only_def)
    moreover have "mset (v # vs) = map_values (vt_map t)" using map_values_remove[OF fin key] IH(5) e(3) by simp
    ultimately show ?thesis using step IH(1,3,4,6) by (intro exI[of _ w'] exI[of _ t''] exI[of _ "v # vs"]) simp
  qed
qed

text \<open>
  The state after an instance is gone: every value that was created has been destroyed, and the
  shared state waits for the \<open>R\<close> references that threads still hold.
\<close>

definition tss_gone :: "'z tss_world_scheme \<Rightarrow> nat \<Rightarrow> (thread \<Rightarrow> (addr \<times> callback) list) \<Rightarrow> bool" where
  "tss_gone w R L \<longleftrightarrow> tss_exits w L \<and> mset (created w) = mset (destroyed w) \<and> R \<le> 2048 \<and> finite {t. L t \<noteq> []} \<and> card {t. L t \<noteq> []} \<le> R \<and>
     (\<exists>s. deinit_states w = (if R = 0 then Map.empty else [s \<mapsto> \<lparr>ds_count = of_nat R, ds_val = None\<rparr>]) \<and>
       (\<forall>t. L t \<noteq> [] \<longrightarrow> map snd (L t) = [(DEINIT, Some s)]))"

lemma destroy_ok:
  assumes inv: "tss_inv w p V L" and cb: "good_callbacks J create destroy" and own: "owns J w (values_of V)"
  shows "\<exists>w' vs. tss_async_signal_safe_destroy destroy me (Some p) w = Some (0, w') \<and> tss_heap w' = (tss_heap w)(p := None) \<and> table_blocks w' = 0
    \<and> tss_gone w' (card (live_threads V)) L \<and> destroyed w' = destroyed w @ vs \<and> mset vs = values_of V \<and> owns J w' {#}"
proof -
  obtain m where m: "tss_exits w L" "tss_core w p V L m" using inv by (auto simp: tss_inv_def)
  note c = tss_coreD[OF m(2)]
  let ?M = "thread_id_to_tls_map m" and ?R = "card (live_threads V)"
  let ?ds = "case tss_state m of None \<Rightarrow> Map.empty | Some s \<Rightarrow> [s \<mapsto> \<lparr>ds_count = of_nat ?R, ds_val = None\<rparr>]"
  define w1 where "w1 = w\<lparr>deinit_states := ?ds, tss_heap := (tss_heap w)(p \<mapsto> m\<lparr>tss_lock := 1, tss_state := None\<rparr>)\<rparr>"
  have ds: "deinit_states w = (case tss_state m of None \<Rightarrow> Map.empty | Some s \<Rightarrow> [s \<mapsto> \<lparr>ds_count = of_nat ?R, ds_val = Some p\<rparr>])"
    "tss_state m = None \<longleftrightarrow> live_threads V = {}" using c(7) by (simp_all add: tss_refs_def)
  have "owns J w (map_values (vt_map ?M) + {#})" using own holds_values[OF c(4,5,3)] by simp
  then have own1: "owns J w1 (map_values (vt_map ?M) + {#})" by (rule owns_frame[OF cb]) (simp_all add: w1_def)
  have h1: "tss_heap w1 p = Some (m\<lparr>tss_lock := 1, tss_state := None\<rparr>)" by (simp add: w1_def)
  obtain it w2 t vs where loop: "vt_first ?M = Some it" "destroy_values destroy (Some p) me it w1 = Some w2"
    "user_only (w1\<lparr>tss_heap := (tss_heap w1)(p \<mapsto> m\<lparr>tss_lock := 1, tss_state := None, thread_id_to_tls_map := t\<rparr>), destroyed := destroyed w1 @ vs\<rparr>) w2"
    "vt_wf vt_hash_integer t" "owned t = owned ?M" "mset vs = map_values (vt_map ?M)" "owns J w2 {#}"
  proof (cases "key_count ?M = 0")
    case True
    then have "vt_map ?M = Map.empty" using key_count_dom[OF c(3)] by simp
    moreover have "m\<lparr>tss_lock := 1, tss_state := None, thread_id_to_tls_map := ?M\<rparr> = m\<lparr>tss_lock := 1, tss_state := None\<rparr>" by (cases m) simp
    moreover have "destroy_values destroy (Some p) me vt_end_itr w1 = Some w1" by (subst destroy_values.simps) simp
    ultimately show ?thesis using that[of vt_end_itr w1 "[]" ?M] True c(3) h1 own1
      by (simp add: vt_first_def map_values_def user_only_def fun_upd_idem)
  next
    case False
    then obtain k where k: "vt_ok vt_hash_integer k ?M" using c(3) by (auto simp: vt_wf_def)
    from vt_first_from[OF k] False obtain it where it: "vt_first ?M = Some it" "itr_from ?M 0 it" by auto
    obtain w2 t vs where D: "destroy_values destroy (Some p) me it w1 = Some w2"
      "user_only (w1\<lparr>tss_heap := (tss_heap w1)(p \<mapsto> m\<lparr>tss_lock := 1, tss_state := None, thread_id_to_tls_map := t\<rparr>), destroyed := destroyed w1 @ vs\<rparr>) w2"
      "vt_ok vt_hash_integer k t" "vt_map t = Map.empty" "mset vs = map_values (vt_map ?M)" "owns J w2 {#}"
      using destroy_values_ok[OF h1 _ _ k it(2) _ _ cb own1, of me] by auto
    show ?thesis using that[OF it(1) D(1,2) _ _ D(5,6)] D(3) k owned_shape[OF vt_okD(6)[OF k]] owned_shape[OF vt_okD(6)[OF D(3)]] by (auto simp: vt_wf_def)
  qed
  have h2: "tss_heap w2 = (tss_heap w)(p \<mapsto> m\<lparr>tss_lock := 1, tss_state := None, thread_id_to_tls_map := t\<rparr>)" "table_blocks w2 = owned t"
    using loop(3,5) c(6) by (simp_all add: user_only_def w1_def)
  define w' where "w' = w2\<lparr>table_blocks := 0, tss_heap := (tss_heap w)(p := None)\<rparr>"
  have w1: "tss_state m = None \<Longrightarrow> w1 = w\<lparr>tss_heap := (tss_heap w)(p \<mapsto> m\<lparr>tss_lock := 1\<rparr>)\<rparr>"
    "tss_state m = Some s \<Longrightarrow> w1 = w\<lparr>deinit_states := [s \<mapsto> \<lparr>ds_count = of_nat ?R, ds_val = None\<rparr>], tss_heap := (tss_heap w)(p \<mapsto> m\<lparr>tss_lock := 1, tss_state := None\<rparr>)\<rparr>" for s
    using ds(1) by (cases w; cases m; simp add: w1_def)+
  have run: "tss_async_signal_safe_destroy destroy me (Some p) w = Some (0, w')"
  proof (cases "tss_state m")
    case None
    then show ?thesis using c(1,2) loop(1,2,4) h2
      by (simp add: tss_async_signal_safe_destroy_def tss_prims vt_cleanup_ok table_alloc_def w'_def w1(1)[OF None])
  next
    case (Some s)
    then show ?thesis using c(1,2) loop(1,2,4) h2 ds(1)
      by (simp add: tss_async_signal_safe_destroy_def tss_prims vt_cleanup_ok table_alloc_def w'_def w1(2)[OF Some])
  qed
  have "tss_gone w' ?R L"
  proof -
    have ex: "tss_exits w' L" by (rule tss_exits_same[OF m(1)]) (use loop(3) in \<open>simp_all add: w'_def w1_def user_only_def\<close>)
    have vals: "mset (created w') = mset (destroyed w')"
      using c(8) loop(3,6) holds_values[OF c(4,5,3)] by (simp add: tss_values_def w'_def w1_def user_only_def)
    have sub: "{t. L t \<noteq> []} \<subseteq> live_threads V" using c(7) by (auto simp: tss_refs_def)
    have small: "?R \<le> 2048" using wf_small[OF c(3)] c(10) by simp
    have R0: "?R = 0 \<longleftrightarrow> tss_state m = None" using ds(2) c(9) by simp
    have "deinit_states w' = ?ds" using loop(3) by (simp add: w'_def w1_def user_only_def)
    then have "deinit_states w' = (if ?R = 0 then Map.empty else [the (tss_state m) \<mapsto> \<lparr>ds_count = of_nat ?R, ds_val = None\<rparr>])"
      using R0 by (auto split: option.splits)
    moreover have "\<forall>t. L t \<noteq> [] \<longrightarrow> map snd (L t) = [(DEINIT, Some (the (tss_state m)))]"
      using tss_refs_registered[OF m(2)] ds(2) sub by (auto simp: live_threads_def)
    ultimately show ?thesis unfolding tss_gone_def using ex vals small finite_subset[OF sub c(9)] card_mono[OF c(9) sub] by blast
  qed
  moreover have "owns J w' {#}" by (rule owns_frame[OF cb loop(7)]) (simp_all add: w'_def)
  ultimately show ?thesis using run loop(3,6) holds_values[OF c(4,5,3)] by (auto simp: w'_def w1_def user_only_def)
qed

text \<open>The exit of a thread after the instance is gone only drops its reference.\<close>

lemma gone_exit_ok:
  assumes gone: "tss_gone w R L" and n: "0 < n"
  shows "\<exists>w'. pthread_exit n (exit_call destroy me) me w = Some w' \<and> tss_gone w' (if L me = [] then R else R - 1) (L(me := [])) \<and> destroyed w' = destroyed w"
proof -
  obtain s where g: "tss_exits w L" "mset (created w) = mset (destroyed w)" "R \<le> 2048" "finite {t. L t \<noteq> []}" "card {t. L t \<noteq> []} \<le> R"
    "deinit_states w = (if R = 0 then Map.empty else [s \<mapsto> \<lparr>ds_count = of_nat R, ds_val = None\<rparr>])" "\<forall>t. L t \<noteq> [] \<longrightarrow> map snd (L t) = [(DEINIT, Some s)]"
    using gone unfolding tss_gone_def by (elim exE conjE) (rule that)
  show ?thesis
  proof (rule thread_exit_cases[OF g(1) n, of me "exit_call destroy me"], goal_cases)
    case (1 w')
    then show ?case using tss_ext_same[OF 1(3)] g by (auto simp: tss_gone_def fun_upd_idem)
  next
    case (2 a c w0)
    note f0 = tss_ext_same[OF 2(2)]
    have c: "c = (DEINIT, Some s)" using g(7)[rule_format, of me] 2(1) by simp
    have me: "me \<in> {t. L t \<noteq> []}" using 2(1) by simp
    have sub: "{t. (L(me := [])) t \<noteq> []} = {t. L t \<noteq> []} - {me}" by auto
    have card: "Suc (card {t. (L(me := [])) t \<noteq> []}) = card {t. L t \<noteq> []}" unfolding sub using g(4) me by (rule card_Suc_Diff1)
    then obtain R' where R: "R = Suc R'" using g(5) by (cases R) auto
    have "unat (of_nat R :: 32 word) = R" using g(3) by (simp add: unat_of_nat take_bit_nat_eq_self)
    then have last: "(of_nat R :: 32 word) = 1 \<longleftrightarrow> R' = 0" using R by (metis One_nat_def Suc_inject of_nat_1 unat_1)
    define v where "v = w0\<lparr>deinit_states := (if R' = 0 then Map.empty else [s \<mapsto> \<lparr>ds_count = of_nat R', ds_val = None\<rparr>])\<rparr>"
    have "tss_async_signal_safe_thread_deinit destroy me (Some s) w0 = Some (0, v)"
      using g(6) f0(2) last R by (cases "R' = 0") (simp_all add: tss_async_signal_safe_thread_deinit_def last_reference_def free_state_def v_def)
    then have call: "exit_call destroy me c w0 = Some v" by (simp add: exit_call_def c)
    have ex: "exits_untouched w0 v" by (simp add: exits_untouched_def v_def)
    note run = 2(4)[OF call ex]
    have "tss_gone (v\<lparr>atexit_heap := (atexit_heap v)(a := None)\<rparr>) R' (L(me := []))"
      unfolding tss_gone_def using run g f0 card R sub by (intro conjI exI[of _ s]) (auto simp: v_def)
    then show ?case using run f0 R 2(1) by (simp add: v_def)
  next
    case 3
    then have "L me \<noteq> []" by auto
    then have "length (map snd (L me)) = 1" using g(7)[rule_format, of me] by simp
    then show ?case using 3 by simp
  qed
qed

section \<open>Runs of an instance\<close>

datatype tss_op = Init thread | Get thread | Exit thread

definition tss_step ::
  "'z create_fn \<Rightarrow> 'z destroy_fn \<Rightarrow> nat \<Rightarrow> ptr \<Rightarrow> tss_op \<Rightarrow> 'z tss_world_scheme \<Rightarrow> (int \<times> 'z tss_world_scheme) option" where
  "tss_step create destroy n p op w =
     (case op of
        Init t \<Rightarrow> tss_async_signal_safe_thread_init create destroy t p w
      | Get t \<Rightarrow> do { (v, w) \<leftarrow> tss_async_signal_safe_get t p w; Some (0, w) }
      | Exit t \<Rightarrow> do { w \<leftarrow> pthread_exit n (exit_call destroy t) t w; Some (0, w) })"

fun tss_run ::
  "'z create_fn \<Rightarrow> 'z destroy_fn \<Rightarrow> nat \<Rightarrow> ptr \<Rightarrow> tss_op list \<Rightarrow> 'z tss_world_scheme \<Rightarrow> (int list \<times> 'z tss_world_scheme) option" where
  "tss_run create destroy n p [] w = Some ([], w)"
| "tss_run create destroy n p (op # ops) w = do {
     (r, w) \<leftarrow> tss_step create destroy n p op w;
     (rs, w) \<leftarrow> tss_run create destroy n p ops w;
     Some (r # rs, w)
   }"

fun exit_all :: "'z destroy_fn \<Rightarrow> nat \<Rightarrow> thread list \<Rightarrow> 'z tss_world_scheme \<Rightarrow> 'z tss_world_scheme option" where
  "exit_all destroy n [] w = Some w"
| "exit_all destroy n (t # ts) w = do {
     w \<leftarrow> pthread_exit n (exit_call destroy t) t w;
     exit_all destroy n ts w
   }"

text \<open>Every thread with a value will destroy it when it exits.\<close>

definition all_registered :: "(thread \<Rightarrow> ptr) \<Rightarrow> (thread \<Rightarrow> (addr \<times> callback) list) \<Rightarrow> bool" where
  "all_registered V L \<longleftrightarrow> (\<forall>t. V t \<noteq> None \<longrightarrow> L t \<noteq> [])"

text \<open>The threads that initialise, and those that draw a generation, in a sequence of operations.\<close>

definition init_threads :: "tss_op list \<Rightarrow> thread set" where
  "init_threads ops = {t. Init t \<in> set ops}"

definition key_threads :: "tss_op list \<Rightarrow> thread set" where
  "key_threads ops = {t. Init t \<in> set ops \<or> Get t \<in> set ops}"

lemma live_put_le: "finite (live_threads V) \<Longrightarrow> card (live_threads (V(me := v))) \<le> Suc (card (live_threads V))"
proof -
  assume f: "finite (live_threads V)"
  have "live_threads (V(me := v)) \<subseteq> insert me (live_threads V)" by (auto simp: live_threads_def)
  then have "card (live_threads (V(me := v))) \<le> card (insert me (live_threads V))" using f by (intro card_mono) auto
  then show ?thesis using f card_insert_le_m1[of "Suc (card (live_threads V))" "live_threads V" me] by (auto simp: card_insert_if split: if_splits)
qed

text \<open>
  Threads within \<open>A\<close> have values and threads within \<open>B\<close> have generations: with at most 1843
  threads in \<open>A\<close> and fewer than \<open>2 ^ 32\<close> in \<open>B\<close> there is room for each of them.
\<close>

definition within :: "thread set \<Rightarrow> thread set \<Rightarrow> (thread \<Rightarrow> ptr) \<Rightarrow> 'z tss_world_scheme \<Rightarrow> bool" where
  "within A B V w \<longleftrightarrow> finite A \<and> card A \<le> max_keys \<and> finite B \<and> card B < 2 ^ 32 \<and> live_threads V \<subseteq> A \<and> generations w \<subseteq> B"

lemma within_room:
  assumes "within A B V w" "t \<in> A"
  shows "V t = None \<longrightarrow> card (live_threads V) < max_keys"
proof
  assume "V t = None"
  then have "live_threads V \<subset> A" using assms by (auto simp: within_def live_threads_def)
  then show "card (live_threads V) < max_keys" using psubset_card_mono[of A "live_threads V"] assms(1) by (simp add: within_def)
qed

lemma within_generation:
  assumes "within A B V w" "t \<in> B" "tss_inv w p V L"
  shows "tss_generation_cached w t = 0 \<longrightarrow> unat (tss_generation_counter w) + 1 < 2 ^ 32"
proof
  assume "tss_generation_cached w t = 0"
  then have "generations w \<subset> B" using assms by (auto simp: within_def generations_def)
  then have "card (generations w) < card B" using assms(1) by (intro psubset_card_mono) (simp_all add: within_def)
  moreover have "ids_ok w" by (rule tss_invE[OF assms(3)])
  ultimately show "unat (tss_generation_counter w) + 1 < 2 ^ 32" using assms(1) by (simp add: within_def ids_ok_def)
qed

lemma tss_step_ok:
  assumes inv: "tss_inv w p V L" and wi: "within A B V w" and op: "init_threads [op] \<subseteq> A" "key_threads [op] \<subseteq> B"
    and cb: "good_callbacks J create destroy" and own: "owns J w (values_of V)" and n: "0 < n"
  shows "\<exists>r w' V' L'. tss_step create destroy n (Some p) op w = Some (r, w') \<and> tss_inv w' p V' L' \<and> within A B V' w'
    \<and> (all_registered V L \<and> r \<noteq> -1 \<longrightarrow> all_registered V' L') \<and> (\<forall>t. V' t \<noteq> None \<longrightarrow> V t \<noteq> None \<or> op = Init t) \<and> owns J w' (values_of V')"
proof (cases op)
  case (Init t)
  then have t: "t \<in> A" "t \<in> B" using op by (auto simp: init_threads_def key_threads_def)
  obtain r w' V' L' where I: "tss_async_signal_safe_thread_init create destroy t (Some p) w = Some (r, w')" "tss_inv w' p V' L'"
    "init_outcome t V L w r V' L' w'" "generations w' \<subseteq> insert t (generations w)" "owns J w' (values_of V')"
    using thread_init_ok[OF inv within_room[OF wi t(1)] within_generation[OF wi t(2) inv] cb own] by (elim exE conjE) (rule that)
  have V': "\<forall>u. V' u \<noteq> None \<longrightarrow> V u \<noteq> None \<or> op = Init u" using I(3) by (auto simp: init_outcome_def Init split: if_splits)
  then have "within A B V' w'" using wi t I(4) by (auto simp: within_def live_threads_def Init)
  moreover have "all_registered V L \<and> r \<noteq> -1 \<longrightarrow> all_registered V' L'" using I(3) by (auto simp: init_outcome_def all_registered_def split: if_splits)
  ultimately show ?thesis using I(1,2,5) V' by (intro exI[of _ r] exI[of _ w'] exI[of _ V'] exI[of _ L']) (simp add: Init tss_step_def)
next
  case (Get t)
  then have t: "t \<in> B" using op by (auto simp: key_threads_def)
  obtain w' where "tss_async_signal_safe_get t (Some p) w = Some (V t, w')" "tss_inv w' p V L" "generations w' \<subseteq> insert t (generations w)" "owns J w' (values_of V)"
    using get_ok[OF inv within_generation[OF wi t inv] cb own] by (elim exE conjE) (rule that)
  then show ?thesis using wi t by (intro exI[of _ 0] exI[of _ w'] exI[of _ V] exI[of _ L]) (auto simp: Get tss_step_def within_def)
next
  case (Exit t)
  let ?V = "if L t = [] then V else V(t := None)"
  obtain w' where w': "pthread_exit n (exit_call destroy t) t w = Some w'" "tss_inv w' p ?V (L(t := []))" "generations w' \<subseteq> generations w" "owns J w' (values_of ?V)"
    using tss_exit_ok[OF inv cb own n, of t] by (elim exE conjE) (rule that)
  moreover have "within A B ?V w'" using wi w'(3) by (auto simp: within_def live_threads_def)
  ultimately show ?thesis
    by (intro exI[of _ 0] exI[of _ w'] exI[of _ ?V] exI[of _ "L(t := [])"]) (auto simp: Exit tss_step_def all_registered_def)
qed

lemma threads_Cons:
  "init_threads (op # ops) = init_threads [op] \<union> init_threads ops" "key_threads (op # ops) = key_threads [op] \<union> key_threads ops"
  by (auto simp: init_threads_def key_threads_def)

lemma threads_finite [simp]: "finite (init_threads ops)" "finite (key_threads ops)"
proof -
  have "finite (init_threads [op])" "finite (key_threads [op])" for op by (cases op; simp add: init_threads_def key_threads_def)+
  moreover have "init_threads [] = {}" "key_threads [] = {}" by (simp_all add: init_threads_def key_threads_def)
  ultimately show "finite (init_threads ops)" "finite (key_threads ops)"
    by (induction ops) (metis finite.emptyI finite_UnI threads_Cons)+
qed

lemma tss_run_ok:
  assumes "tss_inv w p V L" "within A B V w" "init_threads ops \<subseteq> A" "key_threads ops \<subseteq> B" "owns J w (values_of V)"
    and cb: "good_callbacks J create destroy" and n: "0 < n"
  shows "\<exists>rs w' V' L'. tss_run create destroy n (Some p) ops w = Some (rs, w') \<and> tss_inv w' p V' L' \<and> within A B V' w'
    \<and> (all_registered V L \<and> -1 \<notin> set rs \<longrightarrow> all_registered V' L') \<and> (\<forall>t. V' t \<noteq> None \<longrightarrow> V t \<noteq> None \<or> Init t \<in> set ops) \<and> owns J w' (values_of V')"
  using assms(1-5)
proof (induction ops arbitrary: w V L)
  case Nil
  then show ?case by auto
next
  case (Cons op ops)
  have sub: "init_threads [op] \<subseteq> A" "key_threads [op] \<subseteq> B" "init_threads ops \<subseteq> A" "key_threads ops \<subseteq> B"
    using Cons.prems(3,4) threads_Cons[of op ops] by auto
  obtain r w1 V1 L1 where S: "tss_step create destroy n (Some p) op w = Some (r, w1)" "tss_inv w1 p V1 L1" "within A B V1 w1"
    "all_registered V L \<and> r \<noteq> -1 \<longrightarrow> all_registered V1 L1" "\<forall>t. V1 t \<noteq> None \<longrightarrow> V t \<noteq> None \<or> op = Init t" "owns J w1 (values_of V1)"
    using tss_step_ok[OF Cons.prems(1,2) sub(1,2) cb Cons.prems(5) n] by (elim exE conjE) (rule that)
  obtain rs w' V' L' where R: "tss_run create destroy n (Some p) ops w1 = Some (rs, w')" "tss_inv w' p V' L'" "within A B V' w'"
    "all_registered V1 L1 \<and> -1 \<notin> set rs \<longrightarrow> all_registered V' L'" "\<forall>t. V' t \<noteq> None \<longrightarrow> V1 t \<noteq> None \<or> Init t \<in> set ops" "owns J w' (values_of V')"
    using Cons.IH[OF S(2,3) sub(3,4) S(6)] by (elim exE conjE) (rule that)
  have reg: "all_registered V L \<and> -1 \<notin> set (r # rs) \<longrightarrow> all_registered V' L'" using S(4) R(4) by auto
  have "V t \<noteq> None \<or> Init t \<in> set (op # ops)" if "V' t \<noteq> None" for t
    using R(5)[rule_format, OF that] S(5)[rule_format, of t] by auto
  then show ?case using S(1) R(1,2,3,6) reg by (intro exI[of _ "r # rs"] exI[of _ w'] exI[of _ V'] exI[of _ L']) simp
qed

lemma exit_all_ok:
  assumes "tss_gone w R L" "0 < n"
  shows "\<exists>w' R'. exit_all destroy n ts w = Some w' \<and> tss_gone w' R' (\<lambda>t. if t \<in> set ts then [] else L t) \<and> destroyed w' = destroyed w
    \<and> (R = card {t. L t \<noteq> []} \<longrightarrow> R' = card {t. t \<notin> set ts \<and> L t \<noteq> []})"
  using assms(1)
proof (induction ts arbitrary: w R L)
  case Nil
  then show ?case by auto
next
  case (Cons t ts)
  let ?R = "if L t = [] then R else R - 1"
  obtain w1 where w1: "pthread_exit n (exit_call destroy t) t w = Some w1" "tss_gone w1 ?R (L(t := []))" "destroyed w1 = destroyed w"
    using gone_exit_ok[OF Cons.prems assms(2), of destroy t] by (elim exE conjE) (rule that)
  obtain w' R' where w': "exit_all destroy n ts w1 = Some w'" "tss_gone w' R' (\<lambda>u. if u \<in> set ts then [] else (L(t := [])) u)" "destroyed w' = destroyed w1"
    "?R = card {u. (L(t := [])) u \<noteq> []} \<longrightarrow> R' = card {u. u \<notin> set ts \<and> (L(t := [])) u \<noteq> []}"
    using Cons.IH[OF w1(2)] by (elim exE conjE) (rule that)
  have L: "(\<lambda>u. if u \<in> set ts then [] else (L(t := [])) u) = (\<lambda>u. if u \<in> set (t # ts) then [] else L u)" by auto
  have s: "{u. u \<notin> set ts \<and> (L(t := [])) u \<noteq> []} = {u. u \<notin> set (t # ts) \<and> L u \<noteq> []}" by auto
  have d: "{u. (L(t := [])) u \<noteq> []} = {u. L u \<noteq> []} - {t}" by auto
  have fin: "finite {u. L u \<noteq> []}" using Cons.prems by (simp add: tss_gone_def)
  have "R = card {u. L u \<noteq> []} \<longrightarrow> ?R = card {u. (L(t := [])) u \<noteq> []}" unfolding d using fin by (simp add: card_Diff_singleton_if)
  then show ?case using w1 w' unfolding L s by (intro exI[of _ w'] exI[of _ R']) auto
qed

definition tss_init :: "bool list \<Rightarrow> 32 word \<Rightarrow> (thread \<Rightarrow> 64 word) \<Rightarrow> 'z \<Rightarrow> 'z tss_world_scheme" where
  "tss_init pl k tids u = \<lparr>atexit_heap = (\<lambda>_. None), thread_atexit_items = (\<lambda>_. None), thread_atexit_key = 0, once_done = False,
     host_key = k, specific = (\<lambda>_. None), next_free = 1, host_plan = pl, terrno = (\<lambda>_. 0), exit_calls = [],
     tss_heap = (\<lambda>_. None), deinit_states = (\<lambda>_. None), kernel_tid = tids, current_thread_id_cached = (\<lambda>_. 0), current_thread_id_mycache = (\<lambda>_. 0),
     tss_generation_cached = (\<lambda>_. 0), tss_generation_counter = 0, table_blocks = 0, created = [], destroyed = [], \<dots> = u\<rparr>"

lemma tss_create_ok:
  assumes "tss_async_signal_safe_create attr (tss_init pl k tids u) = (0, Some p, w)"
  shows "tss_inv w p (\<lambda>_. None) (\<lambda>_. [])" "tss_generation_counter w = 0 \<and> generations w = {}" "tss_heap w = [p \<mapsto> the (tss_heap w p)]" "tss_world.more w = u" "next_free w = 2" "p = 1"
proof -
  have w: "pl = [] \<or> hd pl" "p = 1" "w = (tss_init pl k tids u)\<lparr>host_plan := tl pl, next_free := 2, tss_heap := [1 \<mapsto> \<lparr>attr_create = fst attr, attr_destroy = snd attr,
             tss_lock = 0, tss_state = None, thread_id_to_tls_map = vt_init\<rparr>]\<rparr>"
    using assms by (cases "pl = [] \<or> hd pl"; auto simp: tss_async_signal_safe_create_def thread_alloc_def host_call_def tss_init_def)+
  show "tss_generation_counter w = 0 \<and> generations w = {}" "tss_heap w = [p \<mapsto> the (tss_heap w p)]" "tss_world.more w = u" "next_free w = 2" "p = 1" by (simp_all add: w tss_init_def generations_def)
  show "tss_inv w p (\<lambda>_. None) (\<lambda>_. [])"
    by (simp add: w tss_init_def tss_inv_def tss_core_def tss_exits_def tss_values_def tss_table_def tss_refs_def atexit_rel_def ids_ok_def generations_def tls_holds_def live_threads_def vt_wf_def)
qed

section \<open>What thread-specific storage promises\<close>


text \<open>Callbacks for the examples: the value of a thread is a number made from the thread's.\<close>

definition sample_create :: "unit create_fn" where
  "sample_create f t w = Some (0, Some (100 + t), w)"

definition sample_destroy :: "unit destroy_fn" where
  "sample_destroy f t v w = Some (0, w)"

lemma sample_callbacks: "good_callbacks (\<lambda>_ _ _. True) sample_create sample_destroy"
  by (simp add: good_callbacks_def owns_def sample_create_def sample_destroy_def)

definition sample_instance :: tss_world where
  "sample_instance = snd (snd (tss_async_signal_safe_create (1, 2) (tss_init [] 5 (\<lambda>t. 7) ())))"

lemma sample_instance_create: "tss_async_signal_safe_create (1, 2) (tss_init [] 5 (\<lambda>t. 7) ()) = (0, Some 1, sample_instance)"
  by (simp add: sample_instance_def tss_async_signal_safe_create_def thread_alloc_def host_call_def tss_init_def)


text \<open>
  C23 (thread values). After \<^verbatim>\<open>thread_init\<close> every thread's lookup finds its own value: for the
  calling thread the one that the creation callback has just made, or the one it had before,
  in which case nothing is created; for every other thread the one it had, whatever kernel ids
  the threads have.
\<close>

theorem thread_init_get_roundtrip:
  assumes inv: "tss_inv w p V L" and room: "card (live_threads V) < max_keys" and gens: "unat (tss_generation_counter w) + 2 < 2 ^ 32"
    and cb: "good_callbacks J create destroy" and own: "J (tss_world.more w) (next_free w) (values_of V)"
  shows "\<exists>r w1 v. tss_async_signal_safe_thread_init create destroy me (Some p) w = Some (r, w1)
    \<and> (r = 0 \<longrightarrow> v \<noteq> None \<and> (if V me = None then created w1 = created w @ [v] else v = V me \<and> created w1 = created w))
    \<and> (\<forall>t. \<exists>w2. tss_async_signal_safe_get t (Some p) w1 = Some (if t = me then v else V t, w2))"
proof -
  have gens': "tss_generation_cached w me = 0 \<longrightarrow> unat (tss_generation_counter w) + 1 < 2 ^ 32" and room': "V me = None \<longrightarrow> card (live_threads V) < max_keys"
    using gens room by simp_all
  obtain r w1 V' L' where I: "tss_async_signal_safe_thread_init create destroy me (Some p) w = Some (r, w1)" "tss_inv w1 p V' L'"
    "init_outcome me V L w r V' L' w1"
    "unat (tss_generation_counter w1) \<le> unat (tss_generation_counter w) + (if tss_generation_cached w me = 0 then 1 else 0)" "owns J w1 (values_of V')"
    using thread_init_ok[OF inv room' gens' cb own[folded owns_def]] by (elim exE conjE) (rule that)
  have "\<exists>w2. tss_async_signal_safe_get t (Some p) w1 = Some (V' t, w2)" for t
    using get_ok[OF I(2) _ cb I(5), of t] I(4) gens by (auto split: if_splits)
  moreover have "V' t = (if t = me then V' me else V t)" for t using I(3) by (auto simp: init_outcome_def split: if_splits)
  ultimately have "\<exists>w2. tss_async_signal_safe_get t (Some p) w1 = Some (if t = me then V' me else V t, w2)" for t by metis
  moreover have "r = 0 \<longrightarrow> V' me \<noteq> None \<and> (if V me = None then created w1 = created w @ [V' me] else V' me = V me \<and> created w1 = created w)"
    using I(3) by (auto simp: init_outcome_def split: if_splits)
  ultimately show ?thesis using I(1) by (intro exI[of _ r] exI[of _ w1] exI[of _ "V' me"]) simp
qed

theorem thread_init_get_roundtrip_witness:
  "\<exists>r w1 v. tss_async_signal_safe_thread_init sample_create sample_destroy 3 (Some 1) sample_instance = Some (r, w1)
    \<and> (\<forall>t. \<exists>w2. tss_async_signal_safe_get t (Some 1) w1 = Some (if t = 3 then v else None, w2))"
proof -
  note c = tss_create_ok[OF sample_instance_create]
  have "card (live_threads (\<lambda>_. None :: ptr)) < max_keys" "unat (tss_generation_counter sample_instance) + 2 < 2 ^ 32" using c(2) by (simp_all add: live_threads_def max_keys_def)
  from thread_init_get_roundtrip[OF c(1) this sample_callbacks TrueI, of 3] show ?thesis by blast
qed

text \<open>A thread with a value but no exit callback: asking again answers success, and its exit destroys nothing.\<close>

lemma unregistered_value_stays:
  assumes inv: "tss_inv w p V L" and me: "V me \<noteq> None" "L me = []" and gens: "unat (tss_generation_counter w) + 1 < 2 ^ 32"
    and cb: "good_callbacks J create destroy" and own: "owns J w (values_of V)" and n: "0 < n"
  shows "\<exists>w2 w3. tss_async_signal_safe_thread_init create destroy me (Some p) w = Some (0, w2) \<and> tss_inv w2 p V L
      \<and> pthread_exit n (exit_call destroy me) me w2 = Some w3 \<and> tss_inv w3 p V L \<and> destroyed w3 = destroyed w"
proof -
  have side: "V me = None \<longrightarrow> card (live_threads V) < max_keys" "tss_generation_cached w me = 0 \<longrightarrow> unat (tss_generation_counter w) + 1 < 2 ^ 32"
    using me gens by auto
  obtain r2 w2 V2 L2 where i: "tss_async_signal_safe_thread_init create destroy me (Some p) w = Some (r2, w2)" "tss_inv w2 p V2 L2"
    "init_outcome me V L w r2 V2 L2 w2" "owns J w2 (values_of V2)"
    using thread_init_ok[OF inv side cb own] by (elim exE conjE) (rule that)
  then have w2: "tss_async_signal_safe_thread_init create destroy me (Some p) w = Some (0, w2)" "tss_inv w2 p V L" "destroyed w2 = destroyed w" "owns J w2 (values_of V)"
    using me(1) by (simp_all add: init_outcome_def)
  obtain w3 where "pthread_exit n (exit_call destroy me) me w2 = Some w3" "tss_inv w3 p (if L me = [] then V else V(me := None)) (L(me := []))"
    "destroyed w3 = destroyed w2 @ (if L me = [] then [] else [V me])"
    using tss_exit_ok[OF w2(2) cb w2(4) n, of me] by (elim exE conjE) (rule that)
  moreover have "L(me := []) = L" using me(2) by (simp add: fun_upd_idem)
  ultimately show ?thesis using w2 me(2) by auto
qed

text \<open>
  C24 (failed initialisation). \<^verbatim>\<open>thread_init\<close> first does everything but the registration of the exit
  callback. When it fails in that part, the thread has no value, as before, and a value that
  had been created has been destroyed. When it gets to the registration and \<^verbatim>\<open>thread_atexit\<close> fails,
  it answers -1 with \<^verbatim>\<open>ENOMEM\<close>, but the value stays the thread's: a second \<^verbatim>\<open>thread_init\<close> answers
  success without registering the callback, and the thread's exit does not destroy the value.
\<close>

theorem thread_init_failures:
  assumes inv: "tss_inv w p V L" and room: "card (live_threads V) < max_keys" and gens: "unat (tss_generation_counter w) + 2 < 2 ^ 32"
    and cb: "good_callbacks J create destroy" and own: "J (tss_world.more w) (next_free w) (values_of V)" and n: "0 < n"
  shows "\<exists>x w0. thread_init_enter create destroy me (Some p) w = Some (x, w0)
    \<and> (case x of
         Inl r \<Rightarrow> tss_async_signal_safe_thread_init create destroy me (Some p) w = Some (r, w0)
           \<and> (r \<noteq> 0 \<longrightarrow> V me = None \<and> tss_inv w0 p V L \<and> (\<exists>vs. created w0 = created w @ vs \<and> destroyed w0 = destroyed w @ vs))
       | Inr s \<Rightarrow> \<exists>r w1. thread_atexit me (DEINIT, s) w0 = Some (r, w1)
           \<and> tss_async_signal_safe_thread_init create destroy me (Some p) w = Some (r, w1)
           \<and> (r \<noteq> 0 \<longrightarrow> r = -1 \<and> terrno w1 me = ENOMEM \<and> V me = None
               \<and> (\<exists>v w2 w3. v \<noteq> None \<and> created w1 = created w @ [v] \<and> destroyed w1 = destroyed w \<and> tss_inv w1 p (V(me := v)) L
                   \<and> tss_async_signal_safe_thread_init create destroy me (Some p) w1 = Some (0, w2) \<and> tss_inv w2 p (V(me := v)) L
                   \<and> pthread_exit n (exit_call destroy me) me w2 = Some w3 \<and> tss_inv w3 p (V(me := v)) L \<and> destroyed w3 = destroyed w)))"
proof -
  have side: "V me = None \<longrightarrow> card (live_threads V) < max_keys" "tss_generation_cached w me = 0 \<longrightarrow> unat (tss_generation_counter w) + 1 < 2 ^ 32"
    using room gens by simp_all
  obtain x w0 where x: "thread_init_enter create destroy me (Some p) w = Some (x, w0)" "enter_outcome J me p V L w x w0"
    "unat (tss_generation_counter w0) \<le> unat (tss_generation_counter w) + (if tss_generation_cached w me = 0 then 1 else 0)"
    using thread_init_enter_ok[OF inv side cb own[folded owns_def]] by (elim exE conjE) (rule that)
  show ?thesis
  proof (cases x)
    case (Inl r)
    then show ?thesis using x(1,2)
      by (intro exI[of _ x] exI[of _ w0]) (auto simp: tss_async_signal_safe_thread_init_def enter_outcome_def split: if_splits)
  next
    case (Inr s)
    then obtain v where v: "V me = None" "v \<noteq> None" "to_register J me v p V L s w0" "created w0 = created w @ [v]" "destroyed w0 = destroyed w"
      using x(2) by (auto simp: enter_outcome_def)
    have L: "L me = []" by (rule tss_inv_unregistered[OF inv v(1)])
    obtain r w1 L' where R: "thread_atexit me (DEINIT, s) w0 = Some (r, w1)" "tss_inv w1 p (V(me := v)) L'" "owns J w1 (values_of (V(me := v)))"
      "created w1 = created w0" "destroyed w1 = destroyed w0" "tss_generation_counter w1 = tss_generation_counter w0"
      "r = 0 \<and> (\<exists>a. L' = L(me := [(a, DEINIT, s)])) \<or> r = -1 \<and> terrno w1 me = ENOMEM \<and> L' = L"
      by (rule registration_ok[OF v(3) L v(2) cb]) (rule that)
    have run: "tss_async_signal_safe_thread_init create destroy me (Some p) w = Some (r, w1)" using x(1) R(1) Inr by (simp add: tss_async_signal_safe_thread_init_def)
    have failed: "\<exists>w2 w3. tss_async_signal_safe_thread_init create destroy me (Some p) w1 = Some (0, w2) \<and> tss_inv w2 p (V(me := v)) L
        \<and> pthread_exit n (exit_call destroy me) me w2 = Some w3 \<and> tss_inv w3 p (V(me := v)) L \<and> destroyed w3 = destroyed w1" if "L' = L"
      using unregistered_value_stays[OF R(2)[unfolded that], of me] v(2) L R(3,6) x(3) gens cb n by (simp split: if_splits)
    show ?thesis using x(1) R run v failed unfolding Inr by (intro exI[of _ "Inr s"] exI[of _ w0]) auto
  qed
qed

text \<open>
  A creation callback that fails, and a host whose fourth call, the allocation of the exit
  item, fails after those of the instance, the table and the shared state.
\<close>

definition failing_create :: "unit create_fn" where
  "failing_create f t w = Some (5, None, w)"

lemma failing_callbacks: "good_callbacks (\<lambda>_ _ _. True) failing_create sample_destroy"
  by (simp add: good_callbacks_def owns_def failing_create_def sample_destroy_def)

definition scarce_instance :: tss_world where
  "scarce_instance = snd (snd (tss_async_signal_safe_create (1, 2) (tss_init [True, True, True, False] 5 (\<lambda>t. 7) ())))"

lemma scarce_instance_create: "tss_async_signal_safe_create (1, 2) (tss_init [True, True, True, False] 5 (\<lambda>t. 7) ()) = (0, Some 1, scarce_instance)"
  by (simp add: scarce_instance_def tss_async_signal_safe_create_def thread_alloc_def host_call_def tss_init_def)

lemma failing_init: "map_option fst (thread_init_enter failing_create sample_destroy 3 (Some 1) sample_instance) = Some (Inl 5)"
  by code_simp

lemma scarce_init:
  "(case thread_init_enter sample_create sample_destroy 3 (Some 1) scarce_instance of
      Some (Inr s, w) \<Rightarrow> map_option fst (thread_atexit 3 (DEINIT, s) w)
    | _ \<Rightarrow> None) = Some (-1)"
  by code_simp

theorem thread_init_failures_witness:
  "(\<exists>w1. tss_async_signal_safe_thread_init failing_create sample_destroy 3 (Some 1) sample_instance = Some (5, w1)
      \<and> tss_inv w1 1 (\<lambda>_. None) (\<lambda>_. []) \<and> (\<exists>vs. created w1 = created sample_instance @ vs \<and> destroyed w1 = destroyed sample_instance @ vs))
   \<and> (\<exists>v w1 w2 w3. tss_async_signal_safe_thread_init sample_create sample_destroy 3 (Some 1) scarce_instance = Some (-1, w1) \<and> terrno w1 3 = ENOMEM
      \<and> v \<noteq> None \<and> created w1 = created scarce_instance @ [v] \<and> destroyed w1 = destroyed scarce_instance
      \<and> tss_async_signal_safe_thread_init sample_create sample_destroy 3 (Some 1) w1 = Some (0, w2)
      \<and> pthread_exit 4 (exit_call sample_destroy 3) 3 w2 = Some w3 \<and> destroyed w3 = destroyed scarce_instance)"
proof
  have room: "card (live_threads (\<lambda>_. None :: ptr)) < max_keys" and n: "0 < (4 :: nat)" by (simp_all add: live_threads_def max_keys_def)
  note c = tss_create_ok[OF sample_instance_create]
  have "unat (tss_generation_counter sample_instance) + 2 < 2 ^ 32" using c(2) by simp
  from thread_init_failures[OF c(1) room this failing_callbacks TrueI n, of 3] failing_init
  show "\<exists>w1. tss_async_signal_safe_thread_init failing_create sample_destroy 3 (Some 1) sample_instance = Some (5, w1)
      \<and> tss_inv w1 1 (\<lambda>_. None) (\<lambda>_. []) \<and> (\<exists>vs. created w1 = created sample_instance @ vs \<and> destroyed w1 = destroyed sample_instance @ vs)"
    by auto
  note c = tss_create_ok[OF scarce_instance_create]
  have "unat (tss_generation_counter scarce_instance) + 2 < 2 ^ 32" using c(2) by simp
  from thread_init_failures[OF c(1) room this sample_callbacks TrueI n, of 3] scarce_init
  show "\<exists>v w1 w2 w3. tss_async_signal_safe_thread_init sample_create sample_destroy 3 (Some 1) scarce_instance = Some (-1, w1) \<and> terrno w1 3 = ENOMEM
      \<and> v \<noteq> None \<and> created w1 = created scarce_instance @ [v] \<and> destroyed w1 = destroyed scarce_instance
      \<and> tss_async_signal_safe_thread_init sample_create sample_destroy 3 (Some 1) w1 = Some (0, w2)
      \<and> pthread_exit 4 (exit_call sample_destroy 3) 3 w2 = Some w3 \<and> destroyed w3 = destroyed scarce_instance"
    by (elim exE conjE) (auto split: sum.splits)
qed

text \<open>
  The order of thread exit: the value is handed to the destruction callback while the lookup
  still finds it. The callback here looks the thread's own value up and reports whether
  it is the one it is to destroy. In the destruction of the instance the entry is erased first.
\<close>

definition looking_destroy :: "ptr \<Rightarrow> unit destroy_fn" where
  "looking_destroy self f t v w =
     (case tss_async_signal_safe_get t self w of None \<Rightarrow> None
      | Some (v', w') \<Rightarrow> Some (if v' = v then 77 else 0, w'))"

lemma deinit_destroys_before_erase:
  "map_option fst (Option.bind (tss_async_signal_safe_thread_init sample_create sample_destroy 3 (Some 1) sample_instance)
     (\<lambda>(r, w). tss_async_signal_safe_thread_deinit (looking_destroy (Some 1)) 3 (Option.bind (tss_heap w 1) tss_state) w)) = Some 77"
  by code_simp

end
