(* ===== verification/Tss_State.thy ===== *)
theory Tss_State
  imports Tss_Lifecycle
begin

text \<open>
  The per-thread state of the library on hosts without async-signal-safe thread locals
  (\<^verbatim>\<open>detail/impl/thrd_signal_handle_common.ipp.ipp\<close>): a thread-specific storage instance in a static
  slot, whose callbacks allocate and free the state of a thread. The data of the client is the
  slot and the cells of the states, each with the pointer to the innermost guarding frame.
\<close>

section \<open>Operations\<close>

record tss_client =
  raw_slot :: ptr
  state_cells :: "ptr heap"

type_synonym client_world = "tss_client tss_world_scheme"

definition sig_tss_state_raw :: "client_world \<Rightarrow> ptr" where
  "sig_tss_state_raw w = raw_slot (tss_world.more w)"

definition sig_global_state_tss_state_create :: "tss_client create_fn" where
  "sig_global_state_tss_state_create f t w =
     (case thread_alloc w of
        (None, w) \<Rightarrow> Some (-1, None, w)
      | (Some a, w) \<Rightarrow> Some (0, Some a, tss_world.more_update (\<lambda>u. u\<lparr>state_cells := (state_cells u)(a \<mapsto> None)\<rparr>) w))"

definition sig_global_state_tss_state_destroy :: "tss_client destroy_fn" where
  "sig_global_state_tss_state_destroy f t p w =
     (case p of None \<Rightarrow> Some (0, w)
      | Some a \<Rightarrow> do {
          h \<leftarrow> free_cell (state_cells (tss_world.more w)) a;
          Some (0, tss_world.more_update (\<lambda>u. u\<lparr>state_cells := h\<rparr>) w)
        })"

text \<open>The pair of function pointers in the attribute of the instance.\<close>

definition tss_attr :: "nat \<times> nat" where "tss_attr = (1, 2)"

definition fallback_tss_state_create :: "client_world \<Rightarrow> int \<times> client_world" where
  "fallback_tss_state_create w =
     (if sig_tss_state_raw w \<noteq> None then (0, w)
      else case tss_async_signal_safe_create tss_attr w of
        (r, val, w) \<Rightarrow> (r, if r = 0 then tss_world.more_update (\<lambda>u. u\<lparr>raw_slot := val\<rparr>) w else w))"

definition fallback_tss_state_init :: "thread \<Rightarrow> client_world \<Rightarrow> (int \<times> client_world) option" where
  "fallback_tss_state_init me w =
     (let (r, w) = (if sig_tss_state_raw w = None then fallback_tss_state_create w else (0, w))
      in if r = -1 then Some (-1, w)
      else tss_async_signal_safe_thread_init sig_global_state_tss_state_create sig_global_state_tss_state_destroy me (sig_tss_state_raw w) w)"

definition fallback_tss_state :: "thread \<Rightarrow> client_world \<Rightarrow> (ptr \<times> client_world) option" where
  "fallback_tss_state me w = tss_async_signal_safe_get me (sig_tss_state_raw w) w"

definition fallback_tss_state_destroy :: "thread \<Rightarrow> client_world \<Rightarrow> (int \<times> client_world) option" where
  "fallback_tss_state_destroy me w = do {
     (ret, w) \<leftarrow> tss_async_signal_safe_destroy sig_global_state_tss_state_destroy me (sig_tss_state_raw w) w;
     Some (ret, tss_world.more_update (\<lambda>u. u\<lparr>raw_slot := None\<rparr>) w)
   }"

section \<open>The callbacks of the instance\<close>

text \<open>The slot holds the instance, and the cells are those of the values not yet destroyed.\<close>

definition cells_of :: "ptr \<Rightarrow> tss_client \<Rightarrow> addr \<Rightarrow> ptr multiset \<Rightarrow> bool" where
  "cells_of p u n M \<longleftrightarrow> raw_slot u = p \<and> M = image_mset Some (mset_set (dom (state_cells u))) \<and> finite (dom (state_cells u)) \<and> (\<forall>a \<in> dom (state_cells u). a < n)"

lemma more_update_frame [simp]:
  "tss_world.more (tss_world.more_update f w) = f (tss_world.more w)" "next_free (tss_world.more_update f w) = next_free w"
  "user_only w (tss_world.more_update f w')  = user_only w w'"
  by (cases w; cases w'; simp add: user_only_def)+

lemma client_callbacks: "good_callbacks (cells_of p) sig_global_state_tss_state_create sig_global_state_tss_state_destroy"
  unfolding good_callbacks_def
proof (intro conjI allI impI)
  fix u n n' M
  assume "cells_of p u n M \<and> n \<le> n'"
  then show "cells_of p u n' M" unfolding cells_of_def by (meson order.strict_trans2)
next
  fix f t and w :: client_world and M
  assume own: "owns (cells_of p) w M"
  show "\<exists>r v w'. sig_global_state_tss_state_create f t w = Some (r, v, w') \<and> user_only w w' \<and> owns (cells_of p) w' (if r = 0 \<and> v \<noteq> None then add_mset v M else M)"
  proof (cases "host_plan w = [] \<or> hd (host_plan w)")
    case True
    let ?u = "tss_world.more w" and ?a = "next_free w"
    have "?a \<notin> dom (state_cells ?u)" using own by (auto simp: owns_def cells_of_def)
    then have "cells_of p (?u\<lparr>state_cells := (state_cells ?u)(?a \<mapsto> None)\<rparr>) (Suc ?a) (add_mset (Some ?a) M)"
      using own by (auto simp: owns_def cells_of_def less_Suc_eq)
    then show ?thesis using True
      by (auto simp: sig_global_state_tss_state_create_def thread_alloc_def host_call_def owns_def user_only_def)
  next
    case False
    then show ?thesis using own by (auto simp: sig_global_state_tss_state_create_def thread_alloc_def host_call_def owns_def user_only_def)
  qed
next
  fix f t v and w :: client_world and M
  assume own: "owns (cells_of p) w (add_mset v M)"
  let ?u = "tss_world.more w"
  have M: "add_mset v M = image_mset Some (mset_set (dom (state_cells ?u)))" and fin: "finite (dom (state_cells ?u))" using own by (simp_all add: owns_def cells_of_def)
  have "v \<in># add_mset v M" by simp
  then obtain a where a: "v = Some a" "a \<in> dom (state_cells ?u)" unfolding M using fin by auto
  have dom: "dom ((state_cells ?u)(a := None)) = dom (state_cells ?u) - {a}" by auto
  have "mset_set (dom (state_cells ?u)) = add_mset a (mset_set (dom (state_cells ?u) - {a}))" using fin a(2) by (simp add: mset_set.remove)
  then have "M = image_mset Some (mset_set (dom ((state_cells ?u)(a := None))))" using M a(1) unfolding dom by simp
  then have "cells_of p (?u\<lparr>state_cells := (state_cells ?u)(a := None)\<rparr>) (next_free w) M" using own unfolding cells_of_def owns_def by (auto simp: dom)
  then show "\<exists>r w'. sig_global_state_tss_state_destroy f t v w = Some (r, w') \<and> user_only w w' \<and> owns (cells_of p) w' M"
    using a by (auto simp: sig_global_state_tss_state_destroy_def owns_def)
qed

section \<open>Runs\<close>

datatype client_op = Setup | Use thread | Look thread | Quit thread

definition client_step :: "nat \<Rightarrow> client_op \<Rightarrow> client_world \<Rightarrow> (int \<times> client_world) option" where
  "client_step n op w =
     (case op of
        Setup \<Rightarrow> Some (fallback_tss_state_create w)
      | Use t \<Rightarrow> fallback_tss_state_init t w
      | Look t \<Rightarrow> do { (v, w) \<leftarrow> fallback_tss_state t w; Some (0, w) }
      | Quit t \<Rightarrow> do { w \<leftarrow> pthread_exit n (exit_call sig_global_state_tss_state_destroy t) t w; Some (0, w) })"

fun client_run :: "nat \<Rightarrow> client_op list \<Rightarrow> client_world \<Rightarrow> (int list \<times> client_world) option" where
  "client_run n [] w = Some ([], w)"
| "client_run n (op # ops) w = do {
     (r, w) \<leftarrow> client_step n op w;
     (rs, w) \<leftarrow> client_run n ops w;
     Some (r # rs, w)
   }"

text \<open>As long as the slot holds the instance, the operations are those of the instance.\<close>

fun client_tss_op :: "client_op \<Rightarrow> tss_op option" where
  "client_tss_op Setup = None"
| "client_tss_op (Use t) = Some (Init t)"
| "client_tss_op (Look t) = Some (Get t)"
| "client_tss_op (Quit t) = Some (Exit t)"

lemma client_step_tss:
  assumes "sig_tss_state_raw w = Some p"
  shows "client_step n op w = (case client_tss_op op of None \<Rightarrow> Some (0, w)
    | Some op' \<Rightarrow> tss_step sig_global_state_tss_state_create sig_global_state_tss_state_destroy n (Some p) op' w)"
  using assms by (cases op) (simp_all add: client_step_def tss_step_def fallback_tss_state_create_def fallback_tss_state_init_def fallback_tss_state_def)

definition client_ops :: "client_op list \<Rightarrow> tss_op list" where
  "client_ops ops = List.map_filter client_tss_op ops"

definition client_ok :: "thread set \<Rightarrow> thread set \<Rightarrow> addr \<Rightarrow> (thread \<Rightarrow> ptr) \<Rightarrow> (thread \<Rightarrow> (addr \<times> callback) list) \<Rightarrow> client_world \<Rightarrow> bool" where
  "client_ok A B p V L w \<longleftrightarrow> tss_inv w p V L \<and> owns (cells_of (Some p)) w (values_of V) \<and> within A B V w"

lemma client_ok_slot: "client_ok A B p V L w \<Longrightarrow> sig_tss_state_raw w = Some p"
  by (simp add: client_ok_def owns_def cells_of_def sig_tss_state_raw_def)

lemma client_run_ok:
  assumes "client_ok A B p V L w" "init_threads (client_ops ops) \<subseteq> A" "key_threads (client_ops ops) \<subseteq> B" "0 < n"
  shows "\<exists>rs w' V' L'. client_run n ops w = Some (rs, w') \<and> client_ok A B p V' L' w'"
  using assms(1-3)
proof (induction ops arbitrary: w V L)
  case Nil
  then show ?case by auto
next
  case (Cons op ops)
  note ok = Cons.prems(1)
  have ops: "client_ops (op # ops) = (case client_tss_op op of None \<Rightarrow> [] | Some op' \<Rightarrow> [op']) @ client_ops ops"
    by (cases "client_tss_op op") (simp_all add: client_ops_def map_filter_simps)
  have sub: "init_threads (client_ops ops) \<subseteq> A" "key_threads (client_ops ops) \<subseteq> B"
    using Cons.prems(2,3) unfolding ops by (auto simp: init_threads_def key_threads_def)
  have "\<exists>r w1 V1 L1. client_step n op w = Some (r, w1) \<and> client_ok A B p V1 L1 w1"
  proof (cases "client_tss_op op")
    case None
    then show ?thesis using ok client_step_tss[OF client_ok_slot[OF ok], of n op] by auto
  next
    case (Some op')
    have inv: "tss_inv w p V L" and own: "owns (cells_of (Some p)) w (values_of V)" and wi: "within A B V w" using ok by (simp_all add: client_ok_def)
    have op': "init_threads [op'] \<subseteq> A" "key_threads [op'] \<subseteq> B"
      using Cons.prems(2,3) Some unfolding ops by (auto simp: init_threads_def key_threads_def)
    show ?thesis
      using tss_step_ok[OF inv wi op' client_callbacks own assms(4)] client_step_tss[OF client_ok_slot[OF ok], of n op] Some
      by (force simp: client_ok_def)
  qed
  then obtain r w1 V1 L1 where S: "client_step n op w = Some (r, w1)" "client_ok A B p V1 L1 w1" by blast
  obtain rs w' V' L' where "client_run n ops w1 = Some (rs, w')" "client_ok A B p V' L' w'" using Cons.IH[OF S(2) sub] by blast
  then show ?case using S(1) by (intro exI[of _ "r # rs"] exI[of _ w'] exI[of _ V'] exI[of _ L']) simp
qed

definition client_init :: "bool list \<Rightarrow> 32 word \<Rightarrow> (thread \<Rightarrow> 64 word) \<Rightarrow> client_world" where
  "client_init pl k tids = tss_init pl k tids \<lparr>raw_slot = None, state_cells = (\<lambda>_. None)\<rparr>"

lemma client_create_ok:
  assumes "fallback_tss_state_create (client_init pl k tids) = (0, w)"
    and "finite A" "card A \<le> max_keys" "finite B" "card B < 2 ^ 32"
  shows "client_ok A B 1 (\<lambda>_. None) (\<lambda>_. []) w"
proof -
  have slot: "sig_tss_state_raw (client_init pl k tids) = None" by (simp add: client_init_def tss_init_def sig_tss_state_raw_def)
  obtain r val v where c: "tss_async_signal_safe_create tss_attr (client_init pl k tids) = (r, val, v)" by (cases "tss_async_signal_safe_create tss_attr (client_init pl k tids)")
  then have r: "r = 0" and w: "w = tss_world.more_update (\<lambda>u. u\<lparr>raw_slot := val\<rparr>) v" using assms(1) slot by (auto simp: fallback_tss_state_create_def)
  then obtain q where q: "val = Some q" using c by (auto simp: tss_async_signal_safe_create_def split: prod.splits option.splits)
  have start: "tss_async_signal_safe_create tss_attr (tss_init pl k tids \<lparr>raw_slot = None, state_cells = (\<lambda>_. None)\<rparr>) = (0, Some q, v)" using c r q by (simp add: client_init_def)
  note t = tss_create_ok[OF start]
  have q1: "q = 1" by (rule t(6))
  have live0: "live_threads (\<lambda>_. None) = {}" by (simp add: live_threads_def)
  have "tss_inv w 1 (\<lambda>_. None) (\<lambda>_. [])" unfolding w by (rule tss_inv_user[OF t(1)[unfolded q1]]) simp
  moreover have "owns (cells_of (Some 1)) w {#}" unfolding w q q1 by (simp add: owns_def cells_of_def t(4))
  moreover have "generations w = {}" using t(2) unfolding w generations_def by (cases v) simp
  ultimately show ?thesis using assms(2-5) by (simp add: client_ok_def within_def live0)
qed

text \<open>
  C21 (per-thread state without thread locals). From the creation of the storage on, threads may
  set the storage up again, ask for their state, look it up and exit in any order and number of
  times, at most 1843 of them asking for a state, whichever host calls fail: every call returns. Tearing the storage down then frees the state of every
  thread, once each, and the storage, and empties the slot; threads that exit later free
  nothing.
\<close>

theorem fallback_lifecycle:
  assumes start: "fallback_tss_state_create (client_init pl k tids) = (0, w)" and n: "0 < n"
    and ops: "card (init_threads (client_ops ops)) \<le> max_keys" "card (key_threads (client_ops ops)) < 2 ^ 32"
  shows "\<exists>rs w1 w2. client_run n ops w = Some (rs, w1) \<and> fallback_tss_state_destroy me w1 = Some (0, w2)
    \<and> sig_tss_state_raw w2 = None \<and> state_cells (tss_world.more w2) = (\<lambda>_. None) \<and> tss_heap w2 1 = None \<and> table_blocks w2 = 0
    \<and> (\<forall>ts. \<exists>w3. exit_all sig_global_state_tss_state_destroy n ts w2 = Some w3 \<and> destroyed w3 = destroyed w2)"
proof -
  obtain rs w1 V L where R: "client_run n ops w = Some (rs, w1)" "client_ok (init_threads (client_ops ops)) (key_threads (client_ops ops)) 1 V L w1"
    using client_run_ok[OF client_create_ok[OF start _ ops(1) _ ops(2)] subset_refl subset_refl n] by auto
  have inv: "tss_inv w1 1 V L" and own: "owns (cells_of (Some 1)) w1 (values_of V)" using R(2) by (simp_all add: client_ok_def)
  obtain v vs where D: "tss_async_signal_safe_destroy sig_global_state_tss_state_destroy me (Some 1) w1 = Some (0, v)" "tss_heap v = (tss_heap w1)(1 := None)"
    "table_blocks v = 0" "tss_gone v (card (live_threads V)) L" "owns (cells_of (Some 1)) v {#}"
    using destroy_ok[OF inv client_callbacks own, of me] by (elim exE conjE) (rule that)
  define w2 where "w2 = tss_world.more_update (\<lambda>u. u\<lparr>raw_slot := None\<rparr>) v"
  have same: "tss_heap w2 = tss_heap v" "table_blocks w2 = table_blocks v" "deinit_states w2 = deinit_states v" "created w2 = created v" "destroyed w2 = destroyed v"
    "atexit_heap w2 = atexit_heap v" "thread_atexit_items w2 = thread_atexit_items v" "specific w2 = specific v"
    unfolding w2_def by (cases v; simp)+
  have run: "fallback_tss_state_destroy me w1 = Some (0, w2)" using D(1) client_ok_slot[OF R(2)] by (simp add: fallback_tss_state_destroy_def w2_def)
  have "mset_set (dom (state_cells (tss_world.more v))) = {#}" "finite (dom (state_cells (tss_world.more v)))" using D(5) by (auto simp: owns_def cells_of_def)
  then have "dom (state_cells (tss_world.more v)) = {}" by (simp only: mset_set_empty_iff) simp
  then have cells: "state_cells (tss_world.more w2) = (\<lambda>_. None)" by (simp add: w2_def)
  have "tss_exits w2 L" using D(4) tss_exits_same[of v L w2] same by (simp add: tss_gone_def w2_def)
  then have gone: "tss_gone w2 (card (live_threads V)) L" using D(4) same by (auto simp: tss_gone_def)
  have "\<exists>w3. exit_all sig_global_state_tss_state_destroy n ts w2 = Some w3 \<and> destroyed w3 = destroyed w2" for ts using exit_all_ok[OF gone n, of sig_global_state_tss_state_destroy ts] by blast
  then show ?thesis using R(1) run cells D(2,3) same by (intro exI[of _ rs] exI[of _ w1] exI[of _ w2]) (simp add: sig_tss_state_raw_def w2_def)
qed

lemma sample_client: "\<exists>w. fallback_tss_state_create (client_init [] 5 (\<lambda>t. 7)) = (0, w)"
  by (simp add: fallback_tss_state_create_def client_init_def tss_init_def sig_tss_state_raw_def tss_async_signal_safe_create_def thread_alloc_def host_call_def)

theorem fallback_lifecycle_witness:
  "\<exists>w rs w1 w2. fallback_tss_state_create (client_init [] 5 (\<lambda>t. 7)) = (0, w) \<and> client_run 4 [Use 1, Use 2, Setup, Look 1, Quit 2] w = Some (rs, w1)
    \<and> fallback_tss_state_destroy 1 w1 = Some (0, w2) \<and> state_cells (tss_world.more w2) = (\<lambda>_. None)"
proof -
  obtain w where w: "fallback_tss_state_create (client_init [] 5 (\<lambda>t. 7)) = (0, w)" using sample_client by blast
  have t: "client_ops [Use 1, Use 2, Setup, Look 1, Quit 2] = [Init 1, Init 2, Get 1, Exit 2]"
    "init_threads [Init 1, Init 2, Get 1, Exit 2] = {1, 2}" "key_threads [Init 1, Init 2, Get 1, Exit 2] = {1, 2}"
    by (auto simp: client_ops_def map_filter_simps init_threads_def key_threads_def)
  have "0 < (4 :: nat)" "card (init_threads (client_ops [Use 1, Use 2, Setup, Look 1, Quit 2])) \<le> max_keys"
    "card (key_threads (client_ops [Use 1, Use 2, Setup, Look 1, Quit 2])) < 2 ^ 32" unfolding t by (simp_all add: max_keys_def)
  from fallback_lifecycle[OF w this, of 1] w show ?thesis by blast
qed

text \<open>
  C22 (a state of its own). After any such calls, of at most 1842 threads that ask for a state, a thread that asks for its state and gets the
  answer zero finds, by the lookup, an allocated state, and no other thread's lookup finds that
  one.
\<close>

theorem fallback_state_own:
  assumes start: "fallback_tss_state_create (client_init pl k tids) = (0, w)" and n: "0 < n"
    and ops: "card (init_threads (client_ops ops)) < max_keys" "card (key_threads (client_ops ops)) + 2 < 2 ^ 32"
  shows "\<exists>rs w1 r w2. client_run n ops w = Some (rs, w1) \<and> fallback_tss_state_init t w1 = Some (r, w2)
    \<and> (r = 0 \<longrightarrow> (\<exists>a w3. fallback_tss_state t w2 = Some (Some a, w3) \<and> state_cells (tss_world.more w3) a \<noteq> None)
        \<and> (\<forall>u. u \<noteq> t \<longrightarrow> map_option fst (fallback_tss_state u w2) \<noteq> map_option fst (fallback_tss_state t w2)))"
proof -
  have k: "card (init_threads (client_ops ops)) \<le> max_keys" "card (key_threads (client_ops ops)) < 2 ^ 32" using ops by simp_all
  obtain rs w1 V L where R: "client_run n ops w = Some (rs, w1)" "client_ok (init_threads (client_ops ops)) (key_threads (client_ops ops)) 1 V L w1"
    using client_run_ok[OF client_create_ok[OF start _ k(1) _ k(2)] subset_refl subset_refl n] by auto
  have inv: "tss_inv w1 1 V L" and own: "owns (cells_of (Some 1)) w1 (values_of V)" using R(2) by (simp_all add: client_ok_def)
  have wi: "within (init_threads (client_ops ops)) (key_threads (client_ops ops)) V w1" using R(2) by (simp add: client_ok_def)
  have "card (live_threads V) \<le> card (init_threads (client_ops ops))" "card (generations w1) \<le> card (key_threads (client_ops ops))"
    using wi by (simp_all add: within_def card_mono)
  moreover have "card (generations w1) = unat (tss_generation_counter w1)" using inv by (rule tss_invE) (simp add: ids_ok_def)
  ultimately have room: "V t = None \<longrightarrow> card (live_threads V) < max_keys" and gens: "tss_generation_cached w1 t = 0 \<longrightarrow> unat (tss_generation_counter w1) + 1 < 2 ^ 32"
    and g1: "unat (tss_generation_counter w1) + 2 < 2 ^ 32"
    using ops by simp_all
  obtain r w2 V' L' where I: "tss_async_signal_safe_thread_init sig_global_state_tss_state_create sig_global_state_tss_state_destroy t (Some 1) w1 = Some (r, w2)"
    "tss_inv w2 1 V' L'" "init_outcome t V L w1 r V' L' w2"
    "unat (tss_generation_counter w2) \<le> unat (tss_generation_counter w1) + (if tss_generation_cached w1 t = 0 then 1 else 0)" "owns (cells_of (Some 1)) w2 (values_of V')"
    using thread_init_ok[OF inv room gens client_callbacks own] by (elim exE conjE) (rule that)
  have init: "fallback_tss_state_init t w1 = Some (r, w2)" using I(1) client_ok_slot[OF R(2)] by (simp add: fallback_tss_state_init_def)
  have gens2: "unat (tss_generation_counter w2) + 1 < 2 ^ 32" using I(4) g1 by (auto split: if_splits)
  have slot: "sig_tss_state_raw w2 = Some 1" using I(5) by (simp add: owns_def cells_of_def sig_tss_state_raw_def)
  have look: "\<exists>w3. fallback_tss_state u w2 = Some (V' u, w3) \<and> owns (cells_of (Some 1)) w3 (values_of V')" for u
    using get_ok[OF I(2) _ client_callbacks I(5), of u] gens2 slot by (auto simp: fallback_tss_state_def)
  have fin: "finite (live_threads V')" by (rule tss_invE[OF I(2)])
  have "\<exists>a w3. fallback_tss_state t w2 = Some (Some a, w3) \<and> state_cells (tss_world.more w3) a \<noteq> None" if nn: "V' t = Some a" for a
  proof -
    obtain w3 where w3: "fallback_tss_state t w2 = Some (V' t, w3)" "owns (cells_of (Some 1)) w3 (values_of V')" using look by blast
    have "Some a \<in># values_of V'" using nn fin by (force simp: live_threads_def)
    moreover have vals: "values_of V' = image_mset Some (mset_set (dom (state_cells (tss_world.more w3))))" "finite (dom (state_cells (tss_world.more w3)))"
      using w3(2) by (simp_all add: owns_def cells_of_def)
    ultimately have "Some a \<in># image_mset Some (mset_set (dom (state_cells (tss_world.more w3))))" by simp
    then have "a \<in> dom (state_cells (tss_world.more w3))" using vals(2) by auto
    then show ?thesis using w3(1) nn by auto
  qed
  moreover have "V' t \<noteq> V' u" if nn: "V' t \<noteq> None" "u \<noteq> t" for u
  proof
    assume eq: "V' t = V' u"
    have "mset_set {t, u} \<subseteq># mset_set (live_threads V')" using fin nn eq by (intro subset_imp_msubset_mset_set) (auto simp: live_threads_def)
    then have "{#t, u#} \<subseteq># mset_set (live_threads V')" using nn(2) by simp
    then have sub: "{#V' t, V' u#} \<subseteq># values_of V'" using image_mset_subseteq_mono[of "{#t, u#}" "mset_set (live_threads V')" V'] by simp
    have two: "2 \<le> count (values_of V') (V' t)" using mset_subset_eq_count[OF sub, of "V' t"] eq by simp
    have "values_of V' = mset_set (Some ` dom (state_cells (tss_world.more w2)))" using I(5) by (simp add: owns_def cells_of_def image_mset_mset_set)
    then have "count (values_of V') x \<le> 1" for x by (simp add: count_mset_set')
    from this[of "V' t"] two show False by simp
  qed
  moreover have "r = 0 \<Longrightarrow> V' t \<noteq> None" using I(3) by (auto simp: init_outcome_def split: if_splits)
  moreover have "map_option fst (fallback_tss_state u w2) = Some (V' u)" for u using look[of u] by auto
  ultimately have "r = 0 \<longrightarrow> (\<exists>a w3. fallback_tss_state t w2 = Some (Some a, w3) \<and> state_cells (tss_world.more w3) a \<noteq> None)
        \<and> (\<forall>u. u \<noteq> t \<longrightarrow> map_option fst (fallback_tss_state u w2) \<noteq> map_option fst (fallback_tss_state t w2))"
    by (metis not_None_eq option.inject)
  then show ?thesis using R(1) init by blast
qed

theorem fallback_state_own_witness:
  "\<exists>w rs w1 r w2. fallback_tss_state_create (client_init [] 5 (\<lambda>t. 7)) = (0, w) \<and> client_run 4 [Use 1] w = Some (rs, w1) \<and> fallback_tss_state_init 2 w1 = Some (r, w2)
    \<and> (r = 0 \<longrightarrow> map_option fst (fallback_tss_state 1 w2) \<noteq> map_option fst (fallback_tss_state 2 w2))"
proof -
  obtain w where w: "fallback_tss_state_create (client_init [] 5 (\<lambda>t. 7)) = (0, w)" using sample_client by blast
  have t: "client_ops [Use 1] = [Init 1]" "init_threads [Init 1] = {1}" "key_threads [Init 1] = {1}"
    by (auto simp: client_ops_def map_filter_simps init_threads_def key_threads_def)
  have side: "0 < (4 :: nat)" "card (init_threads (client_ops [Use 1])) < max_keys" "card (key_threads (client_ops [Use 1])) + 2 < 2 ^ 32"
    unfolding t by (simp_all add: max_keys_def)
  have "(1 :: nat) \<noteq> 2" by simp
  with fallback_state_own[OF w side, of 2] w show ?thesis by blast
qed

end
