(* ===== verification/Spin_Lock.thy ===== *)
theory Spin_Lock
  imports Registry Tss
begin

text \<open>
  The spin lock of \<^verbatim>\<open>detail/impl/lock_unlock.h\<close> with any number of threads: every atomic access of
  \<^verbatim>\<open>LOCK\<close> and \<^verbatim>\<open>UNLOCK\<close>, and every access to what the lock protects, is one step of one thread, in any
  interleaving. Shown are mutual exclusion, that critical sections take effect one after the
  other, that the release's assertion never fails, and that waiting threads make progress; and
  that the operations by which the registry and the thread-specific storage take and release
  their locks are what this loop does for a thread that runs alone.

  Accesses are interleaved in one order for all threads, which the acquire and release orders of
  the source give for data that is only accessed between \<^verbatim>\<open>LOCK\<close> and \<^verbatim>\<open>UNLOCK\<close>.
\<close>

section \<open>Threads at the lock\<close>

text \<open>
  Where a thread is: outside; before the load of \<^verbatim>\<open>LOCK\<close>; after a load that returned zero, before the
  compare-and-exchange; in the critical section with the accesses that are left; stopped by
  the assertion of \<^verbatim>\<open>UNLOCK\<close>. A waiting thread carries the section that it is to run.
\<close>

datatype 's pc =
    Outside
  | Loading "('s \<Rightarrow> 's) list"
  | Exchanging "('s \<Rightarrow> 's) list"
  | Holding "('s \<Rightarrow> 's) list"
  | Aborted

text \<open>The log records the sections in the order in which their threads took the lock.\<close>

record 's spin =
  lock_word :: "32 word"
  shared :: 's
  pcs :: "thread \<Rightarrow> 's pc"
  log :: "(thread \<times> ('s \<Rightarrow> 's) list) list"

definition goto :: "thread \<Rightarrow> 's pc \<Rightarrow> 's spin \<Rightarrow> 's spin" where
  "goto t q s = s\<lparr>pcs := (pcs s)(t := q)\<rparr>"

text \<open>
  One step of one thread. The flag says whether the weak compare-and-exchange may fail although
  the word has the expected value.
\<close>

inductive spin_step :: "bool \<Rightarrow> thread \<Rightarrow> 's spin \<Rightarrow> 's spin \<Rightarrow> bool" for weak t where
  stay: "pcs s t = Outside \<Longrightarrow> spin_step weak t s s"
| enter: "pcs s t = Outside \<Longrightarrow> spin_step weak t s (goto t (Loading b) s)"
| load_held: "pcs s t = Loading b \<Longrightarrow> lock_word s \<noteq> 0 \<Longrightarrow> spin_step weak t s s"
| load_free: "pcs s t = Loading b \<Longrightarrow> lock_word s = 0 \<Longrightarrow> spin_step weak t s (goto t (Exchanging b) s)"
| exchange_held: "pcs s t = Exchanging b \<Longrightarrow> lock_word s \<noteq> 0 \<Longrightarrow> spin_step weak t s (goto t (Loading b) s)"
| exchange_spurious: "pcs s t = Exchanging b \<Longrightarrow> weak \<Longrightarrow> spin_step weak t s (goto t (Loading b) s)"
| exchange: "pcs s t = Exchanging b \<Longrightarrow> lock_word s = 0 \<Longrightarrow>
    spin_step weak t s (goto t (Holding b) (s\<lparr>lock_word := 1, log := log s @ [(t, b)]\<rparr>))"
| access: "pcs s t = Holding (f # fs) \<Longrightarrow> spin_step weak t s (goto t (Holding fs) (s\<lparr>shared := f (shared s)\<rparr>))"
| release: "pcs s t = Holding [] \<Longrightarrow>
    spin_step weak t s (goto t (if lock_word s = 1 then Outside else Aborted) (s\<lparr>lock_word := 0\<rparr>))"

lemma goto_simps [simp]:
  "pcs (goto t q s) = (pcs s)(t := q)" "lock_word (goto t q s) = lock_word s" "shared (goto t q s) = shared s" "log (goto t q s) = log s"
  by (simp_all add: goto_def)

inductive spin_steps :: "'s spin \<Rightarrow> 's spin \<Rightarrow> bool" where
  here: "spin_steps s s"
| further: "spin_steps s s' \<Longrightarrow> spin_step weak t s' s'' \<Longrightarrow> spin_steps s s''"

definition spin_init :: "'s \<Rightarrow> 's spin" where
  "spin_init d = \<lparr>lock_word = 0, shared = d, pcs = (\<lambda>_. Outside), log = []\<rparr>"

section \<open>Mutual exclusion and serial critical sections\<close>

definition run_section :: "('s \<Rightarrow> 's) list \<Rightarrow> 's \<Rightarrow> 's" where
  "run_section b = fold (\<lambda>f. f) b"

definition serial :: "(thread \<times> ('s \<Rightarrow> 's) list) list \<Rightarrow> 's \<Rightarrow> 's" where
  "serial l = fold (\<lambda>(t, b). run_section b) l"

lemma run_section_simps [simp]: "run_section [] d = d" "run_section (f # fs) d = run_section fs (f d)"
  by (simp_all add: run_section_def)

lemma serial_snoc [simp]: "serial [] d = d" "serial (l @ [(t, b)]) d = run_section b (serial l d)"
  by (simp_all add: serial_def)

text \<open>The threads between \<^verbatim>\<open>LOCK\<close> and \<^verbatim>\<open>UNLOCK\<close>.\<close>

definition inside :: "'s spin \<Rightarrow> thread set" where
  "inside s = {t. \<exists>b. pcs s t = Holding b}"

lemma inside_goto [simp]:
  "inside (goto t Outside s) = inside s - {t}" "inside (goto t (Loading b) s) = inside s - {t}" "inside (goto t (Exchanging b) s) = inside s - {t}"
  "inside (goto t (Holding b) s) = insert t (inside s)" "inside (goto t Aborted s) = inside s - {t}"
  by (auto simp: inside_def)

lemma inside_upd [simp]: "inside (s\<lparr>lock_word := x\<rparr>) = inside s" "inside (s\<lparr>shared := y\<rparr>) = inside s" "inside (s\<lparr>log := l\<rparr>) = inside s"
  by (simp_all add: inside_def)

text \<open>
  The invariant: no assertion has failed; with the lock free nobody is in a section and the data
  is the result of the logged sections; with the lock held there is one holder, the last of the
  log, and what it has left turns the data into that result.
\<close>

definition spin_inv :: "'s \<Rightarrow> 's spin \<Rightarrow> bool" where
  "spin_inv d s \<longleftrightarrow> (\<forall>t. pcs s t \<noteq> Aborted) \<and>
     (inside s = {} \<and> lock_word s = 0 \<and> shared s = serial (log s) d \<or>
      (\<exists>h fs l b. inside s = {h} \<and> pcs s h = Holding fs \<and> lock_word s = 1 \<and>
         log s = l @ [(h, b)] \<and> run_section fs (shared s) = serial (log s) d))"

lemma spin_inv_init: "spin_inv d (spin_init d)"
  by (simp add: spin_inv_def spin_init_def inside_def)

lemma spin_inv_waiting:
  assumes "spin_inv d s" "t \<notin> inside s" "q = Outside \<or> q = Loading b \<or> q = Exchanging b"
  shows "spin_inv d (goto t q s)"
proof -
  have "inside (goto t q s) = inside s" using assms(2,3) by auto
  then show ?thesis using assms by (auto simp: spin_inv_def)
qed

lemma spin_inv_step:
  assumes "spin_inv d s" "spin_step weak t s s'"
  shows "spin_inv d s'"
  using assms(2)
proof cases
  case (exchange b)
  with assms(1) show ?thesis by (auto simp: spin_inv_def)
next
  case (access f fs)
  then have "t \<in> inside s" by (auto simp: inside_def)
  with access assms(1) show ?thesis by (auto simp: spin_inv_def)
next
  case release
  then have "t \<in> inside s" by (auto simp: inside_def)
  with release assms(1) show ?thesis by (auto simp: spin_inv_def)
qed (use assms(1) in \<open>auto intro!: spin_inv_waiting simp: inside_def\<close>)

lemma spin_inv_reachable: "spin_steps s s' \<Longrightarrow> spin_inv d s \<Longrightarrow> spin_inv d s'"
  by (induction rule: spin_steps.induct) (auto intro: spin_inv_step)

text \<open>
  C14 (mutual exclusion). Whatever the interleaving of the threads, and whether or not weak
  exchanges fail spuriously: at most one thread is between \<^verbatim>\<open>LOCK\<close> and \<^verbatim>\<open>UNLOCK\<close>, the assertion
  of \<^verbatim>\<open>UNLOCK\<close> never fails, the word is zero or one and tells whether a thread is inside, and
  the protected data is what the sections give when they run one after the other in
  the order of acquisition, the last one as far as it has come.
\<close>

theorem spin_lock_serialises:
  assumes "spin_steps (spin_init d) s"
  shows "(\<forall>t u b c. pcs s t = Holding b \<and> pcs s u = Holding c \<longrightarrow> t = u)
    \<and> (\<forall>t. pcs s t \<noteq> Aborted)
    \<and> lock_word s = (if \<exists>t b. pcs s t = Holding b then 1 else 0)
    \<and> ((\<forall>t b. pcs s t \<noteq> Holding b) \<longrightarrow> shared s = serial (log s) d)
    \<and> (\<forall>t b. pcs s t = Holding b \<longrightarrow> (\<exists>l c. log s = l @ [(t, c)]) \<and> run_section b (shared s) = serial (log s) d)"
proof -
  have inv: "spin_inv d s" by (rule spin_inv_reachable[OF assms spin_inv_init])
  have iff: "pcs s t = Holding b \<Longrightarrow> t \<in> inside s" for t b by (auto simp: inside_def)
  from inv consider "inside s = {}" "lock_word s = 0" "shared s = serial (log s) d"
    | h fs l b where "inside s = {h}" "pcs s h = Holding fs" "lock_word s = 1" "log s = l @ [(h, b)]" "run_section fs (shared s) = serial (log s) d"
    by (auto simp: spin_inv_def)
  then show ?thesis
  proof cases
    case 1
    then have "\<forall>t b. pcs s t \<noteq> Holding b" using iff by blast
    then show ?thesis using 1 inv by (simp add: spin_inv_def)
  next
    case 2
    then have "\<forall>t b. pcs s t = Holding b \<longrightarrow> t = h" using iff by blast
    moreover have "\<forall>t. pcs s t \<noteq> Aborted" using inv by (simp add: spin_inv_def)
    ultimately show ?thesis using 2 by (metis pc.inject(3))
  qed
qed

theorem spin_lock_serialises_witness:
  "\<exists>s. spin_steps (spin_init (5 :: nat)) s \<and> pcs s 1 = Holding [Suc] \<and> pcs s 2 = Exchanging [\<lambda>n. 2 * n] \<and> lock_word s = 1 \<and> shared s = 10 \<and> serial (log s) 5 = 11"
proof -
  let ?b = "[\<lambda>n. 2 * n, Suc]" and ?c = "[\<lambda>n. 2 * n]"
  let ?s1 = "goto 1 (Loading ?b) (spin_init (5 :: nat))"
  let ?s2 = "goto 1 (Exchanging ?b) ?s1"
  let ?s3 = "goto 2 (Loading ?c) ?s2"
  let ?s4 = "goto 2 (Exchanging ?c) ?s3"
  let ?s5 = "goto 1 (Holding ?b) (?s4\<lparr>lock_word := 1, log := log ?s4 @ [(1, ?b)]\<rparr>)"
  let ?s6 = "goto 1 (Holding [Suc]) (?s5\<lparr>shared := 2 * shared ?s5\<rparr>)"
  have "spin_steps (spin_init 5) ?s1" by (rule further[OF here enter[where weak = True]]) (simp add: spin_init_def)
  then have "spin_steps (spin_init 5) ?s2" by (rule further[OF _ load_free[where weak = True]]) (simp_all add: spin_init_def)
  then have "spin_steps (spin_init 5) ?s3" by (rule further[OF _ enter[where weak = True]]) (simp add: spin_init_def)
  then have "spin_steps (spin_init 5) ?s4" by (rule further[OF _ load_free[where weak = True]]) (simp_all add: spin_init_def)
  then have "spin_steps (spin_init 5) ?s5" by (rule further[OF _ exchange[where weak = True]]) (simp_all add: spin_init_def)
  then have run: "spin_steps (spin_init 5) ?s6" by (rule further[OF _ access[where weak = True]]) simp
  have "pcs ?s6 1 = Holding [Suc]" by simp
  with spin_lock_serialises[OF run, THEN conjunct2, THEN conjunct2, THEN conjunct2, THEN conjunct2]
  have "run_section [Suc] (shared ?s6) = serial (log ?s6) 5" by blast
  with run show ?thesis by (intro exI[of _ ?s6]) (simp add: spin_init_def)
qed

section \<open>Progress\<close>

text \<open>
  Infinite executions: who makes each step, and the states. A thread that is at the lock or
  inside is scheduled again and again, and from some step on no exchange fails spuriously.
\<close>

definition spin_execution :: "(nat \<Rightarrow> thread) \<Rightarrow> (nat \<Rightarrow> 's spin) \<Rightarrow> bool" where
  "spin_execution sched e \<longleftrightarrow> (\<forall>i. spin_step True (sched i) (e i) (e (Suc i)))"

definition fair :: "(nat \<Rightarrow> thread) \<Rightarrow> (nat \<Rightarrow> 's spin) \<Rightarrow> bool" where
  "fair sched e \<longleftrightarrow> (\<forall>i t. pcs (e i) t \<noteq> Outside \<longrightarrow> (\<exists>j\<ge>i. sched j = t))"

definition finally_strong :: "(nat \<Rightarrow> thread) \<Rightarrow> (nat \<Rightarrow> 's spin) \<Rightarrow> bool" where
  "finally_strong sched e \<longleftrightarrow> (\<exists>n. \<forall>i\<ge>n. spin_step False (sched i) (e i) (e (Suc i)))"

lemma step_other: "spin_step weak u s s' \<Longrightarrow> t \<noteq> u \<Longrightarrow> pcs s' t = pcs s t"
  by (induction rule: spin_step.induct) simp_all

lemma step_log: "spin_step weak u s s' \<Longrightarrow> log s' = log s \<or> (\<exists>b. log s' = log s @ [(u, b)])"
  by (induction rule: spin_step.induct) simp_all

text \<open>A thread stays where it is up to its next turn.\<close>

lemma next_turn:
  assumes ex: "spin_execution sched e" and fair: "fair sched e" and at: "pcs (e i) t \<noteq> Outside"
  obtains j where "i \<le> j" "sched j = t" "pcs (e j) t = pcs (e i) t"
proof -
  have "\<exists>k. sched (i + k) = t" using fair at unfolding fair_def by (metis le_Suc_ex)
  define k where "k = (LEAST k. sched (i + k) = t)"
  have k: "sched (i + k) = t" unfolding k_def by (rule LeastI_ex) fact
  have "m \<le> k \<Longrightarrow> pcs (e (i + m)) t = pcs (e i) t" for m
  proof (induction m)
    case (Suc m)
    then have "sched (i + m) \<noteq> t" unfolding k_def by (metis Suc_le_lessD not_less_Least)
    then show ?case using Suc ex step_other[of True "sched (i + m)" "e (i + m)" "e (Suc (i + m))" t] by (auto simp: spin_execution_def)
  qed simp
  then show ?thesis using that[of "i + k"] k by simp
qed

lemma log_grows: "spin_execution sched e \<Longrightarrow> i \<le> j \<Longrightarrow> \<exists>l. log (e j) = log (e i) @ l"
proof (induction j)
  case (Suc j)
  show ?case
  proof (cases "i = Suc j")
    case False
    then obtain l where "log (e j) = log (e i) @ l" using Suc by auto
    then show ?thesis using Suc.prems(1) step_log[of True "sched j" "e j" "e (Suc j)"] by (auto simp: spin_execution_def)
  qed simp
qed simp

lemma inv_everywhere:
  assumes "spin_execution sched e" "spin_inv d (e 0)"
  shows "spin_inv d (e i)"
proof (induction i)
  case (Suc i)
  have "spin_step True (sched i) (e i) (e (Suc i))" using assms(1) by (simp add: spin_execution_def)
  then show ?case by (rule spin_inv_step[OF Suc])
qed (rule assms(2))

lemma step_release: "spin_step weak h s s' \<Longrightarrow> pcs s h = Holding [] \<Longrightarrow> lock_word s = 1 \<Longrightarrow> pcs s' h = Outside \<and> lock_word s' = 0"
  by (erule spin_step.cases) auto

lemma step_waiting: "spin_step weak t s s' \<Longrightarrow> log s' = log s \<Longrightarrow> pcs s t = Loading b \<or> pcs s t = Exchanging b \<Longrightarrow> pcs s' t = Loading b \<or> pcs s' t = Exchanging b"
  by (erule spin_step.cases) auto

lemma section_ends:
  assumes ex: "spin_execution sched e" and fair: "fair sched e" and inv: "spin_inv d (e 0)" and at: "pcs (e i) h = Holding fs"
  shows "\<exists>j\<ge>i. pcs (e j) h = Outside \<and> lock_word (e j) = 0"
  using at
proof (induction fs arbitrary: i)
  case (Cons f fs)
  obtain j where j: "i \<le> j" "sched j = h" "pcs (e j) h = Holding (f # fs)" by (rule next_turn[OF ex fair, of i h]) (use Cons.prems in auto)
  have "spin_step True h (e j) (e (Suc j))" using ex j(2) by (auto simp: spin_execution_def)
  then have "pcs (e (Suc j)) h = Holding fs" by cases (use j(3) in auto)
  from Cons.IH[OF this] show ?case using j(1) by (meson Suc_leD le_trans)
next
  case Nil
  obtain j where j: "i \<le> j" "sched j = h" "pcs (e j) h = Holding []" by (rule next_turn[OF ex fair, of i h]) (use Nil in auto)
  have "h \<in> inside (e j)" using j(3) by (auto simp: inside_def)
  then have "lock_word (e j) = 1" using inv_everywhere[OF ex inv, of j] by (auto simp: spin_inv_def)
  moreover have "spin_step True h (e j) (e (Suc j))" using ex j(2) by (auto simp: spin_execution_def)
  ultimately have "pcs (e (Suc j)) h = Outside \<and> lock_word (e (Suc j)) = 0" using step_release j(3) by blast
  then show ?case using j(1) by (meson le_SucI)
qed

lemma stays_free:
  assumes ex: "spin_execution sched e" and same: "\<forall>j\<ge>i. log (e j) = log (e i)" and free: "lock_word (e i) = 0" and le: "i \<le> j"
  shows "lock_word (e j) = 0"
  using le
proof (induction rule: dec_induct)
  case (step j)
  have "spin_step True (sched j) (e j) (e (Suc j))" using ex by (simp add: spin_execution_def)
  moreover have "log (e (Suc j)) = log (e j)" using same step.hyps(1) by (metis le_SucI)
  ultimately show ?case by cases (use step.IH in auto)
qed (rule free)

lemma exchanging_acquires:
  assumes ex: "spin_execution sched e" and fair: "fair sched e" and strong: "\<forall>j\<ge>i. spin_step False (sched j) (e j) (e (Suc j))"
    and free: "\<forall>j\<ge>i. lock_word (e j) = 0" and at: "pcs (e i) t = Exchanging b"
  shows "\<exists>j\<ge>i. log (e (Suc j)) = log (e j) @ [(t, b)]"
proof -
  obtain j where j: "i \<le> j" "sched j = t" "pcs (e j) t = Exchanging b" by (rule next_turn[OF ex fair, of i t]) (use at in auto)
  have "spin_step False t (e j) (e (Suc j))" using strong j by blast
  then have "log (e (Suc j)) = log (e j) @ [(t, b)]" by cases (use j free in auto)
  then show ?thesis using j(1) by blast
qed

lemma loading_acquires:
  assumes ex: "spin_execution sched e" and fair: "fair sched e" and strong: "\<forall>j\<ge>i. spin_step False (sched j) (e j) (e (Suc j))"
    and free: "\<forall>j\<ge>i. lock_word (e j) = 0" and at: "pcs (e i) t = Loading b"
  shows "\<exists>j\<ge>i. log (e (Suc j)) = log (e j) @ [(t, b)]"
proof -
  obtain j where j: "i \<le> j" "sched j = t" "pcs (e j) t = Loading b" by (rule next_turn[OF ex fair, of i t]) (use at in auto)
  have "spin_step False t (e j) (e (Suc j))" using strong j by blast
  then have at': "pcs (e (Suc j)) t = Exchanging b" by cases (use j free in auto)
  have "\<forall>k\<ge>Suc j. lock_word (e k) = 0" "\<forall>k\<ge>Suc j. spin_step False (sched k) (e k) (e (Suc k))" using free strong j(1) by simp_all
  from exchanging_acquires[OF ex fair this(2,1) at'] have "\<exists>k\<ge>Suc j. log (e (Suc k)) = log (e k) @ [(t, b)]" .
  then show ?thesis using j(1) by (meson Suc_leD le_trans)
qed

lemma waiting_stays:
  assumes ex: "spin_execution sched e" and same: "\<forall>j\<ge>i. log (e j) = log (e i)" and le: "i \<le> j" and at: "pcs (e i) t \<in> {Loading b, Exchanging b}"
  shows "pcs (e j) t \<in> {Loading b, Exchanging b}"
  using le
proof (induction rule: dec_induct)
  case (step j)
  have go: "spin_step True (sched j) (e j) (e (Suc j))" using ex by (simp add: spin_execution_def)
  show ?case
  proof (cases "sched j = t")
    case True
    moreover have "log (e (Suc j)) = log (e j)" using same step.hyps(1) by (metis le_SucI)
    ultimately show ?thesis using step_waiting[of True t "e j" "e (Suc j)" b] go step.IH by auto
  next
    case False
    then show ?thesis using step_other[OF go, of t] step.IH by simp
  qed
qed (rule at)

text \<open>
  C15 (progress). In a fair execution in which exchanges fail spuriously only finitely often, a
  thread in a critical section comes to its end and frees the lock, and as long as a thread
  waits for the lock some thread takes it.
\<close>

theorem spin_lock_progress:
  assumes start: "spin_steps (spin_init d) (e 0)" and ex: "spin_execution sched e" and fair: "fair sched e" and strong: "finally_strong sched e"
  shows "(pcs (e i) t = Holding b \<longrightarrow> (\<exists>j\<ge>i. pcs (e j) t = Outside \<and> lock_word (e j) = 0))
    \<and> (pcs (e i) t \<in> {Loading b, Exchanging b} \<longrightarrow> (\<exists>j\<ge>i. \<exists>u c. log (e (Suc j)) = log (e j) @ [(u, c)]))"
proof (intro conjI impI)
  have inv: "spin_inv d (e 0)" by (rule spin_inv_reachable[OF start spin_inv_init])
  show "\<exists>j\<ge>i. pcs (e j) t = Outside \<and> lock_word (e j) = 0" if "pcs (e i) t = Holding b" by (rule section_ends[OF ex fair inv that])
  assume at: "pcs (e i) t \<in> {Loading b, Exchanging b}"
  show "\<exists>j\<ge>i. \<exists>u c. log (e (Suc j)) = log (e j) @ [(u, c)]"
  proof (rule ccontr)
    assume none: "\<not> ?thesis"
    have "log (e j) = log (e i)" if "i \<le> j" for j
      using that
    proof (induction rule: dec_induct)
      case (step j)
      have "spin_step True (sched j) (e j) (e (Suc j))" using ex by (simp add: spin_execution_def)
      from step_log[OF this] none step show ?case by auto
    qed simp
    then have same: "\<forall>j\<ge>i. log (e j) = log (e i)" by blast
    obtain n where n: "\<forall>j\<ge>n. spin_step False (sched j) (e j) (e (Suc j))" using strong by (auto simp: finally_strong_def)
    obtain k where k: "max i n \<le> k" "lock_word (e k) = 0"
    proof (cases "lock_word (e (max i n)) = 0")
      case False
      then obtain h fs where "pcs (e (max i n)) h = Holding fs" using inv_everywhere[OF ex inv, of "max i n"] by (auto simp: spin_inv_def)
      from section_ends[OF ex fair inv this] show ?thesis using that by blast
    qed (use that in blast)
    have ik: "i \<le> k" "n \<le> k" using k(1) by simp_all
    have same': "\<forall>j\<ge>k. log (e j) = log (e k)" using same ik by (metis le_trans)
    have free: "\<forall>j\<ge>k. lock_word (e j) = 0" using stays_free[OF ex same' k(2)] by blast
    have strong': "\<forall>j\<ge>k. spin_step False (sched j) (e j) (e (Suc j))" using n ik(2) by simp
    have "pcs (e k) t = Loading b \<or> pcs (e k) t = Exchanging b" using waiting_stays[OF ex same ik(1) at] by simp
    then have "\<exists>j\<ge>k. log (e (Suc j)) = log (e j) @ [(t, b)]"
      using loading_acquires[OF ex fair strong' free] exchanging_acquires[OF ex fair strong' free] by blast
    then show False using none ik(1) by (meson le_trans)
  qed
qed

text \<open>An execution of one thread: it takes the lock, releases it and then stays outside.\<close>

definition solo_states :: "nat \<Rightarrow> unit spin" where
  "solo_states i = (if i = 0 then goto 3 (Loading []) (spin_init ()) else if i = 1 then goto 3 (Exchanging []) (spin_init ())
     else if i = 2 then goto 3 (Holding []) ((spin_init ())\<lparr>lock_word := 1, log := [(3, [])]\<rparr>) else (spin_init ())\<lparr>log := [(3, [])]\<rparr>)"

lemma solo_steps: "spin_step weak 3 (solo_states i) (solo_states (Suc i))"
proof -
  consider "i = 0" | "i = 1" | "i = 2" | "3 \<le> i" by linarith
  then show ?thesis
  proof cases
    case 1
    have "solo_states 1 = goto 3 (Exchanging []) (solo_states 0)" by (simp add: solo_states_def goto_def)
    then show ?thesis using load_free[of "solo_states 0" 3 "[]" weak] 1 by (simp add: solo_states_def spin_init_def goto_def)
  next
    case 2
    have "solo_states 2 = goto 3 (Holding []) ((solo_states 1)\<lparr>lock_word := 1, log := log (solo_states 1) @ [(3, [])]\<rparr>)"
      by (simp add: solo_states_def goto_def spin_init_def)
    then show ?thesis using exchange[of "solo_states 1" 3 "[]" weak] 2 by (simp add: solo_states_def spin_init_def goto_def numeral_2_eq_2)
  next
    case 3
    have "solo_states 3 = goto 3 Outside ((solo_states 2)\<lparr>lock_word := 0\<rparr>)" by (simp add: solo_states_def goto_def spin_init_def fun_eq_iff)
    then show ?thesis using release[of "solo_states 2" 3 weak] 3 by (simp add: solo_states_def spin_init_def goto_def numeral_3_eq_3)
  next
    case 4
    then show ?thesis using stay[of "solo_states i" 3 weak] by (simp add: solo_states_def spin_init_def)
  qed
qed

theorem spin_lock_progress_witness:
  "pcs (solo_states 0) 3 = Loading [] \<and> (\<exists>j. \<exists>u c. log (solo_states (Suc j)) = log (solo_states j) @ [(u, c)])"
proof -
  have start: "spin_steps (spin_init ()) (solo_states 0)"
    using further[OF here enter[of "spin_init ()" 3 True "[]"]] by (simp add: solo_states_def spin_init_def)
  have ex: "spin_execution (\<lambda>_. 3) solo_states" "finally_strong (\<lambda>_. 3) solo_states" by (simp_all add: spin_execution_def finally_strong_def solo_steps)
  have "pcs (solo_states i) t \<noteq> Outside \<Longrightarrow> t = 3" for i t by (auto simp: solo_states_def spin_init_def split: if_splits)
  then have "fair (\<lambda>_. 3) solo_states" by (auto simp: fair_def)
  from spin_lock_progress[OF start ex(1) this ex(2), of 0 3 "[]"] show ?thesis by (auto simp: solo_states_def)
qed

section \<open>The lock as one thread sees it\<close>

text \<open>A thread about to take a lock whose word is \<open>x\<close>, and one about to release it, with nobody else at it.\<close>

definition entering :: "thread \<Rightarrow> 32 word \<Rightarrow> unit spin" where
  "entering t x = \<lparr>lock_word = x, shared = (), pcs = (\<lambda>_. Outside)(t := Loading []), log = []\<rparr>"

definition leaving :: "thread \<Rightarrow> 32 word \<Rightarrow> unit spin" where
  "leaving t x = \<lparr>lock_word = x, shared = (), pcs = (\<lambda>_. Outside)(t := Holding []), log = []\<rparr>"

text \<open>The states in which the thread, running alone, can leave the loop of \<^verbatim>\<open>LOCK\<close>.\<close>

definition acquires :: "thread \<Rightarrow> 32 word \<Rightarrow> 32 word \<Rightarrow> bool" where
  "acquires t x y \<longleftrightarrow> (\<exists>s. (spin_step True t)\<^sup>*\<^sup>* (entering t x) s \<and> pcs s t = Holding [] \<and> lock_word s = y)"

definition releases :: "thread \<Rightarrow> 32 word \<Rightarrow> 32 word \<Rightarrow> bool" where
  "releases t x y \<longleftrightarrow> (\<exists>s. spin_step True t (leaving t x) s \<and> pcs s t = Outside \<and> lock_word s = y)"

lemma alone_held:
  assumes "(spin_step True t)\<^sup>*\<^sup>* (entering t x) s" "x \<noteq> 0"
  shows "pcs s t = Loading [] \<and> lock_word s = x"
  using assms(1)
proof (induction rule: rtranclp_induct)
  case (step s s')
  from step.hyps(2) show ?case by cases (use step.IH assms(2) in auto)
qed (simp add: entering_def)

lemma alone_free:
  assumes "(spin_step True t)\<^sup>*\<^sup>* (entering t 0) s"
  shows "spin_inv () s"
  using assms
proof (induction rule: rtranclp_induct)
  case (step s s')
  show ?case by (rule spin_inv_step[OF step.IH step.hyps(2)])
qed (auto simp: entering_def spin_inv_def inside_def)

lemma acquires_iff: "acquires t x y \<longleftrightarrow> x = 0 \<and> y = 1"
proof
  assume "acquires t x y"
  then obtain s where s: "(spin_step True t)\<^sup>*\<^sup>* (entering t x) s" "pcs s t = Holding []" "lock_word s = y" by (auto simp: acquires_def)
  have x: "x = 0" using alone_held[OF s(1)] s(2) by force
  have "t \<in> inside s" using s(2) by (auto simp: inside_def)
  then show "x = 0 \<and> y = 1" using alone_free[of t s] s x by (auto simp: spin_inv_def)
next
  assume xy: "x = 0 \<and> y = 1"
  let ?s1 = "goto t (Exchanging []) (entering t x)"
  let ?s2 = "goto t (Holding []) (?s1\<lparr>lock_word := 1, log := log ?s1 @ [(t, [])]\<rparr>)"
  have "spin_step True t (entering t x) ?s1" by (rule load_free) (use xy in \<open>simp_all add: entering_def\<close>)
  moreover have "spin_step True t ?s1 ?s2" by (rule exchange) (use xy in \<open>simp_all add: entering_def\<close>)
  ultimately have "(spin_step True t)\<^sup>*\<^sup>* (entering t x) ?s2" by (meson converse_rtranclp_into_rtranclp rtranclp.rtrancl_refl)
  then show "acquires t x y" unfolding acquires_def using xy by (intro exI[of _ ?s2]) simp
qed

lemma releases_iff: "releases t x y \<longleftrightarrow> x = 1 \<and> y = 0"
proof
  assume "releases t x y"
  then obtain s where s: "spin_step True t (leaving t x) s" "pcs s t = Outside" "lock_word s = y" by (auto simp: releases_def)
  from s(1) show "x = 1 \<and> y = 0" by cases (use s in \<open>auto simp: leaving_def split: if_splits\<close>)
next
  assume "x = 1 \<and> y = 0"
  then show "releases t x y" unfolding releases_def
    using release[of "leaving t x" t True] by (intro exI[of _ "goto t Outside ((leaving t x)\<lparr>lock_word := 0\<rparr>)"]) (simp add: leaving_def)
qed

text \<open>
  A client of a lock: where its word is, unless the memory of the lock is not there, and its two
  operations, of which a state without result stands for one that does not return.
\<close>

locale lock_client =
  fixes word :: "'w \<Rightarrow> 32 word option" and put :: "32 word \<Rightarrow> 'w \<Rightarrow> 'w" and lock_op :: "'w \<Rightarrow> 'w option" and unlock_op :: "'w \<Rightarrow> 'w option"
  assumes lock_eq: "lock_op w = (if word w = Some 0 then Some (put 1 w) else None)"
    and unlock_eq: "unlock_op w = (if word w = Some 1 then Some (put 0 w) else None)"
begin

lemma lock_loop: "lock_op w = Some w' \<longleftrightarrow> (\<exists>x y. word w = Some x \<and> acquires t x y \<and> w' = put y w)"
  by (auto simp: lock_eq acquires_iff split: if_splits)

lemma unlock_exchange: "unlock_op w = Some w' \<longleftrightarrow> (\<exists>x y. word w = Some x \<and> releases t x y \<and> w' = put y w)"
  by (auto simp: unlock_eq releases_iff split: if_splits)

end

interpretation registry_lock: lock_client "\<lambda>w. Some (lock w)" "\<lambda>x w. w\<lparr>lock := x\<rparr>" LOCK UNLOCK
  by unfold_locales (auto simp: LOCK_def UNLOCK_def assert_that_def)

definition put_tss_lock :: "addr \<Rightarrow> 32 word \<Rightarrow> 'z tss_world_scheme \<Rightarrow> 'z tss_world_scheme" where
  "put_tss_lock p x w = w\<lparr>tss_heap := (tss_heap w)(p := map_option (\<lambda>m. m\<lparr>tss_lock := x\<rparr>) (tss_heap w p))\<rparr>"

interpretation tss_instance_lock: lock_client "\<lambda>w. map_option tss_lock (tss_heap w p)" "put_tss_lock p" "LOCK_tss (Some p)" "UNLOCK_tss (Some p)" for p
  by unfold_locales (auto simp: LOCK_tss_def UNLOCK_tss_def tss_upd_def store_def assert_that_def put_tss_lock_def split: option.splits)

text \<open>
  C16 (the lock operations). The operations with which the registry and the storage instances
  take and release their locks return exactly when the loop of \<^verbatim>\<open>LOCK\<close>, run by one thread alone,
  can leave, and when the assertion of \<^verbatim>\<open>UNLOCK\<close> holds; they leave the word that the loop and the
  exchange leave. A thread that takes a lock it holds never comes out of the loop.
\<close>

theorem lock_operations_are_the_loop:
  "(LOCK w = Some w' \<longleftrightarrow> (\<exists>y. acquires t (lock w) y \<and> w' = w\<lparr>lock := y\<rparr>))
   \<and> (UNLOCK w = Some w' \<longleftrightarrow> (\<exists>y. releases t (lock w) y \<and> w' = w\<lparr>lock := y\<rparr>))
   \<and> (LOCK_tss (Some p) v = Some v' \<longleftrightarrow> (\<exists>x y. map_option tss_lock (tss_heap v p) = Some x \<and> acquires t x y \<and> v' = put_tss_lock p y v))
   \<and> (UNLOCK_tss (Some p) v = Some v' \<longleftrightarrow> (\<exists>x y. map_option tss_lock (tss_heap v p) = Some x \<and> releases t x y \<and> v' = put_tss_lock p y v))"
  by (simp add: registry_lock.lock_loop[of w w' t] registry_lock.unlock_exchange[of w w' t] tss_instance_lock.lock_loop[of p v v' t] tss_instance_lock.unlock_exchange[of p v v' t])

end
