(* ===== verification/Init_Gate.thy ===== *)
theory Init_Gate
  imports Verstable_Ops
begin

text \<open>
  The first use of the global state where the signal map is a hash table (\<^verbatim>\<open>sig_global_state\<close> in
  \<^verbatim>\<open>detail/impl/thrd_signal_handle_common.ipp.ipp\<close>, the branch for \<^verbatim>\<open>NSIG >= 1024\<close>): a word that is 0
  before, 1 during and 2 after the initialisation of the table, with any number of threads that
  call at the same time, one atomic access per step.
\<close>

section \<open>Steps\<close>

text \<open>
  Where a thread is: not in the call; before the first load; before the exchange; waiting for
  the other thread's publication; before the initialisation; before its publication; back from
  the call, with what the first load had returned.
\<close>

datatype gate_pc = Away | First_Load | Exchange | Waiting | Initialise | Publish | Back "32 word"

text \<open>The static table is zeroed memory, here \<^term>\<open>None\<close>, until it is initialised.\<close>

record 'v gate =
  map_inited :: "32 word"
  signo_table :: "(64 word, 'v) vt_table option"
  inits :: nat
  gate_pcs :: "nat \<Rightarrow> gate_pc"

definition gate_goto :: "nat \<Rightarrow> gate_pc \<Rightarrow> 'v gate \<Rightarrow> 'v gate" where
  "gate_goto t q s = s\<lparr>gate_pcs := (gate_pcs s)(t := q)\<rparr>"

inductive gate_step :: "'v gate \<Rightarrow> 'v gate \<Rightarrow> bool" where
  call: "gate_pcs s t = Away \<or> gate_pcs s t = Back x \<Longrightarrow> gate_step s (gate_goto t First_Load s)"
| load_zero: "gate_pcs s t = First_Load \<Longrightarrow> map_inited s = 0 \<Longrightarrow> gate_step s (gate_goto t Exchange s)"
| load_nonzero: "gate_pcs s t = First_Load \<Longrightarrow> map_inited s \<noteq> 0 \<Longrightarrow> gate_step s (gate_goto t (Back (map_inited s)) s)"
| exchange_won: "gate_pcs s t = Exchange \<Longrightarrow> map_inited s = 0 \<Longrightarrow> gate_step s (gate_goto t Initialise (s\<lparr>map_inited := 1\<rparr>))"
| exchange_lost: "gate_pcs s t = Exchange \<Longrightarrow> map_inited s \<noteq> 0 \<Longrightarrow> gate_step s (gate_goto t Waiting s)"
| wait_on: "gate_pcs s t = Waiting \<Longrightarrow> map_inited s \<noteq> 2 \<Longrightarrow> gate_step s s"
| wait_over: "gate_pcs s t = Waiting \<Longrightarrow> map_inited s = 2 \<Longrightarrow> gate_step s (gate_goto t (Back 0) s)"
| initialise: "gate_pcs s t = Initialise \<Longrightarrow> gate_step s (gate_goto t Publish (s\<lparr>signo_table := Some vt_init, inits := Suc (inits s)\<rparr>))"
| publish: "gate_pcs s t = Publish \<Longrightarrow> gate_step s (gate_goto t (Back 0) (s\<lparr>map_inited := 2\<rparr>))"

inductive gate_reachable :: "'v gate \<Rightarrow> bool" where
  start: "gate_reachable \<lparr>map_inited = 0, signo_table = None, inits = 0, gate_pcs = (\<lambda>_. Away)\<rparr>"
| step: "gate_reachable s \<Longrightarrow> gate_step s s' \<Longrightarrow> gate_reachable s'"

lemma gate_goto_simps [simp]:
  "gate_pcs (gate_goto t q s) = (gate_pcs s)(t := q)" "map_inited (gate_goto t q s) = map_inited s"
  "signo_table (gate_goto t q s) = signo_table s" "inits (gate_goto t q s) = inits s"
  by (simp_all add: gate_goto_def)

section \<open>Invariant\<close>

definition threads_at :: "gate_pc \<Rightarrow> 'v gate \<Rightarrow> nat set" where
  "threads_at q s = {t. gate_pcs s t = q}"

lemma threads_at_goto [simp]: "threads_at q (gate_goto t q' s) = (if q = q' then insert t (threads_at q s) else threads_at q s - {t})"
  by (auto simp: threads_at_def)

lemma threads_at_upd [simp]: "threads_at q (s\<lparr>map_inited := x\<rparr>) = threads_at q s" "threads_at q (s\<lparr>signo_table := y\<rparr>) = threads_at q s" "threads_at q (s\<lparr>inits := n\<rparr>) = threads_at q s"
  by (simp_all add: threads_at_def)

text \<open>
  One thread, the winner of the exchange, is between exchange and publication exactly while the
  word is 1; the table is initialised once it is past the initialisation.
\<close>

definition gate_inv :: "'v gate \<Rightarrow> bool" where
  "gate_inv s \<longleftrightarrow>
     (map_inited s = 0 \<and> threads_at Initialise s = {} \<and> threads_at Publish s = {} \<and> inits s = 0 \<or>
      map_inited s = 1 \<and> is_singleton (threads_at Initialise s) \<and> threads_at Publish s = {} \<and> inits s = 0 \<or>
      map_inited s = 1 \<and> threads_at Initialise s = {} \<and> is_singleton (threads_at Publish s) \<and> inits s = 1 \<or>
      map_inited s = 2 \<and> threads_at Initialise s = {} \<and> threads_at Publish s = {} \<and> inits s = 1) \<and>
     signo_table s = (if inits s = 0 then None else Some vt_init) \<and>
     (\<forall>t x. gate_pcs s t = Back x \<longrightarrow> x = 1 \<or> inits s \<noteq> 0)"

lemma gate_inv_goto:
  assumes "gate_inv s" "gate_pcs s t \<noteq> Initialise" "gate_pcs s t \<noteq> Publish" "q \<noteq> Initialise" "q \<noteq> Publish" "\<And>x. q = Back x \<Longrightarrow> x = 1 \<or> inits s \<noteq> 0"
  shows "gate_inv (gate_goto t q s)"
proof -
  have "threads_at Initialise (gate_goto t q s) = threads_at Initialise s" "threads_at Publish (gate_goto t q s) = threads_at Publish s" using assms(2-5) by (auto simp: threads_at_def)
  then show ?thesis using assms(1,6) unfolding gate_inv_def by (auto simp del: threads_at_goto)
qed

lemma gate_inv_step:
  assumes "gate_inv s" "gate_step s s'"
  shows "gate_inv s'"
  using assms(2)
proof cases
  case (initialise t)
  then have "t \<in> threads_at Initialise s" by (simp add: threads_at_def)
  with initialise assms(1) show ?thesis by (auto simp: gate_inv_def is_singleton_def)
next
  case (publish t)
  then have "t \<in> threads_at Publish s" by (simp add: threads_at_def)
  with publish assms(1) show ?thesis by (auto simp: gate_inv_def is_singleton_def)
next
  case (exchange_won t)
  with assms(1) show ?thesis by (auto simp: gate_inv_def is_singleton_def)
next
  case (load_nonzero t)
  have "map_inited s = 1 \<or> inits s \<noteq> 0" using assms(1) load_nonzero(3) by (auto simp: gate_inv_def)
  then show ?thesis unfolding load_nonzero(1) using assms(1) load_nonzero(2) by (intro gate_inv_goto) auto
next
  case (wait_over t)
  have "inits s \<noteq> 0" using assms(1) wait_over(3) by (auto simp: gate_inv_def)
  then show ?thesis unfolding wait_over(1) using assms(1) wait_over(2) by (intro gate_inv_goto) auto
qed (use assms(1) in \<open>auto intro!: gate_inv_goto\<close>)

lemma gate_inv_reachable: "gate_reachable s \<Longrightarrow> gate_inv s"
proof (induction rule: gate_reachable.induct)
  case start
  show ?case by (simp add: gate_inv_def threads_at_def)
next
  case (step s s')
  show ?case by (rule gate_inv_step[OF step.IH step.hyps(2)])
qed

text \<open>
  C17 (first use of the global state). However the threads interleave, the table is initialised
  at most once, only between the values 0 and 2 of the word, and whoever comes back after a
  first load of 0 or 2 finds it initialised. Not so after a first load of 1: a thread that
  calls while another one is initialising comes back at once, and there are executions in
  which the table is then still zeroed memory.
\<close>

theorem init_gate:
  "(\<forall>s :: 'v gate. gate_reachable s \<longrightarrow> inits s \<le> 1 \<and> (map_inited s = 0 \<longrightarrow> signo_table s = None) \<and> (map_inited s = 2 \<longrightarrow> signo_table s = Some vt_init)
      \<and> (\<forall>t x. gate_pcs s t = Back x \<and> x \<noteq> 1 \<longrightarrow> signo_table s = Some vt_init))
   \<and> (\<exists>s :: 'v gate. gate_reachable s \<and> gate_pcs s 2 = Back 1 \<and> signo_table s = None)"
proof (intro conjI allI impI)
  fix s :: "'v gate"
  assume "gate_reachable s"
  from gate_inv_reachable[OF this] show "inits s \<le> 1" "map_inited s = 0 \<Longrightarrow> signo_table s = None" "map_inited s = 2 \<Longrightarrow> signo_table s = Some vt_init"
    "gate_pcs s t = Back x \<and> x \<noteq> 1 \<Longrightarrow> signo_table s = Some vt_init" for t x
    by (auto simp: gate_inv_def)
next
  let ?s0 = "\<lparr>map_inited = 0, signo_table = None, inits = 0, gate_pcs = (\<lambda>_. Away)\<rparr> :: 'v gate"
  let ?s1 = "gate_goto 1 First_Load ?s0"
  let ?s2 = "gate_goto 1 Exchange ?s1"
  let ?s3 = "gate_goto 1 Initialise (?s2\<lparr>map_inited := 1\<rparr>)"
  let ?s4 = "gate_goto 2 First_Load ?s3"
  let ?s5 = "gate_goto 2 (Back (map_inited ?s4)) ?s4"
  have "gate_reachable ?s1" by (rule gate_reachable.step[OF gate_reachable.start call]) simp
  then have "gate_reachable ?s2" by (rule gate_reachable.step[OF _ load_zero]) simp_all
  then have "gate_reachable ?s3" by (rule gate_reachable.step[OF _ exchange_won]) simp_all
  then have "gate_reachable ?s4" by (rule gate_reachable.step[OF _ call]) simp
  then have "gate_reachable ?s5" by (rule gate_reachable.step[OF _ load_nonzero]) simp_all
  then show "\<exists>s :: 'v gate. gate_reachable s \<and> gate_pcs s 2 = Back 1 \<and> signo_table s = None" by (intro exI[of _ ?s5]) simp
qed

theorem init_gate_witness:
  "\<exists>s :: unit gate. gate_reachable s \<and> inits s \<le> 1 \<and> gate_pcs s 2 = Back 1 \<and> signo_table s = None"
  using init_gate by blast

end
