(* ===== verification/Thread_Atexit_Cpp.thy ===== *)
theory Thread_Atexit_Cpp
  imports Thread_Atexit "HOL-Library.Multiset"
begin

text \<open>
  The C++ form of \<^verbatim>\<open>thread_atexit\<close>, \<^verbatim>\<open>detail/impl/thread_atexit.cpp.ipp\<close>: each thread has a vector of
  items whose destructors run the callbacks. Of \<^verbatim>\<open>std::vector\<close> the model has what the source relies
  on: growing moves the items into a new block and destroys the ones that were moved from, a
  failed allocation throws and leaves the vector as it was, and the vector's end destroys its
  items, in an order that is a parameter, as is the new capacity.
\<close>

section \<open>Items and vectors\<close>

record cpp_item =
  cpp_func :: "nat option"
  cpp_obj :: ptr

text \<open>\<open>ended t\<close>: the vector of thread \<open>t\<close> has been destroyed, or is being; using it is then undefined.\<close>

record cpp_world =
  vec :: "thread \<Rightarrow> cpp_item list"
  cap :: "thread \<Rightarrow> nat"
  ended :: "thread \<Rightarrow> bool"
  cpp_plan :: "bool list"
  cpp_errno :: "thread \<Rightarrow> int"
  cpp_calls :: "callback list"

type_synonym 'z cpp_call = "callback \<Rightarrow> 'z cpp_world_scheme \<Rightarrow> 'z cpp_world_scheme option"

text \<open>The move constructor: the new item, and what is left in the one moved from.\<close>

definition item_move :: "cpp_item \<Rightarrow> cpp_item \<times> cpp_item" where
  "item_move i = (\<lparr>cpp_func = cpp_func i, cpp_obj = cpp_obj i\<rparr>, i\<lparr>cpp_func := None, cpp_obj := None\<rparr>)"

definition item_destroy :: "'z cpp_call \<Rightarrow> cpp_item \<Rightarrow> 'z cpp_world_scheme \<Rightarrow> 'z cpp_world_scheme option" where
  "item_destroy call i w =
     (case cpp_func i of None \<Rightarrow> Some w
      | Some f \<Rightarrow> call (f, cpp_obj i) (w\<lparr>cpp_calls := cpp_calls w @ [(f, cpp_obj i)]\<rparr>))"

fun destroy_items :: "'z cpp_call \<Rightarrow> cpp_item list \<Rightarrow> 'z cpp_world_scheme \<Rightarrow> 'z cpp_world_scheme option" where
  "destroy_items call [] w = Some w"
| "destroy_items call (i # is) w = do {
     w \<leftarrow> item_destroy call i w;
     destroy_items call is w
   }"

text \<open>\<^verbatim>\<open>items.emplace_back(func, obj)\<close>; the flag says whether it returned rather than threw.\<close>

definition emplace_back ::
  "(nat \<Rightarrow> nat) \<Rightarrow> 'z cpp_call \<Rightarrow> thread \<Rightarrow> callback \<Rightarrow> 'z cpp_world_scheme \<Rightarrow> (bool \<times> 'z cpp_world_scheme) option" where
  "emplace_back grow call me c w =
     (let item = \<lparr>cpp_func = Some (fst c), cpp_obj = snd c\<rparr>; old = vec w me
      in if ended w me then None
      else if length old < cap w me
      then Some (True, w\<lparr>vec := (vec w)(me := old @ [item])\<rparr>)
      else if cpp_plan w = [] \<or> hd (cpp_plan w)
      then do {
        w \<leftarrow> destroy_items call (map (snd \<circ> item_move) old)
          (w\<lparr>cpp_plan := tl (cpp_plan w), cap := (cap w)(me := grow (cap w me)), vec := (vec w)(me := map (fst \<circ> item_move) old @ [item])\<rparr>);
        Some (True, w)
      }
      else Some (False, w\<lparr>cpp_plan := tl (cpp_plan w)\<rparr>))"

definition cpp_thread_atexit ::
  "(nat \<Rightarrow> nat) \<Rightarrow> 'z cpp_call \<Rightarrow> thread \<Rightarrow> callback \<Rightarrow> 'z cpp_world_scheme \<Rightarrow> (int \<times> 'z cpp_world_scheme) option" where
  "cpp_thread_atexit grow call me c w = do {
     (ok, w) \<leftarrow> emplace_back grow call me c w;
     Some (if ok then (0, w) else (-1, w\<lparr>cpp_errno := (cpp_errno w)(me := ENOMEM)\<rparr>))
   }"

text \<open>The end of a thread: the destructor of its vector.\<close>

definition cpp_thread_exit ::
  "(cpp_item list \<Rightarrow> cpp_item list) \<Rightarrow> 'z cpp_call \<Rightarrow> thread \<Rightarrow> 'z cpp_world_scheme \<Rightarrow> 'z cpp_world_scheme option" where
  "cpp_thread_exit order call me w =
     (if ended w me then None
      else destroy_items call (order (vec w me)) (w\<lparr>ended := (ended w)(me := True), vec := (vec w)(me := [])\<rparr>))"

section \<open>What is called, and when\<close>

text \<open>A callback that leaves the vectors and the trace of calls alone.\<close>

definition quiet_call :: "'z cpp_call \<Rightarrow> bool" where
  "quiet_call call \<longleftrightarrow> (\<forall>c w. \<exists>w'. call c w = Some w' \<and> vec w' = vec w \<and> ended w' = ended w \<and> cpp_calls w' = cpp_calls w)"

text \<open>The item of a callback.\<close>

definition item_of :: "callback \<Rightarrow> cpp_item" where
  "item_of c = \<lparr>cpp_func = Some (fst c), cpp_obj = snd c\<rparr>"

lemma destroy_moved [simp]: "destroy_items call (map (snd \<circ> item_move \<circ> g) cs) w = Some w"
  by (induction cs) (simp_all add: item_move_def item_destroy_def)

lemma moved_items [simp]: "fst \<circ> item_move \<circ> item_of = item_of"
  by (simp add: fun_eq_iff item_move_def item_of_def)

lemma destroy_items_calls:
  assumes "quiet_call call"
  shows "\<exists>w'. destroy_items call (map item_of cs) w = Some w' \<and> vec w' = vec w \<and> ended w' = ended w \<and> cpp_calls w' = cpp_calls w @ cs"
proof (induction cs arbitrary: w)
  case (Cons c cs)
  let ?w = "w\<lparr>cpp_calls := cpp_calls w @ [c]\<rparr>"
  obtain w1 where "call c ?w = Some w1" "vec w1 = vec ?w" "ended w1 = ended ?w" "cpp_calls w1 = cpp_calls ?w" using assms unfolding quiet_call_def by blast
  then have w1: "call c ?w = Some w1" "vec w1 = vec w" "ended w1 = ended w" "cpp_calls w1 = cpp_calls w @ [c]" by simp_all
  then show ?case using Cons[of w1] by (auto simp: item_destroy_def item_of_def)
qed simp

text \<open>Every thread's vector holds the callbacks that were registered successfully, in order.\<close>

definition cpp_rel :: "'z cpp_world_scheme \<Rightarrow> (thread \<Rightarrow> callback list) \<Rightarrow> bool" where
  "cpp_rel w L \<longleftrightarrow> (\<forall>t. vec w t = map item_of (L t))"

lemma cpp_register_ok:
  assumes "cpp_rel w L" "\<not> ended w me"
  shows "\<exists>r w'. cpp_thread_atexit grow call me c w = Some (r, w') \<and> ended w' = ended w \<and> cpp_calls w' = cpp_calls w
    \<and> (r = 0 \<and> cpp_rel w' (L(me := L me @ [c])) \<or> r = -1 \<and> cpp_errno w' me = ENOMEM \<and> cpp_rel w' L)"
proof -
  have vec: "vec w me = map item_of (L me)" using assms(1) by (simp add: cpp_rel_def)
  consider "length (vec w me) < cap w me" | "\<not> length (vec w me) < cap w me" "cpp_plan w = [] \<or> hd (cpp_plan w)" | "\<not> length (vec w me) < cap w me" "\<not> (cpp_plan w = [] \<or> hd (cpp_plan w))"
    by blast
  then show ?thesis
    by cases (use assms in \<open>simp_all add: cpp_thread_atexit_def emplace_back_def Let_def vec cpp_rel_def flip: item_of_def\<close>)
qed

lemma cpp_register_all_ok:
  assumes "cpp_rel w L" "\<forall>t. \<not> ended w t"
  shows "\<exists>rs w'. register_all (\<lambda>(t, c). cpp_thread_atexit grow call t c) regs w = Some (rs, w') \<and> length rs = length regs \<and> set rs \<subseteq> {0, -1}
    \<and> ended w' = ended w \<and> cpp_calls w' = cpp_calls w \<and> cpp_rel w' (\<lambda>t. L t @ succeeded t regs rs)"
  using assms
proof (induction regs arbitrary: w L)
  case Nil
  then show ?case by (intro exI[of _ "[]"] exI[of _ w]) (simp add: succeeded_def)
next
  case (Cons tc regs)
  obtain t c where tc: "tc = (t, c)" by (cases tc)
  obtain r w1 where r: "cpp_thread_atexit grow call t c w = Some (r, w1)" "ended w1 = ended w" "cpp_calls w1 = cpp_calls w"
    "r = 0 \<and> cpp_rel w1 (L(t := L t @ [c])) \<or> r = -1 \<and> cpp_errno w1 t = ENOMEM \<and> cpp_rel w1 L"
    using cpp_register_ok[OF Cons.prems(1), of t grow call c, OF Cons.prems(2)[rule_format]] by (elim exE conjE) (rule that)
  define L1 where "L1 = (if r = 0 then L(t := L t @ [c]) else L)"
  have L1: "cpp_rel w1 L1" "\<forall>t. \<not> ended w1 t" using r Cons.prems(2) by (auto simp: L1_def)
  obtain rs w' where R: "register_all (\<lambda>(t, c). cpp_thread_atexit grow call t c) regs w1 = Some (rs, w')" "length rs = length regs" "set rs \<subseteq> {0, -1}"
    "ended w' = ended w1" "cpp_calls w' = cpp_calls w1" "cpp_rel w' (\<lambda>t. L1 t @ succeeded t regs rs)"
    using Cons.IH[OF L1] by (elim exE conjE) (rule that)
  have "L1 u @ succeeded u regs rs = L u @ succeeded u (tc # regs) (r # rs)" for u by (simp add: L1_def succeeded_def tc)
  then have "cpp_rel w' (\<lambda>u. L u @ succeeded u (tc # regs) (r # rs))" using R(6) by simp
  moreover have "r \<in> {0, -1}" using r(4) by auto
  ultimately show ?case using r R by (intro exI[of _ "r # rs"] exI[of _ w']) (simp add: tc)
qed

definition cpp_init :: "bool list \<Rightarrow> cpp_world" where
  "cpp_init pl = \<lparr>vec = (\<lambda>_. []), cap = (\<lambda>_. 0), ended = (\<lambda>_. False), cpp_plan = pl, cpp_errno = (\<lambda>_. 0), cpp_calls = []\<rparr>"

lemma order_items:
  assumes "mset (order (map item_of cs)) = mset (map item_of cs)"
  obtains ds where "order (map item_of cs) = map item_of ds" "mset ds = mset cs"
proof -
  let ?xs = "order (map item_of cs)"
  define call_of where "call_of i = (the (cpp_func i), cpp_obj i)" for i :: cpp_item
  have b: "call_of (item_of c) = c" for c by (simp add: call_of_def item_of_def)
  have "set ?xs = item_of ` set cs" using mset_eq_setD[OF assms] by simp
  then have "map (item_of \<circ> call_of) ?xs = ?xs" by (intro map_idI) (auto simp: b)
  moreover have "mset (map call_of ?xs) = mset cs"
  proof -
    have "mset (map call_of ?xs) = image_mset call_of (mset (map item_of cs))" by (simp only: mset_map assms)
    also have "\<dots> = mset cs" by (simp add: b multiset.map_comp comp_def)
    finally show ?thesis .
  qed
  ultimately show ?thesis using that[of "map call_of ?xs"] by simp
qed

text \<open>
  C27 (thread exit, C++ form). Registrations by any threads, with any failing allocations, run no
  callback, also when a vector grows and moves its items, and answer 0 or -1. When a thread
  ends, every callback that it registered successfully runs exactly once, whatever the order in
  which a vector destroys its elements, and no other one runs.
\<close>

theorem cpp_exit_runs_callbacks:
  assumes quiet: "quiet_call call" and order: "\<And>xs. mset (order xs) = mset xs"
  shows "\<exists>rs w1 w2. register_all (\<lambda>(t, c). cpp_thread_atexit grow call t c) regs (cpp_init pl) = Some (rs, w1) \<and> set rs \<subseteq> {0, -1} \<and> cpp_calls w1 = []
    \<and> cpp_thread_exit order call me w1 = Some w2 \<and> mset (cpp_calls w2) = mset (succeeded me regs rs) \<and> vec w2 me = [] \<and> (\<forall>t. t \<noteq> me \<longrightarrow> vec w2 t = vec w1 t)"
proof -
  have "cpp_rel (cpp_init pl) (\<lambda>_. [])" "\<forall>t. \<not> ended (cpp_init pl) t" by (simp_all add: cpp_rel_def cpp_init_def)
  from cpp_register_all_ok[OF this, of grow call regs]
  obtain rs w1 where R: "register_all (\<lambda>(t, c). cpp_thread_atexit grow call t c) regs (cpp_init pl) = Some (rs, w1)" "set rs \<subseteq> {0, -1}"
    "ended w1 = ended (cpp_init pl)" "cpp_calls w1 = cpp_calls (cpp_init pl)" "cpp_rel w1 (\<lambda>t. [] @ succeeded t regs rs)"
    by (elim exE conjE) (rule that)
  have me: "vec w1 me = map item_of (succeeded me regs rs)" using R(5) by (simp add: cpp_rel_def)
  obtain ds where ds: "order (vec w1 me) = map item_of ds" "mset ds = mset (succeeded me regs rs)" unfolding me by (rule order_items[of order "succeeded me regs rs", OF order])
  let ?w = "w1\<lparr>ended := (ended w1)(me := True), vec := (vec w1)(me := [])\<rparr>"
  obtain w2 where "destroy_items call (map item_of ds) ?w = Some w2" "vec w2 = vec ?w" "ended w2 = ended ?w" "cpp_calls w2 = cpp_calls ?w @ ds"
    using destroy_items_calls[OF quiet, of ds ?w] by (elim exE conjE) (rule that)
  then show ?thesis using R ds by (intro exI[of _ rs] exI[of _ w1] exI[of _ w2]) (simp add: cpp_thread_exit_def cpp_init_def)
qed

theorem cpp_exit_runs_callbacks_witness:
  "\<exists>rs w1 w2. register_all (\<lambda>(t, c). cpp_thread_atexit (\<lambda>n. 2 * n + 1) (\<lambda>c w. Some w) t c) [(1, 5, None), (2, 6, None), (1, 7, Some 3), (1, 8, None)] (cpp_init []) = Some (rs, w1)
    \<and> cpp_thread_exit rev (\<lambda>c w. Some w) 1 w1 = Some w2 \<and> mset (cpp_calls w2) = mset (succeeded 1 [(1, 5, None), (2, 6, None), (1, 7, Some 3), (1, 8, None)] rs)"
proof -
  have "quiet_call (\<lambda>c (w :: cpp_world). Some w)" "\<And>xs :: cpp_item list. mset (rev xs) = mset xs" by (simp_all add: quiet_call_def)
  from cpp_exit_runs_callbacks[OF this, of "\<lambda>n. 2 * n + 1" "[(1, 5, None), (2, 6, None), (1, 7, Some 3), (1, 8, None)]" "[]" 1] show ?thesis by blast
qed

end
